(* ===== verification/Prelude.thy ===== *)
theory Prelude
  imports Main "HOL-Library.Word"
begin

text \<open>
  Shared vocabulary of the development: the machine integer types of the Rust sources,
  byte strings, fallible computations, the pieces of the Rust standard library that the
  modelled code uses (slice binary search, vector removal and retention, checked and
  saturating arithmetic) and the little-endian codec of \<^verbatim>\<open>ultrasql-core/src/endian.rs\<close>,
  with the generic lemmas the component theories rest on.
\<close>

unbundle bit_operations_syntax

type_synonym u8 = "8 word"
type_synonym u16 = "16 word"
type_synonym u32 = "32 word"
type_synonym u64 = "64 word"
type_synonym bytes = "8 word list"

named_theorems codec_simps \<open>length and slice facts of encoders\<close>
named_theorems inv_intros \<open>preservation of component invariants\<close>

section \<open>Fallible computations\<close>

text \<open>Rust's \<^verbatim>\<open>Result<T, E>\<close> is \<open>'e + 'a\<close>, the \<^verbatim>\<open>?\<close> operator is \<open>rbind\<close>.\<close>

fun rbind :: "('e + 'a) \<Rightarrow> ('a \<Rightarrow> 'e + 'b) \<Rightarrow> 'e + 'b" where
  "rbind (Inl e) f = Inl e"
| "rbind (Inr x) f = f x"

definition ok_or :: "'a option \<Rightarrow> 'e \<Rightarrow> 'e + 'a" where
  "ok_or x e = (case x of None \<Rightarrow> Inl e | Some v \<Rightarrow> Inr v)"

lemma rbind_eq_Inr [simp]: "rbind r f = Inr y \<longleftrightarrow> (\<exists>x. r = Inr x \<and> f x = Inr y)"
  by (cases r) auto

lemma ok_or_eq_Inr [simp]: "ok_or x e = Inr v \<longleftrightarrow> x = Some v"
  by (auto simp: ok_or_def split: option.splits)

lemma ok_or_simps [simp]: "ok_or None e = Inl e" "ok_or (Some v) e = Inr v"
  by (simp_all add: ok_or_def)

section \<open>Integers\<close>

definition checked_add :: "'a::len word \<Rightarrow> 'a word \<Rightarrow> 'a word option" where
  "checked_add a b = (if unat a + unat b < 2 ^ LENGTH('a) then Some (a + b) else None)"

definition saturating_add :: "'a::len word \<Rightarrow> 'a word \<Rightarrow> 'a word" where
  "saturating_add a b = (if unat a + unat b < 2 ^ LENGTH('a) then a + b else - 1)"

lemma unat_less_pow: "unat (w :: 'a::len word) < 2 ^ LENGTH('a)"
  by (rule unsigned_less)

lemma unat_of_nat_small: "n < 2 ^ LENGTH('a) \<Longrightarrow> unat (of_nat n :: 'a::len word) = n"
  by (simp add: unat_of_nat take_bit_nat_eq_self)

lemma unat_plus_one_less: "(x :: 'a::len word) \<noteq> - 1 \<Longrightarrow> unat (x + 1) = Suc (unat x)"
  by (metis add.commute add_eq_0_iff unatSuc)

lemma unat_max_word: "unat (- 1 :: 'a::len word) = 2 ^ LENGTH('a) - 1"
  by (simp add: unsigned_minus_1_eq_mask mask_eq_exp_minus_1)

lemma unat_not_max: "(x :: 'a::len word) \<noteq> - 1 \<longleftrightarrow> unat x + 1 < 2 ^ LENGTH('a)"
proof
  assume "x \<noteq> - 1"
  from unat_plus_one_less [OF this] unat_less_pow [of "x + 1"] show "unat x + 1 < 2 ^ LENGTH('a)"
    by simp
next
  assume "unat x + 1 < 2 ^ LENGTH('a)"
  then show "x \<noteq> - 1" by (auto simp: unat_max_word)
qed

lemma less_plus_one: "(x :: 'a::len word) \<noteq> - 1 \<Longrightarrow> x < x + 1"
  by (simp add: word_less_nat_alt unat_plus_one_less)

lemma less_plus_one_iff: "(x :: 'a::len word) \<noteq> - 1 \<Longrightarrow> y < x + 1 \<longleftrightarrow> y \<le> x"
  by (simp add: word_less_nat_alt word_le_nat_alt unat_plus_one_less less_Suc_eq_le)

lemma less_imp_less_plus_one: "y < x \<Longrightarrow> (x :: 'a::len word) \<noteq> - 1 \<Longrightarrow> y < x + 1"
  by (simp add: less_plus_one_iff)

section \<open>Slices and vectors\<close>

text \<open>
  \<^verbatim>\<open>slice::binary_search(&x).is_ok()\<close>: the search keeps a window \<open>[lo, hi)\<close> and probes
  its midpoint.
\<close>

function bsearch_loop :: "'a::linorder list \<Rightarrow> 'a \<Rightarrow> nat \<Rightarrow> nat \<Rightarrow> nat option" where
  "bsearch_loop xs x lo hi =
     (if lo < hi then
        (let mid = (lo + hi) div 2 in
         if xs ! mid = x then Some mid
         else if xs ! mid < x then bsearch_loop xs x (Suc mid) hi
         else bsearch_loop xs x lo mid)
      else None)"
  by pat_completeness auto
termination
  by (relation "measure (\<lambda>(xs, x, lo, hi). hi - lo)") auto

declare bsearch_loop.simps [simp del]

definition binary_search :: "'a::linorder list \<Rightarrow> 'a \<Rightarrow> nat option" where
  "binary_search xs x = bsearch_loop xs x 0 (length xs)"

lemma bsearch_loop_Some:
  "bsearch_loop xs x lo hi = Some i \<Longrightarrow> lo \<le> i \<and> i < hi \<and> xs ! i = x"
proof (induction xs x lo hi rule: bsearch_loop.induct)
  case (1 xs x lo hi)
  let ?mid = "(lo + hi) div 2"
  from 1(3) have True: "lo < hi"
    by (simp add: bsearch_loop.simps [of xs x lo hi] split: if_splits)
  then have mid: "lo \<le> ?mid" "?mid < hi" by auto
  consider "xs ! ?mid = x" "i = ?mid"
    | "xs ! ?mid < x" "xs ! ?mid \<noteq> x" "bsearch_loop xs x (Suc ?mid) hi = Some i"
    | "\<not> xs ! ?mid < x" "xs ! ?mid \<noteq> x" "bsearch_loop xs x lo ?mid = Some i"
    using 1(3) True by (auto simp: bsearch_loop.simps [of xs x lo hi] Let_def split: if_splits)
  then show ?case
  proof cases
    case 1
    with mid show ?thesis by simp
  next
    case 2
    from "1.IH"(1) [OF True refl this(2,1,3)] mid show ?thesis by simp
  next
    case 3
    from "1.IH"(2) [OF True refl this(2,1,3)] mid show ?thesis by simp
  qed
qed

lemma bsearch_loop_None:
  assumes "sorted xs"
  shows "bsearch_loop xs x lo hi = None \<Longrightarrow> hi \<le> length xs \<Longrightarrow>
    \<forall>i. lo \<le> i \<and> i < hi \<longrightarrow> xs ! i \<noteq> x"
  using assms
proof (induction xs x lo hi rule: bsearch_loop.induct)
  case (1 xs x lo hi)
  let ?mid = "(lo + hi) div 2"
  show ?case
  proof (cases "lo < hi")
    case True
    then have mid: "lo \<le> ?mid" "?mid < hi" by auto
    have mono: "\<And>i j. i \<le> j \<Longrightarrow> j < hi \<Longrightarrow> xs ! i \<le> xs ! j"
      using 1(4,5) by (meson order.strict_trans2 sorted_nth_mono)
    consider "xs ! ?mid < x" "bsearch_loop xs x (Suc ?mid) hi = None"
      | "x < xs ! ?mid" "bsearch_loop xs x lo ?mid = None"
      using True 1(3) by (auto simp: bsearch_loop.simps [of xs x lo hi] Let_def split: if_splits)
    then show ?thesis
    proof cases
      case 1
      then have "\<forall>i. Suc ?mid \<le> i \<and> i < hi \<longrightarrow> xs ! i \<noteq> x"
        using "1.IH"(1) [OF True refl] "1.prems" True by auto
      moreover have "\<forall>i. i \<le> ?mid \<longrightarrow> xs ! i \<noteq> x"
        using mono mid 1(1) by (metis leD)
      ultimately show ?thesis by (metis not_less_eq_eq)
    next
      case 2
      then have "\<forall>i. lo \<le> i \<and> i < ?mid \<longrightarrow> xs ! i \<noteq> x"
        using "1.IH"(2) [OF True refl] "1.prems" True mid by auto
      moreover have "\<forall>i. ?mid \<le> i \<and> i < hi \<longrightarrow> xs ! i \<noteq> x"
        using mono mid 2(1) by (metis leD)
      ultimately show ?thesis by (metis leI)
    qed
  qed auto
qed

lemma binary_search_iff:
  assumes "sorted xs"
  shows "binary_search xs x \<noteq> None \<longleftrightarrow> x \<in> set xs"
proof
  assume "binary_search xs x \<noteq> None"
  then show "x \<in> set xs"
    unfolding binary_search_def using bsearch_loop_Some [of xs x 0 "length xs"]
    by (metis nth_mem option.exhaust)
next
  assume "x \<in> set xs"
  then show "binary_search xs x \<noteq> None"
    unfolding binary_search_def using bsearch_loop_None [OF assms, of x 0 "length xs"]
    by (metis in_set_conv_nth le0 order_refl)
qed

section \<open>Little-endian byte strings\<close>

text \<open>
  \<^verbatim>\<open>to_le_bytes\<close> and \<^verbatim>\<open>from_le_bytes\<close> of the Rust integers, on natural numbers:
  \<open>le_bytes n v\<close> is the \<open>n\<close>-byte little-endian image of \<open>v\<close>.
\<close>

primrec le_bytes :: "nat \<Rightarrow> nat \<Rightarrow> bytes" where
  "le_bytes 0 v = []"
| "le_bytes (Suc n) v = of_nat (v mod 256) # le_bytes n (v div 256)"

primrec le_nat :: "bytes \<Rightarrow> nat" where
  "le_nat [] = 0"
| "le_nat (b # bs) = unat b + 256 * le_nat bs"

lemma length_le_bytes [simp, codec_simps]: "length (le_bytes n v) = n"
  by (induction n arbitrary: v) auto

lemma unat_of_nat_byte [simp]: "unat (of_nat (v mod 256) :: u8) = v mod 256"
  by (simp add: unat_of_nat take_bit_eq_mod)

lemma le_nat_le_bytes: "le_nat (le_bytes n v) = v mod 256 ^ n"
proof (induction n arbitrary: v)
  case (Suc n)
  then show ?case
    by (simp add: mod_mult2_eq [of v 256 "256 ^ n"] power_Suc)
qed simp

lemma le_nat_less: "le_nat bs < 256 ^ length bs"
proof (induction bs)
  case (Cons b bs)
  have "unat b < 256" using unat_less_pow [of b] by simp
  moreover have "256 * le_nat bs + 256 \<le> 256 * 256 ^ length bs"
    using Cons by simp
  ultimately show ?case by simp
qed simp

lemma le_bytes_le_nat: "le_bytes (length bs) (le_nat bs) = bs"
proof (induction bs)
  case (Cons b bs)
  have b: "unat b < 256" using unat_less_pow [of b] by simp
  then have "(unat b + 256 * le_nat bs) mod 256 = unat b"
    and "(unat b + 256 * le_nat bs) div 256 = le_nat bs"
    by simp_all
  with Cons show ?case by simp
qed simp

lemma le_nat_inject: "length xs = length ys \<Longrightarrow> le_nat xs = le_nat ys \<longleftrightarrow> xs = ys"
  by (metis le_bytes_le_nat)

text \<open>Words of a whole number of bytes.\<close>

definition word_to_le :: "'a::len word \<Rightarrow> bytes" where
  "word_to_le w = le_bytes (LENGTH('a) div 8) (unat w)"

definition word_from_le :: "bytes \<Rightarrow> 'a::len word" where
  "word_from_le bs = of_nat (le_nat bs)"

lemma length_word_to_le [simp, codec_simps]:
  "length (word_to_le (w :: 'a::len word)) = LENGTH('a) div 8"
  by (simp add: word_to_le_def)

lemma word_from_to_le:
  assumes "LENGTH('a::len) = 8 * n"
  shows "word_from_le (word_to_le (w :: 'a word)) = w"
proof -
  have "unat w < 256 ^ n"
    using unat_less_pow [of w] assms by (simp add: power_mult)
  then show ?thesis
    by (simp add: word_from_le_def word_to_le_def le_nat_le_bytes assms)
qed

lemma word_to_from_le:
  assumes "LENGTH('a::len) = 8 * n" and "length bs = n"
  shows "word_to_le (word_from_le bs :: 'a word) = bs"
proof -
  have "le_nat bs < 2 ^ LENGTH('a)"
    using le_nat_less [of bs] assms by (simp add: power_mult)
  then show ?thesis
    using assms le_bytes_le_nat [of bs]
    by (simp add: word_from_le_def word_to_le_def of_nat_inverse)
qed

lemmas word_from_to_le_sized [simp] =
  word_from_to_le [where 'a = 8 and n = 1, simplified]
  word_from_to_le [where 'a = 16 and n = 2, simplified]
  word_from_to_le [where 'a = 32 and n = 4, simplified]
  word_from_to_le [where 'a = 64 and n = 8, simplified]

section \<open>Sub-slices of byte buffers\<close>

text \<open>
  \<open>slice a b xs\<close> is Rust's \<^verbatim>\<open>&xs[a..b]\<close> (callers stay in range), \<open>splice a new xs\<close> is
  \<^verbatim>\<open>xs[a..a + new.len()].copy_from_slice(new)\<close>.
\<close>

definition slice :: "nat \<Rightarrow> nat \<Rightarrow> 'a list \<Rightarrow> 'a list" where
  "slice a b xs = take (b - a) (drop a xs)"

definition splice_at :: "nat \<Rightarrow> 'a list \<Rightarrow> 'a list \<Rightarrow> 'a list" where
  "splice_at a new xs = take a xs @ new @ drop (a + length new) xs"

lemma length_slice [simp, codec_simps]: "length (slice a b xs) = min (length xs - a) (b - a)"
  by (auto simp: slice_def)

lemma length_splice_at [simp, codec_simps]:
  "a + length new \<le> length xs \<Longrightarrow> length (splice_at a new xs) = length xs"
  by (simp add: splice_at_def)

lemma nth_splice_at:
  assumes "a + length new \<le> length xs" and "i < length xs"
  shows "splice_at a new xs ! i =
    (if a \<le> i \<and> i < a + length new then new ! (i - a) else xs ! i)"
  using assms by (auto simp: splice_at_def nth_append)

lemma nth_slice: "i < b - a \<Longrightarrow> a + i < length xs \<Longrightarrow> slice a b xs ! i = xs ! (a + i)"
  by (simp add: slice_def)

lemma slice_splice_at_same:
  "a + length new \<le> length xs \<Longrightarrow> b = a + length new \<Longrightarrow> slice a b (splice_at a new xs) = new"
  by (simp add: slice_def splice_at_def)

lemma slice_splice_at_disjoint:
  assumes "a + length new \<le> length xs" and "c \<le> a \<or> a + length new \<le> b" and "c \<le> length xs"
  shows "slice b c (splice_at a new xs) = slice b c xs"
proof (rule nth_equalityI)
  show "length (slice b c (splice_at a new xs)) = length (slice b c xs)"
    using assms by simp
next
  fix i
  assume "i < length (slice b c (splice_at a new xs))"
  then have i: "i < c - b" "b + i < length xs" using assms by auto
  then show "slice b c (splice_at a new xs) ! i = slice b c xs ! i"
    using assms by (auto simp: nth_slice nth_splice_at)
qed

lemma slice_append_left [simp]: "b \<le> length xs \<Longrightarrow> slice a b (xs @ ys) = slice a b xs"
  by (cases "a \<le> b") (auto simp: slice_def)

lemma slice_append_right: "length xs \<le> a \<Longrightarrow> slice a b (xs @ ys) = slice (a - length xs) (b - length xs) ys"
  by (simp add: slice_def)

lemma slice_full [simp]: "b = length xs \<Longrightarrow> slice 0 b xs = xs"
  by (simp add: slice_def)

lemma splice_at_0 [codec_simps]: "splice_at 0 new xs = new @ drop (length new) xs"
  by (simp add: splice_at_def)

lemma splice_at_append [codec_simps]:
  "length xs \<le> a \<Longrightarrow> splice_at a new (xs @ ys) = xs @ splice_at (a - length xs) new ys"
  by (simp add: splice_at_def)

lemma slice_take: "b \<le> n \<Longrightarrow> slice a b (take n xs) = slice a b xs"
  by (cases "a \<le> b") (auto simp: slice_def drop_take)

lemma slice_drop: "slice a b (drop n xs) = slice (n + a) (n + b) xs"
  by (simp add: slice_def add.commute)

lemma list_update_append_right: "length xs \<le> i \<Longrightarrow> (xs @ ys)[i := v] = xs @ ys[i - length xs := v]"
  by (simp add: list_update_append)

lemma slice_join: "a \<le> b \<Longrightarrow> b \<le> c \<Longrightarrow> slice a b xs @ slice b c xs = slice a c xs"
  using take_add [of "b - a" "c - b" "drop a xs"] by (simp add: slice_def)

lemma splice_splice_same: "length x = length y \<Longrightarrow> a + length y \<le> length p \<Longrightarrow> splice_at a x (splice_at a y p) = splice_at a x p"
  by (cases y) (auto simp: splice_at_def min_def)

section \<open>Sorting and deduplication\<close>

lemma distinct_remdups_adj_sorted: "sorted xs \<Longrightarrow> distinct (remdups_adj xs)"
  by (induction xs rule: remdups_adj.induct) (auto simp: less_le)

text \<open>\<^verbatim>\<open>sort_unstable\<close> followed by \<^verbatim>\<open>dedup\<close> lists the elements in order.\<close>

lemma sort_dedup: "remdups_adj (sort xs) = sorted_list_of_set (set xs)"
  by (rule sorted_distinct_set_unique)
    (auto simp: distinct_remdups_adj_sorted intro: sorted_remdups_adj)

section \<open>Runs of operations\<close>

text \<open>A sequence of state changing operations that stops at the first panic.\<close>

primrec run_steps :: "('op \<Rightarrow> 'p \<Rightarrow> 'p option) \<Rightarrow> 'op list \<Rightarrow> 'p \<Rightarrow> 'p option" where
  "run_steps step [] p = Some p"
| "run_steps step (op # ops) p = Option.bind (step op p) (run_steps step ops)"

end
