(* ===== verification/Core_Ids.thy ===== *)
theory Core_Ids
  imports Prelude
begin

text \<open>
  Identifiers and integer access of the core crate: \<^verbatim>\<open>crates/ultrasql-core/src/id.rs\<close>
  (object, relation, transaction, command and log positions, pages and tuples),
  \<^verbatim>\<open>endian.rs\<close> (bounds-checked little-endian readers and writers) and the constants of
  \<^verbatim>\<open>constants.rs\<close>. The transparent newtypes are the machine words they wrap.
\<close>

section \<open>Constants\<close>

definition PAGE_SIZE :: nat where "PAGE_SIZE = 8192"
definition PAGE_SIZE_LOG2 :: nat where "PAGE_SIZE_LOG2 = 13"

section \<open>Identifiers\<close>

type_synonym oid = u32
type_synonym relation_id = u32
type_synonym xid = u64
type_synonym lsn = u64
type_synonym command_id = u32
type_synonym block_number = u32

definition Xid_INVALID :: xid where "Xid_INVALID = 0"
definition Xid_BOOTSTRAP :: xid where "Xid_BOOTSTRAP = 1"
definition Xid_FROZEN :: xid where "Xid_FROZEN = 2"
definition Xid_FIRST_USER :: xid where "Xid_FIRST_USER = 3"

definition xid_is_invalid :: "xid \<Rightarrow> bool" where
  "xid_is_invalid x \<longleftrightarrow> x = 0"

definition xid_is_normal :: "xid \<Rightarrow> bool" where
  "xid_is_normal x \<longleftrightarrow> Xid_FIRST_USER \<le> x"

definition xid_next :: "xid \<Rightarrow> xid" where
  "xid_next x = x + 1"

definition Lsn_ZERO :: lsn where "Lsn_ZERO = 0"

definition lsn_advance :: "lsn \<Rightarrow> u64 \<Rightarrow> lsn" where
  "lsn_advance l bytes = saturating_add l bytes"

definition lsn_checked_advance :: "lsn \<Rightarrow> u64 \<Rightarrow> lsn option" where
  "lsn_checked_advance l bytes = checked_add l bytes"

definition CommandId_FIRST :: command_id where "CommandId_FIRST = 0"

definition command_next :: "command_id \<Rightarrow> command_id" where
  "command_next c = saturating_add c 1"

definition u32_to_u64_const :: "u32 \<Rightarrow> u64" where
  "u32_to_u64_const v = word_from_le (word_to_le v @ [0, 0, 0, 0])"

definition block_byte_offset :: "block_number \<Rightarrow> u64" where
  "block_byte_offset b = push_bit PAGE_SIZE_LOG2 (u32_to_u64_const b)"

datatype page_id = PageId (pg_relation: relation_id) (pg_block: block_number)

datatype tuple_id = TupleId (tid_page: page_id) (tid_slot: u16)

text \<open>The derived orders compare the fields in declaration order.\<close>

instantiation page_id :: linorder
begin

definition less_eq_page_id :: "page_id \<Rightarrow> page_id \<Rightarrow> bool" where
  "less_eq_page_id p q \<longleftrightarrow> pg_relation p < pg_relation q
     \<or> (pg_relation p = pg_relation q \<and> pg_block p \<le> pg_block q)"

definition less_page_id :: "page_id \<Rightarrow> page_id \<Rightarrow> bool" where
  "less_page_id p q \<longleftrightarrow> p \<le> q \<and> \<not> q \<le> p"

instance
  by standard
    (auto simp: less_eq_page_id_def less_page_id_def page_id.expand intro: page_id.expand)

end

instantiation tuple_id :: linorder
begin

definition less_eq_tuple_id :: "tuple_id \<Rightarrow> tuple_id \<Rightarrow> bool" where
  "less_eq_tuple_id p q \<longleftrightarrow> tid_page p < tid_page q
     \<or> (tid_page p = tid_page q \<and> tid_slot p \<le> tid_slot q)"

definition less_tuple_id :: "tuple_id \<Rightarrow> tuple_id \<Rightarrow> bool" where
  "less_tuple_id p q \<longleftrightarrow> p \<le> q \<and> \<not> q \<le> p"

instance
  by standard
    (auto simp: less_eq_tuple_id_def less_tuple_id_def intro: tuple_id.expand)

end

section \<open>Little-endian access\<close>

text \<open>
  A reader returns an error on a short buffer; a writer panics on one, which is \<open>None\<close>
  here. Bytes beyond the integer are left alone.
\<close>

definition read_le :: "nat \<Rightarrow> bytes \<Rightarrow> 'a::len word option" where
  "read_le n buf = (if length buf < n then None else Some (word_from_le (take n buf)))"

definition read_u16_le :: "bytes \<Rightarrow> u16 option" where "read_u16_le = read_le 2"
definition read_u32_le :: "bytes \<Rightarrow> u32 option" where "read_u32_le = read_le 4"
definition read_u64_le :: "bytes \<Rightarrow> u64 option" where "read_u64_le = read_le 8"

definition write_le :: "bytes \<Rightarrow> 'a::len word \<Rightarrow> bytes option" where
  "write_le buf v =
     (if length buf < LENGTH('a) div 8 then None else Some (splice_at 0 (word_to_le v) buf))"

definition write_u16_le :: "bytes \<Rightarrow> u16 \<Rightarrow> bytes option" where "write_u16_le = write_le"
definition write_u32_le :: "bytes \<Rightarrow> u32 \<Rightarrow> bytes option" where "write_u32_le = write_le"
definition write_u64_le :: "bytes \<Rightarrow> u64 \<Rightarrow> bytes option" where "write_u64_le = write_le"

lemmas read_defs = read_u16_le_def read_u32_le_def read_u64_le_def read_le_def
lemmas write_defs = write_u16_le_def write_u32_le_def write_u64_le_def write_le_def

lemma read_le_exact [simp]:
  "read_u16_le (word_to_le (w16 :: u16) @ rest) = Some w16"
  "read_u32_le (word_to_le (w32 :: u32) @ rest) = Some w32"
  "read_u64_le (word_to_le (w64 :: u64) @ rest) = Some w64"
  by (simp_all add: read_defs)

lemma read_le_exact0 [simp]:
  "read_u16_le (word_to_le (w16 :: u16)) = Some w16"
  "read_u32_le (word_to_le (w32 :: u32)) = Some w32"
  "read_u64_le (word_to_le (w64 :: u64)) = Some w64"
  using read_le_exact [where rest = "[]"] by simp_all

lemma write_then_read:
  "write_u16_le b1 w16 = Some b1' \<Longrightarrow> read_u16_le b1' = Some w16"
  "write_u32_le b2 w32 = Some b2' \<Longrightarrow> read_u32_le b2' = Some w32"
  "write_u64_le b3 w64 = Some b3' \<Longrightarrow> read_u64_le b3' = Some w64"
  by (auto simp: write_defs splice_at_def split: if_splits)

lemma read_le_None_iff:
  "read_u16_le b = None \<longleftrightarrow> length b < 2"
  "read_u32_le b = None \<longleftrightarrow> length b < 4"
  "read_u64_le b = None \<longleftrightarrow> length b < 8"
  by (auto simp: read_defs)

lemma read_le_slice:
  "n \<le> length b \<Longrightarrow> read_u16_le (slice m n b) = Some w16 \<Longrightarrow> n = m + 2 \<Longrightarrow> word_to_le w16 = slice m n b"
  "n \<le> length b \<Longrightarrow> read_u32_le (slice m n b) = Some w32 \<Longrightarrow> n = m + 4 \<Longrightarrow> word_to_le w32 = slice m n b"
  "n \<le> length b \<Longrightarrow> read_u64_le (slice m n b) = Some w64 \<Longrightarrow> n = m + 8 \<Longrightarrow> word_to_le w64 = slice m n b"
  by (auto simp: read_defs word_to_from_le split: if_splits)

section \<open>Facts about the identifiers\<close>

lemma xid_consts [simp]:
  "Xid_INVALID = 0" "Xid_BOOTSTRAP = 1" "Xid_FROZEN = 2" "Xid_FIRST_USER = 3"
  by (simp_all add: Xid_INVALID_def Xid_BOOTSTRAP_def Xid_FROZEN_def Xid_FIRST_USER_def)

lemma le_nat_append: "le_nat (xs @ ys) = le_nat xs + 256 ^ length xs * le_nat ys"
  by (induction xs) (auto simp: algebra_simps)

lemma u32_to_u64_const_eq: "u32_to_u64_const v = ucast v"
proof -
  have "unat v < 2 ^ 32" using unat_less_pow [of v] by simp
  then have "u32_to_u64_const v = of_nat (unat v)"
    by (simp add: u32_to_u64_const_def word_from_le_def word_to_le_def le_nat_append le_nat_le_bytes)
  then show ?thesis by (simp add: unsigned_of_nat)
qed

lemma unat_block_byte_offset: "unat (block_byte_offset b) = unat b * PAGE_SIZE"
proof -
  have "unat b < 2 ^ 32" using unat_less_pow [of b] by simp
  then show ?thesis
    by (simp add: block_byte_offset_def u32_to_u64_const_eq PAGE_SIZE_LOG2_def PAGE_SIZE_def
        push_bit_eq_mult unat_word_ariths unsigned_ucast_eq take_bit_eq_mod)
qed

lemma lsn_checked_advance_Some:
  "lsn_checked_advance l n = Some l' \<Longrightarrow> unat l' = unat l + unat n"
  by (auto simp: lsn_checked_advance_def checked_add_def unat_word_ariths split: if_splits)

lemma command_next_le: "c \<le> command_next c"
  using less_plus_one [of c] unat_not_max [of c]
  by (auto simp: command_next_def saturating_add_def less_imp_le)

lemma command_next_less: "c \<noteq> - 1 \<Longrightarrow> c < command_next c"
  using less_plus_one [of c] unat_not_max [of c]
  by (auto simp: command_next_def saturating_add_def)

end
