(* ===== verification/Mvcc_Snapshot.thy ===== *)
theory Mvcc_Snapshot
  imports Core_Ids
begin

text \<open>
  Transaction snapshots, \<^verbatim>\<open>crates/ultrasql-mvcc/src/snapshot.rs\<close>. The record keeps the
  sorted vectors of the source and its range bound; lookups run the binary search of the
  source. \<open>snapshot_wf\<close> is the representation invariant the private fields protect, and
  the lemmas give every lookup its meaning as set membership.
\<close>

record snapshot =
  sn_xmin :: xid
  sn_xmax :: xid
  sn_current_xid :: xid
  sn_current_command :: command_id
  sn_xip :: "xid list"
  sn_own_live_subxids :: "xid list"
  sn_own_rolled_back_subxids :: "xid list"
  sn_own_subxid_lo :: xid

definition snapshot_new :: "xid \<Rightarrow> xid \<Rightarrow> xid \<Rightarrow> command_id \<Rightarrow> xid list \<Rightarrow> snapshot" where
  "snapshot_new xmin xmax current_xid current_command xip =
     \<lparr>sn_xmin = xmin, sn_xmax = xmax, sn_current_xid = current_xid,
      sn_current_command = current_command, sn_xip = sort xip,
      sn_own_live_subxids = [], sn_own_rolled_back_subxids = [], sn_own_subxid_lo = - 1\<rparr>"

definition subxid_lo :: "xid list \<Rightarrow> xid list \<Rightarrow> xid" where
  "subxid_lo live rolled_back =
     (case (live, rolled_back) of
        (a # _, b # _) \<Rightarrow> min a b
      | (a # _, []) \<Rightarrow> a
      | ([], b # _) \<Rightarrow> b
      | ([], []) \<Rightarrow> - 1)"

definition set_own_subxids :: "xid list \<Rightarrow> xid list \<Rightarrow> snapshot \<Rightarrow> snapshot" where
  "set_own_subxids live rolled_back s =
     s\<lparr>sn_own_live_subxids := sort live,
       sn_own_rolled_back_subxids := sort rolled_back,
       sn_own_subxid_lo := subxid_lo (sort live) (sort rolled_back)\<rparr>"

definition xid_in_progress :: "snapshot \<Rightarrow> xid \<Rightarrow> bool" where
  "xid_in_progress s x =
     (if x < sn_xmin s then False
      else if sn_xmax s \<le> x then True
      else binary_search (sn_xip s) x \<noteq> None)"

definition is_current_xid :: "snapshot \<Rightarrow> xid \<Rightarrow> bool" where
  "is_current_xid s x \<longleftrightarrow>
     x = sn_current_xid s
     \<or> (sn_own_live_subxids s \<noteq> [] \<and> sn_own_subxid_lo s \<le> x
        \<and> binary_search (sn_own_live_subxids s) x \<noteq> None)"

definition own_subxid_rolled_back :: "snapshot \<Rightarrow> xid \<Rightarrow> bool" where
  "own_subxid_rolled_back s x \<longleftrightarrow>
     sn_own_rolled_back_subxids s \<noteq> [] \<and> sn_own_subxid_lo s \<le> x
     \<and> binary_search (sn_own_rolled_back_subxids s) x \<noteq> None"

section \<open>The representation invariant\<close>

definition snapshot_wf :: "snapshot \<Rightarrow> bool" where
  "snapshot_wf s \<longleftrightarrow>
     sorted (sn_xip s) \<and> sorted (sn_own_live_subxids s) \<and> sorted (sn_own_rolled_back_subxids s)
     \<and> (\<forall>x \<in> set (sn_own_live_subxids s) \<union> set (sn_own_rolled_back_subxids s).
          sn_own_subxid_lo s \<le> x)"

lemma subxid_lo_le:
  assumes "sorted live" and "sorted rb" and "x \<in> set live \<union> set rb"
  shows "subxid_lo live rb \<le> x"
proof -
  have "live \<noteq> [] \<Longrightarrow> \<forall>y \<in> set live. hd live \<le> y" "rb \<noteq> [] \<Longrightarrow> \<forall>y \<in> set rb. hd rb \<le> y"
    using assms(1,2) by (auto simp: neq_Nil_conv)
  with assms(3) show ?thesis
    by (cases live; cases rb) (auto simp: subxid_lo_def min_le_iff_disj)
qed

lemma snapshot_wf_new [inv_intros]: "snapshot_wf (snapshot_new xmin xmax cur cmd xip)"
  by (simp add: snapshot_wf_def snapshot_new_def)

lemma snapshot_wf_set_own [inv_intros]:
  "snapshot_wf s \<Longrightarrow> snapshot_wf (set_own_subxids live rb s)"
  using subxid_lo_le [of "sort live" "sort rb"] by (auto simp: snapshot_wf_def set_own_subxids_def)

section \<open>Lookups as set membership\<close>

lemma xid_in_progress_iff:
  "snapshot_wf s \<Longrightarrow>
     xid_in_progress s x \<longleftrightarrow> sn_xmin s \<le> x \<and> (sn_xmax s \<le> x \<or> x \<in> set (sn_xip s))"
  using binary_search_iff [of "sn_xip s" x]
  by (auto simp: xid_in_progress_def snapshot_wf_def)

lemma is_current_xid_iff:
  "snapshot_wf s \<Longrightarrow>
     is_current_xid s x \<longleftrightarrow> x = sn_current_xid s \<or> x \<in> set (sn_own_live_subxids s)"
  using binary_search_iff [of "sn_own_live_subxids s" x]
  by (auto simp: is_current_xid_def snapshot_wf_def)

lemma own_subxid_rolled_back_iff:
  "snapshot_wf s \<Longrightarrow> own_subxid_rolled_back s x \<longleftrightarrow> x \<in> set (sn_own_rolled_back_subxids s)"
  using binary_search_iff [of "sn_own_rolled_back_subxids s" x]
  by (auto simp: own_subxid_rolled_back_def snapshot_wf_def)

lemmas snapshot_lookup_iffs =
  xid_in_progress_iff is_current_xid_iff own_subxid_rolled_back_iff

lemma set_own_subxids_fields [simp]:
  "sn_xmin (set_own_subxids l r s) = sn_xmin s"
  "sn_xmax (set_own_subxids l r s) = sn_xmax s"
  "sn_current_xid (set_own_subxids l r s) = sn_current_xid s"
  "sn_current_command (set_own_subxids l r s) = sn_current_command s"
  "sn_xip (set_own_subxids l r s) = sn_xip s"
  "set (sn_own_live_subxids (set_own_subxids l r s)) = set l"
  "set (sn_own_rolled_back_subxids (set_own_subxids l r s)) = set r"
  by (simp_all add: set_own_subxids_def)

lemma snapshot_new_fields [simp]:
  "sn_xmin (snapshot_new a b c d e) = a"
  "sn_xmax (snapshot_new a b c d e) = b"
  "sn_current_xid (snapshot_new a b c d e) = c"
  "sn_current_command (snapshot_new a b c d e) = d"
  "set (sn_xip (snapshot_new a b c d e)) = set e"
  "sn_own_live_subxids (snapshot_new a b c d e) = []"
  "sn_own_rolled_back_subxids (snapshot_new a b c d e) = []"
  by (simp_all add: snapshot_new_def)

lemma set_own_subxids_in_progress [simp]:
  "xid_in_progress (set_own_subxids l r s) x = xid_in_progress s x"
  by (simp add: xid_in_progress_def)

text \<open>
  The constructor and the own-subtransaction patch give every lookup its documented set
  meaning, whatever order and multiplicity the inputs have: the sorted vectors, the range
  bound and the short circuits never change an answer, and the patch leaves the frozen
  concurrent-writer view alone.
\<close>

theorem snapshot_lookups_exact:
  "let s = set_own_subxids live rb (snapshot_new xmin xmax cur cmd xip) in
     (xid_in_progress s x \<longleftrightarrow> xmin \<le> x \<and> (xmax \<le> x \<or> x \<in> set xip))
   \<and> (is_current_xid s x \<longleftrightarrow> x = cur \<or> x \<in> set live)
   \<and> (own_subxid_rolled_back s x \<longleftrightarrow> x \<in> set rb)
   \<and> (sn_xmin s, sn_xmax s, sn_current_xid s, sn_current_command s) = (xmin, xmax, cur, cmd)"
proof -
  have "snapshot_wf (set_own_subxids live rb (snapshot_new xmin xmax cur cmd xip))"
    by (intro inv_intros)
  then show ?thesis by (simp add: snapshot_lookup_iffs Let_def del: set_own_subxids_in_progress)
qed

end
