(* ===== verification/Tuple_Header.thy ===== *)
theory Tuple_Header
  imports Core_Ids "HOL-Library.Monad_Syntax"
begin

text \<open>
  The 40-byte MVCC tuple header, \<^verbatim>\<open>crates/ultrasql-mvcc/src/tuple_header.rs\<close>: the
  information mask, the header record, its on-disk codec and the delete stamp. The redirect
  target packs a 24-bit block and an 8-bit slot into one word; the codec lemmas state exactly
  what that packing keeps.
\<close>

section \<open>Information mask\<close>

type_synonym info_mask = u16

definition HAS_NULL :: u16 where "HAS_NULL = push_bit 0 1"
definition HAS_VARWIDTH :: u16 where "HAS_VARWIDTH = push_bit 1 1"
definition XMIN_COMMITTED :: u16 where "XMIN_COMMITTED = push_bit 2 1"
definition XMIN_INVALID :: u16 where "XMIN_INVALID = push_bit 3 1"
definition XMAX_COMMITTED :: u16 where "XMAX_COMMITTED = push_bit 4 1"
definition XMAX_INVALID :: u16 where "XMAX_INVALID = push_bit 5 1"
definition UPDATED :: u16 where "UPDATED = push_bit 6 1"
definition HOT_UPDATED :: u16 where "HOT_UPDATED = push_bit 7 1"
definition FROZEN :: u16 where "FROZEN = push_bit 8 1"
definition SUBXACT :: u16 where "SUBXACT = push_bit 9 1"
definition UPDATED_IN_PLACE :: u16 where "UPDATED_IN_PLACE = push_bit 10 1"
definition INPLACE_HISTORY :: u16 where "INPLACE_HISTORY = push_bit 11 1"

definition KNOWN_BITS :: u16 where
  "KNOWN_BITS = HAS_NULL OR HAS_VARWIDTH OR XMIN_COMMITTED OR XMIN_INVALID OR XMAX_COMMITTED
     OR XMAX_INVALID OR UPDATED OR HOT_UPDATED OR FROZEN OR SUBXACT OR UPDATED_IN_PLACE
     OR INPLACE_HISTORY"

definition im_contains :: "info_mask \<Rightarrow> u16 \<Rightarrow> bool" where
  "im_contains m flag \<longleftrightarrow> m AND flag = flag"

definition im_set :: "info_mask \<Rightarrow> u16 \<Rightarrow> info_mask" where
  "im_set m flag = m OR flag"

definition im_clear :: "info_mask \<Rightarrow> u16 \<Rightarrow> info_mask" where
  "im_clear m flag = m AND NOT flag"

definition im_is_frozen :: "info_mask \<Rightarrow> bool" where
  "im_is_frozen m = im_contains m FROZEN"

definition im_is_subxact :: "info_mask \<Rightarrow> bool" where
  "im_is_subxact m = im_contains m SUBXACT"

lemmas im_bits = HAS_NULL_def HAS_VARWIDTH_def XMIN_COMMITTED_def XMIN_INVALID_def
  XMAX_COMMITTED_def XMAX_INVALID_def UPDATED_def HOT_UPDATED_def FROZEN_def SUBXACT_def
  UPDATED_IN_PLACE_def INPLACE_HISTORY_def

lemma im_contains_push_bit: "k < 16 \<Longrightarrow> im_contains m (push_bit k 1) \<longleftrightarrow> bit m k"
  unfolding im_contains_def bit_eq_iff by (auto simp: bit_simps)

lemma im_contains_single [simp]:
  "im_contains m FROZEN \<longleftrightarrow> bit m 8"
  "im_contains m SUBXACT \<longleftrightarrow> bit m 9"
  "im_contains m UPDATED_IN_PLACE \<longleftrightarrow> bit m 10"
  "im_contains m INPLACE_HISTORY \<longleftrightarrow> bit m 11"
  by (simp_all only: im_bits im_contains_push_bit)

lemma bit_flags [simp]:
  "bit UPDATED_IN_PLACE n \<longleftrightarrow> n = 10"
  "bit INPLACE_HISTORY n \<longleftrightarrow> n = 11"
  by (auto simp: im_bits bit_push_bit_iff bit_1_iff simp del: push_bit_of_1)

lemma im_is_frozen_bit [simp]: "im_is_frozen m \<longleftrightarrow> bit m 8"
  by (simp add: im_is_frozen_def)

section \<open>Header\<close>

record tuple_header =
  th_xmin :: xid
  th_xmax :: xid
  th_cmin :: command_id
  th_cmax :: command_id
  th_infomask :: info_mask
  th_n_atts :: u16
  th_data_offset :: u16
  th_ctid :: tuple_id

definition TUPLE_HEADER_SIZE :: nat where "TUPLE_HEADER_SIZE = 40"

definition minimal_for_visible_cache_hit :: "xid \<Rightarrow> u16 \<Rightarrow> tuple_header" where
  "minimal_for_visible_cache_hit xmin infomask_bits =
     \<lparr>th_xmin = xmin, th_xmax = Xid_INVALID, th_cmin = CommandId_FIRST, th_cmax = CommandId_FIRST,
      th_infomask = infomask_bits, th_n_atts = 0, th_data_offset = 0,
      th_ctid = TupleId (PageId 0 0) 0\<rparr>"

definition fresh :: "xid \<Rightarrow> command_id \<Rightarrow> tuple_id \<Rightarrow> u16 \<Rightarrow> tuple_header" where
  "fresh xmin cmin tid n_atts =
     \<lparr>th_xmin = xmin, th_xmax = Xid_INVALID, th_cmin = cmin, th_cmax = CommandId_FIRST,
      th_infomask = 0, th_n_atts = n_atts, th_data_offset = 0, th_ctid = tid\<rparr>"

definition is_alive :: "tuple_header \<Rightarrow> bool" where
  "is_alive h = xid_is_invalid (th_xmax h)"

definition mark_deleted :: "xid \<Rightarrow> command_id \<Rightarrow> tuple_header \<Rightarrow> tuple_header" where
  "mark_deleted xmax cmax h =
     (let h = h\<lparr>th_xmax := xmax, th_cmax := cmax\<rparr> in
      if im_contains (th_infomask h) UPDATED_IN_PLACE
      then h\<lparr>th_infomask := (th_infomask h AND NOT UPDATED_IN_PLACE) OR INPLACE_HISTORY\<rparr>
      else h)"

definition th_decode :: "bytes \<Rightarrow> (tuple_header \<times> nat) option" where
  "th_decode bytes =
     (if length bytes < TUPLE_HEADER_SIZE then None
      else do {
        xmin \<leftarrow> read_u64_le (slice 0 8 bytes);
        xmax \<leftarrow> read_u64_le (slice 8 16 bytes);
        cmin \<leftarrow> read_u32_le (slice 16 20 bytes);
        cmax \<leftarrow> read_u32_le (slice 20 24 bytes);
        infomask_bits \<leftarrow> read_u16_le (slice 24 26 bytes);
        if infomask_bits AND NOT KNOWN_BITS \<noteq> 0 then None
        else do {
          n_atts \<leftarrow> read_u16_le (slice 26 28 bytes);
          data_offset \<leftarrow> read_u16_le (slice 28 30 bytes);
          reserved \<leftarrow> read_u16_le (slice 30 32 bytes);
          if reserved \<noteq> 0 then None
          else do {
            rel \<leftarrow> read_u32_le (slice 32 36 bytes);
            block_and_slot \<leftarrow> read_u32_le (slice 36 40 bytes);
            let block = block_and_slot AND 0x00FFFFFF;
            slot \<leftarrow> (if unat (drop_bit 24 block_and_slot) < 2 ^ 16
                    then Some (ucast (drop_bit 24 block_and_slot)) else None);
            Some (\<lparr>th_xmin = xmin, th_xmax = xmax, th_cmin = cmin, th_cmax = cmax,
                   th_infomask = infomask_bits, th_n_atts = n_atts, th_data_offset = data_offset,
                   th_ctid = TupleId (PageId rel block) slot\<rparr>, TUPLE_HEADER_SIZE)
          }
        }
      })"

text \<open>The packed redirect word and the sequence of in-place writes of \<^verbatim>\<open>encode\<close>.\<close>

definition pack_ctid :: "tuple_id \<Rightarrow> u32" where
  "pack_ctid tid =
     (pg_block (tid_page tid) AND 0x00FFFFFF) OR push_bit 24 (ucast (tid_slot tid))"

definition th_encode :: "tuple_header \<Rightarrow> bytes \<Rightarrow> bytes option" where
  "th_encode h bytes =
     (if length bytes < TUPLE_HEADER_SIZE then None
      else
        (let b = splice_at 0 (word_to_le (th_xmin h)) bytes;
             b = splice_at 8 (word_to_le (th_xmax h)) b;
             b = splice_at 16 (word_to_le (th_cmin h)) b;
             b = splice_at 20 (word_to_le (th_cmax h)) b;
             b = splice_at 24 (word_to_le (th_infomask h)) b;
             b = splice_at 26 (word_to_le (th_n_atts h)) b;
             b = splice_at 28 (word_to_le (th_data_offset h)) b;
             b = splice_at 30 (word_to_le (0 :: u16)) b;
             b = splice_at 32 (word_to_le (pg_relation (tid_page (th_ctid h)))) b;
             b = splice_at 36 (word_to_le (pack_ctid (th_ctid h))) b
         in Some b))"

section \<open>Codec lemmas\<close>

definition th_image :: "tuple_header \<Rightarrow> bytes" where
  "th_image h =
     word_to_le (th_xmin h) @ word_to_le (th_xmax h) @ word_to_le (th_cmin h)
     @ word_to_le (th_cmax h) @ word_to_le (th_infomask h) @ word_to_le (th_n_atts h)
     @ word_to_le (th_data_offset h) @ word_to_le (0 :: u16)
     @ word_to_le (pg_relation (tid_page (th_ctid h))) @ word_to_le (pack_ctid (th_ctid h))"

lemma length_th_image [simp]: "length (th_image h) = TUPLE_HEADER_SIZE"
  by (simp add: th_image_def TUPLE_HEADER_SIZE_def)

lemma th_encode_eq:
  "th_encode h bytes =
     (if length bytes < TUPLE_HEADER_SIZE then None
      else Some (th_image h @ drop TUPLE_HEADER_SIZE bytes))"
  by (simp add: th_encode_def th_image_def TUPLE_HEADER_SIZE_def Let_def codec_simps)

text \<open>What survives the packed redirect word: the block modulo \<open>2 ^ 24\<close>, the slot modulo \<open>256\<close>.\<close>

definition ctid_on_disk :: "tuple_id \<Rightarrow> tuple_id" where
  "ctid_on_disk tid =
     TupleId (PageId (pg_relation (tid_page tid)) (take_bit 24 (pg_block (tid_page tid))))
       (take_bit 8 (tid_slot tid))"

lemma pack_ctid_block: "pack_ctid tid AND 0x00FFFFFF = take_bit 24 (pg_block (tid_page tid))"
proof -
  have m: "(0x00FFFFFF :: u32) = mask 24" by (simp add: mask_eq_exp_minus_1)
  show ?thesis
    unfolding pack_ctid_def m
    by (rule bit_word_eqI)
      (auto simp: bit_simps)
qed

lemma pack_ctid_slot:
  "drop_bit 24 (pack_ctid tid) = ucast (take_bit 8 (tid_slot tid))"
proof -
  have m: "(0x00FFFFFF :: u32) = mask 24" by (simp add: mask_eq_exp_minus_1)
  show ?thesis
    unfolding pack_ctid_def m
    by (rule bit_word_eqI) (auto simp: bit_simps)
qed

lemma unat_pack_ctid_slot: "unat (drop_bit 24 (pack_ctid tid)) < 2 ^ 16"
proof -
  have "unat (take_bit 8 (tid_slot tid)) < 2 ^ 8"
    by (metis take_bit_nat_less_exp unsigned_take_bit_eq)
  then show ?thesis
    by (simp add: pack_ctid_slot unsigned_ucast_eq take_bit_nat_eq_self del: take_bit_eq_mod)
qed

lemma ucast_pack_ctid_slot: "ucast (drop_bit 24 (pack_ctid tid)) = take_bit 8 (tid_slot tid)"
  unfolding pack_ctid_slot by (rule bit_word_eqI) (auto simp: bit_simps)

lemma th_decode_image:
  "th_decode (th_image h @ rest) =
     (if th_infomask h AND NOT KNOWN_BITS \<noteq> 0 then None
      else Some (h\<lparr>th_ctid := ctid_on_disk (th_ctid h)\<rparr>, TUPLE_HEADER_SIZE))"
  using unat_pack_ctid_slot [of "th_ctid h"]
  by (simp add: th_decode_def th_image_def TUPLE_HEADER_SIZE_def slice_append_right
      pack_ctid_block ucast_pack_ctid_slot ctid_on_disk_def)

lemma ctid_on_disk_id_iff:
  "ctid_on_disk tid = tid \<longleftrightarrow> unat (pg_block (tid_page tid)) < 2 ^ 24 \<and> unat (tid_slot tid) < 2 ^ 8"
proof -
  have "take_bit 24 b = b \<longleftrightarrow> unat b < 2 ^ 24" for b :: u32
    by (metis take_bit_nat_eq_self_iff unsigned_take_bit_eq unsigned_word_eqI)
  moreover have "take_bit 8 w = w \<longleftrightarrow> unat w < 2 ^ 8" for w :: u16
    by (metis take_bit_nat_eq_self_iff unsigned_take_bit_eq unsigned_word_eqI)
  ultimately show ?thesis
    by (cases tid; cases "tid_page tid") (auto simp: ctid_on_disk_def)
qed

lemma mark_deleted_fields [simp]:
  "th_xmin (mark_deleted x c h) = th_xmin h"
  "th_cmin (mark_deleted x c h) = th_cmin h"
  "th_xmax (mark_deleted x c h) = x"
  "th_cmax (mark_deleted x c h) = c"
  "th_ctid (mark_deleted x c h) = th_ctid h"
  by (simp_all add: mark_deleted_def Let_def)

lemma mark_deleted_bits [simp]:
  "bit (th_infomask (mark_deleted x c h)) 8 = bit (th_infomask h) 8"
  "bit (th_infomask (mark_deleted x c h)) 10 = False"
  "bit (th_infomask (mark_deleted x c h)) 11
     \<longleftrightarrow> bit (th_infomask h) 10 \<or> bit (th_infomask h) 11"
  by (simp_all add: mark_deleted_def Let_def bit_simps)

section \<open>Round trip\<close>

text \<open>
  C27. Encoding a header into a buffer of at least 40 bytes and decoding the result gives back
  the header, with exactly one possible loss: the redirect target keeps its block modulo
  \<open>2 ^ 24\<close> and its slot modulo \<open>256\<close>. The bytes after the header are untouched, a short buffer
  is the panic branch, and a mask with an unknown bit is refused by the decoder.
\<close>

theorem tuple_header_roundtrip:
  "th_encode h buf =
     (if length buf < TUPLE_HEADER_SIZE then None
      else Some (th_image h @ drop TUPLE_HEADER_SIZE buf))
   \<and> th_decode (th_image h @ rest) =
       (if th_infomask h AND NOT KNOWN_BITS \<noteq> 0 then None
        else Some (h\<lparr>th_ctid := ctid_on_disk (th_ctid h)\<rparr>, TUPLE_HEADER_SIZE))
   \<and> (ctid_on_disk (th_ctid h) = th_ctid h \<longleftrightarrow>
        unat (pg_block (tid_page (th_ctid h))) < 2 ^ 24 \<and> unat (tid_slot (th_ctid h)) < 2 ^ 8)"
  using th_encode_eq th_decode_image ctid_on_disk_id_iff by blast

end
