(* ===== verification/Visibility.thy ===== *)
theory Visibility
  imports Mvcc_Snapshot Tuple_Header
begin

text \<open>
  The MVCC visibility predicate, \<^verbatim>\<open>crates/ultrasql-mvcc/src/visibility.rs\<close>, over the
  transaction-status trait of \<^verbatim>\<open>crates/ultrasql-mvcc/src/status.rs\<close>. An oracle is a function
  from transaction ids to statuses. \<open>row_view\<close> is the abstract reading rule (which version of
  a row, if any, a snapshot reads); the decision tree is proved to implement it. The locale
  \<open>status_service\<close> is the contract a status provider promises to readers that hold a snapshot
  while the provider keeps moving.
\<close>

section \<open>Transaction status\<close>

datatype xid_status = InProgress | Committed | Aborted | Frozen

type_synonym status_oracle = "xid \<Rightarrow> xid_status"

definition oracle_is_committed :: "status_oracle \<Rightarrow> xid \<Rightarrow> bool" where
  "oracle_is_committed st x \<longleftrightarrow> (case st x of Committed \<Rightarrow> True | Frozen \<Rightarrow> True | _ \<Rightarrow> False)"

section \<open>The predicate\<close>

datatype visibility = Visible | Invisible | DeletedByOwn | VisiblePreImage | VisibleMaybePreImage

definition is_committed_before_snapshot :: "xid \<Rightarrow> snapshot \<Rightarrow> status_oracle \<Rightarrow> bool" where
  "is_committed_before_snapshot x s st \<longleftrightarrow>
     (if xid_in_progress s x then False
      else (case st x of Committed \<Rightarrow> True | Frozen \<Rightarrow> True | _ \<Rightarrow> False))"

definition visible_row :: "tuple_header \<Rightarrow> visibility" where
  "visible_row h =
     (if im_contains (th_infomask h) INPLACE_HISTORY then VisibleMaybePreImage else Visible)"

definition visible_own_insert :: "tuple_header \<Rightarrow> snapshot \<Rightarrow> visibility" where
  "visible_own_insert h s =
     (if sn_current_command s \<le> th_cmin h then Invisible
      else if \<not> xid_is_invalid (th_xmax h) \<and> own_subxid_rolled_back s (th_xmax h) then
        (if im_contains (th_infomask h) UPDATED_IN_PLACE then VisiblePreImage else Visible)
      else if im_contains (th_infomask h) UPDATED_IN_PLACE \<and> is_current_xid s (th_xmax h) then
        (if sn_current_command s \<le> th_cmax h then VisiblePreImage else Visible)
      else if is_current_xid s (th_xmax h) \<and> th_cmax h < sn_current_command s then DeletedByOwn
      else Visible)"

definition visible_foreign_insert :: "tuple_header \<Rightarrow> snapshot \<Rightarrow> status_oracle \<Rightarrow> visibility" where
  "visible_foreign_insert h s st =
     (if \<not> is_committed_before_snapshot (th_xmin h) s st then Invisible
      else if xid_is_invalid (th_xmax h) then
        (if im_contains (th_infomask h) INPLACE_HISTORY then VisibleMaybePreImage else Visible)
      else if own_subxid_rolled_back s (th_xmax h) then
        (if im_contains (th_infomask h) UPDATED_IN_PLACE then VisiblePreImage else Visible)
      else if im_contains (th_infomask h) UPDATED_IN_PLACE then
        (if is_current_xid s (th_xmax h) then
           (if th_cmax h < sn_current_command s then Visible else VisiblePreImage)
         else if is_committed_before_snapshot (th_xmax h) s st then Visible
         else VisiblePreImage)
      else if is_current_xid s (th_xmax h) then
        (if th_cmax h < sn_current_command s then Invisible else visible_row h)
      else if is_committed_before_snapshot (th_xmax h) s st then Invisible
      else visible_row h)"

definition is_visible :: "tuple_header \<Rightarrow> snapshot \<Rightarrow> status_oracle \<Rightarrow> visibility" where
  "is_visible h s st =
     (if im_is_frozen (th_infomask h) then Visible
      else if own_subxid_rolled_back s (th_xmin h) then Invisible
      else if xid_is_invalid (th_xmin h) then Invisible
      else if is_current_xid s (th_xmin h) then visible_own_insert h s
      else visible_foreign_insert h s st)"

lemmas is_visible_defs =
  is_visible_def visible_own_insert_def visible_foreign_insert_def visible_row_def

section \<open>The reading rule\<close>

text \<open>
  What a version stamp means to a snapshot: it \<open>took effect\<close> when its writer is the reader's
  own transaction at an earlier command, or another transaction committed before the
  snapshot, and the writer is not a savepoint the reader rolled back.
\<close>

datatype row_view = Absent | SlotBytes | UndoBytes | SlotOrUndoBytes

definition took_effect :: "snapshot \<Rightarrow> status_oracle \<Rightarrow> xid \<Rightarrow> command_id \<Rightarrow> bool" where
  "took_effect s st x c \<longleftrightarrow>
     x \<noteq> Xid_INVALID \<and> \<not> own_subxid_rolled_back s x \<and>
     (if is_current_xid s x then c < sn_current_command s
      else \<not> xid_in_progress s x \<and> oracle_is_committed st x)"

definition row_view :: "tuple_header \<Rightarrow> snapshot \<Rightarrow> status_oracle \<Rightarrow> row_view" where
  "row_view h s st =
     (let inserted = took_effect s st (th_xmin h) (th_cmin h);
          overwritten = took_effect s st (th_xmax h) (th_cmax h);
          in_place = im_contains (th_infomask h) UPDATED_IN_PLACE;
          history = im_contains (th_infomask h) INPLACE_HISTORY in
      if im_is_frozen (th_infomask h) then SlotBytes
      else if \<not> inserted then Absent
      else if in_place \<and> th_xmax h \<noteq> Xid_INVALID
        then (if overwritten then SlotBytes else UndoBytes)
      else if overwritten then Absent
      else if history \<and> \<not> is_current_xid s (th_xmin h) \<and> \<not> own_subxid_rolled_back s (th_xmax h)
        then SlotOrUndoBytes
      else SlotBytes)"

fun view_of :: "visibility \<Rightarrow> row_view" where
  "view_of Visible = SlotBytes"
| "view_of Invisible = Absent"
| "view_of DeletedByOwn = Absent"
| "view_of VisiblePreImage = UndoBytes"
| "view_of VisibleMaybePreImage = SlotOrUndoBytes"

definition own_rows_private :: "tuple_header \<Rightarrow> snapshot \<Rightarrow> bool" where
  "own_rows_private h s \<longleftrightarrow>
     is_current_xid s (th_xmin h) \<longrightarrow>
       th_xmax h = Xid_INVALID \<or> is_current_xid s (th_xmax h) \<or> own_subxid_rolled_back s (th_xmax h)"

definition invalid_never_own :: "snapshot \<Rightarrow> bool" where
  "invalid_never_own s \<longleftrightarrow>
     \<not> is_current_xid s Xid_INVALID \<and> \<not> own_subxid_rolled_back s Xid_INVALID"

lemma committed_before_iff:
  "is_committed_before_snapshot x s st \<longleftrightarrow> \<not> xid_in_progress s x \<and> oracle_is_committed st x"
  by (simp add: is_committed_before_snapshot_def oracle_is_committed_def)

lemma view_of_own_insert:
  assumes "is_current_xid s (th_xmin h)" "\<not> own_subxid_rolled_back s (th_xmin h)"
    and "th_xmin h \<noteq> Xid_INVALID" "own_rows_private h s" "invalid_never_own s"
    and "\<not> im_is_frozen (th_infomask h)"
  shows "view_of (visible_own_insert h s) = row_view h s st"
  using assms
  by (auto simp: visible_own_insert_def row_view_def took_effect_def own_rows_private_def
      invalid_never_own_def xid_is_invalid_def Let_def)

lemma view_of_foreign_insert:
  assumes "\<not> is_current_xid s (th_xmin h)" "\<not> own_subxid_rolled_back s (th_xmin h)"
    and "th_xmin h \<noteq> Xid_INVALID" "invalid_never_own s" "\<not> im_is_frozen (th_infomask h)"
  shows "view_of (visible_foreign_insert h s st) = row_view h s st"
  using assms
  by (auto simp: visible_foreign_insert_def visible_row_def row_view_def took_effect_def
      invalid_never_own_def xid_is_invalid_def committed_before_iff Let_def)

text \<open>
  C13. The decision tree reads exactly the version the reading rule prescribes: a row is
  present iff its insert took effect and no classical delete of it did, an in-place update
  that took effect shows the slot bytes and one that did not shows the undo bytes. The
  hypotheses are what the engine guarantees of a row it hands to a reader: nobody else
  stamps a row whose inserter is the reader's own running transaction, and the invalid id
  is nobody's id.
\<close>

theorem is_visible_refines_row_view:
  assumes "own_rows_private h s" and "invalid_never_own s"
  shows "view_of (is_visible h s st) = row_view h s st"
proof -
  consider "im_is_frozen (th_infomask h)"
    | "\<not> im_is_frozen (th_infomask h)"
      "own_subxid_rolled_back s (th_xmin h) \<or> th_xmin h = Xid_INVALID"
    | "\<not> im_is_frozen (th_infomask h)" "\<not> own_subxid_rolled_back s (th_xmin h)"
      "th_xmin h \<noteq> Xid_INVALID" by blast
  then show ?thesis
  proof cases
    case 1 then show ?thesis by (simp add: is_visible_def row_view_def)
  next
    case 2 then show ?thesis
      by (auto simp: is_visible_def row_view_def took_effect_def xid_is_invalid_def Let_def)
  next
    case 3 then show ?thesis
      using view_of_own_insert [OF _ 3(2,3) assms 3(1)]
        view_of_foreign_insert [OF _ 3(2,3) assms(2) 3(1)]
      by (simp add: is_visible_def xid_is_invalid_def)
  qed
qed

theorem is_visible_refines_row_view_witness:
  "let s = snapshot_new 5 12 11 2 [9, 5];
       h = (fresh 4 0 (TupleId (PageId 1 0) 0) 1)\<lparr>th_xmax := 9, th_infomask := UPDATED_IN_PLACE\<rparr>;
       st = (\<lambda>x. if x = 9 \<or> x = 4 then Committed else InProgress)
   in own_rows_private h s \<and> invalid_never_own s
      \<and> view_of (is_visible h s st) = row_view h s st \<and> row_view h s st = UndoBytes"
proof -
  have "own_rows_private ((fresh 4 0 (TupleId (PageId 1 0) 0) 1)
      \<lparr>th_xmax := 9, th_infomask := UPDATED_IN_PLACE\<rparr>) (snapshot_new 5 12 11 2 [9, 5])"
    and "invalid_never_own (snapshot_new 5 12 11 2 [9, 5])"
    by code_simp+
  from is_visible_refines_row_view [OF this, of "\<lambda>x. if x = 9 \<or> x = 4 then Committed else InProgress"]
    this
  show ?thesis unfolding Let_def by (intro conjI) (assumption+, code_simp)
qed

section \<open>Readers and a moving status provider\<close>

text \<open>Visibility consults the oracle only on foreign ids outside the frozen view.\<close>

lemma is_visible_cong:
  assumes "\<And>x. x \<in> {th_xmin h, th_xmax h} \<Longrightarrow> \<not> xid_in_progress s x \<Longrightarrow> \<not> is_current_xid s x \<Longrightarrow>
             oracle_is_committed st x = oracle_is_committed st' x"
  shows "is_visible h s st = is_visible h s st'"
proof -
  have *: "is_current_xid s x \<or>
      is_committed_before_snapshot x s st = is_committed_before_snapshot x s st'" if "x \<in> {th_xmin h, th_xmax h}" for x
    using assms [OF that] by (auto simp: committed_before_iff)
  show ?thesis
    using * [of "th_xmin h"] * [of "th_xmax h"] by (auto simp: is_visible_def visible_foreign_insert_def)
qed

locale status_service =
  fixes inv :: "'s \<Rightarrow> bool"
    and status :: "'s \<Rightarrow> status_oracle"
    and settled :: "'s \<Rightarrow> xid \<Rightarrow> bool"
    and step :: "'s \<Rightarrow> 's \<Rightarrow> bool"
  assumes step_inv: "inv s \<Longrightarrow> step s s' \<Longrightarrow> inv s'"
    and step_settled: "inv s \<Longrightarrow> step s s' \<Longrightarrow> settled s x \<Longrightarrow> settled s' x"
    and step_status: "inv s \<Longrightarrow> step s s' \<Longrightarrow> settled s x \<Longrightarrow> status s' x = status s x"
begin

lemma run_settled:
  assumes "step\<^sup>*\<^sup>* s s'" "inv s" "settled s x"
  shows "inv s' \<and> settled s' x \<and> status s' x = status s x"
  using assms by (induction rule: rtranclp_induct) (auto simp: step_inv step_settled step_status)

lemma run_inv: "step\<^sup>*\<^sup>* s s' \<Longrightarrow> inv s \<Longrightarrow> inv s'"
  by (induction rule: rtranclp_induct) (auto simp: step_inv)

lemma reads_repeat:
  assumes "step\<^sup>*\<^sup>* s s'" and "inv s"
    and "\<And>x. x \<in> {th_xmin h, th_xmax h} \<Longrightarrow> \<not> xid_in_progress sn x \<Longrightarrow> \<not> is_current_xid sn x \<Longrightarrow> settled s x"
  shows "is_visible h sn (status s') = is_visible h sn (status s)"
  by (rule is_visible_cong) (simp add: oracle_is_committed_def run_settled [OF assms(1,2)] assms(3))

end

section \<open>Savepoints and deletes\<close>

definition row_present :: "visibility \<Rightarrow> bool" where
  "row_present v \<longleftrightarrow> view_of v \<noteq> Absent"

text \<open>
  C17. Rolling back a savepoint is decided by the reader's own snapshot alone. A row the
  savepoint inserted is invisible whatever the status oracle says. A row whose insert took
  effect and that the savepoint deleted is visible again; one it updated in place is read
  through its pre-image; a row whose insert did not take effect stays invisible. So the row is
  present exactly when it is present with the stamp physically removed, and whether heap undo
  has run yet makes no difference to that.
\<close>

theorem savepoint_rollback_visibility:
  assumes "invalid_never_own s" and "\<not> im_is_frozen (th_infomask h)"
  shows "(own_subxid_rolled_back s (th_xmin h) \<longrightarrow> is_visible h s st = Invisible)
     \<and> (own_subxid_rolled_back s (th_xmax h) \<longrightarrow>
          is_visible h s st =
            (if \<not> took_effect s st (th_xmin h) (th_cmin h) then Invisible
             else if im_contains (th_infomask h) UPDATED_IN_PLACE then VisiblePreImage else Visible)
          \<and> row_present (is_visible h s st)
              = row_present (is_visible (h\<lparr>th_xmax := Xid_INVALID\<rparr>) s st))"
  using assms
  by (auto simp: is_visible_defs row_present_def invalid_never_own_def xid_is_invalid_def took_effect_def
      committed_before_iff)

theorem savepoint_rollback_visibility_witness:
  "let s = set_own_subxids [] [12] (snapshot_new 11 13 11 5 []);
       h = (fresh 4 0 (TupleId (PageId 1 0) 0) 1)\<lparr>th_xmax := 12, th_cmax := 3, th_infomask := UPDATED_IN_PLACE\<rparr>
   in invalid_never_own s \<and> \<not> im_is_frozen (th_infomask h) \<and> own_subxid_rolled_back s (th_xmax h)
      \<and> is_visible h s (\<lambda>_. Committed) = VisiblePreImage"
proof -
  let ?s = "set_own_subxids [] [12] (snapshot_new 11 13 11 5 [])"
  let ?h = "(fresh 4 0 (TupleId (PageId 1 0) 0) 1)\<lparr>th_xmax := 12, th_cmax := 3, th_infomask := UPDATED_IN_PLACE\<rparr>"
  have hyps: "invalid_never_own ?s" "\<not> im_is_frozen (th_infomask ?h)"
    and rb: "own_subxid_rolled_back ?s (th_xmax ?h)"
    and ins: "took_effect ?s (\<lambda>_. Committed) (th_xmin ?h) (th_cmin ?h)"
      "im_contains (th_infomask ?h) UPDATED_IN_PLACE"
    by code_simp+
  from savepoint_rollback_visibility [OF hyps, of "\<lambda>_. Committed"] rb ins hyps
  show ?thesis unfolding Let_def by simp
qed

text \<open>
  C23. Deleting a row never hides its update history from an older snapshot: after the delete
  stamp, a reader that accepts the insert and for whom the deleter has not taken effect is
  routed through the undo log whenever the row was ever updated in place, and reads the slot
  bytes otherwise.
\<close>

theorem delete_keeps_preimage_route:
  assumes "\<not> im_is_frozen (th_infomask h)" "x \<noteq> Xid_INVALID" "\<not> own_subxid_rolled_back s x"
    and "\<not> is_current_xid s (th_xmin h)" "took_effect s st (th_xmin h) (th_cmin h)"
    and "\<not> took_effect s st x c"
  shows "is_visible (mark_deleted x c h) s st =
     (if im_contains (th_infomask h) UPDATED_IN_PLACE \<or> im_contains (th_infomask h) INPLACE_HISTORY
      then VisibleMaybePreImage else Visible)"
  using assms
  by (auto simp: is_visible_defs took_effect_def xid_is_invalid_def committed_before_iff not_less
      split: if_splits)

theorem delete_keeps_preimage_route_witness:
  "let s = snapshot_new 5 12 11 2 [9, 5];
       h = (fresh 4 0 (TupleId (PageId 1 0) 0) 1)\<lparr>th_xmax := 3, th_infomask := UPDATED_IN_PLACE\<rparr>
   in is_visible (mark_deleted 9 0 h) s (\<lambda>_. Committed) = VisibleMaybePreImage"
proof -
  let ?s = "snapshot_new 5 12 11 2 [9, 5]"
  let ?h = "(fresh 4 0 (TupleId (PageId 1 0) 0) 1)\<lparr>th_xmax := 3, th_infomask := UPDATED_IN_PLACE\<rparr>"
  have "\<not> im_is_frozen (th_infomask ?h)" "(9 :: xid) \<noteq> Xid_INVALID" "\<not> own_subxid_rolled_back ?s 9"
    "\<not> is_current_xid ?s (th_xmin ?h)" "took_effect ?s (\<lambda>_. Committed) (th_xmin ?h) (th_cmin ?h)"
    "\<not> took_effect ?s (\<lambda>_. Committed) 9 0"
    by code_simp+
  from delete_keeps_preimage_route [OF this] show ?thesis by (simp add: Let_def)
qed

text \<open>
  The undo-history route is lost in one case: a row with in-place history whose deleter is a
  savepoint the reader rolled back is reported as plain \<open>Visible\<close>, although the same row with
  the stamp physically removed is \<open>VisibleMaybePreImage\<close>.
\<close>

lemma rolled_back_delete_skips_undo_history:
  "let s = set_own_subxids [] [12] (snapshot_new 11 13 11 5 []);
       h = (fresh 4 0 (TupleId (PageId 1 0) 0) 1)
             \<lparr>th_xmax := 12, th_cmax := 3, th_infomask := INPLACE_HISTORY\<rparr>
   in is_visible h s (\<lambda>_. Committed) = Visible
      \<and> is_visible (h\<lparr>th_xmax := Xid_INVALID\<rparr>) s (\<lambda>_. Committed) = VisibleMaybePreImage"
  by code_simp

end
