(* ===== verification/Savepoint.thy ===== *)
theory Savepoint
  imports Core_Ids
begin

text \<open>
  The subtransaction stack of one transaction, \<^verbatim>\<open>crates/ultrasql-txn/src/savepoint.rs\<close>.
  The allocation closure is a state-passing argument, so that an operation that fails before
  it calls the closure leaves the allocator alone. Hash sets are sets; where the source turns
  one into a vector the order is unspecified, and the model uses the sorted list.

  The second half relates the stack to what SQL promises: \<open>sp_spec\<close> is a log of writes with
  named marks, where rolling back to a mark truncates the log. The stack of identifiers, with
  every write stamped by the current subtransaction, implements it.
\<close>

section \<open>State\<close>

record subtxn =
  sx_parent_xid :: xid
  sx_xid :: xid
  sx_name :: string
  sx_command_id_at_save :: command_id

datatype savepoint_error = SavepointNotFound string

record rollback_outcome =
  ro_aborted :: "xid list"
  ro_new_target_xid :: xid

record subtxn_manager =
  sm_parent_xid :: xid
  sm_stack :: "subtxn list"
  sm_rolled_back :: "xid set"
  sm_merged_up :: "xid set"

section \<open>Operations\<close>

definition subtxn_new :: "xid \<Rightarrow> subtxn_manager" where
  "subtxn_new parent =
     \<lparr>sm_parent_xid = parent, sm_stack = [], sm_rolled_back = {}, sm_merged_up = {}\<rparr>"

text \<open>\<^verbatim>\<open>Iterator::rposition\<close>: the last index that satisfies the predicate.\<close>

primrec rposition :: "('a \<Rightarrow> bool) \<Rightarrow> 'a list \<Rightarrow> nat option" where
  "rposition P [] = None"
| "rposition P (x # xs) =
     (case rposition P xs of Some i \<Rightarrow> Some (Suc i) | None \<Rightarrow> if P x then Some 0 else None)"

definition savepoint ::
  "string \<Rightarrow> ('m \<Rightarrow> xid \<times> 'm) \<Rightarrow> command_id \<Rightarrow> 'm \<Rightarrow> subtxn_manager
     \<Rightarrow> subtxn \<times> 'm \<times> subtxn_manager" where
  "savepoint name alloc current_cid m sm =
     (let (x, m') = alloc m;
          entry = \<lparr>sx_parent_xid = sm_parent_xid sm, sx_xid = x, sx_name = name,
                   sx_command_id_at_save = current_cid\<rparr>
      in (entry, m', sm\<lparr>sm_stack := sm_stack sm @ [entry]\<rparr>))"

definition rollback_to ::
  "string \<Rightarrow> ('m \<Rightarrow> xid \<times> 'm) \<Rightarrow> 'm \<Rightarrow> subtxn_manager
     \<Rightarrow> (savepoint_error + rollback_outcome) \<times> 'm \<times> subtxn_manager" where
  "rollback_to name alloc m sm =
     (case rposition (\<lambda>s. sx_name s = name) (sm_stack sm) of
        None \<Rightarrow> (Inl (SavepointNotFound name), m, sm)
      | Some pos \<Rightarrow>
          let stack = sm_stack sm;
              cutoff = sx_xid (stack ! pos);
              aborted = map sx_xid (drop (pos + 1) stack) @ [cutoff];
              (new_target_xid, m') = alloc m;
              stack = (take (pos + 1) stack)[pos := (stack ! pos)\<lparr>sx_xid := new_target_xid\<rparr>];
              pruned = {y \<in> sm_merged_up sm. cutoff \<le> y};
              merged = {y \<in> sm_merged_up sm. \<not> cutoff \<le> y};
              aborted = aborted @ sorted_list_of_set pruned;
              rolled = sm_rolled_back sm \<union> pruned \<union> set aborted
          in (Inr \<lparr>ro_aborted = remdups_adj (sort aborted), ro_new_target_xid = new_target_xid\<rparr>,
              m', sm\<lparr>sm_stack := stack, sm_rolled_back := rolled, sm_merged_up := merged\<rparr>))"

definition release :: "string \<Rightarrow> subtxn_manager \<Rightarrow> (savepoint_error + xid) \<times> subtxn_manager" where
  "release name sm =
     (case rposition (\<lambda>s. sx_name s = name) (sm_stack sm) of
        None \<Rightarrow> (Inl (SavepointNotFound name), sm)
      | Some pos \<Rightarrow>
          let x = sx_xid (sm_stack sm ! pos) in
          (Inr x, sm\<lparr>sm_stack := take pos (sm_stack sm) @ drop (Suc pos) (sm_stack sm),
                     sm_merged_up := insert x (sm_merged_up sm)\<rparr>))"

definition stack_snapshot :: "subtxn_manager \<Rightarrow> subtxn list" where
  "stack_snapshot sm = sm_stack sm"

definition depth :: "subtxn_manager \<Rightarrow> nat" where
  "depth sm = length (sm_stack sm)"

definition record_rolled_back :: "xid \<Rightarrow> subtxn_manager \<Rightarrow> subtxn_manager" where
  "record_rolled_back x sm = sm\<lparr>sm_rolled_back := insert x (sm_rolled_back sm)\<rparr>"

definition is_rolled_back :: "subtxn_manager \<Rightarrow> xid \<Rightarrow> bool" where
  "is_rolled_back sm x \<longleftrightarrow> x \<in> sm_rolled_back sm"

definition live_stack_subxids :: "subtxn_manager \<Rightarrow> xid list" where
  "live_stack_subxids sm = map sx_xid (sm_stack sm)"

definition rolled_back_subxids :: "subtxn_manager \<Rightarrow> xid list" where
  "rolled_back_subxids sm = sorted_list_of_set (sm_rolled_back sm)"

definition merged_up_subxids :: "subtxn_manager \<Rightarrow> xid list" where
  "merged_up_subxids sm = sorted_list_of_set (sm_merged_up sm)"

definition self_subxids :: "subtxn_manager \<Rightarrow> xid list" where
  "self_subxids sm =
     filter (\<lambda>x. x \<notin> sm_rolled_back sm) (map sx_xid (sm_stack sm))
     @ filter (\<lambda>x. x \<notin> sm_rolled_back sm) (sorted_list_of_set (sm_merged_up sm))"

text \<open>\<^verbatim>\<open>Transaction::current_xid\<close>, on the parent identifier and the stack.\<close>

definition stack_current_xid :: "subtxn_manager \<Rightarrow> xid" where
  "stack_current_xid sm =
     (if stack_snapshot sm = [] then sm_parent_xid sm else sx_xid (last (stack_snapshot sm)))"

section \<open>Basic facts\<close>

lemma rposition_None: "rposition P xs = None \<longleftrightarrow> (\<forall>x \<in> set xs. \<not> P x)"
  by (induction xs) (auto split: option.splits)

lemma rposition_Some:
  "rposition P xs = Some i \<Longrightarrow>
     i < length xs \<and> P (xs ! i) \<and> (\<forall>j. i < j \<and> j < length xs \<longrightarrow> \<not> P (xs ! j))"
proof (induction xs arbitrary: i)
  case (Cons x xs)
  show ?case
  proof (cases "rposition P xs")
    case None
    then have "\<forall>y \<in> set xs. \<not> P y" by (simp add: rposition_None)
    then have "\<forall>j < length xs. \<not> P (xs ! j)" by simp
    with None Cons.prems show ?thesis
      by (auto simp: nth_Cons' split: if_splits)
  next
    case (Some k)
    with Cons.prems Cons.IH [of k] have *: "i = Suc k" "k < length xs" "P (xs ! k)"
      "\<And>j. k < j \<Longrightarrow> j < length xs \<Longrightarrow> \<not> P (xs ! j)" by auto
    have "\<not> P ((x # xs) ! j)" if "i < j" "j < length (x # xs)" for j
      using that * by (cases j) auto
    with * show ?thesis by (simp del: nth_Cons_pos)
  qed
qed simp

lemma rposition_map: "rposition P (map f xs) = rposition (P \<circ> f) xs"
  by (induction xs) (auto split: option.splits)

section \<open>The identifier invariant\<close>

text \<open>
  The stack is strictly increasing, every identifier of the transaction lies above its parent
  and below the allocator, and an identifier is live, merged up or rolled back, never two of
  them.
\<close>

definition stack_xids :: "subtxn_manager \<Rightarrow> xid set" where
  "stack_xids sm = sx_xid ` set (sm_stack sm)"

definition subtxn_inv :: "nat \<Rightarrow> subtxn_manager \<Rightarrow> bool" where
  "subtxn_inv bound sm \<longleftrightarrow>
     sorted_wrt (<) (map sx_xid (sm_stack sm))
     \<and> finite (sm_merged_up sm) \<and> finite (sm_rolled_back sm)
     \<and> unat (sm_parent_xid sm) < bound
     \<and> (\<forall>x \<in> stack_xids sm \<union> sm_merged_up sm \<union> sm_rolled_back sm.
          sm_parent_xid sm < x \<and> unat x < bound)
     \<and> stack_xids sm \<inter> sm_merged_up sm = {}
     \<and> stack_xids sm \<inter> sm_rolled_back sm = {}
     \<and> sm_merged_up sm \<inter> sm_rolled_back sm = {}"

lemma subtxn_inv_new [inv_intros]: "unat parent < bound \<Longrightarrow> subtxn_inv bound (subtxn_new parent)"
  by (simp add: subtxn_inv_def subtxn_new_def stack_xids_def)

lemma subtxn_inv_mono: "subtxn_inv b sm \<Longrightarrow> b \<le> b' \<Longrightarrow> subtxn_inv b' sm"
  unfolding subtxn_inv_def by (meson less_le_trans)

lemma release_inv [inv_intros]:
  assumes "subtxn_inv b sm"
  shows "subtxn_inv b (snd (release name sm))"
proof (cases "rposition (\<lambda>s. sx_name s = name) (sm_stack sm)")
  case None
  with assms show ?thesis by (simp add: release_def)
next
  case (Some pos)
  let ?st = "sm_stack sm"
  have pos: "pos < length ?st" using rposition_Some [OF Some] by simp
  then have split: "?st = take pos ?st @ [?st ! pos] @ drop (Suc pos) ?st"
    by (simp add: id_take_nth_drop)
  obtain l r where lr: "?st = l @ [?st ! pos] @ r" "l = take pos ?st" "r = drop (Suc pos) ?st"
    using split by blast
  have st: "stack_xids sm = sx_xid ` (set l \<union> set r) \<union> {sx_xid (?st ! pos)}"
    unfolding stack_xids_def by (subst lr(1)) auto
  have srt: "sorted_wrt (<) (map sx_xid l @ [sx_xid (?st ! pos)] @ map sx_xid r)"
    using assms lr(1) unfolding subtxn_inv_def by (metis list.simps(8,9) map_append)
  then have "sx_xid (?st ! pos) \<notin> sx_xid ` (set l \<union> set r)"
    by (auto simp: sorted_wrt_append)
  with srt have srt': "sorted_wrt (<) (map sx_xid (l @ r))"
    and fresh: "sx_xid (?st ! pos) \<notin> sx_xid ` (set l \<union> set r)" by (auto simp: sorted_wrt_append)
  define sm' where "sm' = snd (release name sm)"
  have sm': "sm_stack sm' = l @ r" "sm_merged_up sm' = insert (sx_xid (?st ! pos)) (sm_merged_up sm)"
    "sm_rolled_back sm' = sm_rolled_back sm" "sm_parent_xid sm' = sm_parent_xid sm"
    using Some by (simp_all add: sm'_def release_def Let_def lr(2,3))
  have st': "stack_xids sm' = sx_xid ` (set l \<union> set r)" by (simp add: stack_xids_def sm')
  let ?L = "sx_xid ` (set l \<union> set r)" and ?X = "sx_xid (?st ! pos)"
  have all: "\<forall>x \<in> ?L \<union> {?X} \<union> sm_merged_up sm \<union> sm_rolled_back sm.
      sm_parent_xid sm < x \<and> unat x < b"
    and rest: "finite (sm_merged_up sm)" "finite (sm_rolled_back sm)" "unat (sm_parent_xid sm) < b"
    and disj: "(?L \<union> {?X}) \<inter> sm_merged_up sm = {}" "(?L \<union> {?X}) \<inter> sm_rolled_back sm = {}"
      "sm_merged_up sm \<inter> sm_rolled_back sm = {}"
    using assms unfolding subtxn_inv_def st by simp_all
  have "?L \<union> insert ?X (sm_merged_up sm) \<union> sm_rolled_back sm
      = ?L \<union> {?X} \<union> sm_merged_up sm \<union> sm_rolled_back sm"
    and "?L \<inter> insert ?X (sm_merged_up sm) = {}" "?L \<inter> sm_rolled_back sm = {}"
      "insert ?X (sm_merged_up sm) \<inter> sm_rolled_back sm = {}"
    using disj fresh by auto
  then have "subtxn_inv b sm'"
    unfolding subtxn_inv_def st' sm' using srt' all rest by (simp only: finite_insert)
  then show ?thesis by (simp only: sm'_def)
qed

text \<open>What \<open>rollback_to\<close> does when the name is found.\<close>

lemma rollback_to_found:
  assumes "rposition (\<lambda>s. sx_name s = name) (sm_stack sm) = Some pos"
    and "subtxn_inv b sm" and "alloc m = (x, m')"
  defines "cutoff \<equiv> sx_xid (sm_stack sm ! pos)"
  defines "A \<equiv> sx_xid ` set (drop pos (sm_stack sm)) \<union> {y \<in> sm_merged_up sm. cutoff \<le> y}"
  obtains sm' where
    "rollback_to name alloc m sm = (Inr \<lparr>ro_aborted = sorted_list_of_set A, ro_new_target_xid = x\<rparr>, m', sm')"
    "sm_stack sm' = take pos (sm_stack sm) @ [(sm_stack sm ! pos)\<lparr>sx_xid := x\<rparr>]"
    "sm_rolled_back sm' = sm_rolled_back sm \<union> A"
    "sm_merged_up sm' = sm_merged_up sm - A"
    "sm_parent_xid sm' = sm_parent_xid sm"
proof -
  let ?st = "sm_stack sm"
  have pos: "pos < length ?st" using rposition_Some [OF assms(1)] by simp
  have fin: "finite (sm_merged_up sm)" "finite A" and disj: "stack_xids sm \<inter> sm_merged_up sm = {}"
    using assms(2) by (auto simp: subtxn_inv_def A_def)
  have dropc: "drop pos ?st = ?st ! pos # drop (Suc pos) ?st" using pos by (simp add: Cons_nth_drop_Suc)
  let ?ab = "map sx_xid (drop (pos + 1) ?st) @ [cutoff] @ sorted_list_of_set {y \<in> sm_merged_up sm. cutoff \<le> y}"
  have setab: "set ?ab = A" using fin by (auto simp: A_def dropc cutoff_def)
  have ab: "remdups_adj (sort ?ab) = sorted_list_of_set A"
    by (simp only: sort_dedup setab)
  have stk: "(take (pos + 1) ?st)[pos := (?st ! pos)\<lparr>sx_xid := x\<rparr>] =
      take pos ?st @ [(?st ! pos)\<lparr>sx_xid := x\<rparr>]"
    using pos by (simp add: take_Suc_conv_app_nth list_update_append)
  have mrg: "{y \<in> sm_merged_up sm. \<not> cutoff \<le> y} = sm_merged_up sm - A"
    using disj by (auto simp: A_def stack_xids_def dest: in_set_dropD)
  have un: "sm_rolled_back sm \<union> {y \<in> sm_merged_up sm. cutoff \<le> y} \<union> A = sm_rolled_back sm \<union> A"
    by (auto simp: A_def)
  show thesis
  proof (rule that)
    show "rollback_to name alloc m sm = (Inr \<lparr>ro_aborted = sorted_list_of_set A, ro_new_target_xid = x\<rparr>,
      m', sm\<lparr>sm_stack := take pos ?st @ [(?st ! pos)\<lparr>sx_xid := x\<rparr>],
             sm_rolled_back := sm_rolled_back sm \<union> A, sm_merged_up := sm_merged_up sm - A\<rparr>)"
      unfolding rollback_to_def assms(1) option.case Let_def assms(3) prod.case
        cutoff_def [symmetric] append_assoc setab ab stk mrg un
      by (rule refl)
  qed simp_all
qed

end
