(* ===== verification/Savepoint_Spec.thy ===== *)
theory Savepoint_Spec
  imports Savepoint
begin

text \<open>
  What \<^verbatim>\<open>SAVEPOINT\<close>, \<^verbatim>\<open>ROLLBACK TO\<close> and \<^verbatim>\<open>RELEASE\<close> promise, and that the identifier stack of
  \<^verbatim>\<open>savepoint.rs\<close> keeps the promise. The specification is a log of writes with named marks;
  rolling back truncates the log to the mark. The implementation stamps every write with the
  current subtransaction identifier and never touches the log: a write is gone when its
  identifier is in the rolled-back set. The allocator enters through the locale \<open>xid_source\<close>.
\<close>

section \<open>Specification\<close>

datatype 'w sp_op = SpWrite 'w | SpSavepoint string | SpRollbackTo string | SpRelease string

record 'w sp_spec =
  spec_log :: "'w list"
  spec_marks :: "(string \<times> nat) list"

fun spec_step :: "'w sp_op \<Rightarrow> 'w sp_spec \<Rightarrow> bool \<times> 'w sp_spec" where
  "spec_step (SpWrite w) s = (True, s\<lparr>spec_log := spec_log s @ [w]\<rparr>)"
| "spec_step (SpSavepoint n) s =
     (True, s\<lparr>spec_marks := spec_marks s @ [(n, length (spec_log s))]\<rparr>)"
| "spec_step (SpRollbackTo n) s =
     (case rposition (\<lambda>m. fst m = n) (spec_marks s) of
        None \<Rightarrow> (False, s)
      | Some i \<Rightarrow> (True, \<lparr>spec_log = take (snd (spec_marks s ! i)) (spec_log s),
                          spec_marks = take (Suc i) (spec_marks s)\<rparr>))"
| "spec_step (SpRelease n) s =
     (case rposition (\<lambda>m. fst m = n) (spec_marks s) of
        None \<Rightarrow> (False, s)
      | Some i \<Rightarrow> (True, s\<lparr>spec_marks := take i (spec_marks s) @ drop (Suc i) (spec_marks s)\<rparr>))"

section \<open>Implementation with stamped writes\<close>

type_synonym ('m, 'w) sp_impl = "'m \<times> subtxn_manager \<times> ('w \<times> xid) list"

fun impl_step ::
  "('m \<Rightarrow> xid \<times> 'm) \<Rightarrow> command_id \<Rightarrow> 'w sp_op \<Rightarrow> ('m, 'w) sp_impl \<Rightarrow> bool \<times> ('m, 'w) sp_impl" where
  "impl_step alloc cid (SpWrite w) (m, sm, log) = (True, m, sm, log @ [(w, stack_current_xid sm)])"
| "impl_step alloc cid (SpSavepoint n) (m, sm, log) =
     (case savepoint n alloc cid m sm of (_, m', sm') \<Rightarrow> (True, m', sm', log))"
| "impl_step alloc cid (SpRollbackTo n) (m, sm, log) =
     (case rollback_to n alloc m sm of (r, m', sm') \<Rightarrow> (\<not> isl r, m', sm', log))"
| "impl_step alloc cid (SpRelease n) (m, sm, log) =
     (case release n sm of (r, sm') \<Rightarrow> (\<not> isl r, m, sm', log))"

fun run_ops :: "('o \<Rightarrow> 's \<Rightarrow> bool \<times> 's) \<Rightarrow> 'o list \<Rightarrow> 's \<Rightarrow> bool list \<times> 's" where
  "run_ops f [] s = ([], s)"
| "run_ops f (a # as) s =
     (case f a s of (b, s') \<Rightarrow> case run_ops f as s' of (bs, s'') \<Rightarrow> (b # bs, s''))"

text \<open>The writes that still count, and the abstraction.\<close>

definition live_log :: "subtxn_manager \<Rightarrow> ('w \<times> xid) list \<Rightarrow> ('w \<times> xid) list" where
  "live_log sm log = filter (\<lambda>e. \<not> is_rolled_back sm (snd e)) log"

definition below :: "xid \<Rightarrow> ('w \<times> xid) list \<Rightarrow> ('w \<times> xid) list" where
  "below x log = filter (\<lambda>e. snd e < x) log"

fun abs_state :: "('m, 'w) sp_impl \<Rightarrow> 'w sp_spec" where
  "abs_state (m, sm, log) =
     \<lparr>spec_log = map fst (live_log sm log),
      spec_marks = map (\<lambda>s. (sx_name s, length (below (sx_xid s) (live_log sm log)))) (sm_stack sm)\<rparr>"

text \<open>Each stack identifier splits the live log: older writes before, its own and inner ones after.\<close>

definition splits :: "xid \<Rightarrow> ('w \<times> xid) list \<Rightarrow> bool" where
  "splits x log \<longleftrightarrow> log = below x log @ filter (\<lambda>e. x \<le> snd e) log"

definition log_inv :: "subtxn_manager \<Rightarrow> ('w \<times> xid) list \<Rightarrow> bool" where
  "log_inv sm log \<longleftrightarrow>
     (\<forall>e \<in> set log. snd e \<in> insert (sm_parent_xid sm) (stack_xids sm \<union> sm_merged_up sm))
     \<and> (\<forall>x \<in> stack_xids sm. splits x log)"

fun impl_inv :: "('m \<Rightarrow> nat) \<Rightarrow> ('m, 'w) sp_impl \<Rightarrow> bool" where
  "impl_inv bound (m, sm, log) \<longleftrightarrow> subtxn_inv (bound m) sm \<and> log_inv sm (live_log sm log)"

section \<open>Splitting lemmas\<close>

lemma below_all: "\<forall>e \<in> set log. snd e < x \<Longrightarrow> below x log = log"
  by (simp add: below_def)

lemma splits_snoc: "splits x log \<Longrightarrow> x \<le> snd e \<Longrightarrow> splits x (log @ [e])"
  by (simp add: splits_def below_def not_less)

lemma below_snoc: "x \<le> snd e \<Longrightarrow> below x (log @ [e]) = below x log"
  by (simp add: below_def not_less)

lemma splits_all: "\<forall>e \<in> set log. snd e < x \<Longrightarrow> splits x log"
  by (simp add: splits_def below_all filter_empty_conv not_le)

lemma below_below: "x \<le> y \<Longrightarrow> below x (below y log) = below x log"
  unfolding below_def filter_filter by (rule filter_cong) auto

lemma splits_below:
  assumes "splits x log"
  shows "splits x (below y log)"
proof -
  have eq: "below y log = below y (below x log) @ below y (filter (\<lambda>e. x \<le> snd e) log)"
    using assms unfolding splits_def below_def by (metis filter_append)
  have comm: "below y (below x log) = below x (below y log)"
    "below y (filter (\<lambda>e. x \<le> snd e) log) = filter (\<lambda>e. x \<le> snd e) (below y log)"
    by (simp_all add: below_def conj_commute)
  show ?thesis using eq unfolding comm splits_def .
qed

lemma splits_take: "splits x log \<Longrightarrow> take (length (below x log)) log = below x log"
  unfolding splits_def by (metis append_eq_conv_conj)

lemma current_xid_ge:
  assumes "subtxn_inv b sm" and "x \<in> stack_xids sm"
  shows "x \<le> stack_current_xid sm"
proof -
  have ne: "sm_stack sm \<noteq> []" using assms(2) by (auto simp: stack_xids_def)
  then obtain l a where st: "sm_stack sm = l @ [a]" by (metis rev_exhaust)
  have "sorted_wrt (<) (map sx_xid l @ [sx_xid a])" using assms(1) st by (simp add: subtxn_inv_def)
  with assms(2) st show ?thesis
    by (auto simp: stack_xids_def stack_current_xid_def stack_snapshot_def sorted_wrt_append less_imp_le)
qed

lemma current_xid_mem:
  "stack_current_xid sm \<in> insert (sm_parent_xid sm) (stack_xids sm)"
  by (auto simp: stack_current_xid_def stack_snapshot_def stack_xids_def)

lemma current_xid_live:
  assumes "subtxn_inv b sm"
  shows "\<not> is_rolled_back sm (stack_current_xid sm)"
  using current_xid_mem [of sm] assms by (auto simp: subtxn_inv_def is_rolled_back_def)

lemma log_inv_less:
  assumes "subtxn_inv b sm" "log_inv sm log" "e \<in> set log"
  shows "unat (snd e) < b"
  using assms by (auto simp: subtxn_inv_def log_inv_def)

text \<open>The identifiers a rollback discards: the target, everything above it, and merged-up ones.\<close>

definition discarded :: "nat \<Rightarrow> subtxn_manager \<Rightarrow> xid set" where
  "discarded pos sm = sx_xid ` set (drop pos (sm_stack sm))
     \<union> {y \<in> sm_merged_up sm. sx_xid (sm_stack sm ! pos) \<le> y}"

lemma stack_split_less:
  assumes "subtxn_inv b sm" "pos < length (sm_stack sm)"
  shows "y \<in> sx_xid ` set (take pos (sm_stack sm)) \<Longrightarrow> y < sx_xid (sm_stack sm ! pos)"
    and "y \<in> sx_xid ` set (drop pos (sm_stack sm)) \<Longrightarrow> sx_xid (sm_stack sm ! pos) \<le> y"
proof -
  let ?st = "sm_stack sm"
  have "sorted_wrt (<) (map sx_xid (take pos ?st @ ?st ! pos # drop (Suc pos) ?st))"
    using assms id_take_nth_drop [OF assms(2)] by (simp add: subtxn_inv_def)
  moreover have "drop pos ?st = ?st ! pos # drop (Suc pos) ?st"
    using assms(2) by (simp add: Cons_nth_drop_Suc)
  ultimately show "y \<in> sx_xid ` set (take pos ?st) \<Longrightarrow> y < sx_xid (?st ! pos)"
    and "y \<in> sx_xid ` set (drop pos ?st) \<Longrightarrow> sx_xid (?st ! pos) \<le> y"
    by (auto simp: sorted_wrt_append less_imp_le)
qed

lemma stack_xids_split:
  "stack_xids sm = sx_xid ` set (take pos (sm_stack sm)) \<union> sx_xid ` set (drop pos (sm_stack sm))"
  unfolding stack_xids_def image_Un [symmetric] set_append [symmetric] append_take_drop_id by simp

lemma discarded_iff:
  assumes inv: "subtxn_inv b sm" and pos: "pos < length (sm_stack sm)"
    and y: "y \<in> insert (sm_parent_xid sm) (stack_xids sm \<union> sm_merged_up sm)"
  shows "y \<in> discarded pos sm \<longleftrightarrow> sx_xid (sm_stack sm ! pos) \<le> y"
proof -
  let ?c = "sx_xid (sm_stack sm ! pos)"
  have c: "?c \<in> stack_xids sm" using pos by (simp add: stack_xids_def)
  then have p: "sm_parent_xid sm < ?c" using inv by (simp add: subtxn_inv_def)
  have gt: "\<forall>z \<in> discarded pos sm. ?c \<le> z"
    using stack_split_less(2) [OF inv pos] by (auto simp: discarded_def)
  from y [unfolded stack_xids_split [of sm pos]] consider "y = sm_parent_xid sm" | "y \<in> sx_xid ` set (take pos (sm_stack sm))"
    | "y \<in> sx_xid ` set (drop pos (sm_stack sm))" | "y \<in> sm_merged_up sm"
    by blast
  then show ?thesis
  proof cases
    case 1 with p have "\<not> ?c \<le> y" by simp
    with gt show ?thesis by blast
  next
    case 2 then have "\<not> ?c \<le> y" using stack_split_less(1) [OF inv pos] by fastforce
    with gt show ?thesis by blast
  next
    case 3 then have "y \<in> discarded pos sm" unfolding discarded_def by blast
    with gt show ?thesis by blast
  next
    case 4 then have "?c \<le> y \<Longrightarrow> y \<in> discarded pos sm" unfolding discarded_def by blast
    with gt show ?thesis by blast
  qed
qed

lemma live_log_rollback:
  assumes "subtxn_inv b sm" "pos < length (sm_stack sm)" "log_inv sm (live_log sm log)"
    and "sm_rolled_back sm' = sm_rolled_back sm \<union> discarded pos sm"
  shows "live_log sm' log = below (sx_xid (sm_stack sm ! pos)) (live_log sm log)"
proof -
  have "live_log sm' log = filter (\<lambda>e. snd e \<notin> discarded pos sm) (live_log sm log)"
    by (auto simp: live_log_def is_rolled_back_def assms(4) conj_commute intro!: filter_cong)
  also have "\<dots> = below (sx_xid (sm_stack sm ! pos)) (live_log sm log)"
    unfolding below_def using assms(3) discarded_iff [OF assms(1,2)]
    by (intro filter_cong) (auto simp: log_inv_def not_le)
  finally show ?thesis .
qed

section \<open>The allocator interface and the simulation\<close>

text \<open>An allocator hands out consecutive identifiers; \<open>bound\<close> is one past the last one.\<close>

locale xid_source =
  fixes alloc :: "'m \<Rightarrow> xid \<times> 'm" and bound :: "'m \<Rightarrow> nat"
  assumes alloc_fresh:
    "bound m < 2 ^ 64 - 1 \<Longrightarrow>
       unat (fst (alloc m)) = bound m \<and> bound (snd (alloc m)) = Suc (bound m)"
begin

lemma savepoint_inv:
  assumes "subtxn_inv (bound m) sm" "bound m < 2 ^ 64 - 1"
    and "savepoint n alloc cid m sm = (e, m', sm')"
  shows "subtxn_inv (bound m') sm'" "bound m' = Suc (bound m)" "unat (sx_xid e) = bound m"
    "sm_stack sm' = sm_stack sm @ [e]" "sx_name e = n"
    "sm_rolled_back sm' = sm_rolled_back sm" "sm_merged_up sm' = sm_merged_up sm"
    "sm_parent_xid sm' = sm_parent_xid sm"
proof -
  obtain x where al: "alloc m = (x, m')" and e: "e = \<lparr>sx_parent_xid = sm_parent_xid sm, sx_xid = x,
      sx_name = n, sx_command_id_at_save = cid\<rparr>" and sm': "sm' = sm\<lparr>sm_stack := sm_stack sm @ [e]\<rparr>"
    using assms(3) by (auto simp: savepoint_def Let_def split: prod.splits)
  have x: "unat x = bound m" and b: "bound m' = Suc (bound m)"
    using alloc_fresh [OF assms(2)] al by auto
  have lt: "y < x" if "unat y < bound m" for y using that x by (simp add: word_less_nat_alt)
  have stx: "stack_xids sm' = insert x (stack_xids sm)" by (simp add: stack_xids_def sm' e)
  have old: "\<forall>y \<in> stack_xids sm \<union> sm_merged_up sm \<union> sm_rolled_back sm. unat y < bound m"
    using assms(1) by (simp add: subtxn_inv_def)
  then have new: "x \<notin> stack_xids sm \<union> sm_merged_up sm \<union> sm_rolled_back sm"
    using x by (metis less_irrefl_nat)
  have srt: "sorted_wrt (<) (map sx_xid (sm_stack sm'))"
    using assms(1) old lt by (auto simp: sm' e sorted_wrt_append subtxn_inv_def stack_xids_def)
  have px: "sm_parent_xid sm < x" using assms(1) lt by (simp add: subtxn_inv_def)
  have upd: "sm_rolled_back sm' = sm_rolled_back sm" "sm_merged_up sm' = sm_merged_up sm"
    "sm_parent_xid sm' = sm_parent_xid sm" by (simp_all add: sm')
  have all: "\<forall>y \<in> insert x (stack_xids sm) \<union> sm_merged_up sm \<union> sm_rolled_back sm.
      sm_parent_xid sm < y \<and> unat y < Suc (bound m)"
    using assms(1) px x by (auto simp: subtxn_inv_def less_Suc_eq)
  have disj: "insert x (stack_xids sm) \<inter> sm_merged_up sm = {}"
    "insert x (stack_xids sm) \<inter> sm_rolled_back sm = {}"
    using assms(1) new by (auto simp: subtxn_inv_def)
  show "subtxn_inv (bound m') sm'"
    using assms(1) srt all disj unfolding subtxn_inv_def stx upd b by (simp add: less_Suc_eq)
  show "bound m' = Suc (bound m)" "unat (sx_xid e) = bound m"
    "sm_stack sm' = sm_stack sm @ [e]" "sx_name e = n"
    "sm_rolled_back sm' = sm_rolled_back sm" "sm_merged_up sm' = sm_merged_up sm"
    "sm_parent_xid sm' = sm_parent_xid sm"
    using x b by (simp_all add: e sm')
qed

lemma rollback_to_inv:
  assumes inv: "subtxn_inv (bound m) sm" "bound m < 2 ^ 64 - 1"
    and pos: "rposition (\<lambda>s. sx_name s = n) (sm_stack sm) = Some pos"
    and rb: "rollback_to n alloc m sm = (r, m', sm')"
  obtains x where "alloc m = (x, m')"
    "r = Inr \<lparr>ro_aborted = sorted_list_of_set (discarded pos sm), ro_new_target_xid = x\<rparr>"
    "subtxn_inv (bound m') sm'" "unat x = bound m" "bound m' = Suc (bound m)"
    "sm_stack sm' = take pos (sm_stack sm) @ [(sm_stack sm ! pos)\<lparr>sx_xid := x\<rparr>]"
    "sm_rolled_back sm' = sm_rolled_back sm \<union> discarded pos sm"
    "sm_merged_up sm' = sm_merged_up sm - discarded pos sm"
    "sm_parent_xid sm' = sm_parent_xid sm"
proof -
  have len: "pos < length (sm_stack sm)" using rposition_Some [OF pos] by simp
  obtain x m1 where al1: "alloc m = (x, m1)" by fastforce
  obtain sm1 where sm1: "rollback_to n alloc m sm = (Inr \<lparr>ro_aborted = sorted_list_of_set (discarded pos sm),
        ro_new_target_xid = x\<rparr>, m1, sm1)"
    "sm_stack sm1 = take pos (sm_stack sm) @ [(sm_stack sm ! pos)\<lparr>sx_xid := x\<rparr>]"
    "sm_rolled_back sm1 = sm_rolled_back sm \<union> discarded pos sm"
    "sm_merged_up sm1 = sm_merged_up sm - discarded pos sm" "sm_parent_xid sm1 = sm_parent_xid sm"
    using rollback_to_found [where name = n and alloc = alloc and m = m, OF pos inv(1) al1]
    unfolding discarded_def by blast
  have al: "alloc m = (x, m')" and eq: "sm1 = sm'" using sm1(1) al1 rb by auto
  have x: "unat x = bound m" and b: "bound m' = Suc (bound m)"
    using alloc_fresh [OF inv(2)] al by auto
  have sm': "r = Inr \<lparr>ro_aborted = sorted_list_of_set (discarded pos sm), ro_new_target_xid = x\<rparr>"
    "sm_stack sm' = take pos (sm_stack sm) @ [(sm_stack sm ! pos)\<lparr>sx_xid := x\<rparr>]"
    "sm_rolled_back sm' = sm_rolled_back sm \<union> discarded pos sm"
    "sm_merged_up sm' = sm_merged_up sm - discarded pos sm" "sm_parent_xid sm' = sm_parent_xid sm"
    using sm1 rb eq by auto
  let ?T = "sx_xid ` set (take pos (sm_stack sm))"
  have old: "\<forall>y \<in> stack_xids sm \<union> sm_merged_up sm \<union> sm_rolled_back sm.
      sm_parent_xid sm < y \<and> unat y < bound m" and pb: "unat (sm_parent_xid sm) < bound m"
    and disj: "stack_xids sm \<inter> sm_merged_up sm = {}" "stack_xids sm \<inter> sm_rolled_back sm = {}"
      "sm_merged_up sm \<inter> sm_rolled_back sm = {}"
    and fin: "finite (sm_merged_up sm)" "finite (sm_rolled_back sm)"
    and srt: "sorted_wrt (<) (map sx_xid (sm_stack sm))"
    using inv(1) by (simp_all add: subtxn_inv_def)
  have lt: "y < x" if "unat y < bound m" for y using that x by (simp add: word_less_nat_alt)
  have T: "?T \<subseteq> stack_xids sm" unfolding stack_xids_split [of sm pos] by blast
  have D: "discarded pos sm \<subseteq> stack_xids sm \<union> sm_merged_up sm"
    unfolding stack_xids_split [of sm pos] discarded_def by blast
  have TD: "?T \<inter> discarded pos sm = {}"
  proof -
    have "y \<notin> discarded pos sm" if "y \<in> ?T" for y
      using discarded_iff [OF inv(1) len, of y] stack_split_less(1) [OF inv(1) len that] T that
      by (metis UnI1 insertI2 leD subsetD)
    then show ?thesis by blast
  qed
  have stx: "stack_xids sm' = insert x ?T" by (simp add: stack_xids_def sm'(2))
  have new: "x \<notin> stack_xids sm \<union> sm_merged_up sm \<union> sm_rolled_back sm"
    using old x by (metis less_irrefl_nat)
  have Tx: "\<forall>y \<in> ?T. y < x" using T old lt by (meson UnI1 subsetD)
  have px: "sm_parent_xid sm < x" using pb lt by blast
  have sub: "insert x ?T \<union> (sm_merged_up sm - discarded pos sm) \<union> (sm_rolled_back sm \<union> discarded pos sm)
      \<subseteq> insert x (stack_xids sm \<union> sm_merged_up sm \<union> sm_rolled_back sm)"
    using T D by blast
  have "sorted_wrt (<) (map sx_xid (sm_stack sm'))"
    using sorted_wrt_take [OF srt, of pos] Tx
    by (simp add: sm'(2) sorted_wrt_append take_map)
  moreover have "finite (discarded pos sm)" using fin by (simp add: discarded_def)
  moreover have "\<forall>y \<in> insert x ?T \<union> (sm_merged_up sm - discarded pos sm)
      \<union> (sm_rolled_back sm \<union> discarded pos sm). sm_parent_xid sm < y \<and> unat y < Suc (bound m)"
    using old px x sub by (metis (no_types, lifting) insertE less_Suc_eq subsetD)
  moreover have "insert x ?T \<inter> (sm_merged_up sm - discarded pos sm) = {}"
    using disj(1) T new by blast
  moreover have "insert x ?T \<inter> (sm_rolled_back sm \<union> discarded pos sm) = {}"
    using disj(2) T D TD new by blast
  moreover have "(sm_merged_up sm - discarded pos sm) \<inter> (sm_rolled_back sm \<union> discarded pos sm) = {}"
    using disj(3) by blast
  ultimately have "subtxn_inv (bound m') sm'"
    unfolding subtxn_inv_def stx sm'(3-5) b using fin pb by simp
  then show thesis using that al x b sm' by blast
qed

lemma write_simulates:
  assumes "impl_inv bound (m, sm, log)" and log': "log' = log @ [(w, stack_current_xid sm)]"
  shows "impl_inv bound (m, sm, log')"
    and "spec_step (SpWrite w) (abs_state (m, sm, log)) = (True, abs_state (m, sm, log'))"
proof -
  let ?e = "(w, stack_current_xid sm)"
  have inv: "subtxn_inv (bound m) sm" and li: "log_inv sm (live_log sm log)" using assms(1) by auto
  have live: "live_log sm log' = live_log sm log @ [?e]"
    using current_xid_live [OF inv] by (simp add: live_log_def log')
  have ge: "x \<le> snd ?e" if "x \<in> stack_xids sm" for x using current_xid_ge [OF inv that] by simp
  have "log_inv sm (live_log sm log')"
    using li ge current_xid_mem [of sm] unfolding log_inv_def live by (auto intro: splits_snoc)
  with inv show "impl_inv bound (m, sm, log')" by simp
  have "below (sx_xid s) (live_log sm log') = below (sx_xid s) (live_log sm log)"
    if "s \<in> set (sm_stack sm)" for s
    unfolding live using ge that by (intro below_snoc) (simp add: stack_xids_def)
  then show "spec_step (SpWrite w) (abs_state (m, sm, log)) = (True, abs_state (m, sm, log'))"
    by (simp add: live)
qed

lemma savepoint_simulates:
  assumes inv: "impl_inv bound (m, sm, log)" "bound m < 2 ^ 64 - 1"
    and sp: "savepoint n alloc cid m sm = (e, m', sm')"
  shows "impl_inv bound (m', sm', log)"
    and "spec_step (SpSavepoint n) (abs_state (m, sm, log)) = (True, abs_state (m', sm', log))"
proof -
  have si: "subtxn_inv (bound m) sm" and li: "log_inv sm (live_log sm log)" using inv by auto
  note new = savepoint_inv [OF si inv(2) sp]
  have live: "live_log sm' log = live_log sm log" by (simp add: live_log_def is_rolled_back_def new)
  have lt: "\<forall>f \<in> set (live_log sm log). snd f < sx_xid e"
    using log_inv_less [OF si li] new(3) by (simp add: word_less_nat_alt)
  have stx: "stack_xids sm' = insert (sx_xid e) (stack_xids sm)" by (simp add: stack_xids_def new)
  have "log_inv sm' (live_log sm log)"
    using li splits_all [OF lt] unfolding log_inv_def stx new by blast
  with new(1) live show "impl_inv bound (m', sm', log)" by simp
  show "spec_step (SpSavepoint n) (abs_state (m, sm, log)) = (True, abs_state (m', sm', log))"
    by (simp add: live new(4,5) below_all [OF lt])
qed

lemma release_simulates:
  assumes inv: "impl_inv bound (m, sm, log)" and rel: "release n sm = (r, sm')"
  shows "impl_inv bound (m, sm', log)"
    and "spec_step (SpRelease n) (abs_state (m, sm, log)) = (\<not> isl r, abs_state (m, sm', log))"
proof -
  have si: "subtxn_inv (bound m) sm" and li: "log_inv sm (live_log sm log)" using inv by auto
  have si': "subtxn_inv (bound m) sm'" using release_inv [OF si, of n] rel by simp
  have pos: "rposition (\<lambda>mk. fst mk = n) (spec_marks (abs_state (m, sm, log))) =
      rposition (\<lambda>s. sx_name s = n) (sm_stack sm)"
    by (simp add: rposition_map comp_def)
  show "impl_inv bound (m, sm', log)"
  proof (cases "rposition (\<lambda>s. sx_name s = n) (sm_stack sm)")
    case None with rel inv show ?thesis by (simp add: release_def)
  next
    case (Some i)
    then have i: "i < length (sm_stack sm)" using rposition_Some by blast
    have sm': "sm_stack sm' = take i (sm_stack sm) @ drop (Suc i) (sm_stack sm)"
      "sm_merged_up sm' = insert (sx_xid (sm_stack sm ! i)) (sm_merged_up sm)"
      "sm_rolled_back sm' = sm_rolled_back sm" "sm_parent_xid sm' = sm_parent_xid sm"
      using rel Some by (auto simp: release_def Let_def)
    have sub: "stack_xids sm' \<subseteq> stack_xids sm"
      by (auto simp: stack_xids_def sm' dest: in_set_takeD in_set_dropD)
    have "stack_xids sm = insert (sx_xid (sm_stack sm ! i)) (stack_xids sm')"
      unfolding stack_xids_def sm' by (subst id_take_nth_drop [OF i]) auto
    with sub have mem: "stack_xids sm \<union> sm_merged_up sm \<subseteq> stack_xids sm' \<union> sm_merged_up sm'"
      unfolding sm' by auto
    have live: "live_log sm' log = live_log sm log" by (simp add: live_log_def is_rolled_back_def sm')
    have "log_inv sm' (live_log sm log)" using li sub mem unfolding log_inv_def sm'(4) by fast
    with si' live show ?thesis by simp
  qed
  show "spec_step (SpRelease n) (abs_state (m, sm, log)) = (\<not> isl r, abs_state (m, sm', log))"
    using rel pos
    by (auto simp: release_def live_log_def is_rolled_back_def Let_def take_map drop_map
        split: option.splits)
qed

lemma rollback_marks:
  assumes si: "subtxn_inv b sm" and li: "log_inv sm L" and i: "i < length (sm_stack sm)"
    and x: "\<forall>e \<in> set L. snd e < x"
  defines "c \<equiv> sx_xid (sm_stack sm ! i)"
  shows "map (\<lambda>s. (sx_name s, length (below (sx_xid s) (below c L))))
           (take i (sm_stack sm) @ [(sm_stack sm ! i)\<lparr>sx_xid := x\<rparr>])
       = take (Suc i) (map (\<lambda>s. (sx_name s, length (below (sx_xid s) L))) (sm_stack sm))"
proof -
  have "below (sx_xid s) (below c L) = below (sx_xid s) L" if "s \<in> set (take i (sm_stack sm))" for s
  proof (rule below_below)
    have "sx_xid s < c" unfolding c_def using that by (intro stack_split_less(1) [OF si i]) simp
    then show "sx_xid s \<le> c" by (rule less_imp_le)
  qed
  moreover have "below x (below c L) = below c L"
    using x by (intro below_all) (simp add: below_def)
  ultimately show ?thesis using i by (simp add: take_map take_Suc_conv_app_nth c_def)
qed

lemma rollback_simulates:
  assumes inv: "impl_inv bound (m, sm, log)" "bound m < 2 ^ 64 - 1"
    and rb: "rollback_to n alloc m sm = (r, m', sm')"
  shows "impl_inv bound (m', sm', log) \<and> bound m' \<le> Suc (bound m)
     \<and> spec_step (SpRollbackTo n) (abs_state (m, sm, log)) = (\<not> isl r, abs_state (m', sm', log))"
proof (cases "rposition (\<lambda>s. sx_name s = n) (sm_stack sm)")
  case None
  with rb inv show ?thesis by (auto simp: rollback_to_def rposition_map comp_def)
next
  case (Some i)
  have si: "subtxn_inv (bound m) sm" and li: "log_inv sm (live_log sm log)" using inv by auto
  have i: "i < length (sm_stack sm)" using rposition_Some [OF Some] by simp
  obtain x where new: "alloc m = (x, m')"
    "r = Inr \<lparr>ro_aborted = sorted_list_of_set (discarded i sm), ro_new_target_xid = x\<rparr>"
    "subtxn_inv (bound m') sm'" "unat x = bound m" "bound m' = Suc (bound m)"
    "sm_stack sm' = take i (sm_stack sm) @ [(sm_stack sm ! i)\<lparr>sx_xid := x\<rparr>]"
    "sm_rolled_back sm' = sm_rolled_back sm \<union> discarded i sm"
    "sm_merged_up sm' = sm_merged_up sm - discarded i sm" "sm_parent_xid sm' = sm_parent_xid sm"
    by (rule rollback_to_inv [OF si inv(2) Some rb])
  let ?c = "sx_xid (sm_stack sm ! i)" and ?L = "live_log sm log"
  have live: "live_log sm' log = below ?c ?L" by (rule live_log_rollback [OF si i li new(7)])
  have lt: "\<forall>e \<in> set ?L. snd e < x"
    using log_inv_less [OF si li] new(4) by (simp add: word_less_nat_alt)
  then have ltb: "\<forall>e \<in> set (below ?c ?L). snd e < x" by (simp add: below_def)
  let ?T = "sx_xid ` set (take i (sm_stack sm))"
  have stx: "stack_xids sm' = insert x ?T" by (simp add: stack_xids_def new(6))
  have mem: "snd e \<in> insert (sm_parent_xid sm) (insert x ?T \<union> (sm_merged_up sm - discarded i sm))"
    if e: "e \<in> set (below ?c ?L)" for e
  proof -
    have "e \<in> set ?L" "snd e < ?c" using e by (auto simp: below_def)
    moreover from this have "snd e \<in> insert (sm_parent_xid sm) (stack_xids sm \<union> sm_merged_up sm)"
      using li by (simp add: log_inv_def)
    ultimately have "snd e \<notin> discarded i sm" using discarded_iff [OF si i] by fastforce
    with \<open>snd e \<in> insert _ _\<close> show ?thesis
      unfolding stack_xids_split [of sm i] discarded_def by blast
  qed
  have "splits y (below ?c ?L)" if "y \<in> insert x ?T" for y
  proof (cases "y = x")
    case True then show ?thesis using splits_all [OF ltb] by simp
  next
    case False
    with that have "y \<in> stack_xids sm" unfolding stack_xids_split [of sm i] by blast
    then show ?thesis using li by (intro splits_below) (simp add: log_inv_def)
  qed
  with mem have "log_inv sm' (live_log sm' log)" unfolding log_inv_def live stx new(8,9) by blast
  moreover have "map fst (take (length (below ?c ?L)) ?L) = map fst (below ?c ?L)"
    using li i by (subst splits_take) (auto simp: log_inv_def stack_xids_def)
  ultimately show ?thesis
    using new(2,3,5) Some i rollback_marks [OF si li i lt]
    by (simp add: live rposition_map comp_def new(6) take_map del: map_append)
qed

lemma step_simulates:
  assumes "impl_inv bound (m, sm, log)" "bound m < 2 ^ 64 - 1"
    and "impl_step alloc cid op (m, sm, log) = (b, m', sm', log')"
  shows "impl_inv bound (m', sm', log') \<and> bound m' \<le> Suc (bound m)
     \<and> spec_step op (abs_state (m, sm, log)) = (b, abs_state (m', sm', log'))"
proof (cases op)
  case (SpWrite w)
  then have eq: "log' = log @ [(w, stack_current_xid sm)]" "m' = m" "sm' = sm" "b" using assms(3) by auto
  show ?thesis using write_simulates [OF assms(1) eq(1)] eq(2-4) SpWrite
    by (simp del: abs_state.simps impl_inv.simps spec_step.simps)
next
  case (SpSavepoint n)
  then obtain e where sp: "savepoint n alloc cid m sm = (e, m', sm')" "log' = log" "b"
    using assms(3) by (auto split: prod.splits)
  have si: "subtxn_inv (bound m) sm" using assms(1) by simp
  show ?thesis
    using savepoint_simulates [OF assms(1,2) sp(1)] savepoint_inv(2) [OF si assms(2) sp(1)] SpSavepoint sp
    by (simp del: abs_state.simps impl_inv.simps spec_step.simps)
next
  case (SpRollbackTo n)
  then obtain r where rb: "rollback_to n alloc m sm = (r, m', sm')" "log' = log" "b = (\<not> isl r)"
    using assms(3) by (auto split: prod.splits)
  show ?thesis using rollback_simulates [OF assms(1,2) rb(1)] SpRollbackTo rb
    by (simp del: abs_state.simps impl_inv.simps spec_step.simps)
next
  case (SpRelease n)
  then obtain r where rl: "release n sm = (r, sm')" "log' = log" "b = (\<not> isl r)" "m' = m"
    using assms(3) by (auto split: prod.splits)
  show ?thesis using release_simulates [OF assms(1) rl(1)] SpRelease rl
    by (simp del: abs_state.simps impl_inv.simps spec_step.simps)
qed

lemma run_simulates:
  assumes "impl_inv bound (m, sm, log)" "bound m + length ops < 2 ^ 64 - 1"
    and "run_ops (impl_step alloc cid) ops (m, sm, log) = (bs, st')"
  shows "impl_inv bound st' \<and> run_ops spec_step ops (abs_state (m, sm, log)) = (bs, abs_state st')"
  using assms
proof (induction ops arbitrary: m sm log bs)
  case (Cons a ops)
  obtain b m1 sm1 log1 where s1: "impl_step alloc cid a (m, sm, log) = (b, m1, sm1, log1)"
    by (metis prod_cases4)
  obtain bs1 where s2: "run_ops (impl_step alloc cid) ops (m1, sm1, log1) = (bs1, st')" "bs = b # bs1"
    using Cons.prems(3) s1 by (auto split: prod.splits)
  have "bound m < 2 ^ 64 - 1" using Cons.prems(2) by simp
  note st = step_simulates [OF Cons.prems(1) this s1]
  have "bound m1 + length ops < 2 ^ 64 - 1" using st Cons.prems(2) by simp
  from Cons.IH [OF _ this s2(1)] st s2 show ?case
    by (simp del: abs_state.simps impl_inv.simps spec_step.simps)
qed auto

end

end
