(* ===== verification/Lock_Table.thy ===== *)
theory Lock_Table
  imports Core_Ids "HOL-Library.AList"
begin

text \<open>
  The central lock table, \<^verbatim>\<open>crates/ultrasql-txn/src/lock.rs\<close>, and the row-lock wrappers of
  \<^verbatim>\<open>crates/ultrasql-txn/src/row_lock.rs\<close>. Concurrent hash maps are association lists with
  distinct keys. A blocking acquire is split where the thread parks: \<open>acquire_start\<close> runs up
  to the first park, \<open>acquire_wake\<close> is one turn of the wait loop, with the outcome of the
  cancellation observer and of the deadline clock as arguments.

  An operation here is one atomic step. In the source that is one critical section of the
  entry's mutex for the part that grants and queues, but not for everything the operation
  touches: an acquire first registers the transaction's state and finds or creates the entry in
  the two hash maps and then locks the entry, the bulk releases lock the entries one after the
  other, and the detector reads one entry at a time. \<open>Lock_Race\<close> takes the first of these apart.
  The per-thread fast path (\<open>acquire_fastpath\<close>, \<open>release_fastpath\<close>) does not touch the table
  except by falling back on the operations above, and is not a step of the table's runs.
\<close>

section \<open>Modes and tags\<close>

datatype lock_mode =
  AccessShare | RowShare | RowExclusive | ShareUpdateExclusive | Share
  | ShareRowExclusive | Exclusive | AccessExclusive

fun conflicts_with :: "lock_mode \<Rightarrow> lock_mode \<Rightarrow> bool" where
  "conflicts_with Exclusive AccessShare = False"
| "conflicts_with Exclusive RowShare = False"
| "conflicts_with AccessShare Exclusive = False"
| "conflicts_with RowShare Exclusive = False"
| "conflicts_with AccessExclusive _ = True"
| "conflicts_with _ AccessExclusive = True"
| "conflicts_with Exclusive _ = True"
| "conflicts_with _ Exclusive = True"
| "conflicts_with ShareRowExclusive RowExclusive = True"
| "conflicts_with ShareRowExclusive ShareUpdateExclusive = True"
| "conflicts_with ShareRowExclusive Share = True"
| "conflicts_with ShareRowExclusive ShareRowExclusive = True"
| "conflicts_with RowExclusive ShareRowExclusive = True"
| "conflicts_with ShareUpdateExclusive ShareRowExclusive = True"
| "conflicts_with Share ShareRowExclusive = True"
| "conflicts_with Share RowExclusive = True"
| "conflicts_with Share ShareUpdateExclusive = True"
| "conflicts_with RowExclusive Share = True"
| "conflicts_with ShareUpdateExclusive Share = True"
| "conflicts_with ShareUpdateExclusive ShareUpdateExclusive = True"
| "conflicts_with RowExclusive ShareUpdateExclusive = True"
| "conflicts_with ShareUpdateExclusive RowExclusive = True"
| "conflicts_with _ _ = False"

definition is_access_share :: "lock_mode \<Rightarrow> bool" where
  "is_access_share m \<longleftrightarrow> (case m of AccessShare \<Rightarrow> True | _ \<Rightarrow> False)"

datatype lock_tag = LockRelation relation_id | LockTuple tuple_id | LockAdvisory u32 u32

record lock_request =
  lq_xid :: xid
  lq_tag :: lock_tag
  lq_mode :: lock_mode

datatype lock_error = Deadlock xid | Timeout | Conflict | Cancelled | FastpathOverflow

section \<open>State\<close>

record grant =
  gr_xid :: xid
  gr_mode :: lock_mode
  gr_owner :: xid

record lock_entry =
  le_grants :: "grant list"
  le_waiters :: "(xid \<times> lock_mode) list"

definition lock_entry_new :: lock_entry where
  "lock_entry_new = \<lparr>le_grants = [], le_waiters = []\<rparr>"

text \<open>The table and the per-transaction victim flags.\<close>

record lock_manager =
  lm_table :: "(lock_tag \<times> lock_entry) list"
  lm_xid_states :: "(xid \<times> bool) list"

definition lock_manager_new :: lock_manager where
  "lock_manager_new = \<lparr>lm_table = [], lm_xid_states = []\<rparr>"

section \<open>Helpers\<close>

definition has_conflict :: "grant list \<Rightarrow> xid \<Rightarrow> lock_mode \<Rightarrow> bool" where
  "has_conflict grants requester mode \<longleftrightarrow>
     list_ex (\<lambda>g. gr_xid g \<noteq> requester \<and> conflicts_with mode (gr_mode g)) grants"

primrec remove_first :: "('a \<Rightarrow> bool) \<Rightarrow> 'a list \<Rightarrow> 'a list" where
  "remove_first P [] = []"
| "remove_first P (x # xs) = (if P x then xs else x # remove_first P xs)"

definition remove_waiter :: "xid \<Rightarrow> lock_mode \<Rightarrow> lock_entry \<Rightarrow> lock_entry" where
  "remove_waiter x mode e =
     e\<lparr>le_waiters := remove_first (\<lambda>(wx, wm). wx = x \<and> wm = mode) (le_waiters e)\<rparr>"

definition ensure_xid_state :: "xid \<Rightarrow> lock_manager \<Rightarrow> lock_manager" where
  "ensure_xid_state x lm =
     (case map_of (lm_xid_states lm) x of
        Some _ \<Rightarrow> lm
      | None \<Rightarrow> lm\<lparr>lm_xid_states := AList.update x False (lm_xid_states lm)\<rparr>)"

definition is_victim :: "xid \<Rightarrow> lock_manager \<Rightarrow> bool" where
  "is_victim x lm = (case map_of (lm_xid_states lm) x of Some v \<Rightarrow> v | None \<Rightarrow> False)"

definition clear_victim :: "xid \<Rightarrow> lock_manager \<Rightarrow> lock_manager" where
  "clear_victim x lm =
     (case map_of (lm_xid_states lm) x of
        Some _ \<Rightarrow> lm\<lparr>lm_xid_states := AList.update x False (lm_xid_states lm)\<rparr>
      | None \<Rightarrow> lm)"

definition entry_or_new :: "lock_tag \<Rightarrow> lock_manager \<Rightarrow> lock_entry" where
  "entry_or_new tag lm = (case map_of (lm_table lm) tag of Some e \<Rightarrow> e | None \<Rightarrow> lock_entry_new)"

definition put_entry :: "lock_tag \<Rightarrow> lock_entry \<Rightarrow> lock_manager \<Rightarrow> lock_manager" where
  "put_entry tag e lm = lm\<lparr>lm_table := AList.update tag e (lm_table lm)\<rparr>"

definition add_grant :: "lock_request \<Rightarrow> xid \<Rightarrow> lock_entry \<Rightarrow> lock_entry" where
  "add_grant req owner e =
     e\<lparr>le_grants := le_grants e @ [\<lparr>gr_xid = lq_xid req, gr_mode = lq_mode req, gr_owner = owner\<rparr>]\<rparr>"

definition prune_entry_if_empty :: "lock_tag \<Rightarrow> lock_manager \<Rightarrow> lock_manager" where
  "prune_entry_if_empty tag lm =
     (case map_of (lm_table lm) tag of
        Some e \<Rightarrow> if le_grants e = [] \<and> le_waiters e = []
                  then lm\<lparr>lm_table := AList.delete tag (lm_table lm)\<rparr> else lm
      | None \<Rightarrow> lm)"

section \<open>Acquiring\<close>

datatype acquire_outcome = Done "lock_error + unit" | Parked

definition acquire_start ::
  "lock_request \<Rightarrow> xid \<Rightarrow> bool \<Rightarrow> lock_manager \<Rightarrow> acquire_outcome \<times> lock_manager" where
  "acquire_start req owner is_cancelled lm =
     (let lm = ensure_xid_state (lq_xid req) lm;
          e = entry_or_new (lq_tag req) lm;
          lm = put_entry (lq_tag req) e lm in
      if \<not> has_conflict (le_grants e) (lq_xid req) (lq_mode req) then
        (Done (Inr ()), clear_victim (lq_xid req) (put_entry (lq_tag req) (add_grant req owner e) lm))
      else if is_cancelled then (Done (Inl Cancelled), lm)
      else
        let e = e\<lparr>le_waiters := le_waiters e @ [(lq_xid req, lq_mode req)]\<rparr> in
        if is_victim (lq_xid req) lm
        then (Done (Inl (Deadlock (lq_xid req))),
              put_entry (lq_tag req) (remove_waiter (lq_xid req) (lq_mode req) e) lm)
        else (Parked, put_entry (lq_tag req) e lm))"

definition acquire_wake ::
  "lock_request \<Rightarrow> xid \<Rightarrow> bool \<Rightarrow> bool \<Rightarrow> lock_manager \<Rightarrow> acquire_outcome \<times> lock_manager" where
  "acquire_wake req owner is_cancelled deadline_passed lm =
     (let e = entry_or_new (lq_tag req) lm;
          e' = remove_waiter (lq_xid req) (lq_mode req) e in
      if is_victim (lq_xid req) lm then
        (Done (Inl (Deadlock (lq_xid req))), put_entry (lq_tag req) e' lm)
      else if \<not> has_conflict (le_grants e) (lq_xid req) (lq_mode req) then
        (Done (Inr ()), clear_victim (lq_xid req) (put_entry (lq_tag req) (add_grant req owner e') lm))
      else if is_cancelled then (Done (Inl Cancelled), put_entry (lq_tag req) e' lm)
      else if deadline_passed then (Done (Inl Timeout), put_entry (lq_tag req) e' lm)
      else (Parked, lm))"

definition try_acquire_with_owner ::
  "lock_request \<Rightarrow> xid \<Rightarrow> lock_manager \<Rightarrow> (lock_error + bool) \<times> lock_manager" where
  "try_acquire_with_owner req owner lm =
     (let lm = ensure_xid_state (lq_xid req) lm in
      if is_victim (lq_xid req) lm then (Inl (Deadlock (lq_xid req)), lm)
      else
        let e = entry_or_new (lq_tag req) lm;
            lm = put_entry (lq_tag req) e lm in
        if has_conflict (le_grants e) (lq_xid req) (lq_mode req) then (Inr False, lm)
        else (Inr True, put_entry (lq_tag req) (add_grant req owner e) lm))"

section \<open>Releasing\<close>

definition lock_release :: "xid \<Rightarrow> lock_tag \<Rightarrow> lock_mode \<Rightarrow> lock_manager \<Rightarrow> lock_manager" where
  "lock_release x tag mode lm =
     (case map_of (lm_table lm) tag of
        None \<Rightarrow> lm
      | Some e \<Rightarrow>
          prune_entry_if_empty tag
            (put_entry tag
               (e\<lparr>le_grants := remove_first (\<lambda>g. gr_xid g = x \<and> gr_mode g = mode) (le_grants e)\<rparr>) lm))"

text \<open>
  The common sweep of \<^verbatim>\<open>release_all\<close> and \<^verbatim>\<open>release_subxact_locks\<close>: collect the tags with an
  affected grant, then retain the others entry by entry and prune.
\<close>

definition affected_tags :: "(grant \<Rightarrow> bool) \<Rightarrow> lock_manager \<Rightarrow> lock_tag list" where
  "affected_tags P lm = map fst (filter (\<lambda>(tag, e). list_ex P (le_grants e)) (lm_table lm))"

definition retain_tag :: "(grant \<Rightarrow> bool) \<Rightarrow> lock_tag \<Rightarrow> lock_manager \<Rightarrow> lock_manager" where
  "retain_tag P tag lm =
     (case map_of (lm_table lm) tag of
        None \<Rightarrow> lm
      | Some e \<Rightarrow>
          prune_entry_if_empty tag
            (put_entry tag (e\<lparr>le_grants := filter (\<lambda>g. \<not> P g) (le_grants e)\<rparr>) lm))"

definition sweep :: "(grant \<Rightarrow> bool) \<Rightarrow> lock_manager \<Rightarrow> lock_manager" where
  "sweep P lm = fold (retain_tag P) (affected_tags P lm) lm"

definition release_all :: "xid \<Rightarrow> lock_manager \<Rightarrow> lock_manager" where
  "release_all x lm =
     (let lm = sweep (\<lambda>g. gr_xid g = x) lm in
      lm\<lparr>lm_xid_states := AList.delete x (lm_xid_states lm)\<rparr>)"

definition release_subxact_locks :: "xid list \<Rightarrow> lock_manager \<Rightarrow> lock_manager" where
  "release_subxact_locks owners lm =
     (if owners = [] then lm else sweep (\<lambda>g. gr_owner g \<in> set owners) lm)"

section \<open>Inspection\<close>

record lock_table_snapshot =
  ls_grants :: "(xid \<times> lock_mode) list"
  ls_waiters :: "(xid \<times> lock_mode) list"

definition entry_snapshot :: "lock_entry \<Rightarrow> lock_table_snapshot" where
  "entry_snapshot e =
     \<lparr>ls_grants = map (\<lambda>g. (gr_xid g, gr_mode g)) (le_grants e), ls_waiters = le_waiters e\<rparr>"

definition inspect :: "lock_tag \<Rightarrow> lock_manager \<Rightarrow> lock_table_snapshot option" where
  "inspect tag lm = map_option entry_snapshot (map_of (lm_table lm) tag)"

definition lock_snapshot :: "lock_manager \<Rightarrow> (lock_tag \<times> lock_table_snapshot) list" where
  "lock_snapshot lm =
     map (\<lambda>(tag, e). (tag, entry_snapshot e))
       (filter (\<lambda>(tag, e). \<not> (le_grants e = [] \<and> le_waiters e = [])) (lm_table lm))"

section \<open>Fastpath and row locks\<close>

record fastpath_entry =
  fp_tag :: lock_tag
  fp_mode :: lock_mode
  fp_count :: u32

primrec bump_fastpath :: "lock_tag \<Rightarrow> lock_mode \<Rightarrow> fastpath_entry list \<Rightarrow> (lock_error + fastpath_entry list) option" where
  "bump_fastpath tag mode [] = None"
| "bump_fastpath tag mode (e # es) =
     (if fp_tag e = tag \<and> fp_mode e = mode then
        Some (case checked_add (fp_count e) 1 of
                Some c \<Rightarrow> Inr (e\<lparr>fp_count := c\<rparr> # es) | None \<Rightarrow> Inl FastpathOverflow)
      else map_option (map_sum id (Cons e)) (bump_fastpath tag mode es))"

definition acquire_fastpath ::
  "lock_request \<Rightarrow> fastpath_entry list \<Rightarrow> lock_manager
     \<Rightarrow> acquire_outcome \<times> fastpath_entry list \<times> lock_manager" where
  "acquire_fastpath req cache lm =
     (if is_access_share (lq_mode req) \<and> (case lq_tag req of LockRelation _ \<Rightarrow> True | _ \<Rightarrow> False) then
        (case bump_fastpath (lq_tag req) (lq_mode req) cache of
           Some (Inl err) \<Rightarrow> (Done (Inl err), cache, lm)
         | Some (Inr cache') \<Rightarrow> (Done (Inr ()), cache', lm)
         | None \<Rightarrow>
             (Done (Inr ()),
              cache @ [\<lparr>fp_tag = lq_tag req, fp_mode = lq_mode req, fp_count = 1\<rparr>], lm))
      else
        case acquire_start req (lq_xid req) False lm of (r, lm') \<Rightarrow> (r, cache, lm'))"

primrec drop_fastpath :: "lock_tag \<Rightarrow> lock_mode \<Rightarrow> fastpath_entry list \<Rightarrow> fastpath_entry list option" where
  "drop_fastpath tag mode [] = None"
| "drop_fastpath tag mode (e # es) =
     (if fp_tag e = tag \<and> fp_mode e = mode then
        Some (if 1 < fp_count e then e\<lparr>fp_count := fp_count e - 1\<rparr> # es else es)
      else map_option (Cons e) (drop_fastpath tag mode es))"

definition release_fastpath ::
  "xid \<Rightarrow> lock_tag \<Rightarrow> lock_mode \<Rightarrow> fastpath_entry list \<Rightarrow> lock_manager
     \<Rightarrow> fastpath_entry list \<times> lock_manager" where
  "release_fastpath x tag mode cache lm =
     (if is_access_share mode \<and> (case tag of LockRelation _ \<Rightarrow> True | _ \<Rightarrow> False) then
        (case drop_fastpath tag mode cache of
           Some cache' \<Rightarrow> (cache', lm)
         | None \<Rightarrow> (cache, lock_release x tag mode lm))
      else (cache, lock_release x tag mode lm))"

datatype row_lock_mode = ForUpdate | ForNoKeyUpdate | ForShare | ForKeyShare

fun to_lock_mode :: "row_lock_mode \<Rightarrow> lock_mode" where
  "to_lock_mode ForUpdate = Exclusive"
| "to_lock_mode ForNoKeyUpdate = RowExclusive"
| "to_lock_mode ForShare = Share"
| "to_lock_mode ForKeyShare = RowShare"

record row_lock_request =
  rq_xid :: xid
  rq_tid :: tuple_id
  rq_mode :: row_lock_mode

definition acquire_row_lock :: "row_lock_request \<Rightarrow> lock_manager \<Rightarrow> acquire_outcome \<times> lock_manager" where
  "acquire_row_lock req lm =
     acquire_start \<lparr>lq_xid = rq_xid req, lq_tag = LockTuple (rq_tid req),
                    lq_mode = to_lock_mode (rq_mode req)\<rparr> (rq_xid req) False lm"

definition release_row_lock :: "xid \<Rightarrow> tuple_id \<Rightarrow> row_lock_mode \<Rightarrow> lock_manager \<Rightarrow> lock_manager" where
  "release_row_lock x tid mode lm = lock_release x (LockTuple tid) (to_lock_mode mode) lm"

end
