(* ===== verification/Deadlock.thy ===== *)
theory Deadlock
  imports Lock_Table
begin

text \<open>
  The deadlock detector of \<^verbatim>\<open>crates/ultrasql-txn/src/lock.rs\<close>: the wait-for graph of a lock
  table, the recursive depth-first search with its three colours (unseen, on the path, done)
  and the sweep that flags victims. The recursion carries fuel; \<open>dfs_total\<close> shows that one
  more than the number of edges is always enough, so no run is cut short. The start order of
  the sweep is the iteration order of a hash map and is an argument.
\<close>

type_synonym wait_graph = "(xid \<times> xid) list"

text \<open>One edge per waiter and conflicting holder, entry by entry.\<close>

definition entry_edges :: "lock_entry \<Rightarrow> wait_graph" where
  "entry_edges e =
     concat (map (\<lambda>(w, mode).
         map (\<lambda>g. (w, gr_xid g))
           (filter (\<lambda>g. conflicts_with mode (gr_mode g) \<and> w \<noteq> gr_xid g) (le_grants e)))
       (le_waiters e))"

definition wait_for :: "lock_manager \<Rightarrow> wait_graph" where
  "wait_for lm = concat (map (\<lambda>(tag, e). entry_edges e) (lm_table lm))"

definition neighbors :: "wait_graph \<Rightarrow> xid \<Rightarrow> xid list" where
  "neighbors g n = map snd (filter (\<lambda>p. fst p = n) g)"

record dfs_state =
  ds_visited :: "(xid \<times> bool) list"
  ds_on_stack :: "xid list"
  ds_xid_states :: "(xid \<times> bool) list"
  ds_victims :: "xid list"

definition mark_victim :: "xid \<Rightarrow> (xid \<times> bool) list \<Rightarrow> (xid \<times> bool) list" where
  "mark_victim x states =
     (case map_of states x of Some _ \<Rightarrow> AList.update x True states | None \<Rightarrow> states)"

text \<open>A back edge to \<open>v\<close>: the path from \<open>v\<close> on is the cycle, its youngest member the victim.\<close>

definition report_cycle :: "xid \<Rightarrow> dfs_state \<Rightarrow> dfs_state" where
  "report_cycle v s =
     (let cycle = dropWhile (\<lambda>x. x \<noteq> v) (ds_on_stack s);
          victim = Max (set cycle) in
      s\<lparr>ds_xid_states := mark_victim victim (ds_xid_states s),
        ds_victims := ds_victims s @ [victim]\<rparr>)"

function (sequential)
  dfs_find_cycle :: "nat \<Rightarrow> wait_graph \<Rightarrow> xid \<Rightarrow> dfs_state \<Rightarrow> dfs_state option"
  and dfs_neighbors :: "nat \<Rightarrow> wait_graph \<Rightarrow> xid list \<Rightarrow> dfs_state \<Rightarrow> dfs_state option" where
  "dfs_find_cycle 0 g n s = None"
| "dfs_find_cycle (Suc k) g n s =
     (case dfs_neighbors k g (neighbors g n) (s\<lparr>ds_on_stack := ds_on_stack s @ [n]\<rparr>) of
        None \<Rightarrow> None
      | Some s' \<Rightarrow> Some (s'\<lparr>ds_on_stack := butlast (ds_on_stack s'),
                           ds_visited := AList.update n True (ds_visited s')\<rparr>))"
| "dfs_neighbors k g [] s = Some s"
| "dfs_neighbors k g (v # vs) s =
     (case map_of (ds_visited s) v of
        Some fully_done \<Rightarrow>
          if fully_done then dfs_neighbors k g vs s
          else if v \<in> set (ds_on_stack s) then dfs_neighbors k g vs (report_cycle v s)
          else dfs_neighbors k g vs s
      | None \<Rightarrow>
          (case dfs_find_cycle k g v (s\<lparr>ds_visited := AList.update v False (ds_visited s)\<rparr>) of
             None \<Rightarrow> None
           | Some s' \<Rightarrow> dfs_neighbors k g vs s'))"
  by pat_completeness auto
termination
  by (relation "measures [\<lambda>x. case x of Inl (k, _) \<Rightarrow> k | Inr (k, _) \<Rightarrow> k,
                          \<lambda>x. case x of Inl _ \<Rightarrow> 0 | Inr (_, _, vs, _) \<Rightarrow> Suc (length vs)]") auto

primrec dfs_sweep :: "nat \<Rightarrow> wait_graph \<Rightarrow> xid list \<Rightarrow> dfs_state \<Rightarrow> dfs_state option" where
  "dfs_sweep k g [] s = Some s"
| "dfs_sweep k g (n # ns) s =
     (if map_of (ds_visited s) n \<noteq> None then dfs_sweep k g ns s
      else case dfs_find_cycle k g n s of None \<Rightarrow> None | Some s' \<Rightarrow> dfs_sweep k g ns s')"

definition dfs_start :: "lock_manager \<Rightarrow> dfs_state" where
  "dfs_start lm = \<lparr>ds_visited = [], ds_on_stack = [], ds_xid_states = lm_xid_states lm, ds_victims = []\<rparr>"

definition detect_and_resolve :: "xid list \<Rightarrow> lock_manager \<Rightarrow> (lock_manager \<times> xid list) option" where
  "detect_and_resolve all_nodes lm =
     (let g = wait_for lm in
      if g = [] then Some (lm, [])
      else map_option (\<lambda>s. (lm\<lparr>lm_xid_states := ds_xid_states s\<rparr>, ds_victims s))
             (dfs_sweep (Suc (length g)) g all_nodes (dfs_start lm)))"

section \<open>The search always returns\<close>

definition seen :: "dfs_state \<Rightarrow> xid set" where
  "seen s = dom (map_of (ds_visited s))"

definition unseen :: "wait_graph \<Rightarrow> dfs_state \<Rightarrow> xid set" where
  "unseen g s = snd ` set g - seen s"

lemma finite_unseen [simp]: "finite (unseen g s)"
  by (simp add: unseen_def)

lemma neighbors_iff [simp]: "v \<in> set (neighbors g n) \<longleftrightarrow> (n, v) \<in> set g"
  by (force simp: neighbors_def)

lemma report_cycle_fields [simp]:
  "ds_visited (report_cycle v s) = ds_visited s" "ds_on_stack (report_cycle v s) = ds_on_stack s"
  by (simp_all add: report_cycle_def Let_def)

lemma seen_simps [simp]:
  "seen (s\<lparr>ds_visited := AList.update v b (ds_visited s)\<rparr>) = insert v (seen s)"
  "seen (s\<lparr>ds_on_stack := st\<rparr>) = seen s"
  "seen (s\<lparr>ds_on_stack := st, ds_visited := AList.update v b (ds_visited s)\<rparr>) = insert v (seen s)"
  "seen (report_cycle v s) = seen s"
  by (simp_all add: seen_def update_conv')

lemma seen_iff: "v \<in> seen s \<longleftrightarrow> map_of (ds_visited s) v \<noteq> None"
  by (simp add: seen_def dom_def)

lemma dfs_seen_mono:
  "dfs_find_cycle k g n s = Some s' \<Longrightarrow> seen s \<subseteq> seen s'"
  "dfs_neighbors k g vs s = Some s' \<Longrightarrow> seen s \<subseteq> seen s'"
proof (induction k g n s and k g vs s arbitrary: s' and s' rule: dfs_find_cycle_dfs_neighbors.induct)
  case (2 k g n s)
  then show ?case by (auto split: option.splits)
next
  case (4 k g v vs s)
  show ?case
  proof (cases "map_of (ds_visited s) v")
    case (Some d)
    with "4.IH"(3-5) [OF Some] "4.prems" show ?thesis by (auto split: if_splits)
  next
    case None
    with "4.prems" obtain s1 where s1: "dfs_find_cycle k g v (s\<lparr>ds_visited := AList.update v False (ds_visited s)\<rparr>) = Some s1"
      "dfs_neighbors k g vs s1 = Some s'" by (auto split: option.splits)
    from "4.IH"(1) [OF None s1(1)] "4.IH"(2) [OF None s1] show ?thesis by auto
  qed
qed auto

lemma unseen_mono: "seen s \<subseteq> seen s' \<Longrightarrow> card (unseen g s') \<le> card (unseen g s)"
  by (rule card_mono) (auto simp: unseen_def)

lemma dfs_total:
  "card (unseen g s) < k \<Longrightarrow> \<exists>s'. dfs_find_cycle k g n s = Some s'"
  "card (unseen g s) \<le> k \<Longrightarrow> set vs \<subseteq> snd ` set g \<Longrightarrow> \<exists>s'. dfs_neighbors k g vs s = Some s'"
proof (induction k g n s and k g vs s rule: dfs_find_cycle_dfs_neighbors.induct)
  case (2 k g n s)
  have "set (neighbors g n) \<subseteq> snd ` set g" by force
  with 2 show ?case by (fastforce simp: unseen_def)
next
  case (4 k g v vs s)
  show ?case
  proof (cases "map_of (ds_visited s) v")
    case (Some d)
    with "4.IH"(3-5) [OF Some] "4.prems" show ?thesis by (auto simp: unseen_def)
  next
    case None
    let ?s = "s\<lparr>ds_visited := AList.update v False (ds_visited s)\<rparr>"
    have "unseen g ?s = unseen g s - {v}" "v \<in> unseen g s"
      using None "4.prems" by (auto simp: unseen_def seen_iff)
    then have "card (unseen g ?s) < card (unseen g s)" by (metis card_Diff1_less finite_unseen)
    then have lt: "card (unseen g ?s) < k" using "4.prems" by simp
    then obtain s1 where s1: "dfs_find_cycle k g v ?s = Some s1" using "4.IH"(1) None by blast
    have "card (unseen g s1) \<le> k" using unseen_mono [OF dfs_seen_mono(1) [OF s1], of g] lt by simp
    then have "\<exists>s'. dfs_neighbors k g vs s1 = Some s'" using "4.IH"(2) [OF None s1] "4.prems" by simp
    then show ?thesis using None s1 by auto
  qed
qed auto

section \<open>Soundness: a victim lies on a cycle\<close>

definition is_cycle :: "wait_graph \<Rightarrow> xid list \<Rightarrow> bool" where
  "is_cycle g c \<longleftrightarrow> c \<noteq> [] \<and> successively (\<lambda>a b. (a, b) \<in> set g) c \<and> (last c, hd c) \<in> set g"

definition sound_victims :: "wait_graph \<Rightarrow> xid list \<Rightarrow> bool" where
  "sound_victims g vs \<longleftrightarrow> (\<forall>x \<in> set vs. \<exists>c. is_cycle g c \<and> x = Max (set c))"

lemma path_reach:
  "successively (\<lambda>a b. (a, b) \<in> R) (a # xs) \<Longrightarrow> x \<in> set (a # xs) \<Longrightarrow>
     (a, x) \<in> R\<^sup>* \<and> (x, last (a # xs)) \<in> R\<^sup>*"
proof (induction xs arbitrary: a x)
  case (Cons b xs)
  have ab: "(a, b) \<in> R" and sb: "successively (\<lambda>a b. (a, b) \<in> R) (b # xs)" using Cons.prems(1) by auto
  note IH = Cons.IH [OF sb]
  have bl: "(b, last (b # xs)) \<in> R\<^sup>*" using IH [of b] by simp
  show ?case
  proof (cases "x = a")
    case True
    then show ?thesis using ab bl by (auto intro: converse_rtrancl_into_rtrancl)
  next
    case False
    then have "x \<in> set (b # xs)" using Cons.prems(2) by simp
    then show ?thesis using IH [of x] ab by (auto intro: converse_rtrancl_into_rtrancl)
  qed
qed simp

lemma cycle_not_acyclic:
  assumes "is_cycle g c"
  shows "\<not> acyclic (set g)"
proof -
  obtain v zs where c: "c = v # zs" using assms by (auto simp: is_cycle_def neq_Nil_conv)
  have "(v, last c) \<in> (set g)\<^sup>*" "(last c, v) \<in> set g"
    using assms path_reach [of "set g" v zs v] unfolding c by (auto simp: is_cycle_def)
  then have "(v, v) \<in> (set g)\<^sup>+" by (rule rtrancl_into_trancl1)
  then show ?thesis by (auto simp: acyclic_def)
qed

text \<open>
  The path may pass a start node twice, since a start node is not marked before it is searched;
  its youngest member still is the youngest of a simple cycle.
\<close>

lemma split_cycle:
  assumes "is_cycle g (xs @ y # ys @ y # zs)"
  shows "is_cycle g (y # ys)" "is_cycle g (xs @ y # zs)"
proof -
  let ?R = "\<lambda>a b. (a, b) \<in> set g"
  have w: "successively ?R (xs @ (y # ys) @ (y # zs))" and c: "(last (y # zs), hd (xs @ y # ys)) \<in> set g"
    using assms by (cases xs; simp add: is_cycle_def)+
  have p: "successively ?R xs" "successively ?R (y # ys)" "successively ?R (y # zs)"
    "(last (y # ys), y) \<in> set g" "xs \<noteq> [] \<longrightarrow> (last xs, y) \<in> set g"
    using w successively_append_iff [of ?R xs "(y # ys) @ (y # zs)"] successively_append_iff [of ?R "y # ys" "y # zs"]
    by auto
  show "is_cycle g (y # ys)" using p by (simp add: is_cycle_def)
  show "is_cycle g (xs @ y # zs)"
    using p c successively_append_iff [of ?R xs "y # zs"] by (cases xs) (auto simp: is_cycle_def)
qed

lemma simple_cycle_through:
  assumes "is_cycle g c" "v \<in> set c"
  shows "\<exists>c'. is_cycle g c' \<and> distinct c' \<and> v \<in> set c' \<and> set c' \<subseteq> set c"
  using assms
proof (induction c rule: length_induct)
  case (1 c)
  show ?case
  proof (cases "distinct c")
    case False
    then obtain xs y ys zs where c: "c = xs @ y # ys @ y # zs" using not_distinct_decomp by fastforce
    from 1(2) have parts: "is_cycle g (y # ys)" "is_cycle g (xs @ y # zs)" unfolding c by (rule split_cycle)+
    show ?thesis
    proof (cases "v \<in> set (y # ys)")
      case True
      with 1(1) [rule_format, of "y # ys"] parts(1) show ?thesis unfolding c by fastforce
    next
      case False
      then have "v \<in> set (xs @ y # zs)" using 1(3) unfolding c by auto
      with 1(1) [rule_format, of "xs @ y # zs"] parts(2) show ?thesis unfolding c by fastforce
    qed
  qed (use 1 in auto)
qed

lemma cycle_member_waits: "is_cycle g c \<Longrightarrow> v \<in> set c \<Longrightarrow> v \<in> fst ` set g"
proof (induction c rule: rev_induct)
  case (snoc a c)
  show ?case
  proof (cases "v = a")
    case True
    then show ?thesis using snoc.prems(1) by (force simp: is_cycle_def)
  next
    case False
    then obtain xs ys where c: "c = xs @ v # ys" using snoc.prems(2) by (auto dest: split_list)
    have "(v, hd (ys @ [a])) \<in> set g"
      using snoc.prems(1) unfolding c by (cases ys) (auto simp: is_cycle_def successively_append_iff)
    then show ?thesis by force
  qed
qed simp

lemma victim_on_simple_cycle:
  assumes "is_cycle g c" "v = Max (set c)"
  shows "v \<in> fst ` set g \<and> (\<exists>c. is_cycle g c \<and> distinct c \<and> v = Max (set c))"
proof -
  have v: "v \<in> set c" using assms by (auto simp: is_cycle_def)
  then obtain c' where c': "is_cycle g c'" "distinct c'" "v \<in> set c'" "set c' \<subseteq> set c"
    using simple_cycle_through [OF assms(1)] by blast
  then have "v = Max (set c')" using assms(2) by (intro antisym) (auto intro: Max_mono)
  then show ?thesis using c' cycle_member_waits [OF assms(1) v] by blast
qed

lemma report_cycle_sound:
  assumes "successively (\<lambda>a b. (a, b) \<in> set g) (ds_on_stack s)" "v \<in> set (ds_on_stack s)"
    and "(last (ds_on_stack s), v) \<in> set g" "sound_victims g (ds_victims s)"
  shows "sound_victims g (ds_victims (report_cycle v s))"
proof -
  obtain ys zs where st: "ds_on_stack s = ys @ v # zs" "v \<notin> set ys"
    using assms(2) by (meson split_list_first)
  have dw: "dropWhile (\<lambda>y. y \<noteq> v) (ds_on_stack s) = v # zs" using st by (simp add: dropWhile_append)
  have "is_cycle g (v # zs)" using assms(1,3) st by (simp add: is_cycle_def successively_append_iff)
  then show ?thesis
    using assms(4) dw by (auto simp: report_cycle_def sound_victims_def Let_def)
qed

lemma dfs_sound:
  "dfs_find_cycle k g n s = Some s' \<Longrightarrow> successively (\<lambda>a b. (a, b) \<in> set g) (ds_on_stack s @ [n]) \<Longrightarrow>
     sound_victims g (ds_victims s) \<Longrightarrow>
     sound_victims g (ds_victims s') \<and> ds_on_stack s' = ds_on_stack s"
  "dfs_neighbors k g vs s = Some s' \<Longrightarrow> successively (\<lambda>a b. (a, b) \<in> set g) (ds_on_stack s) \<Longrightarrow>
     ds_on_stack s \<noteq> [] \<Longrightarrow> \<forall>v \<in> set vs. (last (ds_on_stack s), v) \<in> set g \<Longrightarrow>
     sound_victims g (ds_victims s) \<Longrightarrow>
     sound_victims g (ds_victims s') \<and> ds_on_stack s' = ds_on_stack s"
proof (induction k g n s and k g vs s arbitrary: s' and s' rule: dfs_find_cycle_dfs_neighbors.induct)
  case (2 k g n s)
  then show ?case by (auto split: option.splits)
next
  case (4 k g v vs s)
  show ?case
  proof (cases "map_of (ds_visited s) v")
    case (Some d)
    note IH = "4.IH"(3-5) [OF Some]
    consider "d" | "\<not> d" "v \<in> set (ds_on_stack s)" | "\<not> d" "v \<notin> set (ds_on_stack s)" by blast
    then show ?thesis
    proof cases
      case 1 with IH(1) [OF 1] Some "4.prems" show ?thesis by simp
    next
      case 2
      have "sound_victims g (ds_victims (report_cycle v s))"
        using "4.prems" 2 by (intro report_cycle_sound) auto
      with 2 IH(2) [OF 2] Some "4.prems" show ?thesis by simp
    next
      case 3 with IH(3) [OF 3] Some "4.prems" show ?thesis by simp
    qed
  next
    case None
    with "4.prems" obtain s1 where s1: "dfs_find_cycle k g v (s\<lparr>ds_visited := AList.update v False (ds_visited s)\<rparr>) = Some s1"
      "dfs_neighbors k g vs s1 = Some s'" by (auto split: option.splits)
    have "successively (\<lambda>a b. (a, b) \<in> set g) (ds_on_stack s @ [v])"
      using "4.prems" by (simp add: successively_append_iff)
    with "4.IH"(1) [OF None s1(1)] "4.prems" have "sound_victims g (ds_victims s1)" "ds_on_stack s1 = ds_on_stack s"
      by auto
    with "4.IH"(2) [OF None s1] "4.prems" show ?thesis by auto
  qed
qed auto

section \<open>Completeness: a cycle leaves a victim\<close>

definition finished :: "dfs_state \<Rightarrow> xid set" where
  "finished s = {v. map_of (ds_visited s) v = Some True}"

text \<open>
  As long as no victim is reported, unfinished nodes are on the path and the finished nodes
  are closed under edges and carry no cycle.
\<close>

definition clean :: "wait_graph \<Rightarrow> xid set \<Rightarrow> bool" where
  "clean g D \<longleftrightarrow> (\<forall>u \<in> D. \<forall>v. (u, v) \<in> set g \<longrightarrow> v \<in> D) \<and> (\<forall>u \<in> D. (u, u) \<notin> (set g)\<^sup>+)"

definition greys_in :: "dfs_state \<Rightarrow> xid set \<Rightarrow> bool" where
  "greys_in s S \<longleftrightarrow> (\<forall>v. map_of (ds_visited s) v = Some False \<longrightarrow> v \<in> S)"

lemma clean_closed: "(u, v) \<in> (set g)\<^sup>+ \<Longrightarrow> clean g D \<Longrightarrow> u \<in> D \<Longrightarrow> v \<in> D"
  by (induction rule: trancl_induct) (auto simp: clean_def)

lemma clean_insert:
  assumes "clean g D" "\<forall>v. (n, v) \<in> set g \<longrightarrow> v \<in> D"
  shows "clean g (insert n D)"
proof (cases "n \<in> D")
  case True
  with assms show ?thesis by (simp add: insert_absorb)
next
  case False
  have "(n, n) \<notin> (set g)\<^sup>+"
  proof
    assume "(n, n) \<in> (set g)\<^sup>+"
    then obtain v where "(n, v) \<in> set g" "v = n \<or> (v, n) \<in> (set g)\<^sup>+" by (metis converse_tranclE)
    with assms clean_closed [of v n g D] have "n \<in> D" by blast
    with False show False ..
  qed
  with assms show ?thesis by (auto simp: clean_def)
qed

lemma dfs_victims_mono:
  "dfs_find_cycle k g n s = Some s' \<Longrightarrow> ds_victims s' = [] \<Longrightarrow> ds_victims s = []"
  "dfs_neighbors k g vs s = Some s' \<Longrightarrow> ds_victims s' = [] \<Longrightarrow> ds_victims s = []"
proof (induction k g n s and k g vs s arbitrary: s' and s' rule: dfs_find_cycle_dfs_neighbors.induct)
  case (2 k g n s)
  then show ?case by (auto split: option.splits)
next
  case (4 k g v vs s)
  show ?case
  proof (cases "map_of (ds_visited s) v")
    case (Some d)
    with "4.prems" "4.IH"(3-5) [OF Some] show ?thesis
      by (auto simp: report_cycle_def Let_def split: if_splits)
  next
    case None
    with "4.prems" obtain s1 where s1: "dfs_find_cycle k g v (s\<lparr>ds_visited := AList.update v False (ds_visited s)\<rparr>) = Some s1"
      "dfs_neighbors k g vs s1 = Some s'" by (auto split: option.splits)
    from "4.IH"(1) [OF None s1(1)] "4.IH"(2) [OF None s1] "4.prems" show ?thesis by simp
  qed
qed auto

lemma finished_simps [simp]:
  "finished (s\<lparr>ds_visited := AList.update n True (ds_visited s)\<rparr>) = insert n (finished s)"
  "finished (s\<lparr>ds_on_stack := st, ds_visited := AList.update n True (ds_visited s)\<rparr>) = insert n (finished s)"
  "finished (s\<lparr>ds_on_stack := st\<rparr>) = finished s"
  by (auto simp: finished_def update_conv')

lemma finished_grey: "map_of (ds_visited s) n = None \<Longrightarrow>
    finished (s\<lparr>ds_visited := AList.update n False (ds_visited s)\<rparr>) = finished s"
  by (auto simp: finished_def update_conv')

lemma dfs_complete:
  "dfs_find_cycle k g n s = Some s' \<Longrightarrow> ds_victims s' = [] \<Longrightarrow>
     greys_in s (insert n (set (ds_on_stack s))) \<Longrightarrow> clean g (finished s) \<Longrightarrow>
     ds_on_stack s' = ds_on_stack s \<and> greys_in s' (set (ds_on_stack s)) \<and> clean g (finished s')
     \<and> insert n (finished s) \<subseteq> finished s'"
  "dfs_neighbors k g vs s = Some s' \<Longrightarrow> ds_victims s' = [] \<Longrightarrow>
     greys_in s (set (ds_on_stack s)) \<Longrightarrow> clean g (finished s) \<Longrightarrow>
     ds_on_stack s' = ds_on_stack s \<and> greys_in s' (set (ds_on_stack s)) \<and> clean g (finished s')
     \<and> set vs \<union> finished s \<subseteq> finished s'"
proof (induction k g n s and k g vs s arbitrary: s' and s' rule: dfs_find_cycle_dfs_neighbors.induct)
  case (2 k g n s)
  let ?s = "s\<lparr>ds_on_stack := ds_on_stack s @ [n]\<rparr>"
  from "2.prems"(1) obtain s1 where s1: "dfs_neighbors k g (neighbors g n) ?s = Some s1"
    "s' = s1\<lparr>ds_on_stack := butlast (ds_on_stack s1), ds_visited := AList.update n True (ds_visited s1)\<rparr>"
    by (auto split: option.splits)
  have "greys_in ?s (set (ds_on_stack ?s))" "clean g (finished ?s)"
    using "2.prems" by (auto simp: greys_in_def)
  with "2.IH" [OF s1(1)] s1(2) "2.prems"(2)
  have IH: "ds_on_stack s1 = ds_on_stack s @ [n]" "greys_in s1 (set (ds_on_stack s @ [n]))"
    "clean g (finished s1)" "set (neighbors g n) \<union> finished s \<subseteq> finished s1" by auto
  have "clean g (insert n (finished s1))" using IH(3,4) by (intro clean_insert) auto
  moreover have "greys_in s' (set (ds_on_stack s))"
    using IH(2) by (auto simp: greys_in_def s1(2) update_conv' split: if_splits)
  ultimately show ?case using IH by (auto simp: s1(2))
next
  case (4 k g v vs s)
  show ?case
  proof (cases "map_of (ds_visited s) v")
    case (Some d)
    note IH = "4.IH"(3-5) [OF Some]
    consider "d" | "\<not> d" "v \<in> set (ds_on_stack s)" | "\<not> d" "v \<notin> set (ds_on_stack s)" by blast
    then show ?thesis
    proof cases
      case 1
      with Some have "v \<in> finished s" by (simp add: finished_def)
      with 1 IH(1) [OF 1] Some "4.prems" show ?thesis by auto
    next
      case 2
      with Some "4.prems" have "dfs_neighbors k g vs (report_cycle v s) = Some s'" by simp
      from dfs_victims_mono(2) [OF this "4.prems"(2)] show ?thesis
        by (simp add: report_cycle_def Let_def)
    next
      case 3 with Some "4.prems"(3) show ?thesis by (auto simp: greys_in_def)
    qed
  next
    case None
    let ?s = "s\<lparr>ds_visited := AList.update v False (ds_visited s)\<rparr>"
    from None "4.prems"(1) obtain s1 where s1: "dfs_find_cycle k g v ?s = Some s1"
      "dfs_neighbors k g vs s1 = Some s'" by (auto split: option.splits)
    have v1: "ds_victims s1 = []" by (rule dfs_victims_mono(2) [OF s1(2) "4.prems"(2)])
    have "greys_in ?s (insert v (set (ds_on_stack ?s)))" "clean g (finished ?s)"
      using "4.prems"(3,4) finished_grey [OF None] by (auto simp: greys_in_def update_conv')
    with "4.IH"(1) [OF None s1(1) v1] finished_grey [OF None]
    have st1: "ds_on_stack s1 = ds_on_stack s" "greys_in s1 (set (ds_on_stack s))"
      "clean g (finished s1)" "insert v (finished s) \<subseteq> finished s1" by auto
    with "4.IH"(2) [OF None s1 "4.prems"(2)] show ?thesis by auto
  qed
qed auto

section \<open>Flags\<close>

text \<open>The flags after the search: exactly the reported transactions that have a state entry.\<close>

definition flags_follow :: "(xid \<times> bool) list \<Rightarrow> dfs_state \<Rightarrow> bool" where
  "flags_follow st0 s \<longleftrightarrow>
     (\<forall>x. map_of (ds_xid_states s) x =
        (if x \<in> set (ds_victims s) \<and> map_of st0 x \<noteq> None then Some True else map_of st0 x))"

lemma flags_report: "flags_follow st0 s \<Longrightarrow> flags_follow st0 (report_cycle v s)"
  by (auto simp: flags_follow_def report_cycle_def mark_victim_def Let_def update_conv' split: option.splits)

lemma flags_upd [simp]:
  "flags_follow st0 (s\<lparr>ds_visited := a\<rparr>) = flags_follow st0 s"
  "flags_follow st0 (s\<lparr>ds_on_stack := b\<rparr>) = flags_follow st0 s"
  by (simp_all add: flags_follow_def)

lemma dfs_flags:
  "dfs_find_cycle k g n s = Some s' \<Longrightarrow> flags_follow st0 s \<Longrightarrow> flags_follow st0 s'"
  "dfs_neighbors k g vs s = Some s' \<Longrightarrow> flags_follow st0 s \<Longrightarrow> flags_follow st0 s'"
proof (induction k g n s and k g vs s arbitrary: s' and s' rule: dfs_find_cycle_dfs_neighbors.induct)
  case (2 k g n s)
  then show ?case by (auto split: option.splits)
next
  case (4 k g v vs s)
  show ?case
  proof (cases "map_of (ds_visited s) v")
    case (Some d)
    with "4.prems" "4.IH"(3-5) [OF Some] show ?thesis by (auto simp: flags_report split: if_splits)
  next
    case None
    with "4.prems" obtain s1 where s1: "dfs_find_cycle k g v (s\<lparr>ds_visited := AList.update v False (ds_visited s)\<rparr>) = Some s1"
      "dfs_neighbors k g vs s1 = Some s'" by (auto split: option.splits)
    from "4.IH"(1) [OF None s1(1)] "4.IH"(2) [OF None s1] "4.prems" show ?thesis by simp
  qed
qed auto

section \<open>The sweep\<close>

lemma sweep_total:
  "card (unseen g s) < k \<Longrightarrow> \<exists>s'. dfs_sweep k g ns s = Some s'"
proof (induction ns arbitrary: s)
  case (Cons n ns)
  obtain s1 where s1: "dfs_find_cycle k g n s = Some s1" using dfs_total(1) [OF Cons.prems] by blast
  have "card (unseen g s1) < k"
    using unseen_mono [OF dfs_seen_mono(1) [OF s1], of g] Cons.prems by simp
  with Cons.IH [of s1] Cons.IH [OF Cons.prems] s1 show ?case by auto
qed simp

lemma sweep_sound:
  "dfs_sweep k g ns s = Some s' \<Longrightarrow> ds_on_stack s = [] \<Longrightarrow> sound_victims g (ds_victims s) \<Longrightarrow>
     flags_follow st0 s \<Longrightarrow> sound_victims g (ds_victims s') \<and> flags_follow st0 s'"
proof (induction ns arbitrary: s)
  case (Cons n ns)
  then show ?case
    using dfs_sound(1) [of k g n s] dfs_flags(1) [of k g n s _ st0]
    by (auto split: if_splits option.splits)
qed simp

lemma sweep_victims_mono:
  "dfs_sweep k g ns s = Some s' \<Longrightarrow> ds_victims s' = [] \<Longrightarrow> ds_victims s = []"
  by (induction ns arbitrary: s) (auto split: if_splits option.splits dest: dfs_victims_mono(1))

lemma sweep_complete:
  "dfs_sweep k g ns s = Some s' \<Longrightarrow> ds_victims s' = [] \<Longrightarrow> ds_on_stack s = [] \<Longrightarrow>
     greys_in s {} \<Longrightarrow> clean g (finished s) \<Longrightarrow>
     clean g (finished s') \<and> set ns \<union> finished s \<subseteq> finished s'"
proof (induction ns arbitrary: s)
  case (Cons n ns)
  show ?case
  proof (cases "map_of (ds_visited s) n")
    case (Some d)
    with Cons.prems have "n \<in> finished s" by (cases d) (auto simp: greys_in_def finished_def)
    with Cons Some show ?thesis by auto
  next
    case None
    with Cons.prems obtain s1 where s1: "dfs_find_cycle k g n s = Some s1" "dfs_sweep k g ns s1 = Some s'"
      by (auto split: option.splits)
    have "ds_victims s1 = []" by (rule sweep_victims_mono [OF s1(2) Cons.prems(2)])
    moreover have "greys_in s (insert n (set (ds_on_stack s)))" using Cons.prems(4) by (simp add: greys_in_def)
    ultimately have "ds_on_stack s1 = []" "greys_in s1 {}" "clean g (finished s1)"
      "insert n (finished s) \<subseteq> finished s1"
      using dfs_complete(1) [OF s1(1)] Cons.prems(3,5) by auto
    with Cons.IH [OF s1(2) Cons.prems(2)] show ?thesis by auto
  qed
qed simp

lemma clean_acyclic:
  assumes "clean g D" "fst ` set g \<subseteq> D"
  shows "acyclic (set g)"
proof (rule acyclicI, intro allI notI)
  fix x assume c: "(x, x) \<in> (set g)\<^sup>+"
  then obtain y where "(x, y) \<in> set g" by (meson tranclD)
  with assms have "x \<in> D" by force
  with assms(1) c show False by (auto simp: clean_def)
qed

section \<open>The detector\<close>

lemma entry_edges_iff:
  "p \<in> set (entry_edges e) \<longleftrightarrow>
     (\<exists>wm \<in> set (le_waiters e). \<exists>g \<in> set (le_grants e).
        conflicts_with (snd wm) (gr_mode g) \<and> fst wm \<noteq> gr_xid g \<and> p = (fst wm, gr_xid g))"
  by (simp add: entry_edges_def case_prod_beta image_iff) blast

lemma wait_for_iff:
  "p \<in> set (wait_for lm) \<longleftrightarrow> (\<exists>te \<in> set (lm_table lm). p \<in> set (entry_edges (snd te)))"
  by (simp add: wait_for_def case_prod_beta)

lemma is_victim_flags:
  assumes "flags_follow (lm_xid_states lm) s"
  shows "is_victim x (lm\<lparr>lm_xid_states := ds_xid_states s\<rparr>) \<longleftrightarrow>
    is_victim x lm \<or> x \<in> set (ds_victims s) \<and> map_of (lm_xid_states lm) x \<noteq> None"
  using assms by (auto simp: flags_follow_def is_victim_def split: option.splits)

text \<open>
  C15. The deadlock detector reports deadlocks and nothing else. On every lock table and for
  every iteration order of the waiters it terminates and leaves grants and queues alone. It
  reports no victim if and only if the wait-for graph has no cycle. Each victim is the youngest
  transaction of some simple cycle and is itself waiting, so refusing its wait takes an edge out
  of the graph. The transactions newly flagged are exactly the reported ones that still have a
  state entry. It does not report a victim for every cycle: one that shares a transaction with
  a reported cycle may be left to a later round.
\<close>

theorem deadlock_detector_exact:
  assumes "set all_nodes = fst ` set (wait_for lm)"
  shows "\<exists>lm' victims. detect_and_resolve all_nodes lm = Some (lm', victims)
     \<and> lm_table lm' = lm_table lm
     \<and> (victims = [] \<longleftrightarrow> acyclic (set (wait_for lm)))
     \<and> (\<forall>v \<in> set victims. v \<in> fst ` set (wait_for lm)
          \<and> (\<exists>c. is_cycle (wait_for lm) c \<and> distinct c \<and> v = Max (set c)))
     \<and> (\<forall>x. is_victim x lm' \<longleftrightarrow> is_victim x lm
            \<or> x \<in> set victims \<and> map_of (lm_xid_states lm) x \<noteq> None)"
proof (cases "wait_for lm = []")
  case True
  then show ?thesis by (simp add: detect_and_resolve_def acyclic_def)
next
  case False
  let ?g = "wait_for lm" and ?s0 = "dfs_start lm"
  have "card (unseen ?g ?s0) \<le> card (snd ` set ?g)" by (rule card_mono) (auto simp: unseen_def)
  also have "\<dots> \<le> length ?g" using card_image_le card_length le_trans by (metis List.finite_set)
  finally obtain s where s: "dfs_sweep (Suc (length ?g)) ?g all_nodes ?s0 = Some s"
    using sweep_total [of ?g ?s0 "Suc (length ?g)"] by auto
  have st: "ds_on_stack ?s0 = []" "sound_victims ?g (ds_victims ?s0)" "flags_follow (lm_xid_states lm) ?s0"
    "greys_in ?s0 {}" "clean ?g (finished ?s0)"
    by (simp_all add: dfs_start_def sound_victims_def flags_follow_def greys_in_def clean_def finished_def)
  have sf: "sound_victims ?g (ds_victims s)" "flags_follow (lm_xid_states lm) s"
    using sweep_sound [OF s st(1-3)] by auto
  have "ds_victims s = [] \<longleftrightarrow> acyclic (set ?g)"
  proof
    assume "ds_victims s = []"
    from sweep_complete [OF s this st(1,4,5)] assms show "acyclic (set ?g)"
      by (intro clean_acyclic) auto
  next
    assume "acyclic (set ?g)"
    then have "\<not> is_cycle ?g c" for c using cycle_not_acyclic by blast
    with sf(1) show "ds_victims s = []" by (cases "ds_victims s") (auto simp: sound_victims_def)
  qed
  moreover have "detect_and_resolve all_nodes lm =
      Some (lm\<lparr>lm_xid_states := ds_xid_states s\<rparr>, ds_victims s)"
    using False s by (simp add: detect_and_resolve_def Let_def)
  moreover have "v \<in> fst ` set ?g \<and> (\<exists>c. is_cycle ?g c \<and> distinct c \<and> v = Max (set c))" if "v \<in> set (ds_victims s)" for v
    using that sf(1) victim_on_simple_cycle unfolding sound_victims_def by blast
  ultimately show ?thesis
    using is_victim_flags [OF sf(2)] by auto
qed

definition deadlocked :: lock_manager where
  "deadlocked =
     (let a = LockTuple (TupleId (PageId 1 0) 0); b = LockTuple (TupleId (PageId 1 0) 1);
          rq = \<lambda>x t. \<lparr>lq_xid = x, lq_tag = t, lq_mode = Exclusive\<rparr>;
          acq = \<lambda>x t lm. snd (acquire_start (rq x t) x False lm)
      in acq 11 a (acq 10 b (acq 11 b (acq 10 a lock_manager_new))))"

theorem deadlock_detector_exact_witness:
  "wait_for deadlocked = [(11, 10), (10, 11)]
   \<and> (\<exists>lm'. detect_and_resolve [10, 11] deadlocked = Some (lm', [11]) \<and> is_victim 11 lm')"
proof -
  have g: "wait_for deadlocked = [(11, 10), (10, 11)]"
    and d: "map_option snd (detect_and_resolve [10, 11] deadlocked) = Some [11]"
    and st: "map_of (lm_xid_states deadlocked) 11 = Some False" by code_simp+
  then have "set [10, 11] = fst ` set (wait_for deadlocked)" by auto
  from deadlock_detector_exact [OF this] g d st show ?thesis by auto
qed

text \<open>
  A round may leave a cycle without a victim. Transaction 1 holds a lock that 3 and 5 wait for
  and waits for a lock that both of them share: two cycles, 1 with 3 and 1 with 5. The detector
  reports 5 only, and 1 and 3 still wait for each other when 5 has gone.
\<close>

definition two_cycles :: lock_manager where
  "two_cycles =
     (let a = LockTuple (TupleId (PageId 1 0) 0); b = LockTuple (TupleId (PageId 1 0) 1);
          acq = \<lambda>x t m lm. snd (acquire_start \<lparr>lq_xid = x, lq_tag = t, lq_mode = m\<rparr> x False lm)
      in acq 3 a Exclusive (acq 5 a Exclusive (acq 1 b Exclusive
           (acq 3 b Share (acq 5 b Share (acq 1 a Exclusive lock_manager_new))))))"

lemma cycle_without_victim:
  "set (wait_for two_cycles) = {(5, 1), (3, 1), (1, 5), (1, 3)}"
  "map_option snd (detect_and_resolve [1, 3, 5] two_cycles) = Some [5, 5]"
  "is_cycle (wait_for two_cycles) [1, 3]" "Max (set [1, 3 :: xid]) = 3"
  by code_simp+

end
