(* ===== verification/Lock_Safety.thy ===== *)
theory Lock_Safety
  imports Deadlock "HOL-Library.Multiset"
begin

text \<open>
  Safety of the lock table: conflicting modes are never held by two transactions, an acquire
  is granted exactly when nobody else holds a conflicting mode, no outcome leaks a queued
  waiter, and the two bulk releases free exactly the grants they name. The locale
  \<open>lock_service\<close> is what the transaction manager relies on at the end of a transaction and at
  a rollback to a savepoint.
\<close>

section \<open>Views of the table\<close>

definition grants_at :: "lock_manager \<Rightarrow> lock_tag \<Rightarrow> grant list" where
  "grants_at lm tag = le_grants (entry_or_new tag lm)"

definition waiters_at :: "lock_manager \<Rightarrow> lock_tag \<Rightarrow> (xid \<times> lock_mode) list" where
  "waiters_at lm tag = le_waiters (entry_or_new tag lm)"

lemma entry_put [simp]:
  "entry_or_new t (put_entry tag e lm) = (if t = tag then e else entry_or_new t lm)"
  by (simp add: entry_or_new_def put_entry_def update_conv')

lemma entry_table [simp]:
  "entry_or_new t (lm\<lparr>lm_xid_states := st\<rparr>) = entry_or_new t lm"
  "entry_or_new t (clear_victim x lm) = entry_or_new t lm"
  "entry_or_new t (ensure_xid_state x lm) = entry_or_new t lm"
  by (simp_all add: entry_or_new_def clear_victim_def ensure_xid_state_def split: option.splits)

lemma entry_new_fields [simp]: "le_grants lock_entry_new = []" "le_waiters lock_entry_new = []"
  by (simp_all add: lock_entry_new_def)

lemma prune_view [simp]:
  "grants_at (prune_entry_if_empty tag lm) t = grants_at lm t"
  "waiters_at (prune_entry_if_empty tag lm) t = waiters_at lm t"
  by (auto simp: prune_entry_if_empty_def grants_at_def waiters_at_def entry_or_new_def delete_conv'
      split: option.splits)

lemma put_view [simp]:
  "grants_at (put_entry tag e lm) t = (if t = tag then le_grants e else grants_at lm t)"
  "waiters_at (put_entry tag e lm) t = (if t = tag then le_waiters e else waiters_at lm t)"
  by (simp_all add: grants_at_def waiters_at_def)

lemma states_view [simp]:
  "grants_at (lm\<lparr>lm_xid_states := st\<rparr>) t = grants_at lm t"
  "waiters_at (lm\<lparr>lm_xid_states := st\<rparr>) t = waiters_at lm t"
  "grants_at (clear_victim x lm) t = grants_at lm t" "waiters_at (clear_victim x lm) t = waiters_at lm t"
  "grants_at (ensure_xid_state x lm) t = grants_at lm t"
  "waiters_at (ensure_xid_state x lm) t = waiters_at lm t"
  by (simp_all add: grants_at_def waiters_at_def)

lemma waiter_fields [simp]:
  "le_grants (remove_waiter x m e) = le_grants e" "le_waiters (add_grant req owner e) = le_waiters e"
  by (simp_all add: remove_waiter_def add_grant_def)

lemma victim_put [simp]: "is_victim x (put_entry t e lm) = is_victim x lm"
  by (simp add: is_victim_def put_entry_def)

lemma victim_ensure [simp]: "is_victim x (ensure_xid_state y lm) = is_victim x lm"
  by (auto simp: is_victim_def ensure_xid_state_def update_conv' split: option.splits)

section \<open>The bulk releases\<close>

lemma retain_view:
  "grants_at (retain_tag P tag lm) t =
     (if t = tag then filter (\<lambda>g. \<not> P g) (grants_at lm t) else grants_at lm t)"
  "waiters_at (retain_tag P tag lm) t = waiters_at lm t"
  by (auto simp: retain_tag_def grants_at_def [of lm] waiters_at_def [of lm] entry_or_new_def [of _ lm]
      split: option.splits)

lemma fold_retain_view:
  "grants_at (fold (retain_tag P) tags lm) t =
     (if t \<in> set tags then filter (\<lambda>g. \<not> P g) (grants_at lm t) else grants_at lm t)"
  "waiters_at (fold (retain_tag P) tags lm) t = waiters_at lm t"
  by (induction tags arbitrary: lm) (auto simp: retain_view)

lemma unaffected:
  assumes "t \<notin> set (affected_tags P lm)"
  shows "filter (\<lambda>g. \<not> P g) (grants_at lm t) = grants_at lm t"
proof (cases "map_of (lm_table lm) t")
  case None
  then show ?thesis by (simp add: grants_at_def entry_or_new_def)
next
  case (Some e)
  then have "(t, e) \<in> set (lm_table lm)" by (rule map_of_SomeD)
  with assms have "\<not> list_ex P (le_grants e)" by (force simp: affected_tags_def)
  with Some show ?thesis by (simp add: grants_at_def entry_or_new_def list_ex_iff filter_id_conv)
qed

lemma sweep_view:
  "grants_at (sweep P lm) t = filter (\<lambda>g. \<not> P g) (grants_at lm t)"
  "waiters_at (sweep P lm) t = waiters_at lm t"
  using unaffected [of t P lm] by (auto simp: sweep_def fold_retain_view)

lemma release_all_view [simp]:
  "grants_at (release_all x lm) t = filter (\<lambda>g. gr_xid g \<noteq> x) (grants_at lm t)"
  "waiters_at (release_all x lm) t = waiters_at lm t"
  by (simp_all add: release_all_def Let_def sweep_view)

lemma release_subxact_view [simp]:
  "grants_at (release_subxact_locks os lm) t = filter (\<lambda>g. gr_owner g \<notin> set os) (grants_at lm t)"
  "waiters_at (release_subxact_locks os lm) t = waiters_at lm t"
  by (simp_all add: release_subxact_locks_def sweep_view)

section \<open>Exclusion\<close>

lemma conflicts_with_sym: "conflicts_with a b = conflicts_with b a"
  by (cases a; cases b) simp_all

definition compatible :: "grant list \<Rightarrow> bool" where
  "compatible gs \<longleftrightarrow>
     (\<forall>g \<in> set gs. \<forall>h \<in> set gs. gr_xid g \<noteq> gr_xid h \<longrightarrow> \<not> conflicts_with (gr_mode g) (gr_mode h))"

definition exclusion :: "lock_manager \<Rightarrow> bool" where
  "exclusion lm \<longleftrightarrow> (\<forall>tag. compatible (grants_at lm tag))"

lemma compatible_subset: "compatible gs \<Longrightarrow> set hs \<subseteq> set gs \<Longrightarrow> compatible hs"
  by (auto simp: compatible_def)

lemma compatible_filter: "compatible gs \<Longrightarrow> compatible (filter P gs)"
  by (rule compatible_subset) auto

lemma remove_first_subset: "set (remove_first P xs) \<subseteq> set xs"
  by (induction xs) auto

lemma compatible_add:
  assumes "compatible (le_grants e)" "\<not> has_conflict (le_grants e) (lq_xid req) (lq_mode req)"
  shows "compatible (le_grants (add_grant req owner e))"
  using assms
  by (auto simp: compatible_def add_grant_def has_conflict_def list_ex_iff conflicts_with_sym)

text \<open>
  Any sequence of operations on the table, by any threads in any order. Each is one step here:
  the look-up of the entry that precedes the critical section of an acquire is part of it. The
  fast path adds no step of its own, since on a hit it leaves the table alone.
\<close>

inductive lock_step :: "lock_manager \<Rightarrow> lock_manager \<Rightarrow> bool" where
  start: "lock_step lm (snd (acquire_start req owner cancelled lm))"
| wake: "lock_step lm (snd (acquire_wake req owner cancelled expired lm))"
| attempt: "lock_step lm (snd (try_acquire_with_owner req owner lm))"
| release: "lock_step lm (lock_release x tag mode lm)"
| release_txn: "lock_step lm (release_all x lm)"
| release_sub: "lock_step lm (release_subxact_locks owners lm)"
| detect: "detect_and_resolve nodes lm = Some (lm', victims) \<Longrightarrow> lock_step lm lm'"

inductive_cases lock_stepE: "lock_step lm lm'"

lemma acquire_start_view:
  "grants_at (snd (acquire_start req owner c lm)) t =
     (if fst (acquire_start req owner c lm) = Done (Inr ()) \<and> t = lq_tag req
      then grants_at lm t @ [\<lparr>gr_xid = lq_xid req, gr_mode = lq_mode req, gr_owner = owner\<rparr>]
      else grants_at lm t)"
  by (simp add: acquire_start_def Let_def add_grant_def grants_at_def)

lemma acquire_wake_view:
  "grants_at (snd (acquire_wake req owner c d lm)) t =
     (if fst (acquire_wake req owner c d lm) = Done (Inr ()) \<and> t = lq_tag req
      then grants_at lm t @ [\<lparr>gr_xid = lq_xid req, gr_mode = lq_mode req, gr_owner = owner\<rparr>]
      else grants_at lm t)"
  by (simp add: acquire_wake_def Let_def add_grant_def grants_at_def)

lemma try_acquire_view:
  "grants_at (snd (try_acquire_with_owner req owner lm)) t =
     (if fst (try_acquire_with_owner req owner lm) = Inr True \<and> t = lq_tag req
      then grants_at lm t @ [\<lparr>gr_xid = lq_xid req, gr_mode = lq_mode req, gr_owner = owner\<rparr>]
      else grants_at lm t)"
  by (simp add: try_acquire_with_owner_def Let_def add_grant_def grants_at_def)

lemma granted_no_conflict:
  "fst (acquire_start req owner c lm) = Done (Inr ()) \<longleftrightarrow>
     \<not> has_conflict (grants_at lm (lq_tag req)) (lq_xid req) (lq_mode req)"
  "fst (acquire_wake req owner c d lm) = Done (Inr ()) \<Longrightarrow>
     \<not> has_conflict (grants_at lm (lq_tag req)) (lq_xid req) (lq_mode req)"
  "fst (try_acquire_with_owner req owner lm) = Inr True \<Longrightarrow>
     \<not> has_conflict (grants_at lm (lq_tag req)) (lq_xid req) (lq_mode req)"
  by (auto simp: acquire_start_def acquire_wake_def try_acquire_with_owner_def Let_def grants_at_def
      split: if_splits)

lemma compatible_grant:
  assumes "compatible gs" "\<not> has_conflict gs x m"
  shows "compatible (gs @ [\<lparr>gr_xid = x, gr_mode = m, gr_owner = ow\<rparr>])"
  using assms by (auto simp: compatible_def has_conflict_def list_ex_iff conflicts_with_sym)

lemma lock_release_view:
  "grants_at (lock_release x tag mode lm) t =
     (if t = tag then remove_first (\<lambda>g. gr_xid g = x \<and> gr_mode g = mode) (grants_at lm t)
      else grants_at lm t)"
  by (auto simp: lock_release_def grants_at_def [of lm] entry_or_new_def [of _ lm] split: option.splits)

lemma detect_table:
  "detect_and_resolve nodes lm = Some (lm', vs) \<Longrightarrow> grants_at lm' t = grants_at lm t"
  by (auto simp: detect_and_resolve_def Let_def split: if_splits)

lemma exclusion_step:
  assumes "lock_step lm lm'" "exclusion lm"
  shows "exclusion lm'"
  using assms(1)
proof cases
  case (start req owner c)
  with assms(2) show ?thesis
    by (auto simp: exclusion_def acquire_start_view granted_no_conflict(1) intro: compatible_grant)
next
  case (wake req owner c d)
  with assms(2) granted_no_conflict(2) [of req owner c d lm] show ?thesis
    by (auto simp: exclusion_def acquire_wake_view intro: compatible_grant)
next
  case (attempt req owner)
  with assms(2) granted_no_conflict(3) [of req owner lm] show ?thesis
    by (auto simp: exclusion_def try_acquire_view intro: compatible_grant)
next
  case (release x tag mode)
  with assms(2) show ?thesis
    by (auto simp: exclusion_def lock_release_view intro: compatible_subset [OF _ remove_first_subset])
next
  case (release_txn x)
  with assms(2) show ?thesis by (simp add: exclusion_def compatible_filter)
next
  case (release_sub owners)
  with assms(2) show ?thesis by (simp add: exclusion_def compatible_filter)
next
  case (detect nodes victims)
  with assms(2) show ?thesis by (simp add: exclusion_def detect_table [OF detect])
qed

lemma exclusion_run: "lock_step\<^sup>*\<^sup>* lm lm' \<Longrightarrow> exclusion lm \<Longrightarrow> exclusion lm'"
  by (induction rule: rtranclp_induct) (auto intro: exclusion_step)

lemma exclusion_new: "exclusion lock_manager_new"
  by (simp add: exclusion_def compatible_def grants_at_def entry_or_new_def lock_manager_new_def)

section \<open>The interface of the transaction manager\<close>

locale lock_service =
  fixes held :: "'l \<Rightarrow> lock_tag \<Rightarrow> grant list"
    and finish :: "xid \<Rightarrow> 'l \<Rightarrow> 'l"
    and undo_owners :: "xid list \<Rightarrow> 'l \<Rightarrow> 'l"
  assumes held_finish: "held (finish x l) t = filter (\<lambda>g. gr_xid g \<noteq> x) (held l t)"
    and held_undo: "held (undo_owners os l) t = filter (\<lambda>g. gr_owner g \<notin> set os) (held l t)"
begin

lemma finish_frees: "g \<in> set (held (finish x l) t) \<Longrightarrow> gr_xid g \<noteq> x"
  by (simp add: held_finish)

lemma finish_keeps_others: "gr_xid g \<noteq> x \<Longrightarrow> g \<in> set (held (finish x l) t) \<longleftrightarrow> g \<in> set (held l t)"
  by (simp add: held_finish)

lemma undo_exact: "g \<in> set (held (undo_owners os l) t) \<longleftrightarrow> g \<in> set (held l t) \<and> gr_owner g \<notin> set os"
  by (auto simp: held_undo)

lemma others_unaffected:
  assumes "\<forall>g \<in> set (held l t). gr_owner g \<in> set os \<longrightarrow> gr_xid g = x"
  shows "filter (\<lambda>g. gr_xid g \<noteq> x) (held (undo_owners os l) t) = filter (\<lambda>g. gr_xid g \<noteq> x) (held l t)"
  using assms by (auto simp: held_undo intro: filter_cong)

end

interpretation locks: lock_service grants_at release_all release_subxact_locks
  by unfold_locales simp_all

section \<open>Properties\<close>

text \<open>
  C14. Mutual exclusion: whatever sequence of acquires, wake-ups, attempts, releases, bulk
  releases and detector sweeps runs, two different transactions never hold conflicting modes
  on one object.
\<close>

theorem lock_exclusion:
  assumes "lock_step\<^sup>*\<^sup>* lock_manager_new lm"
    and "g \<in> set (grants_at lm tag)" "h \<in> set (grants_at lm tag)" "gr_xid g \<noteq> gr_xid h"
  shows "\<not> conflicts_with (gr_mode g) (gr_mode h)"
  using exclusion_run [OF assms(1) exclusion_new] assms(2-4) by (auto simp: exclusion_def compatible_def)

lemma run_start: "lock_step\<^sup>*\<^sup>* lm lm1 \<Longrightarrow> lock_step\<^sup>*\<^sup>* lm (snd (acquire_start req owner c lm1))"
  by (meson lock_step.start rtranclp.rtrancl_into_rtrancl)

definition two_readers :: lock_manager where
  "two_readers =
     (let rq = \<lambda>x m. \<lparr>lq_xid = x, lq_tag = LockRelation 1, lq_mode = m\<rparr>
      in snd (acquire_start (rq 12 Exclusive) 12 False
           (snd (acquire_start (rq 11 RowShare) 11 False
              (snd (acquire_start (rq 10 Share) 10 False lock_manager_new))))))"

theorem lock_exclusion_witness:
  "lock_step\<^sup>*\<^sup>* lock_manager_new two_readers
   \<and> map gr_xid (grants_at two_readers (LockRelation 1)) = [10, 11]
   \<and> waiters_at two_readers (LockRelation 1) = [(12, Exclusive)]
   \<and> \<not> conflicts_with (gr_mode (grants_at two_readers (LockRelation 1) ! 0))
        (gr_mode (grants_at two_readers (LockRelation 1) ! 1))"
proof -
  have run: "lock_step\<^sup>*\<^sup>* lock_manager_new two_readers"
    unfolding two_readers_def Let_def
    by (intro run_start rtranclp.rtrancl_refl)
  have gs: "map gr_xid (grants_at two_readers (LockRelation 1)) = [10, 11]"
    "waiters_at two_readers (LockRelation 1) = [(12, Exclusive)]" by code_simp+
  then have len: "length (grants_at two_readers (LockRelation 1)) = 2"
    by (metis length_map list.size(3,4) numeral_2_eq_2 One_nat_def Suc_eq_plus1)
  have "gr_xid (grants_at two_readers (LockRelation 1) ! 0) \<noteq> gr_xid (grants_at two_readers (LockRelation 1) ! 1)"
    by code_simp
  from lock_exclusion [OF run _ _ this, of "LockRelation 1"] len gs run show ?thesis by simp
qed

lemma mset_remove_first:
  "list_ex P xs \<Longrightarrow> (\<And>x. P x \<Longrightarrow> x = a) \<Longrightarrow> mset (remove_first P xs) = mset xs - {#a#}"
proof (induction xs)
  case (Cons x xs)
  show ?case
  proof (cases "P x")
    case True
    then show ?thesis using Cons.prems(2) [of x] by simp
  next
    case False
    with Cons have ex: "list_ex P xs" and IH: "mset (remove_first P xs) = mset xs - {#a#}" by auto
    from ex have "a \<in># mset xs" using Cons.prems(2) by (auto simp: list_ex_iff)
    with False IH show ?thesis by (simp add: multiset_diff_union_assoc add.commute)
  qed
qed simp

lemma waiters_remove:
  assumes "(x, m) \<in> set (le_waiters e)"
  shows "mset (le_waiters (remove_waiter x m e)) = mset (le_waiters e) - {#(x, m)#}"
  unfolding remove_waiter_def using assms
  by (simp, intro mset_remove_first) (auto simp: list_ex_iff)

text \<open>
  Every outcome of a blocking acquire is accounted for. The first pass grants exactly when
  nobody else holds a conflicting mode and otherwise parks, unless the statement is already
  cancelled or the transaction is already a victim. A turn of the wait loop never loses and
  never duplicates a queue entry: it keeps the waiter exactly while the acquire stays parked,
  and removes one entry of that transaction and mode on every grant and on every error. A
  victim never gets the lock; a grantable lock wins over cancellation and timeout.
\<close>

theorem acquire_accounting:
  assumes "acquire_start req owner c lm = (r1, lm1)" and "acquire_wake req owner c2 d lm2 = (r2, lm3)"
    and "(lq_xid req, lq_mode req) \<in> set (waiters_at lm2 (lq_tag req))"
  shows "r1 = (if \<not> has_conflict (grants_at lm (lq_tag req)) (lq_xid req) (lq_mode req) then Done (Inr ())
              else if c then Done (Inl Cancelled)
              else if is_victim (lq_xid req) lm then Done (Inl (Deadlock (lq_xid req))) else Parked)
     \<and> mset (waiters_at lm1 (lq_tag req)) = mset (waiters_at lm (lq_tag req))
           + (if r1 = Parked then {#(lq_xid req, lq_mode req)#} else {#})
     \<and> r2 = (if is_victim (lq_xid req) lm2 then Done (Inl (Deadlock (lq_xid req)))
              else if \<not> has_conflict (grants_at lm2 (lq_tag req)) (lq_xid req) (lq_mode req) then Done (Inr ())
              else if c2 then Done (Inl Cancelled) else if d then Done (Inl Timeout) else Parked)
     \<and> mset (waiters_at lm3 (lq_tag req)) = mset (waiters_at lm2 (lq_tag req))
           - (if r2 = Parked then {#} else {#(lq_xid req, lq_mode req)#})"
proof (intro conjI)
  show "r1 = (if \<not> has_conflict (grants_at lm (lq_tag req)) (lq_xid req) (lq_mode req) then Done (Inr ())
              else if c then Done (Inl Cancelled)
              else if is_victim (lq_xid req) lm then Done (Inl (Deadlock (lq_xid req))) else Parked)"
    using assms(1) by (auto simp: acquire_start_def Let_def grants_at_def split: if_splits)
  let ?e = "(entry_or_new (lq_tag req) lm)
              \<lparr>le_waiters := waiters_at lm (lq_tag req) @ [(lq_xid req, lq_mode req)]\<rparr>"
  have "mset (le_waiters (remove_waiter (lq_xid req) (lq_mode req) ?e)) = mset (waiters_at lm (lq_tag req))"
    using waiters_remove [of "lq_xid req" "lq_mode req" ?e] by simp
  then show "mset (waiters_at lm1 (lq_tag req)) = mset (waiters_at lm (lq_tag req))
           + (if r1 = Parked then {#(lq_xid req, lq_mode req)#} else {#})"
    using assms(1) by (auto simp: acquire_start_def Let_def waiters_at_def split: if_splits)
  show "r2 = (if is_victim (lq_xid req) lm2 then Done (Inl (Deadlock (lq_xid req)))
              else if \<not> has_conflict (grants_at lm2 (lq_tag req)) (lq_xid req) (lq_mode req) then Done (Inr ())
              else if c2 then Done (Inl Cancelled) else if d then Done (Inl Timeout) else Parked)"
    using assms(2) by (auto simp: acquire_wake_def Let_def grants_at_def split: if_splits)
  show "mset (waiters_at lm3 (lq_tag req)) = mset (waiters_at lm2 (lq_tag req))
           - (if r2 = Parked then {#} else {#(lq_xid req, lq_mode req)#})"
    using assms(2,3) waiters_remove [of "lq_xid req" "lq_mode req" "entry_or_new (lq_tag req) lm2"]
    by (auto simp: acquire_wake_def Let_def waiters_at_def split: if_splits)
qed

theorem acquire_accounting_witness:
  "let req = \<lparr>lq_xid = 12, lq_tag = LockRelation 1, lq_mode = Exclusive\<rparr>;
       lm = release_all 10 two_readers
   in fst (acquire_start req 12 False two_readers) = Parked
      \<and> fst (acquire_wake req 12 True True lm) = Done (Inr ())
      \<and> mset (waiters_at (snd (acquire_wake req 12 True True lm)) (LockRelation 1)) = {#}"
proof -
  let ?req = "\<lparr>lq_xid = 12, lq_tag = LockRelation 1, lq_mode = Exclusive\<rparr>"
  let ?lm = "release_all 10 two_readers"
  have w: "waiters_at ?lm (LockRelation 1) = [(12, Exclusive)]"
    and v: "\<not> is_victim 12 ?lm" "\<not> is_victim 12 two_readers"
    and c: "\<not> has_conflict (grants_at ?lm (LockRelation 1)) 12 Exclusive"
      "has_conflict (grants_at two_readers (LockRelation 1)) 12 Exclusive"
    by code_simp+
  obtain r1 lm1 r2 lm3 where e: "acquire_start ?req 12 False two_readers = (r1, lm1)"
    "acquire_wake ?req 12 True True ?lm = (r2, lm3)" by fastforce
  from acquire_accounting [OF e] w v c show ?thesis by (auto simp: Let_def e)
qed

section \<open>Where the modes and the documentation differ\<close>

text \<open>
  The matrix against the comments beside it: \<^verbatim>\<open>RowShare\<close> does not conflict with \<^verbatim>\<open>Exclusive\<close>,
  \<^verbatim>\<open>RowExclusive\<close> does conflict with \<^verbatim>\<open>ShareUpdateExclusive\<close>, and so \<^verbatim>\<open>FOR UPDATE\<close> does not
  block \<^verbatim>\<open>FOR KEY SHARE\<close>, nor does \<^verbatim>\<open>FOR NO KEY UPDATE\<close> block itself.
\<close>

lemma mode_matrix_departures:
  "\<not> conflicts_with RowShare Exclusive" "conflicts_with RowExclusive ShareUpdateExclusive"
  "\<not> conflicts_with (to_lock_mode ForUpdate) (to_lock_mode ForKeyShare)"
  "\<not> conflicts_with (to_lock_mode ForNoKeyUpdate) (to_lock_mode ForNoKeyUpdate)"
  by simp_all

text \<open>
  A fastpath \<^verbatim>\<open>AccessShare\<close> lives in the thread-local cache only: another transaction is granted
  \<^verbatim>\<open>AccessExclusive\<close> on the same relation at once.
\<close>

lemma fastpath_share_invisible:
  "let rq = \<lambda>x m. \<lparr>lq_xid = x, lq_tag = LockRelation 1, lq_mode = m\<rparr>;
       (r1, cache, lm) = acquire_fastpath (rq 10 AccessShare) [] lock_manager_new
   in r1 = Done (Inr ()) \<and> length cache = 1 \<and> conflicts_with AccessExclusive AccessShare
      \<and> fst (acquire_start (rq 11 AccessExclusive) 11 False lm) = Done (Inr ())"
  by code_simp

end
