(* ===== verification/Ssi.thy ===== *)
theory Ssi
  imports Core_Ids "HOL-Library.AList"
begin

text \<open>
  Serializable snapshot isolation, \<^verbatim>\<open>crates/ultrasql-txn/src/ssi.rs\<close>: predicate-lock tags and
  their coverage test, the conflict graph, the dangerous-structure check, commit, abort and
  garbage collection. The map is an association list, a hash set a list without duplicates;
  bounds of type \<^verbatim>\<open>i64\<close> are only compared and are integers. The formatted detail text of an
  error is kept as the data it prints.
\<close>

section \<open>Predicate-lock tags\<close>

datatype predicate_lock_tag =
  TagTuple tuple_id
| TagPage page_id
| TagColumnRange relation_id u16 "int option" "int option"
| TagRelation relation_id

fun range_is_empty :: "int option \<Rightarrow> int option \<Rightarrow> bool" where
  "range_is_empty (Some low) (Some high) = (high < low)"
| "range_is_empty _ _ = False"

definition ranges_overlap :: "int option \<Rightarrow> int option \<Rightarrow> int option \<Rightarrow> int option \<Rightarrow> bool" where
  "ranges_overlap left_low left_high right_low right_high =
     (if range_is_empty left_low left_high \<or> range_is_empty right_low right_high then False
      else if (case (left_high, right_low) of (Some h, Some l) \<Rightarrow> h < l | _ \<Rightarrow> False) then False
      else if (case (right_high, left_low) of (Some h, Some l) \<Rightarrow> h < l | _ \<Rightarrow> False) then False
      else True)"

fun predicate_lock_covers :: "predicate_lock_tag \<Rightarrow> predicate_lock_tag \<Rightarrow> bool" where
  "predicate_lock_covers (TagRelation hr) (TagRelation rr) = (hr = rr)"
| "predicate_lock_covers (TagRelation hr) (TagPage rp) = (hr = pg_relation rp)"
| "predicate_lock_covers (TagRelation hr) (TagTuple rt) = (hr = pg_relation (tid_page rt))"
| "predicate_lock_covers (TagRelation hr) (TagColumnRange rel _ low high) =
     (hr = rel \<and> \<not> range_is_empty low high)"
| "predicate_lock_covers (TagPage hp) (TagPage rp) = (hp = rp)"
| "predicate_lock_covers (TagPage hp) (TagRelation rr) = (pg_relation hp = rr)"
| "predicate_lock_covers (TagPage hp) (TagTuple rt) = (hp = tid_page rt)"
| "predicate_lock_covers (TagTuple ht) (TagRelation rr) = (pg_relation (tid_page ht) = rr)"
| "predicate_lock_covers (TagTuple ht) (TagPage rp) = (tid_page ht = rp)"
| "predicate_lock_covers (TagTuple ht) (TagTuple rt) = (ht = rt)"
| "predicate_lock_covers (TagColumnRange rel _ low high) (TagRelation rr) =
     (rel = rr \<and> \<not> range_is_empty low high)"
| "predicate_lock_covers (TagColumnRange hrel hcol hlow hhigh) (TagColumnRange rrel rcol rlow rhigh) =
     (hrel = rrel \<and> hcol = rcol \<and> ranges_overlap hlow hhigh rlow rhigh)"
| "predicate_lock_covers _ _ = False"

section \<open>The conflict graph\<close>

record ssi_state =
  si_in_conflict_in :: "xid list"
  si_in_conflict_out :: "xid list"
  si_predicate_locks :: "predicate_lock_tag list"
  si_committed :: bool
  si_commit_horizon :: "xid option"

definition ssi_state_new :: ssi_state where
  "ssi_state_new = \<lparr>si_in_conflict_in = [], si_in_conflict_out = [], si_predicate_locks = [],
                    si_committed = False, si_commit_horizon = None\<rparr>"

type_synonym ssi_manager = "(xid \<times> ssi_state) list"

datatype ssi_error = Serialization xid "(xid \<times> bool) \<times> bool \<times> (xid \<times> bool)"

definition register_xid :: "xid \<Rightarrow> ssi_manager \<Rightarrow> ssi_manager" where
  "register_xid x s = (case map_of s x of Some _ \<Rightarrow> s | None \<Rightarrow> AList.update x ssi_state_new s)"

text \<open>\<^verbatim>\<open>DashMap::get_mut\<close>: change the entry if there is one.\<close>

definition modify :: "xid \<Rightarrow> (ssi_state \<Rightarrow> ssi_state) \<Rightarrow> ssi_manager \<Rightarrow> ssi_manager" where
  "modify x f s = (case map_of s x of Some e \<Rightarrow> AList.update x (f e) s | None \<Rightarrow> s)"

definition add_predicate_lock :: "xid \<Rightarrow> predicate_lock_tag \<Rightarrow> ssi_manager \<Rightarrow> ssi_manager" where
  "add_predicate_lock x tag s =
     modify x (\<lambda>e. e\<lparr>si_predicate_locks := si_predicate_locks e @ [tag]\<rparr>) s"

definition record_rw_conflict :: "xid \<Rightarrow> xid \<Rightarrow> ssi_manager \<Rightarrow> ssi_manager" where
  "record_rw_conflict reader writer s =
     (let s = modify reader (\<lambda>r. r\<lparr>si_in_conflict_out := List.insert writer (si_in_conflict_out r)\<rparr>) s
      in modify writer (\<lambda>w. w\<lparr>si_in_conflict_in := List.insert reader (si_in_conflict_in w)\<rparr>) s)"

definition find_predicate_lock_holders :: "predicate_lock_tag \<Rightarrow> ssi_manager \<Rightarrow> xid list" where
  "find_predicate_lock_holders tag s =
     map fst (filter (\<lambda>(x, e). list_ex (\<lambda>held. predicate_lock_covers held tag) (si_predicate_locks e)) s)"

definition record_write_conflicts :: "xid \<Rightarrow> predicate_lock_tag \<Rightarrow> ssi_manager \<Rightarrow> xid list \<times> ssi_manager" where
  "record_write_conflicts writer tag s =
     (if map_of s writer = None then ([], s)
      else
        let readers = find_predicate_lock_holders tag s;
            readers = filter (\<lambda>r. r \<noteq> writer) readers;
            readers = remdups_adj (sort readers)
        in (readers, fold (\<lambda>r. record_rw_conflict r writer) readers s))"

text \<open>The nested loop over the in- and out-edges, with its early return.\<close>

primrec scan_out :: "ssi_manager \<Rightarrow> xid \<Rightarrow> bool \<Rightarrow> xid \<Rightarrow> xid list \<Rightarrow> ssi_error option" where
  "scan_out s x pivot_committed t1 [] = None"
| "scan_out s x pivot_committed t1 (t3 # ts) =
     (if t1 = x \<or> t3 = x then scan_out s x pivot_committed t1 ts
      else case map_of s t1 of
        None \<Rightarrow> scan_out s x pivot_committed t1 ts
      | Some e1 \<Rightarrow>
          (case map_of s t3 of
             None \<Rightarrow> scan_out s x pivot_committed t1 ts
           | Some e3 \<Rightarrow>
               if si_committed e1 \<or> pivot_committed \<or> si_committed e3
               then Some (Serialization x ((t1, si_committed e1), pivot_committed, (t3, si_committed e3)))
               else scan_out s x pivot_committed t1 ts))"

primrec scan_in :: "ssi_manager \<Rightarrow> xid \<Rightarrow> bool \<Rightarrow> xid list \<Rightarrow> xid list \<Rightarrow> ssi_error option" where
  "scan_in s x pivot_committed outs [] = None"
| "scan_in s x pivot_committed outs (t1 # ts) =
     (case scan_out s x pivot_committed t1 outs of
        Some err \<Rightarrow> Some err
      | None \<Rightarrow> scan_in s x pivot_committed outs ts)"

definition check_for_dangerous_structure :: "xid \<Rightarrow> ssi_manager \<Rightarrow> ssi_error + unit" where
  "check_for_dangerous_structure x s =
     (case map_of s x of
        None \<Rightarrow> Inr ()
      | Some pivot \<Rightarrow>
          if si_in_conflict_in pivot = [] \<or> si_in_conflict_out pivot = [] then Inr ()
          else
            (case scan_in s x (si_committed pivot) (si_in_conflict_out pivot) (si_in_conflict_in pivot) of
               Some err \<Rightarrow> Inl err | None \<Rightarrow> Inr ()))"

definition ssi_commit :: "xid \<Rightarrow> xid \<Rightarrow> ssi_manager \<Rightarrow> (ssi_error + unit) \<times> ssi_manager" where
  "ssi_commit x commit_horizon s =
     (let s = modify x (\<lambda>e. e\<lparr>si_committed := True, si_commit_horizon := Some commit_horizon\<rparr>) s
      in (check_for_dangerous_structure x s, s))"

definition retire :: "xid \<Rightarrow> ssi_state \<Rightarrow> bool" where
  "retire horizon e \<longleftrightarrow>
     si_committed e \<and> (case si_commit_horizon e of Some h \<Rightarrow> h \<le> horizon | None \<Rightarrow> False)"

definition collect_garbage :: "xid \<Rightarrow> ssi_manager \<Rightarrow> nat \<times> ssi_manager" where
  "collect_garbage horizon s =
     (length (filter (\<lambda>(x, e). retire horizon e) s), filter (\<lambda>(x, e). \<not> retire horizon e) s)"

definition tracked_len :: "ssi_manager \<Rightarrow> nat" where
  "tracked_len s = length s"

definition ssi_abort :: "xid \<Rightarrow> ssi_manager \<Rightarrow> ssi_manager" where
  "ssi_abort x s = AList.delete x s"

definition predicate_locks :: "xid \<Rightarrow> ssi_manager \<Rightarrow> predicate_lock_tag list" where
  "predicate_locks x s = (case map_of s x of Some e \<Rightarrow> si_predicate_locks e | None \<Rightarrow> [])"

section \<open>Lookup lemmas\<close>

lemma modify_lookup:
  "map_of (modify x f s) y = (if y = x then map_option f (map_of s x) else map_of s y)"
  by (auto simp: modify_def update_conv' split: option.splits)

lemma modify_dom [simp]: "map_of (modify x f s) y = None \<longleftrightarrow> map_of s y = None"
  by (auto simp: modify_lookup)

lemma modify_keys [simp]: "map fst (modify x f s) = map fst s"
proof (cases "map_of s x")
  case (Some e)
  then have "x \<in> fst ` set s" by (metis domI dom_map_of_conv_image_fst)
  with Some show ?thesis by (simp add: modify_def update_keys)
qed (simp add: modify_def)

lemma record_rw_conflict_keys [simp]: "map fst (record_rw_conflict r w s) = map fst s"
  by (simp add: record_rw_conflict_def Let_def)

definition rw_edge :: "ssi_manager \<Rightarrow> xid \<Rightarrow> xid \<Rightarrow> bool" where
  "rw_edge s r w \<longleftrightarrow>
     (\<exists>e. map_of s r = Some e \<and> w \<in> set (si_in_conflict_out e))
     \<and> (\<exists>e. map_of s w = Some e \<and> r \<in> set (si_in_conflict_in e))"

lemma rw_edge_record:
  assumes "map_of s r \<noteq> None" "map_of s w \<noteq> None"
  shows "rw_edge (record_rw_conflict r w s) r w"
  using assms by (auto simp: rw_edge_def record_rw_conflict_def Let_def modify_lookup)

lemma rw_edge_mono: "rw_edge s a b \<Longrightarrow> rw_edge (record_rw_conflict r w s) a b"
  by (auto simp: rw_edge_def record_rw_conflict_def Let_def modify_lookup)

section \<open>The dangerous-structure check\<close>

definition tracked :: "ssi_manager \<Rightarrow> xid \<Rightarrow> bool" where
  "tracked s x \<longleftrightarrow> map_of s x \<noteq> None"

definition leg_committed :: "ssi_manager \<Rightarrow> xid \<Rightarrow> bool" where
  "leg_committed s x \<longleftrightarrow> (\<exists>e. map_of s x = Some e \<and> si_committed e)"

definition dangerous :: "ssi_manager \<Rightarrow> xid \<Rightarrow> bool \<Rightarrow> xid \<Rightarrow> xid \<Rightarrow> bool" where
  "dangerous s x pc t1 t3 \<longleftrightarrow>
     t1 \<noteq> x \<and> t3 \<noteq> x \<and> tracked s t1 \<and> tracked s t3 \<and> (leg_committed s t1 \<or> pc \<or> leg_committed s t3)"

lemma scan_out_None: "scan_out s x pc t1 outs = None \<longleftrightarrow> (\<forall>t3 \<in> set outs. \<not> dangerous s x pc t1 t3)"
  by (induction outs) (auto simp: dangerous_def tracked_def leg_committed_def split: option.splits)

lemma scan_in_None:
  "scan_in s x pc outs ins = None \<longleftrightarrow> (\<forall>t1 \<in> set ins. \<forall>t3 \<in> set outs. \<not> dangerous s x pc t1 t3)"
proof (induction ins)
  case (Cons a ins)
  then show ?case using scan_out_None [of s x pc a outs] by (cases "scan_out s x pc a outs") auto
qed simp

lemma check_ok_iff:
  "check_for_dangerous_structure x s = Inr () \<longleftrightarrow>
     (\<forall>p. map_of s x = Some p \<longrightarrow>
        (\<forall>t1 \<in> set (si_in_conflict_in p). \<forall>t3 \<in> set (si_in_conflict_out p).
           \<not> dangerous s x (si_committed p) t1 t3))"
proof (cases "map_of s x")
  case (Some p)
  have "check_for_dangerous_structure x s = Inr () \<longleftrightarrow>
      scan_in s x (si_committed p) (si_in_conflict_out p) (si_in_conflict_in p) = None"
    using Some scan_in_None [of s x "si_committed p" "si_in_conflict_out p" "si_in_conflict_in p"]
    by (auto simp: check_for_dangerous_structure_def split: option.splits)
  with Some show ?thesis by (simp add: scan_in_None)
qed (simp add: check_for_dangerous_structure_def)

lemma scan_out_victim: "scan_out s x pc t1 outs = Some (Serialization v d) \<Longrightarrow> v = x"
  by (induction outs) (auto split: if_splits option.splits)

lemma scan_in_victim: "scan_in s x pc outs ins = Some (Serialization v d) \<Longrightarrow> v = x"
  by (induction ins) (auto split: option.splits dest: scan_out_victim)

lemma tracked_modify [simp]: "tracked (modify y f s) x = tracked s x"
  by (simp add: tracked_def)

lemma ssi_commit_ok_iff:
  assumes "map_of s x = Some p"
  shows "fst (ssi_commit x h s) = Inr () \<longleftrightarrow>
    \<not> (\<exists>t1 \<in> set (si_in_conflict_in p). \<exists>t3 \<in> set (si_in_conflict_out p).
         t1 \<noteq> x \<and> t3 \<noteq> x \<and> tracked s t1 \<and> tracked s t3)"
  using assms by (auto simp: ssi_commit_def Let_def check_ok_iff modify_lookup dangerous_def)

lemma pivot_cannot_commit:
  assumes "rw_edge s a x" "rw_edge s x b" "a \<noteq> x" "b \<noteq> x"
  shows "fst (ssi_commit x h s) \<noteq> Inr ()"
proof -
  obtain p where p: "map_of s x = Some p" "a \<in> set (si_in_conflict_in p)" "b \<in> set (si_in_conflict_out p)"
    using assms(1,2) unfolding rw_edge_def by fastforce
  have "tracked s a" "tracked s b" using assms(1,2) by (auto simp: rw_edge_def tracked_def)
  with p assms(3,4) show ?thesis unfolding ssi_commit_ok_iff [OF p(1)] by blast
qed

section \<open>Runs of the manager\<close>

text \<open>Everything the manager can do to other transactions while \<open>a\<close> and \<open>b\<close> stay tracked.\<close>

inductive ssi_step :: "ssi_manager \<Rightarrow> ssi_manager \<Rightarrow> bool" where
  reg: "ssi_step s (register_xid x s)"
| lock: "ssi_step s (add_predicate_lock x tag s)"
| conflict: "ssi_step s (record_rw_conflict r w s)"
| writes: "ssi_step s (snd (record_write_conflicts w tag s))"
| commit: "ssi_step s (snd (ssi_commit x h s))"
| abort: "ssi_step s (ssi_abort x s)"
| gc: "ssi_step s (snd (collect_garbage h s))"

lemma fold_conflict_edge:
  "rw_edge s a b \<Longrightarrow> rw_edge (fold (\<lambda>r. record_rw_conflict r w) rs s) a b"
  by (induction rs arbitrary: s) (auto intro: rw_edge_mono)

lemma rw_edge_modify:
  assumes "rw_edge s a b"
    and "\<And>e. set (si_in_conflict_in e) \<subseteq> set (si_in_conflict_in (f e))"
    and "\<And>e. set (si_in_conflict_out e) \<subseteq> set (si_in_conflict_out (f e))"
  shows "rw_edge (modify x f s) a b"
  using assms by (force simp: rw_edge_def modify_lookup)

lemma map_of_filter_key:
  "distinct (map fst s) \<Longrightarrow> map_of (filter (\<lambda>(x, e). P x e) s) y =
     (case map_of s y of Some e \<Rightarrow> if P y e then Some e else None | None \<Rightarrow> None)"
  by (induction s) (auto split: option.splits simp: map_of_eq_None_iff image_iff)

lemma collect_garbage_lookup:
  "distinct (map fst s) \<Longrightarrow> map_of (snd (collect_garbage h s)) y =
     (case map_of s y of Some e \<Rightarrow> if retire h e then None else Some e | None \<Rightarrow> None)"
  by (simp add: collect_garbage_def map_of_filter_key split: option.splits)

lemma distinct_keys_step:
  assumes "ssi_step s s'" "distinct (map fst s)"
  shows "distinct (map fst s')"
  using assms(1)
proof cases
  case (writes w tag)
  have "map fst (fold (\<lambda>r. record_rw_conflict r w) rs t) = map fst t" for rs t
    by (induction rs arbitrary: t) auto
  with writes assms(2) show ?thesis by (simp add: record_write_conflicts_def Let_def)
qed (use assms(2) in \<open>auto simp: register_xid_def add_predicate_lock_def ssi_commit_def Let_def
      ssi_abort_def collect_garbage_def distinct_update distinct_delete distinct_map_filter
      split: option.splits\<close>)

lemma rw_edge_step:
  assumes "ssi_step s s'" "distinct (map fst s)" "rw_edge s a b" "tracked s' a" "tracked s' b"
  shows "rw_edge s' a b"
  using assms(1)
proof cases
  case (reg x)
  with assms(3) show ?thesis
    by (auto simp: register_xid_def rw_edge_def update_conv' split: option.splits)
next
  case (lock x tag)
  then show ?thesis unfolding lock add_predicate_lock_def by (intro rw_edge_modify [OF assms(3)]) auto
next
  case (conflict r w)
  with assms(3) show ?thesis by (simp add: rw_edge_mono)
next
  case (writes w tag)
  with assms(3) show ?thesis by (simp add: record_write_conflicts_def Let_def fold_conflict_edge)
next
  case (commit x h)
  then show ?thesis
    unfolding commit ssi_commit_def Let_def snd_conv by (intro rw_edge_modify [OF assms(3)]) auto
next
  case (abort x)
  with assms(3-5) show ?thesis by (auto simp: ssi_abort_def rw_edge_def tracked_def delete_conv')
next
  case (gc h)
  obtain ea eb where e: "map_of s a = Some ea" "b \<in> set (si_in_conflict_out ea)"
    "map_of s b = Some eb" "a \<in> set (si_in_conflict_in eb)" using assms(3) unfolding rw_edge_def by blast
  have lk: "map_of s' a = (if retire h ea then None else Some ea)"
    "map_of s' b = (if retire h eb then None else Some eb)"
    unfolding gc collect_garbage_lookup [OF assms(2)] e option.case by (rule refl)+
  with assms(4,5) have "map_of s' a = Some ea" "map_of s' b = Some eb"
    unfolding tracked_def by (simp_all split: if_splits)
  with e show ?thesis unfolding rw_edge_def by blast
qed

definition step_tracking :: "xid set \<Rightarrow> ssi_manager \<Rightarrow> ssi_manager \<Rightarrow> bool" where
  "step_tracking A s s' \<longleftrightarrow> ssi_step s s' \<and> (\<forall>x \<in> A. tracked s' x)"

lemma rw_edge_run:
  assumes "(step_tracking A)\<^sup>*\<^sup>* s s'" "distinct (map fst s)" "rw_edge s a b" "{a, b} \<subseteq> A"
  shows "rw_edge s' a b \<and> distinct (map fst s')"
  using assms(1)
proof (induction rule: rtranclp_induct)
  case base
  with assms show ?case by simp
next
  case (step t u)
  with assms(4) show ?case
    using rw_edge_step [of t u a b] distinct_keys_step [of t u] by (auto simp: step_tracking_def)
qed

text \<open>
  C16. A pivot never commits. Once the rw-antidependencies \<open>a\<close> to \<open>x\<close> and \<open>x\<close> to \<open>b\<close> are recorded
  (\<open>a\<close> and \<open>b\<close> may be the same transaction, which is write skew), every later commit attempt of
  \<open>x\<close> fails, whatever the manager does meanwhile, as long as the three stay in the graph.
\<close>

theorem ssi_pivot_never_commits:
  assumes "distinct (map fst s)" "rw_edge s a x" "rw_edge s x b" "a \<noteq> x" "b \<noteq> x"
    and "(step_tracking {a, x, b})\<^sup>*\<^sup>* s s'"
  shows "fst (ssi_commit x h s') \<noteq> Inr ()"
proof (rule pivot_cannot_commit [OF _ _ assms(4,5)])
  show "rw_edge s' a x" using rw_edge_run [OF assms(6,1,2)] by blast
  show "rw_edge s' x b" using rw_edge_run [OF assms(6,1,3)] by blast
qed

definition skew_state :: ssi_manager where
  "skew_state =
     (let s = register_xid 11 (register_xid 10 []);
          s = add_predicate_lock 10 (TagColumnRange 1 0 (Some 5) (Some 5)) s;
          s = add_predicate_lock 11 (TagRelation 1) s;
          s = snd (record_write_conflicts 10 (TagColumnRange 1 0 (Some 7) (Some 7)) s)
      in snd (record_write_conflicts 11 (TagColumnRange 1 0 (Some 5) None) s))"

theorem ssi_pivot_never_commits_witness:
  "rw_edge skew_state 10 11 \<and> rw_edge skew_state 11 10
   \<and> fst (ssi_commit 10 12 (snd (ssi_commit 11 12 skew_state))) \<noteq> Inr ()"
proof -
  have e: "rw_edge skew_state 10 11" "rw_edge skew_state 11 10"
    unfolding rw_edge_def by (simp_all add: skew_state_def register_xid_def add_predicate_lock_def
        modify_def record_write_conflicts_def find_predicate_lock_holders_def ssi_state_new_def
        record_rw_conflict_def ranges_overlap_def Let_def)
  have d: "distinct (map fst skew_state)" and t: "tracked skew_state 10" "tracked skew_state 11" by code_simp+
  have "(step_tracking {11, 10, 11})\<^sup>*\<^sup>* skew_state (snd (ssi_commit 11 12 skew_state))"
    using t ssi_step.commit [of skew_state 11 12]
    by (intro r_into_rtranclp) (simp add: step_tracking_def ssi_commit_def Let_def)
  from ssi_pivot_never_commits [OF d e(2) e(1) _ _ this] e show ?thesis by simp
qed

section \<open>Writers find their readers\<close>

lemma fold_conflict_edge_new:
  assumes "r \<in> set rs" "map_of s r \<noteq> None" "map_of s w \<noteq> None"
  shows "rw_edge (fold (\<lambda>r. record_rw_conflict r w) rs s) r w"
  using assms
proof (induction rs arbitrary: s)
  case (Cons a rs)
  have dom: "map_of (record_rw_conflict a w s) y \<noteq> None" if "map_of s y \<noteq> None" for y
    using that by (auto simp: record_rw_conflict_def Let_def)
  show ?case
  proof (cases "r = a")
    case True
    then show ?thesis using Cons.prems by (simp add: fold_conflict_edge rw_edge_record)
  next
    case False
    with Cons.prems dom Cons.IH [of "record_rw_conflict a w s"] show ?thesis by simp
  qed
qed simp

lemma rw_edge_record_inv:
  assumes "rw_edge (record_rw_conflict r w s) a b"
  shows "rw_edge s a b \<or> a = r \<and> b = w"
proof -
  have "w \<noteq> b \<or> r \<noteq> a \<Longrightarrow> rw_edge s a b"
    using assms by (auto simp: rw_edge_def record_rw_conflict_def Let_def modify_lookup split: if_splits)
  then show ?thesis by blast
qed

lemma fold_conflict_edge_inv:
  "rw_edge (fold (\<lambda>r. record_rw_conflict r w) rs s) a b \<Longrightarrow> rw_edge s a b \<or> a \<in> set rs \<and> b = w"
proof (induction rs arbitrary: s)
  case (Cons r rs)
  then have "rw_edge (record_rw_conflict r w s) a b \<or> a \<in> set rs \<and> b = w" by simp
  then show ?case using rw_edge_record_inv [of r w s a b] by auto
qed simp

lemma holder_iff:
  assumes "distinct (map fst s)"
  shows "r \<in> set (find_predicate_lock_holders tag s) \<longleftrightarrow>
    (\<exists>held \<in> set (predicate_locks r s). predicate_lock_covers held tag)"
proof -
  have "r \<in> set (find_predicate_lock_holders tag s) \<longleftrightarrow>
      (\<exists>e. (r, e) \<in> set s \<and> (\<exists>held \<in> set (si_predicate_locks e). predicate_lock_covers held tag))"
    by (force simp: find_predicate_lock_holders_def list_ex_iff)
  also have "\<dots> \<longleftrightarrow> (\<exists>e. map_of s r = Some e
      \<and> (\<exists>held \<in> set (si_predicate_locks e). predicate_lock_covers held tag))"
    using assms by (simp add: map_of_eq_Some_iff)
  also have "\<dots> \<longleftrightarrow> (\<exists>held \<in> set (predicate_locks r s). predicate_lock_covers held tag)"
    by (cases "map_of s r") (auto simp: predicate_locks_def)
  finally show ?thesis .
qed

text \<open>
  C24. A writer finds exactly its readers. For a registered writer, the returned list is the
  ascending list of the other transactions holding a predicate lock that covers the written
  tag; each of them gets an edge to the writer, every earlier edge stays and no other edge
  appears.
\<close>

theorem ssi_write_conflicts_exact:
  assumes "distinct (map fst s)" "tracked s writer" "record_write_conflicts writer tag s = (readers, s')"
  shows "sorted readers \<and> distinct readers
     \<and> (\<forall>r. r \<in> set readers \<longleftrightarrow> r \<noteq> writer \<and> (\<exists>held \<in> set (predicate_locks r s). predicate_lock_covers held tag))
     \<and> (\<forall>a b. rw_edge s' a b \<longleftrightarrow> rw_edge s a b \<or> a \<in> set readers \<and> b = writer)"
proof -
  let ?rs = "remdups_adj (sort (filter (\<lambda>r. r \<noteq> writer) (find_predicate_lock_holders tag s)))"
  have r: "readers = ?rs" and s': "s' = fold (\<lambda>r. record_rw_conflict r writer) readers s"
    using assms(2,3) by (auto simp: record_write_conflicts_def tracked_def Let_def)
  have sd: "sorted readers" "distinct readers" unfolding r sort_dedup by simp_all
  have mem: "r \<in> set readers \<longleftrightarrow>
      r \<noteq> writer \<and> (\<exists>held \<in> set (predicate_locks r s). predicate_lock_covers held tag)" for r
    unfolding \<open>readers = ?rs\<close> using holder_iff [OF assms(1), of r tag] by auto
  have "map_of s r \<noteq> None" if "r \<in> set readers" for r
    using mem [of r] that by (cases "map_of s r") (auto simp: predicate_locks_def)
  then have "rw_edge s' a b \<longleftrightarrow> rw_edge s a b \<or> a \<in> set readers \<and> b = writer" for a b
    unfolding s' using assms(2) fold_conflict_edge_inv fold_conflict_edge fold_conflict_edge_new
    by (metis tracked_def)
  with sd mem show ?thesis by blast
qed

theorem ssi_write_conflicts_exact_witness:
  "\<exists>s readers s'. distinct (map fst s) \<and> tracked s 11
     \<and> record_write_conflicts 11 (TagTuple (TupleId (PageId 1 0) 3)) s = (readers, s')
     \<and> readers = [10] \<and> rw_edge s' 10 11"
proof -
  let ?s = "add_predicate_lock 10 (TagPage (PageId 1 0)) (register_xid 11 (register_xid 10 []))"
  obtain rs s' where e: "record_write_conflicts 11 (TagTuple (TupleId (PageId 1 0) 3)) ?s = (rs, s')"
    by fastforce
  have d: "distinct (map fst ?s)" "tracked ?s 11" by code_simp+
  have rs: "rs = [10]"
    using e by (simp add: record_write_conflicts_def register_xid_def add_predicate_lock_def modify_def
        find_predicate_lock_holders_def ssi_state_new_def Let_def)
  have "rw_edge s' a b \<longleftrightarrow> rw_edge ?s a b \<or> a \<in> set rs \<and> b = 11" for a b
    using ssi_write_conflicts_exact [OF d e] by blast
  then have "rw_edge s' 10 11" using rs by simp
  with d e rs show ?thesis by blast
qed

section \<open>What the tags cover\<close>

text \<open>Rows as a tuple position with integer column values, and the rows a tag names.\<close>

type_synonym row = "tuple_id \<times> (u16 \<Rightarrow> int)"

fun in_range :: "int option \<Rightarrow> int option \<Rightarrow> int \<Rightarrow> bool" where
  "in_range low high v \<longleftrightarrow>
     (case low of Some l \<Rightarrow> l \<le> v | None \<Rightarrow> True) \<and> (case high of Some h \<Rightarrow> v \<le> h | None \<Rightarrow> True)"

fun tag_rows :: "predicate_lock_tag \<Rightarrow> row set" where
  "tag_rows (TagTuple t) = {r. fst r = t}"
| "tag_rows (TagPage p) = {r. tid_page (fst r) = p}"
| "tag_rows (TagRelation rel) = {r. pg_relation (tid_page (fst r)) = rel}"
| "tag_rows (TagColumnRange rel c low high) =
     {r. pg_relation (tid_page (fst r)) = rel \<and> in_range low high (snd r c)}"

text \<open>Tag pairs the test decides: not a column range against a page or tuple, nor two columns.\<close>

fun comparable :: "predicate_lock_tag \<Rightarrow> predicate_lock_tag \<Rightarrow> bool" where
  "comparable (TagColumnRange _ c _ _) (TagColumnRange _ d _ _) = (c = d)"
| "comparable (TagColumnRange _ _ _ _) (TagRelation _) = True"
| "comparable (TagRelation _) (TagColumnRange _ _ _ _) = True"
| "comparable (TagColumnRange _ _ _ _) _ = False"
| "comparable _ (TagColumnRange _ _ _ _) = False"
| "comparable _ _ = True"

lemma range_nonempty: "(\<exists>v. in_range low high v) \<longleftrightarrow> \<not> range_is_empty low high"
proof (cases low; cases high)
  fix l h assume "low = Some l" "high = Some h"
  then show ?thesis by (auto intro: order_trans exI [of _ l])
next
  fix l assume "low = Some l" "high = None"
  then show ?thesis by (auto intro: exI [of _ l])
next
  fix h assume "low = None" "high = Some h"
  then show ?thesis by (auto intro: exI [of _ h])
qed auto

lemma ranges_overlap_iff:
  "ranges_overlap ll lh rl rh \<longleftrightarrow> (\<exists>v. in_range ll lh v \<and> in_range rl rh v)"
proof -
  define low where "low = (case (ll, rl) of (Some a, Some b) \<Rightarrow> Some (max a b) | (Some a, None) \<Rightarrow> Some a | (None, b) \<Rightarrow> b)"
  define high where "high = (case (lh, rh) of (Some a, Some b) \<Rightarrow> Some (min a b) | (Some a, None) \<Rightarrow> Some a | (None, b) \<Rightarrow> b)"
  have "in_range ll lh v \<and> in_range rl rh v \<longleftrightarrow> in_range low high v" for v
    by (auto simp: low_def high_def split: option.splits)
  moreover have "ranges_overlap ll lh rl rh \<longleftrightarrow> \<not> range_is_empty low high"
    by (cases ll; cases lh; cases rl; cases rh) (auto simp: ranges_overlap_def low_def high_def)
  ultimately show ?thesis by (simp add: range_nonempty del: in_range.simps)
qed

lemma row_exists:
  "\<exists>r. fst r = t" "\<exists>r. tid_page (fst r) = p" "\<exists>r. pg_relation (tid_page (fst r)) = rel"
  "(\<exists>v. P v) \<Longrightarrow> \<exists>r. pg_relation (tid_page (fst r)) = rel \<and> P (snd r c)"
proof -
  show "\<exists>r. fst r = t" by simp
  show "\<exists>r. tid_page (fst r) = p" by (metis fst_conv tuple_id.sel(1))
  show "\<exists>r. pg_relation (tid_page (fst r)) = rel" by (metis fst_conv page_id.sel(1) tuple_id.sel(1))
  assume "\<exists>v. P v"
  then obtain v where "P v" ..
  then show "\<exists>r. pg_relation (tid_page (fst r)) = rel \<and> P (snd r c)"
    by (intro exI [of _ "(TupleId (PageId rel 0) 0, \<lambda>_. v)"]) simp
qed

text \<open>
  C25. The coverage test is exact for the pairs it compares: a held tag covers a written tag if
  and only if some row belongs to both. For column ranges this is the interval arithmetic of
  the overlap test, with inclusive bounds, missing bounds and empty intervals.
\<close>

theorem predicate_lock_covers_exact:
  assumes "comparable held requested"
  shows "predicate_lock_covers held requested \<longleftrightarrow> tag_rows held \<inter> tag_rows requested \<noteq> {}"
proof -
  have range: "pg_relation (tid_page (TupleId (PageId rel 0) 0)) = rel" for rel by simp
  have ex: "(\<exists>r. pg_relation (tid_page (fst r)) = rel \<and> P (snd r c)) \<longleftrightarrow> (\<exists>v. P v)" for rel P c
    using row_exists(4) [of P rel c] by blast
  show ?thesis
  proof (cases held; cases requested)
    fix rel c low high rel' c' low' high'
    assume h: "held = TagColumnRange rel c low high" "requested = TagColumnRange rel' c' low' high'"
    then have "c = c'" using assms by simp
    then show ?thesis using h ex [of rel "\<lambda>v. in_range low high v \<and> in_range low' high' v" c]
      unfolding h predicate_lock_covers.simps ranges_overlap_iff tag_rows.simps by blast
  next
    fix rel c low high rel'
    assume h: "held = TagColumnRange rel c low high" "requested = TagRelation rel'"
    show ?thesis using ex [of rel "in_range low high" c]
      unfolding h predicate_lock_covers.simps range_nonempty [symmetric] tag_rows.simps by blast
  next
    fix rel c low high rel'
    assume h: "requested = TagColumnRange rel c low high" "held = TagRelation rel'"
    show ?thesis using ex [of rel "in_range low high" c]
      unfolding h predicate_lock_covers.simps range_nonempty [symmetric] tag_rows.simps by blast
  next
    fix p rel assume h: "held = TagRelation rel" "requested = TagPage p"
    show ?thesis unfolding h by (auto simp: set_eq_iff intro: exI [of _ "TupleId p 0"])
  next
    fix p rel assume h: "held = TagPage p" "requested = TagRelation rel"
    show ?thesis unfolding h by (auto simp: set_eq_iff intro: exI [of _ "TupleId p 0"])
  qed (use assms row_exists(1-3) in \<open>auto simp: set_eq_iff\<close>)
qed

theorem predicate_lock_covers_exact_witness:
  "comparable (TagColumnRange 1 0 (Some 3) None) (TagColumnRange 1 0 None (Some 3))
   \<and> tag_rows (TagColumnRange 1 0 (Some 3) None) \<inter> tag_rows (TagColumnRange 1 0 None (Some 3)) \<noteq> {}"
  using predicate_lock_covers_exact [of "TagColumnRange 1 0 (Some 3) None" "TagColumnRange 1 0 None (Some 3)"]
  by (simp add: ranges_overlap_def del: tag_rows.simps)

text \<open>
  The pairs the test does not compare are answered \<open>False\<close> although rows are shared: a reader's
  column range is invisible to a writer that names a page or a tuple.
\<close>

lemma column_range_misses_tuple:
  "\<not> predicate_lock_covers (TagColumnRange 1 0 None None) (TagTuple (TupleId (PageId 1 0) 0))"
  "tag_rows (TagColumnRange 1 0 None None) \<inter> tag_rows (TagTuple (TupleId (PageId 1 0) 0)) \<noteq> {}"
  by (auto simp: set_eq_iff)

section \<open>Reads after writes\<close>

text \<open>
  Edges are recorded only when a writer meets an earlier predicate lock. Two transactions that
  first write and then read each other's object leave no edge, and both commit.
\<close>

definition write_then_read :: "(ssi_error + unit) \<times> (ssi_error + unit)" where
  "write_then_read =
     (let s = register_xid 11 (register_xid 10 []);
          s = snd (record_write_conflicts 10 (TagRelation 1) s);
          s = snd (record_write_conflicts 11 (TagRelation 2) s);
          s = add_predicate_lock 10 (TagRelation 2) s;
          s = add_predicate_lock 11 (TagRelation 1) s;
          (r10, s) = ssi_commit 10 12 s;
          (r11, s) = ssi_commit 11 12 s
      in (r10, r11))"

lemma write_then_read_both_commit: "write_then_read = (Inr (), Inr ())"
  by code_simp

end
