(* ===== verification/Txn_Manager.thy ===== *)
theory Txn_Manager
  imports Visibility Savepoint_Spec Lock_Safety Ssi
begin

text \<open>
  The transaction manager, \<^verbatim>\<open>crates/ultrasql-txn/src/manager.rs\<close>: identifier allocation, the
  in-memory commit log with its in-progress mirror, snapshots, savepoints, commit, abort,
  vacuum horizon, recovery and the status oracle. Atomics and concurrent maps are fields of a
  record; each operation is the whole method, run without interleaving (\<open>Txn_Race\<close> splits the
  methods where the source releases its locks). The lock manager and the conflict tracker are
  the components of \<open>Lock_Table\<close> and \<open>Ssi\<close>.
\<close>

section \<open>State\<close>

datatype isolation_level = ReadCommitted | RepeatableRead | Serializable

datatype txn_error =
  AlreadyTerminated xid xid_status
| UnknownXid xid
| SerializationFailure xid "(xid \<times> bool) \<times> bool \<times> (xid \<times> bool)"

record own_subxids =
  ow_live :: "xid list"
  ow_rolled_back :: "xid list"

definition own_empty :: own_subxids where
  "own_empty = \<lparr>ow_live = [], ow_rolled_back = []\<rparr>"

definition own_from_subtxn :: "subtxn_manager \<Rightarrow> own_subxids" where
  "own_from_subtxn sm = \<lparr>ow_live = self_subxids sm, ow_rolled_back = rolled_back_subxids sm\<rparr>"

definition own_is_empty :: "own_subxids \<Rightarrow> bool" where
  "own_is_empty own \<longleftrightarrow> ow_live own = [] \<and> ow_rolled_back own = []"

record transaction =
  tx_xid :: xid
  tx_snapshot :: snapshot
  tx_isolation :: isolation_level
  tx_read_only :: bool
  tx_start_lsn :: lsn
  tx_current_command :: command_id
  tx_subtxn_stack :: subtxn_manager

definition current_xid :: "transaction \<Rightarrow> xid" where
  "current_xid txn =
     (if stack_snapshot (tx_subtxn_stack txn) = [] then tx_xid txn
      else sx_xid (last (stack_snapshot (tx_subtxn_stack txn))))"

definition write_xid :: "transaction \<Rightarrow> xid" where
  "write_xid txn = current_xid txn"

definition abort_write_xid_family :: "transaction \<Rightarrow> xid list" where
  "abort_write_xid_family txn =
     remdups_adj (sort ([tx_xid txn] @ live_stack_subxids (tx_subtxn_stack txn)
       @ merged_up_subxids (tx_subtxn_stack txn) @ rolled_back_subxids (tx_subtxn_stack txn)))"

definition committed_subxid_family :: "transaction \<Rightarrow> xid list" where
  "committed_subxid_family txn =
     remdups_adj (sort (merged_up_subxids (tx_subtxn_stack txn) @ live_stack_subxids (tx_subtxn_stack txn)))"

record txn_manager =
  tm_next_xid :: u64
  tm_clog :: "(xid \<times> xid_status) list"
  tm_in_progress :: "xid set"
  tm_snapshot_xmins :: "(xid \<times> xid) list"
  tm_subxid_parent :: "(xid \<times> xid) list"
  tm_ssi :: "ssi_manager option"
  tm_lock_manager :: lock_manager
  tm_xact_commit :: u64
  tm_xact_rollback :: u64

definition txn_manager_with :: "ssi_manager option \<Rightarrow> txn_manager" where
  "txn_manager_with ssi =
     \<lparr>tm_next_xid = Xid_FIRST_USER, tm_clog = [], tm_in_progress = {}, tm_snapshot_xmins = [],
      tm_subxid_parent = [], tm_ssi = ssi, tm_lock_manager = lock_manager_new,
      tm_xact_commit = 0, tm_xact_rollback = 0\<rparr>"

definition txn_manager_new :: txn_manager where
  "txn_manager_new = txn_manager_with None"

definition new_with_ssi :: "ssi_manager \<Rightarrow> txn_manager" where
  "new_with_ssi ssi = txn_manager_with (Some ssi)"

section \<open>Snapshots and begin\<close>

text \<open>
  The allocation shared by \<^verbatim>\<open>begin\<close> and the savepoint closures: take the next identifier and
  publish it in the commit log and the mirror.
\<close>

definition alloc_xid :: "txn_manager \<Rightarrow> xid \<times> txn_manager" where
  "alloc_xid tm =
     (let x = tm_next_xid tm in
      (x, tm\<lparr>tm_next_xid := x + 1,
             tm_clog := AList.update x InProgress (tm_clog tm),
             tm_in_progress := insert x (tm_in_progress tm)\<rparr>))"

definition min_step :: "xid option \<Rightarrow> xid \<Rightarrow> xid option" where
  "min_step m x = Some (case m of None \<Rightarrow> x | Some cur \<Rightarrow> if cur \<le> x then cur else x)"

definition build_snapshot :: "xid \<Rightarrow> command_id \<Rightarrow> own_subxids \<Rightarrow> txn_manager \<Rightarrow> snapshot" where
  "build_snapshot cur current_command own tm =
     (let xmax = tm_next_xid tm;
          xip = filter (\<lambda>x. x \<noteq> cur \<and> x \<notin> set (ow_live own) \<and> \<not> xmax \<le> x)
                  (sorted_list_of_set (tm_in_progress tm));
          xmin = (case foldl min_step None xip of None \<Rightarrow> xmax | Some m \<Rightarrow> m);
          s = snapshot_new xmin xmax cur current_command xip
      in if own_is_empty own then s else set_own_subxids (ow_live own) (ow_rolled_back own) s)"

definition register_serializable :: "xid \<Rightarrow> txn_manager \<Rightarrow> txn_manager" where
  "register_serializable x tm =
     (case tm_ssi tm of Some ssi \<Rightarrow> tm\<lparr>tm_ssi := Some (register_xid x ssi)\<rparr> | None \<Rightarrow> tm)"

definition txn_begin :: "isolation_level \<Rightarrow> txn_manager \<Rightarrow> transaction \<times> txn_manager" where
  "txn_begin isolation tm =
     (let (x, tm) = alloc_xid tm;
          s = build_snapshot x CommandId_FIRST own_empty tm;
          tm = tm\<lparr>tm_snapshot_xmins := AList.update x (sn_xmin s) (tm_snapshot_xmins tm)\<rparr>;
          tm = (if isolation = Serializable then register_serializable x tm else tm)
      in (\<lparr>tx_xid = x, tx_snapshot = s, tx_isolation = isolation, tx_read_only = False,
           tx_start_lsn = Lsn_ZERO, tx_current_command = CommandId_FIRST,
           tx_subtxn_stack = subtxn_new x\<rparr>, tm))"

definition apply_own_subxids :: "transaction \<Rightarrow> transaction" where
  "apply_own_subxids txn =
     (let own = own_from_subtxn (tx_subtxn_stack txn) in
      txn\<lparr>tx_snapshot := set_own_subxids (ow_live own) (ow_rolled_back own) (tx_snapshot txn)\<rparr>)"

definition refresh_snapshot :: "transaction \<Rightarrow> txn_manager \<Rightarrow> transaction \<times> txn_manager" where
  "refresh_snapshot txn tm =
     (let txn = txn\<lparr>tx_current_command := command_next (tx_current_command txn)\<rparr> in
      case tx_isolation txn of
        ReadCommitted \<Rightarrow>
          (let s = build_snapshot (tx_xid txn) (tx_current_command txn)
                     (own_from_subtxn (tx_subtxn_stack txn)) tm
           in (txn\<lparr>tx_snapshot := s\<rparr>,
               tm\<lparr>tm_snapshot_xmins := AList.update (tx_xid txn) (sn_xmin s) (tm_snapshot_xmins tm)\<rparr>))
      | _ \<Rightarrow>
          (apply_own_subxids
             (txn\<lparr>tx_snapshot := (tx_snapshot txn)\<lparr>sn_current_command := tx_current_command txn\<rparr>\<rparr>), tm))"

definition statement_snapshot :: "xid \<Rightarrow> command_id \<Rightarrow> txn_manager \<Rightarrow> snapshot" where
  "statement_snapshot cur cmd tm = build_snapshot cur cmd own_empty tm"

definition statement_snapshot_with_subxids ::
  "xid \<Rightarrow> command_id \<Rightarrow> own_subxids \<Rightarrow> txn_manager \<Rightarrow> snapshot" where
  "statement_snapshot_with_subxids cur cmd own tm = build_snapshot cur cmd own tm"

section \<open>Termination\<close>

definition fold_subxid :: "xid \<Rightarrow> xid_status \<Rightarrow> bool \<Rightarrow> xid \<Rightarrow> txn_manager \<Rightarrow> txn_manager" where
  "fold_subxid parent new_status force_family sub tm =
     (if sub = parent then tm
      else
        let clog = (case map_of (tm_clog tm) sub of
                      Some st \<Rightarrow> if force_family \<or> st = InProgress
                                 then AList.update sub new_status (tm_clog tm) else tm_clog tm
                    | None \<Rightarrow> if force_family then AList.update sub new_status (tm_clog tm)
                              else tm_clog tm)
        in tm\<lparr>tm_clog := clog, tm_in_progress := tm_in_progress tm - {sub}\<rparr>)"

definition count_termination :: "xid_status \<Rightarrow> txn_manager \<Rightarrow> txn_manager" where
  "count_termination new_status tm =
     (case new_status of
        Committed \<Rightarrow> tm\<lparr>tm_xact_commit := tm_xact_commit tm + 1\<rparr>
      | Aborted \<Rightarrow> tm\<lparr>tm_xact_rollback := tm_xact_rollback tm + 1\<rparr>
      | _ \<Rightarrow> tm)"

definition terminate_with_subxids ::
  "xid \<Rightarrow> xid list \<Rightarrow> xid_status \<Rightarrow> bool \<Rightarrow> txn_manager \<Rightarrow> (txn_error + unit) \<times> txn_manager" where
  "terminate_with_subxids parent folded new_status force_family tm =
     (case map_of (tm_clog tm) parent of
        None \<Rightarrow> (Inl (UnknownXid parent), tm)
      | Some InProgress \<Rightarrow>
          (let tm = tm\<lparr>tm_clog := AList.update parent new_status (tm_clog tm),
                       tm_in_progress := tm_in_progress tm - {parent},
                       tm_snapshot_xmins := AList.delete parent (tm_snapshot_xmins tm)\<rparr>;
               tm = count_termination new_status tm
           in (Inr (), fold (fold_subxid parent new_status force_family) folded tm))
      | Some other \<Rightarrow> (Inl (AlreadyTerminated parent other), tm))"

definition forget_subxid_parents :: "xid list \<Rightarrow> txn_manager \<Rightarrow> txn_manager" where
  "forget_subxid_parents folded tm =
     tm\<lparr>tm_subxid_parent := fold AList.delete folded (tm_subxid_parent tm)\<rparr>"

definition release_txn_locks :: "xid \<Rightarrow> txn_manager \<Rightarrow> txn_manager" where
  "release_txn_locks x tm = tm\<lparr>tm_lock_manager := release_all x (tm_lock_manager tm)\<rparr>"

definition ssi_forget :: "xid \<Rightarrow> txn_manager \<Rightarrow> txn_manager" where
  "ssi_forget x tm =
     (case tm_ssi tm of Some ssi \<Rightarrow> tm\<lparr>tm_ssi := Some (ssi_abort x ssi)\<rparr> | None \<Rightarrow> tm)"

definition merged_up_family :: "transaction \<Rightarrow> xid list" where
  "merged_up_family txn = committed_subxid_family txn"

definition abort_family :: "transaction \<Rightarrow> xid list" where
  "abort_family txn = merged_up_family txn"

definition commit_check_serializable :: "transaction \<Rightarrow> txn_manager \<Rightarrow> (txn_error + xid list) \<times> txn_manager" where
  "commit_check_serializable txn tm =
     (let folded = merged_up_family txn in
      if tx_isolation txn = Serializable then
        (case tm_ssi tm of
           None \<Rightarrow> (Inr folded, tm)
         | Some ssi \<Rightarrow>
             (case ssi_commit (tx_xid txn) (tm_next_xid tm) ssi of
                (Inl (Serialization victim detail), ssi') \<Rightarrow>
                  (Inl (SerializationFailure victim detail),
                   tm\<lparr>tm_ssi := Some (ssi_abort (tx_xid txn) ssi')\<rparr>)
              | (Inr _, ssi') \<Rightarrow> (Inr folded, tm\<lparr>tm_ssi := Some ssi'\<rparr>)))
      else (Inr folded, tm))"

definition commit_finalize_visible ::
  "transaction \<Rightarrow> xid list \<Rightarrow> txn_manager \<Rightarrow> (txn_error + unit) \<times> txn_manager" where
  "commit_finalize_visible txn folded tm =
     (case terminate_with_subxids (tx_xid txn) folded Committed False tm of
        (Inl err, tm') \<Rightarrow> (Inl err, tm')
      | (Inr _, tm') \<Rightarrow> (Inr (), forget_subxid_parents folded (release_txn_locks (tx_xid txn) tm')))"

definition txn_abort :: "transaction \<Rightarrow> txn_manager \<Rightarrow> (txn_error + unit) \<times> txn_manager" where
  "txn_abort txn tm =
     (let folded = abort_family txn in
      case terminate_with_subxids (tx_xid txn) folded Aborted False tm of
        (Inl err, tm') \<Rightarrow> (Inl err, tm')
      | (Inr _, tm') \<Rightarrow>
          (let tm' = forget_subxid_parents folded (release_txn_locks (tx_xid txn) tm') in
           (Inr (), if tx_isolation txn = Serializable then ssi_forget (tx_xid txn) tm' else tm')))"

definition txn_commit :: "transaction \<Rightarrow> txn_manager \<Rightarrow> (txn_error + xid list) \<times> txn_manager" where
  "txn_commit txn tm =
     (case commit_check_serializable txn tm of
        (Inr folded, tm') \<Rightarrow>
          (case commit_finalize_visible txn folded tm' of
             (Inl err, tm'') \<Rightarrow> (Inl err, tm'')
           | (Inr _, tm'') \<Rightarrow> (Inr folded, tm''))
      | (Inl err, tm') \<Rightarrow> (Inl err, snd (txn_abort txn tm')))"

definition abort_in_progress_by_xid :: "xid \<Rightarrow> txn_manager \<Rightarrow> bool \<times> txn_manager" where
  "abort_in_progress_by_xid x tm =
     (case terminate_with_subxids x [x] Aborted False tm of
        (Inl _, tm') \<Rightarrow> (False, tm')
      | (Inr _, tm') \<Rightarrow> (True, ssi_forget x (release_txn_locks x tm')))"

section \<open>Status oracle and horizons\<close>

definition clog_status :: "txn_manager \<Rightarrow> xid \<Rightarrow> xid_status" where
  "clog_status tm x = (case map_of (tm_clog tm) x of Some st \<Rightarrow> st | None \<Rightarrow> InProgress)"

definition status :: "txn_manager \<Rightarrow> xid \<Rightarrow> xid_status" where
  "status tm x =
     (if x = Xid_FROZEN then Frozen
      else if x = Xid_BOOTSTRAP then Committed
      else if clog_status tm x = InProgress then
        (case map_of (tm_subxid_parent tm) x of
           Some parent \<Rightarrow> if parent \<noteq> x then clog_status tm parent else InProgress
         | None \<Rightarrow> InProgress)
      else clog_status tm x)"

definition is_in_progress :: "txn_manager \<Rightarrow> xid \<Rightarrow> bool" where
  "is_in_progress tm x \<longleftrightarrow> status tm x = InProgress"

definition oldest_in_progress :: "txn_manager \<Rightarrow> xid" where
  "oldest_in_progress tm =
     (case foldl min_step None (map fst (filter (\<lambda>(x, st). st = InProgress) (tm_clog tm))) of
        Some x \<Rightarrow> x | None \<Rightarrow> tm_next_xid tm)"

definition vacuum_horizon :: "txn_manager \<Rightarrow> xid" where
  "vacuum_horizon tm =
     (let oldest = oldest_in_progress tm in
      case foldl min_step None (map snd (tm_snapshot_xmins tm)) of
        Some xmin \<Rightarrow> if xmin < oldest then xmin else oldest
      | None \<Rightarrow> oldest)"

definition collect_ssi_garbage :: "xid \<Rightarrow> txn_manager \<Rightarrow> nat \<times> txn_manager" where
  "collect_ssi_garbage horizon tm =
     (case tm_ssi tm of
        None \<Rightarrow> (0, tm)
      | Some ssi \<Rightarrow> (case collect_garbage horizon ssi of (n, ssi') \<Rightarrow> (n, tm\<lparr>tm_ssi := Some ssi'\<rparr>)))"

section \<open>Savepoints\<close>

definition begin_savepoint :: "transaction \<Rightarrow> string \<Rightarrow> txn_manager \<Rightarrow> subtxn \<times> transaction \<times> txn_manager" where
  "begin_savepoint txn name tm =
     (let (sp, tm, sm) = savepoint name alloc_xid (tx_current_command txn) tm (tx_subtxn_stack txn);
          tm = tm\<lparr>tm_subxid_parent := AList.update (sx_xid sp) (tx_xid txn) (tm_subxid_parent tm)\<rparr>
      in (sp, apply_own_subxids (txn\<lparr>tx_subtxn_stack := sm\<rparr>), tm))"

definition mark_aborted :: "xid \<Rightarrow> txn_manager \<Rightarrow> txn_manager" where
  "mark_aborted sub tm =
     (if map_of (tm_clog tm) sub = Some InProgress
      then tm\<lparr>tm_clog := AList.update sub Aborted (tm_clog tm),
              tm_in_progress := tm_in_progress tm - {sub}\<rparr>
      else tm)"

definition rollback_to_savepoint ::
  "transaction \<Rightarrow> string \<Rightarrow> txn_manager \<Rightarrow> (savepoint_error + xid list) \<times> transaction \<times> txn_manager" where
  "rollback_to_savepoint txn name tm =
     (case rollback_to name alloc_xid tm (tx_subtxn_stack txn) of
        (Inl err, tm', sm) \<Rightarrow> (Inl err, txn\<lparr>tx_subtxn_stack := sm\<rparr>, tm')
      | (Inr outcome, tm', sm) \<Rightarrow>
          let tm' = tm'\<lparr>tm_subxid_parent :=
                      AList.update (ro_new_target_xid outcome) (tx_xid txn) (tm_subxid_parent tm')\<rparr>;
              tm' = fold mark_aborted (ro_aborted outcome) tm';
              sm = fold record_rolled_back (ro_aborted outcome) sm;
              tm' = fold mark_aborted (rolled_back_subxids sm) tm';
              tm' = tm'\<lparr>tm_lock_manager :=
                      release_subxact_locks (rolled_back_subxids sm) (tm_lock_manager tm')\<rparr>
          in (Inr (ro_aborted outcome), apply_own_subxids (txn\<lparr>tx_subtxn_stack := sm\<rparr>), tm'))"

definition release_savepoint ::
  "transaction \<Rightarrow> string \<Rightarrow> (savepoint_error + xid) \<times> transaction" where
  "release_savepoint txn name =
     (case release name (tx_subtxn_stack txn) of
        (Inl err, sm) \<Rightarrow> (Inl err, txn\<lparr>tx_subtxn_stack := sm\<rparr>)
      | (Inr x, sm) \<Rightarrow> (Inr x, apply_own_subxids (txn\<lparr>tx_subtxn_stack := sm\<rparr>)))"

section \<open>Prepared transactions and recovery\<close>

definition finalise_prepared ::
  "xid \<Rightarrow> xid list \<Rightarrow> xid_status \<Rightarrow> txn_manager \<Rightarrow> (txn_error + unit) \<times> txn_manager" where
  "finalise_prepared x family final_status tm =
     (case terminate_with_subxids x family final_status True tm of
        (Inl err, tm') \<Rightarrow> (Inl err, tm')
      | (Inr _, tm') \<Rightarrow> (Inr (), forget_subxid_parents family (release_txn_locks x tm')))"

definition validate_prepared :: "xid \<Rightarrow> txn_manager \<Rightarrow> txn_error + unit" where
  "validate_prepared x tm =
     (case map_of (tm_clog tm) x of
        None \<Rightarrow> Inl (UnknownXid x)
      | Some InProgress \<Rightarrow> Inr ()
      | Some st \<Rightarrow> Inl (AlreadyTerminated x st))"

definition is_sentinel :: "xid \<Rightarrow> bool" where
  "is_sentinel x \<longleftrightarrow> x = Xid_INVALID \<or> x = Xid_FROZEN \<or> x = Xid_BOOTSTRAP"

definition bump_next_xid :: "u64 \<Rightarrow> txn_manager \<Rightarrow> txn_manager" where
  "bump_next_xid n tm = (if tm_next_xid tm < n then tm\<lparr>tm_next_xid := n\<rparr> else tm)"

definition recover_observed_xid :: "xid \<Rightarrow> txn_manager \<Rightarrow> txn_manager" where
  "recover_observed_xid x tm =
     (if is_sentinel x then tm else bump_next_xid (saturating_add x 1) tm)"

definition recover_terminal :: "xid_status \<Rightarrow> xid \<Rightarrow> txn_manager \<Rightarrow> txn_manager" where
  "recover_terminal st x tm =
     (if is_sentinel x then tm
      else recover_observed_xid x
        (tm\<lparr>tm_clog := AList.update x st (tm_clog tm), tm_in_progress := tm_in_progress tm - {x}\<rparr>))"

definition recover_committed :: "xid \<Rightarrow> txn_manager \<Rightarrow> txn_manager" where
  "recover_committed x tm = recover_terminal Committed x tm"

definition recover_aborted :: "xid \<Rightarrow> txn_manager \<Rightarrow> txn_manager" where
  "recover_aborted x tm = recover_terminal Aborted x tm"

definition recover_uncommitted_as_aborted :: "xid \<Rightarrow> txn_manager \<Rightarrow> txn_manager" where
  "recover_uncommitted_as_aborted x tm =
     (if is_sentinel x then tm
      else recover_observed_xid x
        (if map_of (tm_clog tm) x = None
         then tm\<lparr>tm_clog := AList.update x Aborted (tm_clog tm), tm_in_progress := tm_in_progress tm - {x}\<rparr>
         else tm))"

definition recover_prepared :: "xid \<Rightarrow> txn_manager \<Rightarrow> (txn_error + unit) \<times> txn_manager" where
  "recover_prepared x tm =
     (if is_sentinel x then (Inr (), tm)
      else
        let seeded = (\<lambda>tm. recover_observed_xid x (tm\<lparr>tm_in_progress := insert x (tm_in_progress tm)\<rparr>)) in
        case map_of (tm_clog tm) x of
          Some InProgress \<Rightarrow> (Inr (), seeded tm)
        | Some st \<Rightarrow> (Inl (AlreadyTerminated x st), tm)
        | None \<Rightarrow> (Inr (), seeded (tm\<lparr>tm_clog := AList.update x InProgress (tm_clog tm)\<rparr>)))"

definition export_clog :: "txn_manager \<Rightarrow> u64 \<times> (xid \<times> xid_status) list" where
  "export_clog tm = (tm_next_xid tm, filter (\<lambda>(x, st). st \<noteq> InProgress) (tm_clog tm))"

definition import_entry :: "xid \<times> xid_status \<Rightarrow> txn_manager \<Rightarrow> txn_manager" where
  "import_entry entry tm =
     (case entry of (x, st) \<Rightarrow>
        if is_sentinel x then tm
        else recover_observed_xid x
          (if st \<noteq> InProgress \<and> map_of (tm_clog tm) x = None
           then tm\<lparr>tm_clog := AList.update x st (tm_clog tm), tm_in_progress := tm_in_progress tm - {x}\<rparr>
           else tm))"

definition import_clog :: "u64 \<Rightarrow> (xid \<times> xid_status) list \<Rightarrow> txn_manager \<Rightarrow> txn_manager" where
  "import_clog next_xid entries tm = bump_next_xid next_xid (fold import_entry entries tm)"

section \<open>Conflict tracking\<close>

definition record_predicate_lock :: "xid \<Rightarrow> predicate_lock_tag \<Rightarrow> txn_manager \<Rightarrow> txn_manager" where
  "record_predicate_lock x tag tm =
     (case tm_ssi tm of Some ssi \<Rightarrow> tm\<lparr>tm_ssi := Some (add_predicate_lock x tag ssi)\<rparr> | None \<Rightarrow> tm)"

definition tm_record_rw_conflict :: "xid \<Rightarrow> xid \<Rightarrow> txn_manager \<Rightarrow> txn_manager" where
  "tm_record_rw_conflict reader writer tm =
     (case tm_ssi tm of Some ssi \<Rightarrow> tm\<lparr>tm_ssi := Some (record_rw_conflict reader writer ssi)\<rparr> | None \<Rightarrow> tm)"

definition tm_record_write_conflicts :: "xid \<Rightarrow> predicate_lock_tag \<Rightarrow> txn_manager \<Rightarrow> xid list \<times> txn_manager" where
  "tm_record_write_conflicts writer tag tm =
     (case tm_ssi tm of
        None \<Rightarrow> ([], tm)
      | Some ssi \<Rightarrow> (case record_write_conflicts writer tag ssi of (rs, ssi') \<Rightarrow> (rs, tm\<lparr>tm_ssi := Some ssi'\<rparr>)))"

end
