(* ===== verification/Txn_Invariant.thy ===== *)
theory Txn_Invariant
  imports Txn_Manager
begin

text \<open>
  The invariant of the transaction manager, that every operation keeps it, and that a finished
  transaction stays finished: the manager provides the contract \<open>status_service\<close> to readers.

  Two things are excluded. The 64-bit counter is never exhausted. And \<open>finalise_prepared\<close>, which
  sets the whole family it is given whatever its members' status, is a step that keeps finished
  transactions finished only where the family is still running. The server sees to that: at
  start-up it seeds a prepared transaction together with its whole family as in progress
  (\<open>server_wal_recovery.rs\<close>, 531 to 541) before the sweep that aborts unresolved identifiers.
  What a resolution does to a family that is not running is \<open>terminate_forced\<close> below, and the
  runs that allow it are \<open>mgr_step\<close> of \<open>Txn_Properties\<close>.
\<close>

text \<open>Association lists are read through lookups only.\<close>

declare map_of_eq_Some_iff [simp del] Some_eq_map_of_iff [simp del]

section \<open>Invariant\<close>

abbreviation clog_of :: "txn_manager \<Rightarrow> xid \<Rightarrow> xid_status option" where
  "clog_of tm \<equiv> map_of (tm_clog tm)"

definition tm_inv :: "txn_manager \<Rightarrow> bool" where
  "tm_inv tm \<longleftrightarrow>
     finite (tm_in_progress tm) \<and> distinct (map fst (tm_clog tm))
     \<and> tm_in_progress tm = {x. clog_of tm x = Some InProgress}
     \<and> (\<forall>x. clog_of tm x \<noteq> None \<longrightarrow> Xid_FIRST_USER \<le> x \<and> x < tm_next_xid tm)
     \<and> Xid_FIRST_USER \<le> tm_next_xid tm
     \<and> (\<forall>x. map_of (tm_subxid_parent tm) x \<noteq> None \<longrightarrow> clog_of tm x \<noteq> None)"

text \<open>A transaction that was assigned and is not running.\<close>

definition settled :: "txn_manager \<Rightarrow> xid \<Rightarrow> bool" where
  "settled tm x \<longleftrightarrow> x < tm_next_xid tm \<and> x \<notin> tm_in_progress tm"

text \<open>What may change: the counter grows, finished entries keep their status.\<close>

definition evolves :: "txn_manager \<Rightarrow> txn_manager \<Rightarrow> bool" where
  "evolves tm tm' \<longleftrightarrow>
     tm_next_xid tm \<le> tm_next_xid tm'
     \<and> (\<forall>x. settled tm x \<longrightarrow> clog_of tm' x = clog_of tm x \<and> x \<notin> tm_in_progress tm')"

definition same_core :: "txn_manager \<Rightarrow> txn_manager \<Rightarrow> bool" where
  "same_core tm tm' \<longleftrightarrow>
     tm_next_xid tm' = tm_next_xid tm \<and> tm_clog tm' = tm_clog tm
     \<and> tm_in_progress tm' = tm_in_progress tm \<and> tm_subxid_parent tm' = tm_subxid_parent tm"

lemma same_core_inv: "same_core tm tm' \<Longrightarrow> tm_inv tm \<Longrightarrow> tm_inv tm'"
  by (simp add: same_core_def tm_inv_def)

lemma same_core_evolves: "same_core tm tm' \<Longrightarrow> evolves tm tm'"
  by (simp add: same_core_def evolves_def settled_def)

lemma evolves_refl [simp]: "evolves tm tm"
  by (simp add: evolves_def settled_def)

lemma evolves_settled: "evolves tm tm' \<Longrightarrow> settled tm x \<Longrightarrow> settled tm' x"
  by (auto simp: evolves_def settled_def)

lemma evolves_trans:
  assumes "evolves a b" "evolves b c"
  shows "evolves a c"
proof -
  have "clog_of c x = clog_of a x \<and> x \<notin> tm_in_progress c" if "settled a x" for x
    using assms evolves_settled [OF assms(1) that] that by (simp add: evolves_def)
  moreover have "tm_next_xid a \<le> tm_next_xid c"
    using assms by (auto simp: evolves_def)
  ultimately show ?thesis by (simp add: evolves_def)
qed

lemma tm_inv_with: "tm_inv (txn_manager_with ssi)"
  by (simp add: tm_inv_def txn_manager_with_def)

lemma settled_not_running: "tm_inv tm \<Longrightarrow> settled tm x \<Longrightarrow> clog_of tm x \<noteq> Some InProgress"
  by (auto simp: tm_inv_def settled_def)

lemma status_unchanged:
  assumes "tm_inv tm" "tm_inv tm'" "clog_of tm' x = clog_of tm x" "clog_of tm x \<noteq> Some InProgress"
  shows "status tm' x = status tm x"
proof -
  have "clog_of tm x = None \<Longrightarrow> map_of (tm_subxid_parent tm) x = None \<and> map_of (tm_subxid_parent tm') x = None"
    using assms(1-3) unfolding tm_inv_def by metis
  with assms(3,4) show ?thesis
    by (auto simp: status_def clog_status_def split: option.splits)
qed

lemma status_settled:
  assumes "tm_inv tm" "tm_inv tm'" "evolves tm tm'" "settled tm x"
  shows "status tm' x = status tm x"
  using assms settled_not_running [OF assms(1,4)] by (intro status_unchanged) (auto simp: evolves_def)

section \<open>Primitives\<close>

lemma alloc_xid_inv:
  assumes "tm_inv tm" "tm_next_xid tm \<noteq> - 1"
  shows "tm_inv (snd (alloc_xid tm))" "evolves tm (snd (alloc_xid tm))"
    "clog_of (snd (alloc_xid tm)) (fst (alloc_xid tm)) = Some InProgress"
proof -
  let ?n = "tm_next_xid tm"
  have lt: "?n < ?n + 1" using assms(2) by (rule less_plus_one)
  have ip: "tm_in_progress tm = {x. clog_of tm x = Some InProgress}" using assms(1) by (simp add: tm_inv_def)
  have below: "clog_of tm x \<noteq> None \<Longrightarrow> x < ?n" for x using assms(1) by (auto simp: tm_inv_def)
  have "insert ?n (tm_in_progress tm) = {x. ((clog_of tm)(?n \<mapsto> InProgress)) x = Some InProgress}"
    unfolding ip by auto
  moreover have "x < ?n \<Longrightarrow> x < ?n + 1" for x using lt by (meson order.strict_trans)
  ultimately show "tm_inv (snd (alloc_xid tm))"
    using assms(1) lt below unfolding tm_inv_def alloc_xid_def Let_def
    by (auto simp: update_conv' distinct_update less_imp_le intro: order_trans)
  show "evolves tm (snd (alloc_xid tm))"
    using lt by (auto simp: evolves_def settled_def alloc_xid_def Let_def update_conv')
  show "clog_of (snd (alloc_xid tm)) (fst (alloc_xid tm)) = Some InProgress"
    by (simp add: alloc_xid_def Let_def update_conv')
qed

text \<open>Finishing one running entry.\<close>

definition finish_entry :: "xid \<Rightarrow> xid_status \<Rightarrow> txn_manager \<Rightarrow> txn_manager" where
  "finish_entry x st tm =
     tm\<lparr>tm_clog := AList.update x st (tm_clog tm), tm_in_progress := tm_in_progress tm - {x}\<rparr>"

definition assigned :: "txn_manager \<Rightarrow> xid \<Rightarrow> bool" where
  "assigned tm x \<longleftrightarrow> Xid_FIRST_USER \<le> x \<and> x < tm_next_xid tm"

lemma clog_assigned: "tm_inv tm \<Longrightarrow> clog_of tm x \<noteq> None \<Longrightarrow> assigned tm x"
  by (simp add: tm_inv_def assigned_def)

lemma finish_entry_assigned:
  assumes "tm_inv tm" "assigned tm x" "st \<noteq> InProgress"
  shows "tm_inv (finish_entry x st tm)"
  using assms by (auto simp: tm_inv_def assigned_def finish_entry_def update_conv' distinct_update)

lemma finish_entry_inv:
  assumes "tm_inv tm" "clog_of tm x \<noteq> None" "st \<noteq> InProgress"
  shows "tm_inv (finish_entry x st tm)"
  using finish_entry_assigned clog_assigned assms by blast

lemma finish_entry_evolves:
  assumes "tm_inv tm" "x \<in> tm_in_progress tm \<or> clog_of tm x = Some st"
  shows "evolves tm (finish_entry x st tm)"
  using assms by (auto simp: evolves_def settled_def finish_entry_def update_conv')

lemma drop_stale:
  assumes "tm_inv tm" "clog_of tm x \<noteq> Some InProgress"
  shows "tm\<lparr>tm_in_progress := tm_in_progress tm - {x}\<rparr> = tm"
proof -
  have "tm_in_progress tm - {x} = tm_in_progress tm" using assms by (auto simp: tm_inv_def)
  then show ?thesis by simp
qed

lemma update_same: "map_of al k = Some v \<Longrightarrow> AList.update k v al = al"
  by (induction al) (auto split: if_splits)

lemma fold_subxid_cases:
  assumes "tm_inv tm"
  shows "fold_subxid parent st False sub tm =
    (if sub \<noteq> parent \<and> clog_of tm sub = Some InProgress then finish_entry sub st tm else tm)"
  using drop_stale [OF assms, of sub]
  by (auto simp: fold_subxid_def finish_entry_def Let_def split: option.splits)

lemma fold_subxid_force:
  assumes "sub = parent \<or> clog_of tm sub = Some InProgress \<or> clog_of tm sub = Some st"
  shows "fold_subxid parent st True sub tm = fold_subxid parent st False sub tm"
  using assms by (auto simp: fold_subxid_def Let_def update_same)

text \<open>The fields a termination leaves alone, and the effect on the entries.\<close>

definition same_rest :: "txn_manager \<Rightarrow> txn_manager \<Rightarrow> bool" where
  "same_rest tm tm' \<longleftrightarrow>
     tm_next_xid tm' = tm_next_xid tm \<and> tm_subxid_parent tm' = tm_subxid_parent tm
     \<and> tm_lock_manager tm' = tm_lock_manager tm \<and> tm_ssi tm' = tm_ssi tm
     \<and> tm_snapshot_xmins tm' = tm_snapshot_xmins tm"

lemma finish_entry_view:
  "clog_of (finish_entry x st tm) y = (if y = x then Some st else clog_of tm y)"
  "tm_in_progress (finish_entry x st tm) = tm_in_progress tm - {x}"
  "same_rest tm (finish_entry x st tm)"
  by (simp_all add: finish_entry_def update_conv' same_rest_def)

lemma fold_family:
  fixes parent :: xid and fs :: "xid list"
  assumes "tm_inv tm" "st \<noteq> InProgress"
  defines "tm' \<equiv> fold (fold_subxid parent st False) fs tm"
  shows "tm_inv tm' \<and> evolves tm tm' \<and> same_rest tm tm'
    \<and> clog_of tm' = (\<lambda>x. if x \<in> set fs \<and> x \<noteq> parent \<and> clog_of tm x = Some InProgress then Some st else clog_of tm x)"
  using assms(1) unfolding tm'_def
proof (induction fs arbitrary: tm)
  case Nil
  then show ?case by (simp add: same_rest_def)
next
  case (Cons f fs)
  show ?case
  proof (cases "f \<noteq> parent \<and> clog_of tm f = Some InProgress")
    case True
    let ?t = "finish_entry f st tm"
    have inv: "tm_inv ?t" using Cons.prems True assms(2) by (intro finish_entry_inv) auto
    have "f \<in> tm_in_progress tm" using Cons.prems True by (simp add: tm_inv_def)
    then have ev: "evolves tm ?t" using Cons.prems by (intro finish_entry_evolves) auto
    have "fold (fold_subxid parent st False) (f # fs) tm = fold (fold_subxid parent st False) fs ?t"
      using True by (simp add: fold_subxid_cases [OF Cons.prems])
    moreover note Cons.IH [OF inv]
    ultimately show ?thesis
      using ev evolves_trans [OF ev] True assms(2) finish_entry_view(3) [of tm f st]
      by (auto simp: finish_entry_view(1) same_rest_def fun_eq_iff)
  next
    case False
    then have "fold_subxid parent st False f tm = tm" unfolding fold_subxid_cases [OF Cons.prems] by argo
    with Cons.IH [OF Cons.prems] False show ?thesis by (auto simp: fun_eq_iff)
  qed
qed

lemma fold_family_force:
  assumes "tm_inv tm" "st \<noteq> InProgress"
    and "\<forall>f \<in> set fs. f = parent \<or> clog_of tm f = Some InProgress \<or> clog_of tm f = Some st"
  shows "fold (fold_subxid parent st True) fs tm = fold (fold_subxid parent st False) fs tm"
  using assms(1,3)
proof (induction fs arbitrary: tm)
  case (Cons f fs)
  let ?t = "fold_subxid parent st False f tm"
  have eq: "fold_subxid parent st True f tm = ?t" using Cons.prems(2) by (intro fold_subxid_force) simp
  have t: "?t = (if f \<noteq> parent \<and> clog_of tm f = Some InProgress then finish_entry f st tm else tm)"
    by (rule fold_subxid_cases [OF Cons.prems(1)])
  have "tm_inv ?t" unfolding t using Cons.prems(1) assms(2) by (auto intro: finish_entry_inv)
  moreover have "\<forall>g \<in> set fs. g = parent \<or> clog_of ?t g = Some InProgress \<or> clog_of ?t g = Some st"
    unfolding t using Cons.prems(2) by (auto simp: finish_entry_view)
  ultimately show ?case using Cons.IH eq by simp
qed simp

text \<open>A forced fold sets every member of the family, whatever its status was.\<close>

lemma fold_forced:
  fixes parent :: xid and fs :: "xid list"
  assumes "tm_inv tm" "st \<noteq> InProgress" "\<forall>f \<in> set fs. assigned tm f"
  shows "tm_inv (fold (fold_subxid parent st True) fs tm)
    \<and> same_rest tm (fold (fold_subxid parent st True) fs tm)
    \<and> clog_of (fold (fold_subxid parent st True) fs tm)
        = (\<lambda>x. if x \<in> set fs \<and> x \<noteq> parent then Some st else clog_of tm x)"
  using assms(1,3)
proof (induction fs arbitrary: tm)
  case Nil
  then show ?case by (simp add: same_rest_def)
next
  case (Cons f fs)
  let ?t = "if f = parent then tm else finish_entry f st tm"
  have eq: "fold_subxid parent st True f tm = ?t"
    by (auto simp: fold_subxid_def finish_entry_def Let_def split: option.splits)
  have "tm_inv ?t" "same_rest tm ?t"
    using Cons.prems assms(2) finish_entry_view(3) [of tm f st] by (auto simp: finish_entry_assigned same_rest_def)
  moreover from this(2) have "\<forall>g \<in> set fs. assigned ?t g"
    using Cons.prems(2) by (simp add: assigned_def same_rest_def)
  ultimately show ?case
    using Cons.IH [of ?t] by (auto simp: eq finish_entry_view same_rest_def fun_eq_iff)
qed

section \<open>Termination\<close>

definition terminated :: "xid \<Rightarrow> xid list \<Rightarrow> xid_status \<Rightarrow> txn_manager \<Rightarrow> txn_manager \<Rightarrow> bool" where
  "terminated parent fs st tm tm' \<longleftrightarrow>
     clog_of tm' = (\<lambda>x. if x = parent \<or> x \<in> set fs \<and> clog_of tm x = Some InProgress then Some st
                         else clog_of tm x)
     \<and> tm_next_xid tm' = tm_next_xid tm \<and> tm_subxid_parent tm' = tm_subxid_parent tm
     \<and> tm_lock_manager tm' = tm_lock_manager tm \<and> tm_ssi tm' = tm_ssi tm
     \<and> tm_snapshot_xmins tm' = AList.delete parent (tm_snapshot_xmins tm)"

lemma terminate_error:
  assumes "clog_of tm parent \<noteq> Some InProgress"
  shows "terminate_with_subxids parent fs st force tm =
    (Inl (case clog_of tm parent of None \<Rightarrow> UnknownXid parent | Some other \<Rightarrow> AlreadyTerminated parent other), tm)"
  using assms by (auto simp: terminate_with_subxids_def split: option.splits xid_status.splits)

lemma terminate_ok:
  assumes inv: "tm_inv tm" and run: "clog_of tm parent = Some InProgress" and st: "st \<noteq> InProgress"
    and fam: "force \<Longrightarrow> \<forall>f \<in> set fs. f \<in> tm_in_progress tm"
  obtains tm' where "terminate_with_subxids parent fs st force tm = (Inr (), tm')"
    "tm_inv tm'" "evolves tm tm'" "terminated parent fs st tm tm'"
proof -
  let ?t0 = "tm\<lparr>tm_clog := AList.update parent st (tm_clog tm), tm_in_progress := tm_in_progress tm - {parent},
      tm_snapshot_xmins := AList.delete parent (tm_snapshot_xmins tm)\<rparr>"
  define t where "t = count_termination st ?t0"
  let ?tm' = "fold (fold_subxid parent st False) fs t"
  have core: "same_core (finish_entry parent st tm) t"
    by (cases st) (simp_all add: t_def same_core_def finish_entry_def count_termination_def)
  have rest: "tm_next_xid t = tm_next_xid tm" "tm_subxid_parent t = tm_subxid_parent tm"
    "tm_lock_manager t = tm_lock_manager tm" "tm_ssi t = tm_ssi tm"
    "tm_snapshot_xmins t = AList.delete parent (tm_snapshot_xmins tm)"
    by (cases st; simp add: t_def count_termination_def)+
  have par: "parent \<in> tm_in_progress tm" using inv run by (simp add: tm_inv_def)
  have invt: "tm_inv t"
    using core inv run st by (intro same_core_inv [OF core] finish_entry_inv) auto
  have evt: "evolves tm t"
    using inv par by (intro evolves_trans [OF finish_entry_evolves same_core_evolves [OF core]]) auto
  have lk: "clog_of t x = (if x = parent then Some st else clog_of tm x)" for x
    using core finish_entry_view(1) [of parent st tm x] by (simp add: same_core_def)
  have "fold (fold_subxid parent st force) fs t = ?tm'"
  proof (cases force)
    case True
    have "\<forall>f \<in> set fs. clog_of tm f = Some InProgress" using fam [OF True] inv by (simp add: tm_inv_def)
    then have "\<forall>f \<in> set fs. f = parent \<or> clog_of t f = Some InProgress" unfolding lk by simp
    then have "\<forall>f \<in> set fs. f = parent \<or> clog_of t f = Some InProgress \<or> clog_of t f = Some st" by blast
    from fold_family_force [OF invt st this] True show ?thesis by simp
  qed simp
  then have "terminate_with_subxids parent fs st force tm = (Inr (), ?tm')"
    using run by (simp add: terminate_with_subxids_def Let_def t_def)
  moreover have "same_rest t ?tm'" "clog_of ?tm' = (\<lambda>x. if x \<in> set fs \<and> x \<noteq> parent
      \<and> clog_of t x = Some InProgress then Some st else clog_of t x)" "tm_inv ?tm'" "evolves t ?tm'"
    using fold_family [OF invt st, of parent fs] by auto
  moreover have "terminated parent fs st tm ?tm'"
    using calculation(2,3) rest st unfolding lk by (auto simp: terminated_def same_rest_def fun_eq_iff)
  ultimately show thesis using that evolves_trans [OF evt] by blast
qed

lemma terminate_forced:
  assumes inv: "tm_inv tm" and run: "clog_of tm parent = Some InProgress" and st: "st \<noteq> InProgress"
    and fam: "\<forall>f \<in> set fs. assigned tm f"
  obtains tm' where "terminate_with_subxids parent fs st True tm = (Inr (), tm')" "tm_inv tm'"
    "clog_of tm' = (\<lambda>x. if x = parent \<or> x \<in> set fs then Some st else clog_of tm x)"
    "tm_next_xid tm' = tm_next_xid tm"
proof -
  let ?t0 = "tm\<lparr>tm_clog := AList.update parent st (tm_clog tm), tm_in_progress := tm_in_progress tm - {parent},
      tm_snapshot_xmins := AList.delete parent (tm_snapshot_xmins tm)\<rparr>"
  define t where "t = count_termination st ?t0"
  have core: "same_core (finish_entry parent st tm) t"
    by (cases st) (simp_all add: t_def same_core_def finish_entry_def count_termination_def)
  have "tm_inv t" using inv run st by (intro same_core_inv [OF core] finish_entry_inv) auto
  moreover have "tm_next_xid t = tm_next_xid tm" using core by (simp add: same_core_def finish_entry_def)
  moreover have "clog_of t x = (if x = parent then Some st else clog_of tm x)" for x
    using core finish_entry_view(1) [of parent st tm x] by (simp add: same_core_def)
  moreover note fold_forced [OF \<open>tm_inv t\<close> st, of fs parent]
  ultimately show thesis
    using that [of "fold (fold_subxid parent st True) fs t"] run fam
    by (auto simp: terminate_with_subxids_def Let_def t_def [symmetric] assigned_def same_rest_def fun_eq_iff)
qed

lemma fold_delete_lookup:
  "map_of (fold AList.delete fs al) x = (if x \<in> set fs then None else map_of al x)"
  by (induction fs arbitrary: al) (auto simp: delete_conv')

lemma forget_inv:
  assumes "tm_inv tm"
  shows "tm_inv (forget_subxid_parents fs tm)" "evolves tm (forget_subxid_parents fs tm)"
proof -
  show "tm_inv (forget_subxid_parents fs tm)"
    using assms by (auto simp: tm_inv_def forget_subxid_parents_def fold_delete_lookup)
  show "evolves tm (forget_subxid_parents fs tm)"
    by (simp add: evolves_def settled_def forget_subxid_parents_def)
qed

lemma release_txn_locks_core: "same_core tm (release_txn_locks x tm)"
  by (simp add: same_core_def release_txn_locks_def)

lemma ssi_core:
  "same_core tm (ssi_forget x tm)" "same_core tm (register_serializable x tm)"
  "same_core tm (tm\<lparr>tm_ssi := a\<rparr>)" "same_core tm (tm\<lparr>tm_lock_manager := l\<rparr>)"
  "same_core tm (tm\<lparr>tm_snapshot_xmins := b\<rparr>)"
  by (simp_all add: same_core_def ssi_forget_def register_serializable_def split: option.splits)

text \<open>An operation \<open>keeps\<close> the manager when it preserves the invariant and only evolves it.\<close>

definition keeps :: "txn_manager \<Rightarrow> txn_manager \<Rightarrow> bool" where
  "keeps tm tm' \<longleftrightarrow> (tm_inv tm \<longrightarrow> tm_inv tm' \<and> evolves tm tm')"

lemma keeps_refl [intro, simp]: "keeps tm tm"
  by (simp add: keeps_def)

lemma keeps_trans: "keeps a b \<Longrightarrow> keeps b c \<Longrightarrow> keeps a c"
  by (auto simp: keeps_def intro: evolves_trans)

lemma keeps_core: "same_core tm tm' \<Longrightarrow> keeps tm tm'"
  by (simp add: keeps_def same_core_inv same_core_evolves)

lemma keeps_forget: "keeps tm (forget_subxid_parents fs tm)"
  by (simp add: keeps_def forget_inv)

lemma keeps_terminate:
  assumes "st \<noteq> InProgress" "force \<Longrightarrow> \<forall>f \<in> set fs. f \<in> tm_in_progress tm"
  shows "keeps tm (snd (terminate_with_subxids parent fs st force tm))"
proof (cases "clog_of tm parent = Some InProgress")
  case True
  show ?thesis
    unfolding keeps_def
  proof
    assume inv: "tm_inv tm"
    show "tm_inv (snd (terminate_with_subxids parent fs st force tm))
        \<and> evolves tm (snd (terminate_with_subxids parent fs st force tm))"
      by (rule terminate_ok [OF inv True assms(1), of force fs]) (use assms(2) in simp_all)
  qed
next
  case False
  then show ?thesis by (simp add: terminate_error)
qed

section \<open>Operations\<close>

lemma keeps_alloc: "tm_next_xid tm \<noteq> - 1 \<Longrightarrow> keeps tm (snd (alloc_xid tm))"
  by (simp add: keeps_def alloc_xid_inv)

lemma keeps_commit_check: "keeps tm (snd (commit_check_serializable txn tm))"
  by (rule keeps_core)
    (auto simp: commit_check_serializable_def same_core_def Let_def split: option.splits prod.splits sum.splits ssi_error.splits)

lemma keeps_end: "keeps tm (forget_subxid_parents fs (release_txn_locks x tm))"
  by (rule keeps_trans [OF keeps_core [OF release_txn_locks_core] keeps_forget])

lemma keeps_finalize: "keeps tm (snd (commit_finalize_visible txn folded tm))"
  using keeps_terminate [of Committed False folded tm "tx_xid txn"]
  by (auto simp: commit_finalize_visible_def intro: keeps_trans keeps_end split: prod.splits sum.splits)

lemma keeps_abort: "keeps tm (snd (txn_abort txn tm))"
  using keeps_terminate [of Aborted False "abort_family txn" tm "tx_xid txn"]
  by (auto simp: txn_abort_def Let_def
      intro: keeps_trans [OF keeps_trans [OF _ keeps_end] keeps_core [OF ssi_core(1)]] keeps_trans [OF _ keeps_end]
      split: prod.splits sum.splits)

lemma keeps_commit: "keeps tm (snd (txn_commit txn tm))"
proof (cases "commit_check_serializable txn tm")
  case (Pair r tm1)
  then have k: "keeps tm tm1" using keeps_commit_check [of tm txn] by simp
  show ?thesis
  proof (cases r)
    case (Inl err)
    then have "snd (txn_commit txn tm) = snd (txn_abort txn tm1)" using Pair by (simp add: txn_commit_def)
    then show ?thesis using keeps_trans [OF k keeps_abort] by simp
  next
    case (Inr folded)
    then have "snd (txn_commit txn tm) = snd (commit_finalize_visible txn folded tm1)"
      using Pair by (auto simp: txn_commit_def split: prod.splits sum.splits)
    then show ?thesis using keeps_trans [OF k keeps_finalize] by simp
  qed
qed

lemma keeps_abort_by_xid: "keeps tm (snd (abort_in_progress_by_xid x tm))"
  using keeps_terminate [of Aborted False "[x]" tm x]
  by (auto simp: abort_in_progress_by_xid_def
      intro: keeps_trans [OF keeps_trans [OF _ keeps_core [OF release_txn_locks_core]] keeps_core [OF ssi_core(1)]]
      split: prod.splits sum.splits)

lemma keeps_finalise_prepared:
  "st \<noteq> InProgress \<Longrightarrow> \<forall>f \<in> set family. f \<in> tm_in_progress tm \<Longrightarrow>
     keeps tm (snd (finalise_prepared x family st tm))"
  using keeps_terminate [of st True family tm x]
  by (auto simp: finalise_prepared_def intro: keeps_trans keeps_end split: prod.splits sum.splits)

text \<open>
  The resolution of a prepared transaction whose family may hold finished identifiers: the
  invariant holds on, and outside the family finished transactions stay finished.
\<close>

lemma finalise_forced:
  fixes x :: xid
  assumes inv: "tm_inv tm" and st: "st \<noteq> InProgress" and fam: "\<forall>f \<in> set family. assigned tm f"
  defines "tm' \<equiv> snd (finalise_prepared x family st tm)"
  shows "tm_inv tm'" "tm_next_xid tm' = tm_next_xid tm"
    "settled tm y \<Longrightarrow> y \<notin> set family \<Longrightarrow> clog_of tm' y = clog_of tm y"
    "fst (finalise_prepared x family st tm) = Inr () \<Longrightarrow> clog_of tm' x = Some st"
proof -
  have "tm_inv tm' \<and> tm_next_xid tm' = tm_next_xid tm
      \<and> (settled tm y \<longrightarrow> y \<notin> set family \<longrightarrow> clog_of tm' y = clog_of tm y)
      \<and> (fst (finalise_prepared x family st tm) = Inr () \<longrightarrow> clog_of tm' x = Some st)"
  proof (cases "clog_of tm x = Some InProgress")
    case True
    obtain t where t: "terminate_with_subxids x family st True tm = (Inr (), t)" "tm_inv t"
      "clog_of t = (\<lambda>y. if y = x \<or> y \<in> set family then Some st else clog_of tm y)" "tm_next_xid t = tm_next_xid tm"
      by (rule terminate_forced [OF inv True st fam])
    have e: "tm' = forget_subxid_parents family (release_txn_locks x t)"
      unfolding tm'_def finalise_prepared_def t(1) by simp
    have "tm_inv tm'" using keeps_end [of t family x] t(2) e by (simp add: keeps_def)
    moreover have "tm_clog tm' = tm_clog t" "tm_next_xid tm' = tm_next_xid t"
      unfolding e by (simp_all add: forget_subxid_parents_def release_txn_locks_def)
    ultimately show ?thesis using t(3,4) settled_not_running [OF inv, of y] True by auto
  next
    case False
    then show ?thesis using inv by (auto simp: tm'_def finalise_prepared_def terminate_error)
  qed
  then show "tm_inv tm'" "tm_next_xid tm' = tm_next_xid tm"
    "settled tm y \<Longrightarrow> y \<notin> set family \<Longrightarrow> clog_of tm' y = clog_of tm y"
    "fst (finalise_prepared x family st tm) = Inr () \<Longrightarrow> clog_of tm' x = Some st" by auto
qed

lemma keeps_mark_aborted: "keeps tm (mark_aborted x tm)"
proof (cases "clog_of tm x = Some InProgress")
  case True
  then have "mark_aborted x tm = finish_entry x Aborted tm" by (simp add: mark_aborted_def finish_entry_def)
  moreover have "keeps tm (finish_entry x Aborted tm)"
    unfolding keeps_def
  proof (intro impI conjI)
    assume inv: "tm_inv tm"
    show "tm_inv (finish_entry x Aborted tm)" using True by (intro finish_entry_inv [OF inv]) simp_all
    show "evolves tm (finish_entry x Aborted tm)"
      using True inv by (intro finish_entry_evolves [OF inv]) (simp add: tm_inv_def)
  qed
  ultimately show ?thesis by simp
qed (simp add: mark_aborted_def)

lemma keeps_fold: "(\<And>x tm. keeps tm (f x tm)) \<Longrightarrow> keeps tm (fold f xs tm)"
  by (induction xs arbitrary: tm) (auto intro: keeps_trans)

lemma keeps_begin: "tm_next_xid tm \<noteq> - 1 \<Longrightarrow> keeps tm (snd (txn_begin level tm))"
  unfolding txn_begin_def Let_def case_prod_beta snd_conv
  by (rule keeps_trans [OF keeps_alloc keeps_core])
    (auto simp: same_core_def register_serializable_def split: option.splits)

lemma keeps_refresh: "keeps tm (snd (refresh_snapshot txn tm))"
  by (auto simp: refresh_snapshot_def Let_def same_core_def intro: keeps_core split: isolation_level.splits)

text \<open>Linking a fresh subtransaction to its parent.\<close>

lemma keeps_link: "clog_of tm x \<noteq> None \<Longrightarrow>
    keeps tm (tm\<lparr>tm_subxid_parent := AList.update x p (tm_subxid_parent tm)\<rparr>)"
  by (auto simp: keeps_def tm_inv_def evolves_def settled_def update_conv')

lemma keeps_alloc_link:
  assumes "tm_next_xid tm \<noteq> - 1"
  shows "keeps tm ((snd (alloc_xid tm))\<lparr>tm_subxid_parent :=
    AList.update (fst (alloc_xid tm)) p (tm_subxid_parent (snd (alloc_xid tm)))\<rparr>)"
  by (rule keeps_trans [OF keeps_alloc [OF assms] keeps_link]) (simp add: alloc_xid_def Let_def update_conv')

lemma keeps_savepoint: "tm_next_xid tm \<noteq> - 1 \<Longrightarrow> keeps tm (snd (snd (begin_savepoint txn name tm)))"
  using keeps_alloc_link [of tm "tx_xid txn"]
  by (simp add: begin_savepoint_def savepoint_def Let_def case_prod_beta)

lemma rollback_to_alloc:
  "rollback_to name alloc m sm = (r, m', sm') \<Longrightarrow>
     (\<exists>e. r = Inl e \<and> m' = m \<and> sm' = sm)
     \<or> (\<exists>oc. r = Inr oc \<and> m' = snd (alloc m) \<and> ro_new_target_xid oc = fst (alloc m))"
  by (auto simp: rollback_to_def Let_def case_prod_beta split: option.splits)

lemma keeps_rollback:
  assumes "tm_next_xid tm \<noteq> - 1"
  shows "keeps tm (snd (snd (rollback_to_savepoint txn name tm)))"
proof -
  obtain r tm1 sm1 where rb: "rollback_to name alloc_xid tm (tx_subtxn_stack txn) = (r, tm1, sm1)"
    by (metis prod_cases3)
  show ?thesis
  proof (cases r)
    case (Inl e)
    then show ?thesis using rollback_to_alloc [OF rb] by (simp add: rollback_to_savepoint_def rb)
  next
    case (Inr oc)
    then have a: "tm1 = snd (alloc_xid tm)" "ro_new_target_xid oc = fst (alloc_xid tm)"
      using rollback_to_alloc [OF rb] by auto
    note k1 = keeps_alloc_link [OF assms, of "tx_xid txn", folded a]
    note k2 = keeps_trans [OF keeps_trans [OF keeps_trans [OF k1 keeps_fold [OF keeps_mark_aborted]]
      keeps_fold [OF keeps_mark_aborted]] keeps_core [OF ssi_core(4)]]
    show ?thesis unfolding rollback_to_savepoint_def rb Inr prod.case sum.case Let_def snd_conv by (rule k2)
  qed
qed

section \<open>Recovery\<close>

lemma not_sentinel: "\<not> is_sentinel x \<Longrightarrow> Xid_FIRST_USER \<le> x"
proof -
  assume "\<not> is_sentinel x"
  then have "unat x \<noteq> unat (0 :: xid)" "unat x \<noteq> unat (1 :: xid)" "unat x \<noteq> unat (2 :: xid)"
    unfolding is_sentinel_def by (simp_all only: word_unat_eq_iff [symmetric]) auto
  then show ?thesis by (simp add: word_le_nat_alt)
qed

text \<open>A seeded entry: the log names the status and the allocator moves past the identifier.\<close>

definition seeded :: "xid \<Rightarrow> xid_status \<Rightarrow> txn_manager \<Rightarrow> txn_manager \<Rightarrow> bool" where
  "seeded x st tm tm' \<longleftrightarrow>
     clog_of tm' = (clog_of tm)(x \<mapsto> st) \<and> distinct (map fst (tm_clog tm'))
     \<and> tm_in_progress tm' = (if st = InProgress then insert x (tm_in_progress tm) else tm_in_progress tm - {x})
     \<and> tm_next_xid tm' = max (tm_next_xid tm) (x + 1) \<and> tm_subxid_parent tm' = tm_subxid_parent tm"

lemma seeded_inv:
  assumes "seeded x st tm tm'" "tm_inv tm" "\<not> is_sentinel x" "x \<noteq> - 1"
  shows "tm_inv tm'"
proof -
  have x: "x < x + 1" "Xid_FIRST_USER \<le> x" using less_plus_one [OF assms(4)] not_sentinel [OF assms(3)] by auto
  have n: "y < tm_next_xid tm \<Longrightarrow> y < tm_next_xid tm'" "x < tm_next_xid tm'" "tm_next_xid tm \<le> tm_next_xid tm'" for y
    using assms(1) x(1) by (auto simp: seeded_def less_max_iff_disj)
  have c: "clog_of tm' = (clog_of tm)(x \<mapsto> st)" and d: "distinct (map fst (tm_clog tm'))"
    and p: "tm_subxid_parent tm' = tm_subxid_parent tm"
    and i: "tm_in_progress tm' = (if st = InProgress then insert x (tm_in_progress tm) else tm_in_progress tm - {x})"
    using assms(1) by (auto simp: seeded_def)
  have m: "tm_in_progress tm = {x. clog_of tm x = Some InProgress}" "finite (tm_in_progress tm)"
    using assms(2) by (auto simp: tm_inv_def)
  have "tm_in_progress tm' = {x. clog_of tm' x = Some InProgress}" unfolding c i m(1) by auto
  moreover have "finite (tm_in_progress tm')" unfolding i using m(2) by simp
  moreover have "\<forall>y. clog_of tm' y \<noteq> None \<longrightarrow> Xid_FIRST_USER \<le> y \<and> y < tm_next_xid tm'"
    unfolding c using x(2) n assms(2) by (auto simp: tm_inv_def)
  moreover have "Xid_FIRST_USER \<le> tm_next_xid tm'" using n(3) assms(2) by (auto simp: tm_inv_def)
  moreover have "\<forall>y. map_of (tm_subxid_parent tm') y \<noteq> None \<longrightarrow> clog_of tm' y \<noteq> None"
    unfolding c p using assms(2) by (auto simp: tm_inv_def)
  ultimately show ?thesis using d unfolding tm_inv_def by blast
qed

lemma observed_next:
  assumes "\<not> is_sentinel x" "x \<noteq> - 1"
  shows "recover_observed_xid x tm = tm\<lparr>tm_next_xid := max (tm_next_xid tm) (x + 1)\<rparr>"
proof -
  have "saturating_add x 1 = x + 1"
    using assms(2) by (simp add: saturating_add_def unat_plus_one_less unat_not_max)
  then show ?thesis using assms(1) by (auto simp: recover_observed_xid_def bump_next_xid_def max_def)
qed

lemma observed_inv: "tm_inv tm \<Longrightarrow> tm_inv (tm\<lparr>tm_next_xid := max (tm_next_xid tm) n\<rparr>)"
  unfolding tm_inv_def by (auto simp: le_max_iff_disj less_max_iff_disj)

lemma recover_terminal_seeds:
  assumes "tm_inv tm" "\<not> is_sentinel x" "x \<noteq> - 1" "st \<noteq> InProgress"
  shows "seeded x st tm (recover_terminal st x tm)"
  using assms by (simp add: recover_terminal_def observed_next seeded_def update_conv' distinct_update tm_inv_def)

lemma recover_terminal_inv:
  assumes "tm_inv tm" "x \<noteq> - 1" "st \<noteq> InProgress"
  shows "tm_inv (recover_terminal st x tm)"
proof (cases "is_sentinel x")
  case False
  show ?thesis by (rule seeded_inv [OF recover_terminal_seeds]) (use assms False in auto)
qed (use assms(1) in \<open>simp add: recover_terminal_def\<close>)

lemma recover_uncommitted_cases:
  assumes "\<not> is_sentinel x" "x \<noteq> - 1"
  shows "recover_uncommitted_as_aborted x tm =
    (if clog_of tm x = None then recover_terminal Aborted x tm else tm\<lparr>tm_next_xid := max (tm_next_xid tm) (x + 1)\<rparr>)"
  using assms by (simp add: recover_uncommitted_as_aborted_def recover_terminal_def observed_next)

lemma recover_uncommitted_inv:
  assumes "tm_inv tm" "x \<noteq> - 1"
  shows "tm_inv (recover_uncommitted_as_aborted x tm)"
proof (cases "is_sentinel x")
  case False
  then show ?thesis
    using assms by (simp add: recover_uncommitted_cases recover_terminal_inv observed_inv)
qed (use assms(1) in \<open>simp add: recover_uncommitted_as_aborted_def\<close>)

lemma recover_prepared_inv:
  assumes "tm_inv tm" "x \<noteq> - 1"
  shows "tm_inv (snd (recover_prepared x tm))"
proof (cases "is_sentinel x \<or> (clog_of tm x \<noteq> None \<and> clog_of tm x \<noteq> Some InProgress)")
  case True
  then have "snd (recover_prepared x tm) = tm"
    by (auto simp: recover_prepared_def Let_def split: option.splits xid_status.splits)
  then show ?thesis using assms(1) by simp
next
  case False
  then have "seeded x InProgress tm (snd (recover_prepared x tm))"
    using assms by (auto simp: recover_prepared_def Let_def observed_next seeded_def update_conv' distinct_update tm_inv_def)
  then show ?thesis by (rule seeded_inv) (use assms False in auto)
qed

lemma import_entry_cases:
  assumes "\<not> is_sentinel x" "x \<noteq> - 1"
  shows "import_entry (x, st) tm =
    (if st \<noteq> InProgress \<and> clog_of tm x = None then recover_terminal st x tm
     else tm\<lparr>tm_next_xid := max (tm_next_xid tm) (x + 1)\<rparr>)"
  using assms by (simp add: import_entry_def recover_terminal_def observed_next)

lemma import_entry_inv:
  assumes "tm_inv tm" "fst e \<noteq> - 1"
  shows "tm_inv (import_entry e tm)"
proof (cases "is_sentinel (fst e)")
  case True
  then show ?thesis using assms(1) by (simp add: import_entry_def case_prod_beta)
next
  case False
  then show ?thesis
    using assms import_entry_cases [of "fst e" "snd e" tm] by (simp add: recover_terminal_inv observed_inv)
qed

lemma bump_next_max: "bump_next_xid n tm = tm\<lparr>tm_next_xid := max (tm_next_xid tm) n\<rparr>"
  by (simp add: bump_next_xid_def max_def)

lemma import_clog_inv:
  assumes "tm_inv tm" "\<forall>e \<in> set es. fst e \<noteq> - 1"
  shows "tm_inv (import_clog n es tm)"
proof -
  have "tm_inv (fold import_entry es tm)"
    using assms by (induction es arbitrary: tm) (auto simp: import_entry_inv)
  then show ?thesis by (simp add: import_clog_def bump_next_max observed_inv)
qed

text \<open>
  A manager at the end of start-up: fresh, or rebuilt from a commit-log export, the terminal
  records of the log and the prepared transactions, in any order.
\<close>

inductive booted :: "txn_manager \<Rightarrow> bool" where
  new: "booted (txn_manager_with ssi)"
| committed: "booted tm \<Longrightarrow> x \<noteq> - 1 \<Longrightarrow> booted (recover_committed x tm)"
| aborted: "booted tm \<Longrightarrow> x \<noteq> - 1 \<Longrightarrow> booted (recover_aborted x tm)"
| uncommitted: "booted tm \<Longrightarrow> x \<noteq> - 1 \<Longrightarrow> booted (recover_uncommitted_as_aborted x tm)"
| prepared: "booted tm \<Longrightarrow> x \<noteq> - 1 \<Longrightarrow> booted (snd (recover_prepared x tm))"
| imported: "booted tm \<Longrightarrow> \<forall>e \<in> set es. fst e \<noteq> - 1 \<Longrightarrow> booted (import_clog n es tm)"

lemma booted_inv: "booted tm \<Longrightarrow> tm_inv tm"
  by (induction rule: booted.induct)
    (simp_all add: tm_inv_with recover_committed_def recover_aborted_def recover_terminal_inv
      recover_uncommitted_inv recover_prepared_inv import_clog_inv)

end
