(* ===== verification/Txn_Properties.thy ===== *)
theory Txn_Properties
  imports Txn_Invariant
begin

text \<open>
  The runs of the transaction manager, and what they promise to readers: the running set is the
  commit log's, reads repeat, and a transaction becomes visible together with its savepoints.
\<close>

section \<open>Runs\<close>

text \<open>
  One step of the manager on behalf of a transaction, and of anyone. The resolution of a
  prepared transaction is such a step while its family is running, as the server's recovery
  provides; \<open>mgr_step\<close> below lifts that.
\<close>

inductive tm_step_by :: "xid \<Rightarrow> txn_manager \<Rightarrow> txn_manager \<Rightarrow> bool" where
  start: "tm_next_xid tm \<noteq> - 1 \<Longrightarrow> tm_step_by (tm_next_xid tm) tm (snd (txn_begin level tm))"
| refresh: "tm_step_by (tx_xid txn) tm (snd (refresh_snapshot txn tm))"
| savepoint: "tm_next_xid tm \<noteq> - 1 \<Longrightarrow> tm_step_by (tx_xid txn) tm (snd (snd (begin_savepoint txn name tm)))"
| rollback: "tm_next_xid tm \<noteq> - 1 \<Longrightarrow>
    tm_step_by (tx_xid txn) tm (snd (snd (rollback_to_savepoint txn name tm)))"
| check: "tm_step_by (tx_xid txn) tm (snd (commit_check_serializable txn tm))"
| finalize: "tm_step_by (tx_xid txn) tm (snd (commit_finalize_visible txn folded tm))"
| commit: "tm_step_by (tx_xid txn) tm (snd (txn_commit txn tm))"
| abort: "tm_step_by (tx_xid txn) tm (snd (txn_abort txn tm))"
| abort_xid: "tm_step_by x tm (snd (abort_in_progress_by_xid x tm))"
| finalise: "st \<in> {Committed, Aborted} \<Longrightarrow> set family \<subseteq> tm_in_progress tm \<Longrightarrow>
    tm_step_by x tm (snd (finalise_prepared x family st tm))"
| locks: "lock_step (tm_lock_manager tm) lm \<Longrightarrow> tm_step_by x tm (tm\<lparr>tm_lock_manager := lm\<rparr>)"
| ssi: "tm_ssi tm = Some s \<Longrightarrow> ssi_step s s' \<Longrightarrow> tm_step_by x tm (tm\<lparr>tm_ssi := Some s'\<rparr>)"

definition tm_step :: "txn_manager \<Rightarrow> txn_manager \<Rightarrow> bool" where
  "tm_step tm tm' \<longleftrightarrow> (\<exists>x. tm_step_by x tm tm')"

lemma tm_step_by_keeps: "tm_step_by x tm tm' \<Longrightarrow> keeps tm tm'"
proof (induction rule: tm_step_by.induct)
  case (finalise st family tm x)
  then show ?case by (intro keeps_finalise_prepared) auto
qed (simp_all add: keeps_begin keeps_refresh keeps_savepoint keeps_rollback keeps_commit_check
    keeps_finalize keeps_commit keeps_abort keeps_abort_by_xid keeps_core same_core_def)

lemma tm_step_keeps: "tm_step tm tm' \<Longrightarrow> keeps tm tm'"
  by (auto simp: tm_step_def intro: tm_step_by_keeps)

lemma tm_step_intros:
  "tm_next_xid tm \<noteq> - 1 \<Longrightarrow> tm_step tm (snd (txn_begin level tm))"
  "tm_step tm (snd (refresh_snapshot txn tm))"
  "tm_next_xid tm \<noteq> - 1 \<Longrightarrow> tm_step tm (snd (snd (begin_savepoint txn name tm)))"
  "tm_next_xid tm \<noteq> - 1 \<Longrightarrow> tm_step tm (snd (snd (rollback_to_savepoint txn name tm)))"
  "tm_step tm (snd (commit_finalize_visible txn folded tm))"
  "tm_step tm (snd (txn_commit txn tm))"
  "tm_step tm (snd (txn_abort txn tm))"
  unfolding tm_step_def by (blast intro: tm_step_by.intros)+

interpretation mgr: status_service tm_inv status settled tm_step
proof
  fix tm tm' x
  assume inv: "tm_inv tm" and st: "tm_step tm tm'"
  then have k: "tm_inv tm'" "evolves tm tm'" using tm_step_keeps by (auto simp: keeps_def)
  show "tm_inv tm'" by (rule k)
  show "settled tm x \<Longrightarrow> settled tm' x" by (rule evolves_settled [OF k(2)])
  show "settled tm x \<Longrightarrow> status tm' x = status tm x" by (rule status_settled [OF inv k])
qed

interpretation alloc: xid_source alloc_xid "\<lambda>tm. unat (tm_next_xid tm)"
proof
  fix tm :: txn_manager
  assume "unat (tm_next_xid tm) < 2 ^ 64 - 1"
  then have "tm_next_xid tm \<noteq> - 1" by (simp add: unat_not_max)
  then have "unat (tm_next_xid tm + 1) = Suc (unat (tm_next_xid tm))" by (rule unat_plus_one_less)
  then show "unat (fst (alloc_xid tm)) = unat (tm_next_xid tm)
      \<and> unat (tm_next_xid (snd (alloc_xid tm))) = Suc (unat (tm_next_xid tm))"
    by (simp add: alloc_xid_def Let_def)
qed

text \<open>A manager reached from a fresh start or from crash recovery.\<close>

definition reachable :: "txn_manager \<Rightarrow> bool" where
  "reachable tm \<longleftrightarrow> (\<exists>tm0. booted tm0 \<and> tm_step\<^sup>*\<^sup>* tm0 tm)"

lemma reachable_inv: "reachable tm \<Longrightarrow> tm_inv tm"
  unfolding reachable_def using mgr.run_inv booted_inv by blast

lemma reachable_run: "reachable tm \<Longrightarrow> tm_step\<^sup>*\<^sup>* tm tm' \<Longrightarrow> reachable tm'"
  unfolding reachable_def by (meson rtranclp_trans)

text \<open>
  Runs in which a resolution may come with any family. \<open>finalise_prepared\<close> sets every member,
  also one that has ended, to the final status; \<open>F\<close> holds the identifiers that this may happen to.
  The members are identifiers handed out before: the family was recorded when it was prepared.
\<close>

inductive mgr_step_by :: "xid set \<Rightarrow> xid \<Rightarrow> txn_manager \<Rightarrow> txn_manager \<Rightarrow> bool" for F where
  ordinary: "tm_step_by x tm tm' \<Longrightarrow> mgr_step_by F x tm tm'"
| forced: "st \<in> {Committed, Aborted} \<Longrightarrow> \<forall>f \<in> set family. assigned tm f \<Longrightarrow>
    \<forall>f \<in> set family. f \<in> tm_in_progress tm \<or> f \<in> F \<Longrightarrow>
    mgr_step_by F x tm (snd (finalise_prepared x family st tm))"

definition mgr_step :: "xid set \<Rightarrow> txn_manager \<Rightarrow> txn_manager \<Rightarrow> bool" where
  "mgr_step F tm tm' \<longleftrightarrow> (\<exists>x. mgr_step_by F x tm tm')"

definition settled_outside :: "xid set \<Rightarrow> txn_manager \<Rightarrow> xid \<Rightarrow> bool" where
  "settled_outside F tm x \<longleftrightarrow> settled tm x \<and> x \<notin> F"

lemma mgr_step_keeps:
  assumes "mgr_step F tm tm'" "tm_inv tm"
  shows "tm_inv tm'" "settled_outside F tm x \<Longrightarrow> settled_outside F tm' x \<and> clog_of tm' x = clog_of tm x"
proof -
  obtain y where "mgr_step_by F y tm tm'" using assms(1) by (auto simp: mgr_step_def)
  then have "tm_inv tm' \<and> (settled_outside F tm x \<longrightarrow> settled_outside F tm' x \<and> clog_of tm' x = clog_of tm x)"
  proof cases
    case ordinary
    from tm_step_by_keeps [OF this] assms(2) show ?thesis
      by (auto simp: keeps_def settled_outside_def evolves_settled) (simp add: evolves_def)
  next
    case (forced st family)
    then have st: "st \<noteq> InProgress" by auto
    note f = finalise_forced [where x = y, OF assms(2) st forced(3), folded forced(1)]
    have "settled_outside F tm' x \<and> clog_of tm' x = clog_of tm x" if s: "settled_outside F tm x"
    proof -
      have "clog_of tm' x = clog_of tm x" using s forced(4) f(3) [of x] by (auto simp: settled_outside_def settled_def)
      moreover have "clog_of tm x \<noteq> Some InProgress"
        using s settled_not_running [OF assms(2)] by (simp add: settled_outside_def)
      ultimately show ?thesis using s f(1,2) by (auto simp: settled_outside_def settled_def tm_inv_def)
    qed
    then show ?thesis using f(1) by blast
  qed
  then show "tm_inv tm'" "settled_outside F tm x \<Longrightarrow> settled_outside F tm' x \<and> clog_of tm' x = clog_of tm x" by auto
qed

lemma mgr_step_by_next:
  assumes "mgr_step_by F x tm tm'" "tm_inv tm"
  shows "tm_inv tm' \<and> tm_next_xid tm \<le> tm_next_xid tm'"
  using assms(1)
proof cases
  case ordinary
  then show ?thesis using tm_step_by_keeps [OF ordinary] assms(2) by (auto simp: keeps_def evolves_def)
next
  case (forced st family)
  then have "st \<noteq> InProgress" by auto
  from finalise_forced(1,2) [OF assms(2) this forced(3), of x] show ?thesis by (simp add: forced(1))
qed

lemma mgr_run_clog:
  assumes "(mgr_step F)\<^sup>*\<^sup>* tm tm'" "tm_inv tm" "settled_outside F tm x"
  shows "tm_inv tm' \<and> settled_outside F tm' x \<and> clog_of tm' x = clog_of tm x"
  using assms by (induction rule: rtranclp_induct) (auto dest: mgr_step_keeps)

interpretation mgr_any: status_service tm_inv status "settled_outside F" "mgr_step F" for F
proof
  fix tm tm' x
  assume inv: "tm_inv tm" and st: "mgr_step F tm tm'"
  note k = mgr_step_keeps [OF st inv]
  show "tm_inv tm'" by (rule k)
  show "settled_outside F tm x \<Longrightarrow> settled_outside F tm' x" using k(2) by blast
  show "settled_outside F tm x \<Longrightarrow> status tm' x = status tm x"
    using k settled_not_running [OF inv] status_unchanged [OF inv k(1)] by (auto simp: settled_outside_def)
qed

definition reachable_any :: "txn_manager \<Rightarrow> bool" where
  "reachable_any tm \<longleftrightarrow> (\<exists>tm0. booted tm0 \<and> (mgr_step UNIV)\<^sup>*\<^sup>* tm0 tm)"

lemma reachable_any_inv: "reachable_any tm \<Longrightarrow> tm_inv tm"
  unfolding reachable_any_def using mgr_any.run_inv booted_inv by blast

lemma tm_step_any: "tm_step tm tm' \<Longrightarrow> mgr_step F tm tm'"
  by (auto simp: tm_step_def mgr_step_def intro: mgr_step_by.ordinary)

lemma tm_run_any: "tm_step\<^sup>*\<^sup>* tm tm' \<Longrightarrow> (mgr_step F)\<^sup>*\<^sup>* tm tm'"
  by (induction rule: rtranclp_induct) (auto intro: rtranclp.rtrancl_into_rtrancl tm_step_any)

lemma reachable_reachable_any: "reachable tm \<Longrightarrow> reachable_any tm"
  unfolding reachable_def reachable_any_def using tm_run_any by blast

text \<open>
  C21. The running set is the commit log's. In every manager reached from a fresh start or from
  recovery, by any sequence of operations through any handles, resolutions of any family included,
  the mirror that snapshots read
  holds exactly the identifiers the commit log records as in progress, every recorded identifier
  is a user identifier below the allocator, and every subtransaction link belongs to a recorded
  identifier.
\<close>

theorem mirror_matches_clog:
  assumes "reachable_any tm"
  shows "tm_in_progress tm = {x. map_of (tm_clog tm) x = Some InProgress} \<and> finite (tm_in_progress tm)
    \<and> (\<forall>x. map_of (tm_clog tm) x \<noteq> None \<longrightarrow> Xid_FIRST_USER \<le> x \<and> x < tm_next_xid tm)
    \<and> (\<forall>x. map_of (tm_subxid_parent tm) x \<noteq> None \<longrightarrow> map_of (tm_clog tm) x \<noteq> None)"
  using reachable_any_inv [OF assms] unfolding tm_inv_def by blast

section \<open>Snapshots\<close>

lemma foldl_min_step_Some:
  "\<exists>m. foldl min_step (Some a) xs = Some m \<and> m \<in> insert a (set xs) \<and> m \<le> a \<and> (\<forall>x \<in> set xs. m \<le> x)"
proof (induction xs arbitrary: a)
  case (Cons x xs)
  obtain b where b: "min_step (Some a) x = Some b" "b \<in> {a, x}" "b \<le> a" "b \<le> x"
    by (cases "a \<le> x") (auto simp: min_step_def)
  obtain m where "foldl min_step (Some b) xs = Some m" "m \<in> insert b (set xs)" "m \<le> b" "\<forall>x \<in> set xs. m \<le> x"
    using Cons.IH by blast
  with b show ?case by (intro exI [of _ m]) auto
qed simp

lemma foldl_min_step:
  "foldl min_step None xs = None \<longleftrightarrow> xs = []"
  "foldl min_step None xs = Some m \<Longrightarrow> m \<in> set xs \<and> (\<forall>x \<in> set xs. m \<le> x)"
  using foldl_min_step_Some [of "hd xs" "tl xs"] by (cases xs; auto simp: min_step_def)+

text \<open>A snapshot counts as running exactly the foreign running transactions and the future.\<close>

lemma build_snapshot_wf: "snapshot_wf (build_snapshot cur cmd own tm)"
  by (simp add: build_snapshot_def Let_def snapshot_wf_new snapshot_wf_set_own)

lemma build_snapshot_in_progress:
  assumes "finite (tm_in_progress tm)"
  shows "xid_in_progress (build_snapshot cur cmd own tm) x \<longleftrightarrow>
    tm_next_xid tm \<le> x \<or> x \<in> tm_in_progress tm \<and> x \<noteq> cur \<and> x \<notin> set (ow_live own)"
    and "sn_xmin (build_snapshot cur cmd own tm) \<le> tm_next_xid tm"
    and "sn_xmax (build_snapshot cur cmd own tm) = tm_next_xid tm"
    and "\<And>y. y \<in> tm_in_progress tm \<Longrightarrow> y \<noteq> cur \<Longrightarrow> y \<notin> set (ow_live own) \<Longrightarrow>
           sn_xmin (build_snapshot cur cmd own tm) \<le> y"
proof -
  let ?s = "build_snapshot cur cmd own tm"
  let ?xip = "filter (\<lambda>x. x \<noteq> cur \<and> x \<notin> set (ow_live own) \<and> \<not> tm_next_xid tm \<le> x)
      (sorted_list_of_set (tm_in_progress tm))"
  have f: "sn_xmax ?s = tm_next_xid tm" "set (sn_xip ?s) = set ?xip"
    "sn_xmin ?s = (case foldl min_step None ?xip of None \<Rightarrow> tm_next_xid tm | Some m \<Rightarrow> m)"
    by (simp_all add: build_snapshot_def Let_def)
  show "sn_xmax ?s = tm_next_xid tm" by (rule f)
  have mem: "y \<in> set ?xip \<longleftrightarrow> y \<in> tm_in_progress tm \<and> y \<noteq> cur \<and> y \<notin> set (ow_live own) \<and> y < tm_next_xid tm" for y
    using assms by (auto simp: not_le)
  have lo: "sn_xmin ?s \<le> tm_next_xid tm \<and> (\<forall>y \<in> set ?xip. sn_xmin ?s \<le> y)"
  proof (cases "foldl min_step None ?xip")
    case None
    then show ?thesis unfolding f(3) using foldl_min_step(1) [of ?xip] by (simp add: None del: set_filter)
  next
    case (Some m)
    have "m \<in> set ?xip" "\<forall>y \<in> set ?xip. m \<le> y" using foldl_min_step(2) [OF Some] by blast+
    moreover from this(1) have "m \<le> tm_next_xid tm" unfolding mem by (auto intro: less_imp_le)
    ultimately show ?thesis unfolding f(3) Some by simp
  qed
  then show "sn_xmin ?s \<le> tm_next_xid tm" by blast
  show "sn_xmin ?s \<le> y" if "y \<in> tm_in_progress tm" "y \<noteq> cur" "y \<notin> set (ow_live own)" for y
    using lo mem [of y] that by (meson linorder_le_less_linear order_trans)
  show "xid_in_progress ?s x \<longleftrightarrow>
      tm_next_xid tm \<le> x \<or> x \<in> tm_in_progress tm \<and> x \<noteq> cur \<and> x \<notin> set (ow_live own)"
    unfolding xid_in_progress_iff [OF build_snapshot_wf] f(1,2) mem using lo mem [of x]
    by (meson linorder_le_less_linear order_trans)
qed

lemma build_snapshot_current:
  "is_current_xid (build_snapshot cur cmd own tm) x \<longleftrightarrow> x = cur \<or> x \<in> set (ow_live own)"
  "own_subxid_rolled_back (build_snapshot cur cmd own tm) x \<longleftrightarrow> x \<in> set (ow_rolled_back own)"
  unfolding is_current_xid_iff [OF build_snapshot_wf] own_subxid_rolled_back_iff [OF build_snapshot_wf]
  by (auto simp: build_snapshot_def Let_def own_is_empty_def)

lemma build_snapshot_settled:
  assumes "tm_inv tm" "\<not> xid_in_progress (build_snapshot cur cmd own tm) x"
    and "\<not> is_current_xid (build_snapshot cur cmd own tm) x"
  shows "settled tm x"
proof -
  have "finite (tm_in_progress tm)" using assms(1) by (simp add: tm_inv_def)
  with assms(2,3) show ?thesis
    by (auto simp: build_snapshot_in_progress build_snapshot_current settled_def)
qed

section \<open>Repeatable reads\<close>

definition frozen_part :: "snapshot \<Rightarrow> xid \<times> xid \<times> xid \<times> xid list" where
  "frozen_part s = (sn_xmin s, sn_xmax s, sn_current_xid s, sn_xip s)"

definition foreign :: "snapshot \<Rightarrow> xid \<Rightarrow> bool" where
  "foreign s x \<longleftrightarrow> \<not> is_current_xid s x \<and> \<not> own_subxid_rolled_back s x"

lemma is_visible_foreign:
  assumes "frozen_part s = frozen_part s'"
    and "foreign s (th_xmin h)" "foreign s' (th_xmin h)" "foreign s (th_xmax h)" "foreign s' (th_xmax h)"
  shows "is_visible h s st = is_visible h s' st"
proof -
  have "xid_in_progress s x = xid_in_progress s' x" for x
    using assms(1) by (simp add: xid_in_progress_def frozen_part_def)
  with assms(2-5) show ?thesis
    by (auto simp: is_visible_def visible_foreign_insert_def foreign_def committed_before_iff)
qed

lemma begin_fields:
  assumes "txn_begin level tm0 = (txn, tm)"
  shows "tx_xid txn = fst (alloc_xid tm0)" "tx_isolation txn = level" "tx_subtxn_stack txn = subtxn_new (tx_xid txn)"
    "tx_snapshot txn = build_snapshot (tx_xid txn) CommandId_FIRST own_empty (snd (alloc_xid tm0))"
    "same_core (snd (alloc_xid tm0)) tm"
    "tm_snapshot_xmins tm = AList.update (tx_xid txn) (sn_xmin (tx_snapshot txn)) (tm_snapshot_xmins tm0)"
proof -
  have xm: "tm_snapshot_xmins (snd (alloc_xid tm0)) = tm_snapshot_xmins tm0" by (simp add: alloc_xid_def Let_def)
  let ?s = "build_snapshot (fst (alloc_xid tm0)) CommandId_FIRST own_empty (snd (alloc_xid tm0))"
  let ?tm1 = "(snd (alloc_xid tm0))\<lparr>tm_snapshot_xmins := AList.update (fst (alloc_xid tm0)) (sn_xmin ?s)
      (tm_snapshot_xmins tm0)\<rparr>"
  have tm: "tm = (if level = Serializable then register_serializable (fst (alloc_xid tm0)) ?tm1 else ?tm1)"
    and txn: "tx_xid txn = fst (alloc_xid tm0)" "tx_snapshot txn = ?s" "tx_isolation txn = level"
      "tx_subtxn_stack txn = subtxn_new (fst (alloc_xid tm0))"
    using assms by (auto simp: txn_begin_def Let_def case_prod_beta xm)
  show "tx_xid txn = fst (alloc_xid tm0)" "tx_isolation txn = level" "tx_subtxn_stack txn = subtxn_new (tx_xid txn)"
    "tx_snapshot txn = build_snapshot (tx_xid txn) CommandId_FIRST own_empty (snd (alloc_xid tm0))"
    by (simp_all add: txn)
  show "same_core (snd (alloc_xid tm0)) tm"
    unfolding tm by (simp add: same_core_def register_serializable_def split: option.splits)
  show "tm_snapshot_xmins tm = AList.update (tx_xid txn) (sn_xmin (tx_snapshot txn)) (tm_snapshot_xmins tm0)"
    unfolding tm txn by (simp add: register_serializable_def split: option.splits)
qed

text \<open>The life of one transaction between the steps of all others.\<close>

inductive txn_run :: "transaction \<times> txn_manager \<Rightarrow> transaction \<times> txn_manager \<Rightarrow> bool" where
  others: "tm_step_by x tm tm' \<Longrightarrow> x \<noteq> tx_xid txn \<Longrightarrow> txn_run (txn, tm) (txn, tm')"
| refresh: "txn_run (txn, tm) (refresh_snapshot txn tm)"
| savepoint: "tm_next_xid tm \<noteq> - 1 \<Longrightarrow> txn_run (txn, tm) (snd (begin_savepoint txn name tm))"
| rollback: "tm_next_xid tm \<noteq> - 1 \<Longrightarrow> txn_run (txn, tm) (snd (rollback_to_savepoint txn name tm))"
| release: "txn_run (txn, tm) (snd (release_savepoint txn name), tm)"

lemma apply_own_frozen [simp]:
  "frozen_part (tx_snapshot (apply_own_subxids txn)) = frozen_part (tx_snapshot txn)"
  "tx_isolation (apply_own_subxids txn) = tx_isolation txn"
  by (simp_all add: apply_own_subxids_def frozen_part_def Let_def)

lemma record_known: "set xs \<subseteq> sm_rolled_back sm \<Longrightarrow> fold record_rolled_back xs sm = sm"
  by (induction xs) (simp_all add: record_rolled_back_def insert_absorb)

lemma apply_own_fields [simp]:
  "tx_xid (apply_own_subxids txn) = tx_xid txn" "tx_subtxn_stack (apply_own_subxids txn) = tx_subtxn_stack txn"
  "tx_current_command (apply_own_subxids txn) = tx_current_command txn"
  by (simp_all add: apply_own_subxids_def Let_def)

lemma txn_run_step:
  assumes "txn_run (txn, tm) (txn', tm')" "tx_isolation txn \<noteq> ReadCommitted"
  shows "tm_step\<^sup>*\<^sup>* tm tm' \<and> frozen_part (tx_snapshot txn') = frozen_part (tx_snapshot txn)
    \<and> tx_isolation txn' = tx_isolation txn"
  using assms(1)
proof cases
  case (others x)
  then have "tm_step tm tm'" by (auto simp: tm_step_def)
  with others show ?thesis by auto
next
  case refresh
  moreover have "tm_step tm (snd (refresh_snapshot txn tm))" by (rule tm_step_intros)
  moreover have "frozen_part (tx_snapshot (fst (refresh_snapshot txn tm))) = frozen_part (tx_snapshot txn)
      \<and> tx_isolation (fst (refresh_snapshot txn tm)) = tx_isolation txn"
    using assms(2) by (cases "tx_isolation txn") (simp_all add: refresh_snapshot_def Let_def frozen_part_def apply_own_subxids_def)
  ultimately show ?thesis by (metis fst_conv r_into_rtranclp snd_conv)
next
  case (savepoint name)
  moreover have "tm_step tm (snd (snd (begin_savepoint txn name tm)))" using savepoint by (intro tm_step_intros)
  moreover have "frozen_part (tx_snapshot (fst (snd (begin_savepoint txn name tm)))) = frozen_part (tx_snapshot txn)
      \<and> tx_isolation (fst (snd (begin_savepoint txn name tm))) = tx_isolation txn"
    by (simp add: begin_savepoint_def Let_def case_prod_beta)
  ultimately show ?thesis by (metis fst_conv r_into_rtranclp snd_conv)
next
  case (rollback name)
  moreover have "tm_step tm (snd (snd (rollback_to_savepoint txn name tm)))" using rollback by (intro tm_step_intros)
  moreover have "frozen_part (tx_snapshot (fst (snd (rollback_to_savepoint txn name tm)))) = frozen_part (tx_snapshot txn)
      \<and> tx_isolation (fst (snd (rollback_to_savepoint txn name tm))) = tx_isolation txn"
    by (auto simp: rollback_to_savepoint_def Let_def split: prod.splits sum.splits)
  ultimately show ?thesis by (metis fst_conv r_into_rtranclp snd_conv)
next
  case (release name)
  then show ?thesis by (auto simp: release_savepoint_def split: prod.splits sum.splits)
qed

lemma txn_run_frozen:
  assumes "txn_run\<^sup>*\<^sup>* (txn, tm) (txn', tm')" "tx_isolation txn \<noteq> ReadCommitted"
  shows "tm_step\<^sup>*\<^sup>* tm tm' \<and> frozen_part (tx_snapshot txn') = frozen_part (tx_snapshot txn)
    \<and> tx_isolation txn' = tx_isolation txn"
  using assms(1)
proof (induction rule: rtranclp_induct2)
  case (step t1 m1 t2 m2)
  with txn_run_step [of t1 m1 t2 m2] assms(2) show ?case by auto
qed simp

text \<open>The same with resolutions of any family between them.\<close>

inductive txn_life :: "xid set \<Rightarrow> transaction \<times> txn_manager \<Rightarrow> transaction \<times> txn_manager \<Rightarrow> bool" for F where
  own: "txn_run p q \<Longrightarrow> txn_life F p q"
| others: "mgr_step_by F x tm tm' \<Longrightarrow> x \<noteq> tx_xid txn \<Longrightarrow> txn_life F (txn, tm) (txn, tm')"

lemma txn_life_step:
  assumes "txn_life F (txn, tm) (txn', tm')" "tx_isolation txn \<noteq> ReadCommitted"
  shows "(mgr_step F)\<^sup>*\<^sup>* tm tm' \<and> frozen_part (tx_snapshot txn') = frozen_part (tx_snapshot txn)
    \<and> tx_isolation txn' = tx_isolation txn"
  using assms(1)
proof cases
  case own
  then show ?thesis using txn_run_step [OF own assms(2)] tm_run_any by blast
next
  case (others x)
  then have "mgr_step F tm tm'" by (auto simp: mgr_step_def)
  with others show ?thesis by auto
qed

lemma txn_life_frozen:
  assumes "(txn_life F)\<^sup>*\<^sup>* (txn, tm) (txn', tm')" "tx_isolation txn \<noteq> ReadCommitted"
  shows "(mgr_step F)\<^sup>*\<^sup>* tm tm' \<and> frozen_part (tx_snapshot txn') = frozen_part (tx_snapshot txn)
    \<and> tx_isolation txn' = tx_isolation txn"
  using assms(1)
proof (induction rule: rtranclp_induct2)
  case (step t1 m1 t2 m2)
  with txn_life_step [of F t1 m1 t2 m2] assms(2) show ?case by (auto dest: rtranclp_trans)
qed simp

text \<open>
  C1. Repeatable read. A transaction begun at an isolation level above read committed sees the
  same foreign rows for its whole life: between any two of its statements, whatever the other
  transactions do and whichever savepoints it sets, releases or rolls back itself, every row
  whose stamps belong to other transactions has the same visibility as at its begin. The one
  exception is a row stamped by an identifier that had ended and that a later resolution of a
  prepared transaction names in its family (the set \<open>F\<close>), since that resolution overrides the
  recorded status. \<open>forced_family_not_repeatable\<close> shows that the exception is real; the server
  never makes use of it, because it recovers a prepared family as running.
\<close>

theorem repeatable_read:
  assumes "reachable_any tm0" "tm_next_xid tm0 \<noteq> - 1" "level \<noteq> ReadCommitted"
    and "txn_begin level tm0 = (txn, tm)" "(txn_life F)\<^sup>*\<^sup>* (txn, tm) (txn', tm')"
    and "foreign (tx_snapshot txn) (th_xmin h)" "foreign (tx_snapshot txn') (th_xmin h)"
    and "foreign (tx_snapshot txn) (th_xmax h)" "foreign (tx_snapshot txn') (th_xmax h)"
    and "th_xmin h \<notin> F" "th_xmax h \<notin> F"
  shows "is_visible h (tx_snapshot txn') (status tm') = is_visible h (tx_snapshot txn) (status tm)"
proof -
  note sn = begin_fields(4) [OF assms(4)] and lev = begin_fields(2) [OF assms(4)]
    and same = begin_fields(5) [OF assms(4)]
  have inva: "tm_inv (snd (alloc_xid tm0))" using alloc_xid_inv(1) reachable_any_inv assms(1,2) by blast
  have inv: "tm_inv tm" by (rule same_core_inv [OF same inva])
  note run = txn_life_frozen [OF assms(5)]
  have "settled_outside F tm x" if "x \<in> {th_xmin h, th_xmax h}" "\<not> xid_in_progress (tx_snapshot txn) x"
    "\<not> is_current_xid (tx_snapshot txn) x" for x
    using build_snapshot_settled [OF inva that(2,3) [unfolded sn]] same that(1) assms(10,11)
    by (auto simp: settled_outside_def settled_def same_core_def)
  then have "is_visible h (tx_snapshot txn) (status tm') = is_visible h (tx_snapshot txn) (status tm)"
    using run assms(3) lev by (intro mgr_any.reads_repeat [OF _ inv]) auto
  moreover have "is_visible h (tx_snapshot txn') (status tm') = is_visible h (tx_snapshot txn) (status tm')"
    using run assms(3,6-9) lev by (intro is_visible_foreign) auto
  ultimately show ?thesis by simp
qed

text \<open>
  A small run for the examples: a writer (3) begins, a repeatable reader (4) begins, the writer
  commits.
\<close>

definition ex_writer :: transaction where
  "ex_writer = fst (txn_begin ReadCommitted txn_manager_new)"

definition ex_tm0 :: txn_manager where
  "ex_tm0 = snd (txn_begin ReadCommitted txn_manager_new)"

definition ex_reader :: transaction where
  "ex_reader = fst (txn_begin RepeatableRead ex_tm0)"

definition ex_tm1 :: txn_manager where
  "ex_tm1 = snd (txn_begin RepeatableRead ex_tm0)"

definition ex_tm2 :: txn_manager where
  "ex_tm2 = snd (txn_commit ex_writer ex_tm1)"

definition ex_row :: tuple_header where
  "ex_row = fresh 3 0 (TupleId (PageId 1 0) 0) 1"

lemma ex_reachable0: "reachable ex_tm0"
proof -
  have "tm_next_xid txn_manager_new \<noteq> - 1" by code_simp
  from tm_step_intros(1) [OF this, of ReadCommitted] booted.new [of None] show ?thesis
    unfolding reachable_def ex_tm0_def txn_manager_new_def by blast
qed

lemma ex_next0: "tm_next_xid ex_tm0 \<noteq> - 1"
  by code_simp

lemma ex_reachable1: "reachable ex_tm1"
  using reachable_run [OF ex_reachable0] tm_step_intros(1) [OF ex_next0, of RepeatableRead]
  by (auto simp: ex_tm1_def)

lemma ex_tm0_eq: "ex_tm0 = \<lparr>tm_next_xid = 4, tm_clog = [(3, InProgress)], tm_in_progress = {3},
    tm_snapshot_xmins = [(3, 4)], tm_subxid_parent = [], tm_ssi = None, tm_lock_manager = lock_manager_new,
    tm_xact_commit = 0, tm_xact_rollback = 0\<rparr>"
  by (simp add: ex_tm0_def txn_manager_new_def txn_manager_with_def txn_begin_def alloc_xid_def Let_def
    build_snapshot_def own_empty_def own_is_empty_def snapshot_new_def)

lemma ex_tm1_eq: "ex_tm1 = \<lparr>tm_next_xid = 5, tm_clog = [(3, InProgress), (4, InProgress)], tm_in_progress = {3, 4},
    tm_snapshot_xmins = [(3, 4), (4, 3)], tm_subxid_parent = [], tm_ssi = None, tm_lock_manager = lock_manager_new,
    tm_xact_commit = 0, tm_xact_rollback = 0\<rparr>"
  by (simp add: ex_tm1_def ex_tm0_eq txn_begin_def alloc_xid_def Let_def
    build_snapshot_def own_empty_def own_is_empty_def snapshot_new_def min_step_def insert_commute)

lemma ex_reader_eq: "ex_reader = \<lparr>tx_xid = 4, tx_snapshot = snapshot_new 3 5 4 0 [3], tx_isolation = RepeatableRead,
   tx_read_only = False, tx_start_lsn = 0, tx_current_command = 0, tx_subtxn_stack = subtxn_new 4\<rparr>"
  by (simp add: ex_reader_def ex_tm0_eq txn_begin_def alloc_xid_def Let_def
    build_snapshot_def own_empty_def own_is_empty_def  min_step_def Lsn_ZERO_def CommandId_FIRST_def)

lemma ex_writer_xid: "tx_xid ex_writer = 3" "tx_isolation ex_writer = ReadCommitted" "tx_subtxn_stack ex_writer = subtxn_new 3"
  by (simp_all add: ex_writer_def txn_manager_new_def txn_manager_with_def txn_begin_def alloc_xid_def Let_def)

lemma ex_tm2_eq: "ex_tm2 = \<lparr>tm_next_xid = 5, tm_clog = [(3, Committed), (4, InProgress)], tm_in_progress = {4},
    tm_snapshot_xmins = [(4, 3)], tm_subxid_parent = [], tm_ssi = None, tm_lock_manager = lock_manager_new,
    tm_xact_commit = 1, tm_xact_rollback = 0\<rparr>"
  by (simp add: ex_tm2_def ex_tm1_eq ex_writer_xid txn_commit_def commit_check_serializable_def commit_finalize_visible_def
     terminate_with_subxids_def count_termination_def merged_up_family_def committed_subxid_family_def
     merged_up_subxids_def live_stack_subxids_def subtxn_new_def forget_subxid_parents_def release_txn_locks_def
     release_all_def sweep_def affected_tags_def lock_manager_new_def Let_def)

lemmas ex_eqs = ex_tm0_eq ex_tm1_eq ex_tm2_eq ex_reader_eq ex_writer_xid

lemma ex_refresh: "refresh_snapshot ex_reader ex_tm2 =
    (ex_reader\<lparr>tx_snapshot := set_own_subxids [] [] (snapshot_new 3 5 4 1 [3]), tx_current_command := 1\<rparr>, ex_tm2)"
  by (simp add: ex_reader_eq refresh_snapshot_def apply_own_subxids_def own_from_subtxn_def self_subxids_def
      rolled_back_subxids_def subtxn_new_def command_next_def saturating_add_def snapshot_new_def Let_def)

lemmas snapshot_eval =
  is_current_xid_iff [OF snapshot_wf_new] own_subxid_rolled_back_iff [OF snapshot_wf_new]
  xid_in_progress_iff [OF snapshot_wf_new]
  is_current_xid_iff [OF snapshot_wf_set_own [OF snapshot_wf_new]]
  own_subxid_rolled_back_iff [OF snapshot_wf_set_own [OF snapshot_wf_new]]

theorem repeatable_read_witness:
  "is_visible ex_row (tx_snapshot (fst (refresh_snapshot ex_reader ex_tm2))) (status ex_tm2)
     = is_visible ex_row (tx_snapshot ex_reader) (status ex_tm1)
   \<and> is_visible ex_row (tx_snapshot ex_reader) (status ex_tm1) = Invisible
   \<and> status ex_tm2 3 = Committed"
proof -
  let ?r' = "fst (refresh_snapshot ex_reader ex_tm2)"
  have b: "txn_begin RepeatableRead ex_tm0 = (ex_reader, ex_tm1)" by (simp add: ex_reader_def ex_tm1_def)
  have s1: "txn_run (ex_reader, ex_tm1) (ex_reader, ex_tm2)"
    unfolding ex_tm2_def by (rule txn_run.others [OF tm_step_by.commit]) (simp add: ex_eqs)
  have s2: "txn_run (ex_reader, ex_tm2) (?r', snd (refresh_snapshot ex_reader ex_tm2))"
    using txn_run.refresh [of ex_reader ex_tm2] by simp
  have run: "(txn_life {})\<^sup>*\<^sup>* (ex_reader, ex_tm1) (?r', snd (refresh_snapshot ex_reader ex_tm2))"
    using s1 s2 by (meson converse_rtranclp_into_rtranclp r_into_rtranclp txn_life.own)
  have f: "foreign (tx_snapshot ex_reader) (th_xmin ex_row)" "foreign (tx_snapshot ?r') (th_xmin ex_row)"
    "foreign (tx_snapshot ex_reader) (th_xmax ex_row)" "foreign (tx_snapshot ?r') (th_xmax ex_row)"
    unfolding ex_refresh by (simp_all add: ex_reader_eq foreign_def snapshot_eval ex_row_def fresh_def)
  have e: "is_visible ex_row (tx_snapshot ex_reader) (status ex_tm1) = Invisible" "status ex_tm2 3 = Committed"
    by (simp_all add: ex_eqs ex_row_def fresh_def is_visible_defs snapshot_eval committed_before_iff
        xid_is_invalid_def status_def clog_status_def)
  show ?thesis
    using repeatable_read [OF reachable_reachable_any [OF ex_reachable0] ex_next0 _ b run f(1,2,3,4)] e by (simp add: ex_refresh)
qed

text \<open>
  A resolution that overrides. Recovery restores the prepared transaction 3 as running and, for
  want of its family, its savepoint 4 as aborted. A repeatable reader (5) does not see a row of
  4; then 3 is committed with the family 4, and the same snapshot does.
\<close>

definition ex_doubt :: txn_manager where
  "ex_doubt = recover_uncommitted_as_aborted 4 (snd (recover_prepared 3 txn_manager_new))"

definition ex_doubt_reader :: "transaction \<times> txn_manager" where
  "ex_doubt_reader = txn_begin RepeatableRead ex_doubt"

definition ex_doubt_done :: txn_manager where
  "ex_doubt_done = snd (finalise_prepared 3 [4] Committed (snd ex_doubt_reader))"

lemma ex_doubt_eq: "ex_doubt = \<lparr>tm_next_xid = 5, tm_clog = [(3, InProgress), (4, Aborted)], tm_in_progress = {3},
    tm_snapshot_xmins = [], tm_subxid_parent = [], tm_ssi = None, tm_lock_manager = lock_manager_new,
    tm_xact_commit = 0, tm_xact_rollback = 0\<rparr>"
  by (simp add: ex_doubt_def txn_manager_new_def txn_manager_with_def recover_prepared_def is_sentinel_def
      recover_uncommitted_as_aborted_def recover_observed_xid_def bump_next_xid_def saturating_add_def Let_def)

lemma ex_doubt_reader_eq:
  "tx_xid (fst ex_doubt_reader) = 5" "tx_snapshot (fst ex_doubt_reader) = snapshot_new 3 6 5 0 [3]"
  "snd ex_doubt_reader = \<lparr>tm_next_xid = 6, tm_clog = [(3, InProgress), (4, Aborted), (5, InProgress)],
    tm_in_progress = {3, 5}, tm_snapshot_xmins = [(5, 3)], tm_subxid_parent = [], tm_ssi = None,
    tm_lock_manager = lock_manager_new, tm_xact_commit = 0, tm_xact_rollback = 0\<rparr>"
  by (simp_all add: ex_doubt_reader_def ex_doubt_eq txn_begin_def alloc_xid_def Let_def
    build_snapshot_def own_empty_def own_is_empty_def snapshot_new_def min_step_def insert_commute CommandId_FIRST_def)

lemma forced_family_not_repeatable:
  "booted ex_doubt"
  "mgr_step_by {4} 3 (snd ex_doubt_reader) ex_doubt_done" "tx_xid (fst ex_doubt_reader) = 5"
  "is_visible (fresh 4 0 t 1) (tx_snapshot (fst ex_doubt_reader)) (status (snd ex_doubt_reader)) = Invisible"
  "is_visible (fresh 4 0 t 1) (tx_snapshot (fst ex_doubt_reader)) (status ex_doubt_done) = Visible"
proof -
  show "booted ex_doubt"
    unfolding ex_doubt_def txn_manager_new_def by (intro booted.intros) simp_all
  show "mgr_step_by {4} 3 (snd ex_doubt_reader) ex_doubt_done"
    unfolding ex_doubt_done_def by (rule mgr_step_by.forced) (simp_all add: assigned_def ex_doubt_reader_eq)
  show "tx_xid (fst ex_doubt_reader) = 5" by (rule ex_doubt_reader_eq)
  have d: "tm_clog ex_doubt_done = [(3, Committed), (4, Committed), (5, InProgress)]"
    by (simp add: ex_doubt_done_def ex_doubt_reader_eq finalise_prepared_def terminate_with_subxids_def
        count_termination_def fold_subxid_def forget_subxid_parents_def release_txn_locks_def Let_def)
  show "is_visible (fresh 4 0 t 1) (tx_snapshot (fst ex_doubt_reader)) (status (snd ex_doubt_reader)) = Invisible"
    "is_visible (fresh 4 0 t 1) (tx_snapshot (fst ex_doubt_reader)) (status ex_doubt_done) = Visible"
    by (simp_all add: ex_doubt_reader_eq d fresh_def is_visible_defs snapshot_eval committed_before_iff
        oracle_is_committed_def xid_is_invalid_def status_def clog_status_def im_contains_def INPLACE_HISTORY_def)
qed

theorem mirror_matches_clog_witness:
  "tm_in_progress ex_tm1 = {x. map_of (tm_clog ex_tm1) x = Some InProgress} \<and> tm_in_progress ex_tm1 = {3, 4}"
  using mirror_matches_clog [OF reachable_reachable_any [OF ex_reachable1]] by (simp add: ex_tm1_eq)

section \<open>All-or-nothing commits\<close>

lemma status_terminal:
  assumes "tm_inv tm" "clog_of tm x = Some st" "st \<noteq> InProgress"
  shows "status tm x = st"
proof -
  have "3 \<le> x" using assms(1,2) by (auto simp: tm_inv_def)
  then have "x \<noteq> 1" "x \<noteq> 2" by (auto simp: word_le_nat_alt)
  then show ?thesis using assms by (auto simp: tm_inv_def status_def clog_status_def)
qed

lemma terminate_settles:
  assumes inv: "tm_inv tm" and t: "terminate_with_subxids parent fs st force tm = (Inr (), tm1)"
    and st: "st \<noteq> InProgress" and fam: "set fs \<subseteq> tm_in_progress tm"
  shows "tm_inv tm1" "\<And>x. x \<in> insert parent (set fs) \<Longrightarrow> settled tm1 x \<and> status tm1 x = st"
    "terminated parent fs st tm tm1"
proof -
  have run: "clog_of tm parent = Some InProgress" using t terminate_error [of tm parent fs st force] by auto
  obtain tm' where tm': "terminate_with_subxids parent fs st force tm = (Inr (), tm')"
    "tm_inv tm'" "terminated parent fs st tm tm'"
    by (rule terminate_ok [OF inv run st, of force fs]) (use fam in blast)+
  then show i: "tm_inv tm1" and te: "terminated parent fs st tm tm1" using t by auto
  fix x assume x: "x \<in> insert parent (set fs)"
  then have "clog_of tm x = Some InProgress" using run fam inv by (auto simp: tm_inv_def)
  then have c: "clog_of tm1 x = Some st" using te x unfolding terminated_def by auto
  moreover have "x < tm_next_xid tm1" "x \<notin> tm_in_progress tm1" using i c st by (auto simp: tm_inv_def)
  ultimately show "settled tm1 x \<and> status tm1 x = st" using i st by (simp add: settled_def status_terminal)
qed

lemma finalize_terminates:
  assumes "tm_inv tm" "commit_finalize_visible txn fs tm = (Inr (), tm1)" "set fs \<subseteq> tm_in_progress tm"
    and "x \<in> insert (tx_xid txn) (set fs)"
  shows "tm_inv tm1 \<and> settled tm1 x \<and> status tm1 x = Committed"
proof -
  obtain tm' where t: "terminate_with_subxids (tx_xid txn) fs Committed False tm = (Inr (), tm')"
    and tm1: "tm1 = forget_subxid_parents fs (release_txn_locks (tx_xid txn) tm')"
    using assms(2) by (auto simp: commit_finalize_visible_def split: prod.splits sum.splits)
  note te = terminate_settles [OF assms(1) t _ assms(3)]
  have k: "tm_inv tm1" "evolves tm' tm1" using te(1) keeps_end [of tm' fs] by (auto simp: keeps_def tm1)
  have "settled tm' x" "status tm' x = Committed" using te(2) [OF _ assms(4)] by auto
  then show ?thesis using k te(1) evolves_settled status_settled [of tm' tm1 x] by auto
qed

text \<open>
  C2. A transaction and its savepoints become visible together and never half-way. When a commit
  folds a family of running identifiers, every snapshot another transaction took at any earlier
  moment counts none of them as committed, at any later time, and every snapshot taken at or
  after the commit counts all of them. As before, an identifier that a resolution overrides is
  excepted.
\<close>

theorem commit_family_atomic:
  assumes "reachable_any tm0" "(mgr_step F)\<^sup>*\<^sup>* tm0 tm" "tx_xid txn \<in> tm_in_progress tm" "set fs \<subseteq> tm_in_progress tm"
    and "commit_finalize_visible txn fs tm = (Inr (), tm1)" "(mgr_step F)\<^sup>*\<^sup>* tm1 tm1'" "(mgr_step F)\<^sup>*\<^sup>* tm1' tm2"
    and "x \<in> insert (tx_xid txn) (set fs)" "x \<noteq> cur" "x \<notin> set (ow_live own)" "x \<notin> F"
  shows "\<not> is_committed_before_snapshot x (build_snapshot cur cmd own tm0) (status tm2)
    \<and> is_committed_before_snapshot x (build_snapshot cur cmd own tm1') (status tm2)"
proof
  have inv0: "tm_inv tm0" by (rule reachable_any_inv [OF assms(1)])
  have inv: "tm_inv tm" by (rule mgr_any.run_inv [OF assms(2) inv0])
  have fin: "finite (tm_in_progress tm0)" using inv0 by (simp add: tm_inv_def)
  have "\<not> settled tm0 x"
    using mgr_any.run_settled [OF assms(2) inv0, of x] assms(3,4,8,11) by (auto simp: settled_outside_def settled_def)
  then show "\<not> is_committed_before_snapshot x (build_snapshot cur cmd own tm0) (status tm2)"
    using assms(9,10) by (auto simp: committed_before_iff build_snapshot_in_progress [OF fin] settled_def)
  have f: "tm_inv tm1" "settled_outside F tm1 x" "status tm1 x = Committed"
    using finalize_terminates [OF inv assms(5,4,8)] assms(11) by (auto simp: settled_outside_def)
  then have r1: "tm_inv tm1'" "settled_outside F tm1' x" "status tm1' x = Committed"
    using mgr_any.run_settled [OF assms(6)] by auto
  have "status tm2 x = Committed" using mgr_any.run_settled [OF assms(7) r1(1,2)] r1(3) by auto
  moreover have "finite (tm_in_progress tm1')" using r1(1) by (simp add: tm_inv_def)
  ultimately show "is_committed_before_snapshot x (build_snapshot cur cmd own tm1') (status tm2)"
    using r1(2)
    by (auto simp: committed_before_iff build_snapshot_in_progress settled_outside_def settled_def oracle_is_committed_def)
qed

text \<open>The example run with a savepoint (identifier 5) of the writer, then its commit.\<close>

definition ex_writer_sp :: transaction where
  "ex_writer_sp = fst (snd (begin_savepoint ex_writer ''a'' ex_tm1))"

definition ex_tm3 :: txn_manager where
  "ex_tm3 = snd (snd (begin_savepoint ex_writer ''a'' ex_tm1))"

definition ex_tm4 :: txn_manager where
  "ex_tm4 = snd (commit_finalize_visible ex_writer_sp [5] ex_tm3)"

lemma ex_tm3_eq: "ex_tm3 = \<lparr>tm_next_xid = 6, tm_clog = [(3, InProgress), (4, InProgress), (5, InProgress)],
    tm_in_progress = {3, 4, 5}, tm_snapshot_xmins = [(3, 4), (4, 3)], tm_subxid_parent = [(5, 3)], tm_ssi = None,
    tm_lock_manager = lock_manager_new, tm_xact_commit = 0, tm_xact_rollback = 0\<rparr>"
  by (simp add: ex_tm3_def ex_eqs begin_savepoint_def savepoint_def alloc_xid_def subtxn_new_def Let_def insert_commute)

lemma ex_writer_sp_xid: "tx_xid ex_writer_sp = 3"
  by (simp add: ex_writer_sp_def ex_eqs begin_savepoint_def savepoint_def alloc_xid_def subtxn_new_def
      apply_own_subxids_def Let_def)

lemma ex_tm4_eq: "commit_finalize_visible ex_writer_sp [5] ex_tm3 = (Inr (), ex_tm4)"
  by (simp add: ex_tm4_def ex_tm3_eq ex_writer_sp_xid commit_finalize_visible_def terminate_with_subxids_def)

theorem commit_family_atomic_witness:
  "\<not> is_committed_before_snapshot 5 (build_snapshot 4 0 own_empty ex_tm1) (status ex_tm4)
   \<and> is_committed_before_snapshot 5 (build_snapshot 4 0 own_empty ex_tm4) (status ex_tm4)"
proof -
  have "tm_next_xid ex_tm1 \<noteq> - 1" by (simp add: ex_eqs)
  then have run: "(mgr_step {})\<^sup>*\<^sup>* ex_tm1 ex_tm3"
    unfolding ex_tm3_def by (intro r_into_rtranclp tm_step_any tm_step_intros)
  show ?thesis
    by (rule commit_family_atomic [OF reachable_reachable_any [OF ex_reachable1] run _ _ ex_tm4_eq rtranclp.rtrancl_refl rtranclp.rtrancl_refl])
      (simp_all add: ex_tm3_eq ex_writer_sp_xid own_empty_def)
qed

end
