(* ===== verification/Txn_Session.thy ===== *)
theory Txn_Session
  imports Txn_Properties
begin

text \<open>
  A session between \<^verbatim>\<open>BEGIN\<close> and the end of its transaction: its statements, its savepoint
  commands and the steps of all other sessions. The transaction manager keeps the savepoint
  promise of \<open>Savepoint_Spec\<close>: the writes a session still counts as its own are exactly those of
  the log that \<^verbatim>\<open>ROLLBACK TO\<close> truncates.
\<close>

section \<open>Sessions\<close>

type_synonym 'w session = "transaction \<times> txn_manager \<times> ('w \<times> xid) list"

fun session_step :: "'w sp_op \<Rightarrow> 'w session \<Rightarrow> bool \<times> 'w session" where
  "session_step (SpWrite w) (txn, tm, log) = (True, txn, tm, log @ [(w, write_xid txn)])"
| "session_step (SpSavepoint n) (txn, tm, log) =
     (case begin_savepoint txn n tm of (_, txn', tm') \<Rightarrow> (True, txn', tm', log))"
| "session_step (SpRollbackTo n) (txn, tm, log) =
     (case rollback_to_savepoint txn n tm of (r, txn', tm') \<Rightarrow> (\<not> isl r, txn', tm', log))"
| "session_step (SpRelease n) (txn, tm, log) =
     (case release_savepoint txn n of (r, txn') \<Rightarrow> (\<not> isl r, txn', tm, log))"

inductive session_run :: "'w session \<Rightarrow> ('w sp_op \<times> bool) list \<Rightarrow> 'w session \<Rightarrow> bool" where
  start: "session_run s [] s"
| own: "session_run s obs (txn, tm, log) \<Longrightarrow> tm_next_xid tm \<noteq> - 1 \<Longrightarrow>
    session_step op (txn, tm, log) = (b, s') \<Longrightarrow> session_run s (obs @ [(op, b)]) s'"
| statement: "session_run s obs (txn, tm, log) \<Longrightarrow> refresh_snapshot txn tm = (txn', tm') \<Longrightarrow>
    session_run s obs (txn', tm', log)"
| others: "session_run s obs (txn, tm, log) \<Longrightarrow> mgr_step_by UNIV x tm tm' \<Longrightarrow> x \<noteq> tx_xid txn \<Longrightarrow>
    session_run s obs (txn, tm', log)"

section \<open>The manager's operations are the stack's operations\<close>

lemma mark_aborted_next: "tm_next_xid (mark_aborted x tm) = tm_next_xid tm"
  by (simp add: mark_aborted_def)

lemma fold_mark_aborted_next: "tm_next_xid (fold mark_aborted xs tm) = tm_next_xid tm"
  by (induction xs arbitrary: tm) (simp_all add: mark_aborted_next)

lemma rollback_records:
  "rollback_to name alloc m sm = (Inr oc, m', sm') \<Longrightarrow> set (ro_aborted oc) \<subseteq> sm_rolled_back sm'"
  by (auto simp: rollback_to_def Let_def case_prod_beta split: option.splits)

lemma write_xid_stack: "sm_parent_xid (tx_subtxn_stack txn) = tx_xid txn \<Longrightarrow> write_xid txn = stack_current_xid (tx_subtxn_stack txn)"
  by (simp add: write_xid_def current_xid_def stack_current_xid_def)

lemma impl_step_parent:
  "impl_step alloc cid op (m, sm, log) = (b, m', sm', log') \<Longrightarrow> sm_parent_xid sm' = sm_parent_xid sm"
  by (cases op) (auto simp: savepoint_def rollback_to_def release_def Let_def split: prod.splits option.splits)

lemma session_step_impl:
  assumes "session_step op (txn, tm, log) = (b, txn', tm', log')" "sm_parent_xid (tx_subtxn_stack txn) = tx_xid txn"
  obtains m' where "impl_step alloc_xid (tx_current_command txn) op (tm, tx_subtxn_stack txn, log)
      = (b, m', tx_subtxn_stack txn', log')" "tm_next_xid tm' = tm_next_xid m'" "tx_xid txn' = tx_xid txn"
    "txn' = txn \<or> txn' = apply_own_subxids (txn\<lparr>tx_subtxn_stack := tx_subtxn_stack txn'\<rparr>)"
    "tm' = tm \<or> (\<exists>n. tm' = snd (snd (begin_savepoint txn n tm))) \<or> (\<exists>n. tm' = snd (snd (rollback_to_savepoint txn n tm)))"
proof (cases op)
  case (SpWrite w)
  then show thesis using assms that [of tm] by (auto simp: write_xid_stack)
next
  case (SpSavepoint n)
  then show thesis
    using assms by (intro that [of "snd (alloc_xid tm)"])
      (auto simp: begin_savepoint_def savepoint_def Let_def case_prod_beta)
next
  case (SpRelease n)
  then show thesis
    using assms by (intro that [of tm]) (auto simp: release_savepoint_def release_def Let_def split: prod.splits sum.splits option.splits)
next
  case (SpRollbackTo n)
  obtain r m' sm' where rb: "rollback_to n alloc_xid tm (tx_subtxn_stack txn) = (r, m', sm')" by (metis prod_cases3)
  show thesis
  proof (cases r)
    case (Inl e)
    then show thesis using assms SpRollbackTo rb rollback_to_alloc [OF rb]
      by (intro that [of m']) (auto simp: rollback_to_savepoint_def)
  next
    case (Inr oc)
    note rec = record_known [OF rollback_records [OF rb [unfolded Inr]]]
    have r: "rollback_to_savepoint txn n tm = (Inr (ro_aborted oc), txn', tm')" "b" "log' = log"
      using assms SpRollbackTo by (auto simp: rollback_to_savepoint_def rb Inr Let_def split: prod.splits)
    note eq = r(1) [unfolded rollback_to_savepoint_def rb Inr prod.case sum.case Let_def rec]
    have "txn' = apply_own_subxids (txn\<lparr>tx_subtxn_stack := sm'\<rparr>)" "tm_next_xid tm' = tm_next_xid m'"
      using eq by (auto simp: fold_mark_aborted_next)
    moreover have "tm' = snd (snd (rollback_to_savepoint txn n tm))" using r(1) by simp
    ultimately show thesis
      using SpRollbackTo rb Inr r(2,3) by (intro that [of m']) auto
  qed
qed

section \<open>Invariant of a session\<close>

definition session_inv :: "'w session \<Rightarrow> bool" where
  "session_inv s \<longleftrightarrow> (case s of (txn, tm, log) \<Rightarrow>
     tm_inv tm \<and> impl_inv (\<lambda>tm. unat (tm_next_xid tm)) (tm, tx_subtxn_stack txn, log)
     \<and> sm_parent_xid (tx_subtxn_stack txn) = tx_xid txn
     \<and> (\<forall>x. own_subxid_rolled_back (tx_snapshot txn) x \<longleftrightarrow> is_rolled_back (tx_subtxn_stack txn) x)
     \<and> (\<forall>x. is_current_xid (tx_snapshot txn) x \<longleftrightarrow> x = tx_xid txn \<or> x \<in> set (self_subxids (tx_subtxn_stack txn)))
     \<and> snapshot_wf (tx_snapshot txn) \<and> sn_current_xid (tx_snapshot txn) = tx_xid txn)"

lemma impl_inv_mono:
  "impl_inv (\<lambda>tm. unat (tm_next_xid tm)) (tm, sm, log) \<Longrightarrow> tm_next_xid tm \<le> tm_next_xid tm' \<Longrightarrow>
     impl_inv (\<lambda>tm. unat (tm_next_xid tm)) (tm', sm, log)"
  by (auto simp: word_le_nat_alt intro: subtxn_inv_mono)

lemma rolled_back_members:
  "subtxn_inv b sm \<Longrightarrow> x \<in> set (rolled_back_subxids sm) \<longleftrightarrow> is_rolled_back sm x"
  by (simp add: rolled_back_subxids_def is_rolled_back_def subtxn_inv_def)

lemma apply_own_current:
  assumes "snapshot_wf (tx_snapshot txn)" "subtxn_inv b (tx_subtxn_stack txn)" "sn_current_xid (tx_snapshot txn) = tx_xid txn"
  defines "s \<equiv> tx_snapshot (apply_own_subxids txn)"
  shows "snapshot_wf s" "sn_current_xid s = tx_xid txn"
    "own_subxid_rolled_back s x \<longleftrightarrow> is_rolled_back (tx_subtxn_stack txn) x"
    "is_current_xid s x \<longleftrightarrow> x = tx_xid txn \<or> x \<in> set (self_subxids (tx_subtxn_stack txn))"
proof -
  have s: "s = set_own_subxids (self_subxids (tx_subtxn_stack txn)) (rolled_back_subxids (tx_subtxn_stack txn)) (tx_snapshot txn)"
    by (simp add: s_def apply_own_subxids_def own_from_subtxn_def Let_def)
  show wf: "snapshot_wf s" unfolding s by (rule snapshot_wf_set_own [OF assms(1)])
  show "sn_current_xid s = tx_xid txn" using assms(3) by (simp add: s)
  then show "is_current_xid s x \<longleftrightarrow> x = tx_xid txn \<or> x \<in> set (self_subxids (tx_subtxn_stack txn))"
    unfolding is_current_xid_iff [OF wf] by (simp add: s)
  show "own_subxid_rolled_back s x \<longleftrightarrow> is_rolled_back (tx_subtxn_stack txn) x"
    unfolding own_subxid_rolled_back_iff [OF wf] using rolled_back_members [OF assms(2)] by (simp add: s)
qed

lemma session_step_simulates:
  assumes inv: "session_inv (txn, tm, log)" and nx: "tm_next_xid tm \<noteq> - 1"
    and step: "session_step op (txn, tm, log) = (b, txn', tm', log')"
  shows "session_inv (txn', tm', log')
    \<and> spec_step op (abs_state (tm, tx_subtxn_stack txn, log)) = (b, abs_state (tm', tx_subtxn_stack txn', log'))"
proof -
  have ii: "impl_inv (\<lambda>tm. unat (tm_next_xid tm)) (tm, tx_subtxn_stack txn, log)"
    and par: "sm_parent_xid (tx_subtxn_stack txn) = tx_xid txn" and tmi: "tm_inv tm"
    and wf: "snapshot_wf (tx_snapshot txn)" "sn_current_xid (tx_snapshot txn) = tx_xid txn"
    using inv unfolding session_inv_def prod.case by blast+
  obtain m' where m': "impl_step alloc_xid (tx_current_command txn) op (tm, tx_subtxn_stack txn, log)
      = (b, m', tx_subtxn_stack txn', log')" "tm_next_xid tm' = tm_next_xid m'" "tx_xid txn' = tx_xid txn"
    "txn' = txn \<or> txn' = apply_own_subxids (txn\<lparr>tx_subtxn_stack := tx_subtxn_stack txn'\<rparr>)"
    "tm' = tm \<or> (\<exists>n. tm' = snd (snd (begin_savepoint txn n tm))) \<or> (\<exists>n. tm' = snd (snd (rollback_to_savepoint txn n tm)))"
    by (rule session_step_impl [OF step par])
  have "unat (tm_next_xid tm) < 2 ^ 64 - 1" using nx unat_not_max [of "tm_next_xid tm"] by simp
  note sim = alloc.step_simulates [OF ii this m'(1)]
  have sub: "impl_inv (\<lambda>tm. unat (tm_next_xid tm)) (tm', tx_subtxn_stack txn', log')"
    using sim m'(2) by simp
  then have si: "subtxn_inv (unat (tm_next_xid tm')) (tx_subtxn_stack txn')" by simp
  have "tm_inv tm'"
    using m'(5) tmi keeps_savepoint [OF nx] keeps_rollback [OF nx] by (auto simp: keeps_def)
  moreover have "sm_parent_xid (tx_subtxn_stack txn') = tx_xid txn'"
    using impl_step_parent [OF m'(1)] m'(3) par by simp
  moreover have "snapshot_wf (tx_snapshot txn') \<and> sn_current_xid (tx_snapshot txn') = tx_xid txn'
    \<and> (\<forall>x. own_subxid_rolled_back (tx_snapshot txn') x \<longleftrightarrow> is_rolled_back (tx_subtxn_stack txn') x)
    \<and> (\<forall>x. is_current_xid (tx_snapshot txn') x \<longleftrightarrow> x = tx_xid txn' \<or> x \<in> set (self_subxids (tx_subtxn_stack txn')))"
    using m'(4)
  proof
    assume "txn' = txn" then show ?thesis using inv by (auto simp: session_inv_def)
  next
    let ?t = "txn\<lparr>tx_subtxn_stack := tx_subtxn_stack txn'\<rparr>"
    assume e: "txn' = apply_own_subxids ?t"
    have h: "snapshot_wf (tx_snapshot ?t)" "subtxn_inv (unat (tm_next_xid tm')) (tx_subtxn_stack ?t)"
      "sn_current_xid (tx_snapshot ?t) = tx_xid ?t" using wf si by simp_all
    note a = apply_own_current [OF h, folded e]
    show ?thesis using a m'(3) by simp
  qed
  ultimately show ?thesis
    using sub sim m'(2) unfolding session_inv_def prod.case by simp
qed

lemma build_snapshot_current_xid [simp]: "sn_current_xid (build_snapshot cur cmd own tm) = cur"
  by (simp add: build_snapshot_def Let_def)

lemma session_begin:
  assumes "reachable_any tm0" "tm_next_xid tm0 \<noteq> - 1" "txn_begin level tm0 = (txn, tm)"
  shows "session_inv (txn, tm, [])"
proof -
  note f = begin_fields [OF assms(3)]
  have tmi: "tm_inv tm"
    using keeps_begin [OF assms(2), of level] assms(1,3) reachable_any_inv by (auto simp: keeps_def)
  have "tm_next_xid tm = tm_next_xid tm0 + 1" "tx_xid txn = tm_next_xid tm0"
    using f(1,5) by (simp_all add: same_core_def alloc_xid_def Let_def)
  then have lt: "unat (tx_xid txn) < unat (tm_next_xid tm)" using unat_plus_one_less [OF assms(2)] by simp
  have "impl_inv (\<lambda>tm. unat (tm_next_xid tm)) (tm, tx_subtxn_stack txn, [])"
    using subtxn_inv_new [OF lt] by (simp add: f(3) live_log_def log_inv_def splits_def below_def)
  moreover have "own_subxid_rolled_back (tx_snapshot txn) x \<longleftrightarrow> is_rolled_back (tx_subtxn_stack txn) x"
    "is_current_xid (tx_snapshot txn) x \<longleftrightarrow> x = tx_xid txn \<or> x \<in> set (self_subxids (tx_subtxn_stack txn))" for x
    unfolding f(4) build_snapshot_current
    by (simp_all add: f(3) own_empty_def is_rolled_back_def self_subxids_def subtxn_new_def)
  moreover have "snapshot_wf (tx_snapshot txn)" unfolding f(4) by (rule build_snapshot_wf)
  moreover have "sn_current_xid (tx_snapshot txn) = tx_xid txn" "sm_parent_xid (tx_subtxn_stack txn) = tx_xid txn"
    unfolding f(3) by (simp_all add: f(4) subtxn_new_def)
  ultimately show ?thesis using tmi by (auto simp: session_inv_def)
qed

lemma session_statement:
  assumes inv: "session_inv (txn, tm, log)" and r: "refresh_snapshot txn tm = (txn', tm')"
  shows "session_inv (txn', tm', log) \<and> tx_subtxn_stack txn' = tx_subtxn_stack txn"
proof -
  let ?t = "txn\<lparr>tx_current_command := command_next (tx_current_command txn)\<rparr>"
  let ?s = "(tx_snapshot txn)\<lparr>sn_current_command := tx_current_command ?t\<rparr>"
  have si: "subtxn_inv (unat (tm_next_xid tm)) (tx_subtxn_stack txn)" using inv by (simp add: session_inv_def)
  have wf: "snapshot_wf ?s" "sn_current_xid ?s = tx_xid txn"
    using inv by (simp_all add: session_inv_def snapshot_wf_def)
  have core: "tm_next_xid tm' = tm_next_xid tm" "tm_inv tm'"
    using r inv keeps_refresh [of tm txn]
    by (auto simp: refresh_snapshot_def Let_def keeps_def session_inv_def split: isolation_level.splits)
  have "snapshot_wf (tx_snapshot txn') \<and> sn_current_xid (tx_snapshot txn') = tx_xid txn
    \<and> (\<forall>x. own_subxid_rolled_back (tx_snapshot txn') x \<longleftrightarrow> is_rolled_back (tx_subtxn_stack txn) x)
    \<and> (\<forall>x. is_current_xid (tx_snapshot txn') x \<longleftrightarrow> x = tx_xid txn \<or> x \<in> set (self_subxids (tx_subtxn_stack txn)))"
  proof (cases "tx_isolation txn = ReadCommitted")
    case True
    then have "tx_snapshot txn' = build_snapshot (tx_xid txn) (tx_current_command ?t) (own_from_subtxn (tx_subtxn_stack txn)) tm"
      using r by (auto simp: refresh_snapshot_def Let_def)
    then show ?thesis
      using rolled_back_members [OF si]
      by (simp add: build_snapshot_wf build_snapshot_current own_from_subtxn_def)
  next
    case False
    then have e: "txn' = apply_own_subxids (?t\<lparr>tx_snapshot := ?s\<rparr>)"
      using r by (cases "tx_isolation txn") (auto simp: refresh_snapshot_def Let_def)
    have h: "snapshot_wf (tx_snapshot (?t\<lparr>tx_snapshot := ?s\<rparr>))"
      "subtxn_inv (unat (tm_next_xid tm)) (tx_subtxn_stack (?t\<lparr>tx_snapshot := ?s\<rparr>))"
      "sn_current_xid (tx_snapshot (?t\<lparr>tx_snapshot := ?s\<rparr>)) = tx_xid (?t\<lparr>tx_snapshot := ?s\<rparr>)"
      using wf si by simp_all
    show ?thesis using apply_own_current [OF h, folded e] by simp
  qed
  moreover have "tx_subtxn_stack txn' = tx_subtxn_stack txn" "tx_xid txn' = tx_xid txn"
    using r by (auto simp: refresh_snapshot_def Let_def split: isolation_level.splits)
  ultimately show ?thesis using inv core unfolding session_inv_def prod.case by simp
qed

lemma session_others:
  assumes "session_inv (txn, tm, log)" "mgr_step_by UNIV x tm tm'"
  shows "session_inv (txn, tm', log)"
proof -
  have "tm_inv tm'" "tm_next_xid tm \<le> tm_next_xid tm'"
    using mgr_step_by_next [OF assms(2)] assms(1) by (auto simp: session_inv_def)
  with assms(1) impl_inv_mono show ?thesis unfolding session_inv_def prod.case by blast
qed

lemma run_ops_snoc:
  "run_ops f xs s = (bs, s') \<Longrightarrow> f a s' = (b, s'') \<Longrightarrow> run_ops f (xs @ [a]) s = (bs @ [b], s'')"
  by (induction xs arbitrary: s bs) (auto split: prod.splits)

lemma session_run_simulates:
  assumes "session_run s obs s'" "session_inv s" "s = (txn0, tm0, log0)"
  shows "session_inv s' \<and> (\<forall>txn tm log. s' = (txn, tm, log) \<longrightarrow>
    run_ops spec_step (map fst obs) (abs_state (tm0, tx_subtxn_stack txn0, log0))
      = (map snd obs, abs_state (tm, tx_subtxn_stack txn, log)))"
  using assms
proof (induction rule: session_run.induct)
  case (own s obs txn tm log op b s')
  obtain txn' tm' log' where s': "s' = (txn', tm', log')" by (metis prod_cases3)
  have IH: "session_inv (txn, tm, log)" "run_ops spec_step (map fst obs) (abs_state (tm0, tx_subtxn_stack txn0, log0))
      = (map snd obs, abs_state (tm, tx_subtxn_stack txn, log))" using own by auto
  note st = session_step_simulates [OF IH(1) own.hyps(2) own.hyps(3) [unfolded s']]
  show ?case using st run_ops_snoc [OF IH(2)] unfolding s' by simp
next
  case (statement s obs txn tm log txn' tm')
  then show ?case using session_statement [of txn tm log txn' tm'] by auto
next
  case (others s obs txn tm log x tm')
  then show ?case using session_others [of txn tm log x tm'] by auto
qed simp

section \<open>Savepoints truncate\<close>

lemma session_log_own:
  assumes "session_inv (txn, tm, log)" "e \<in> set log"
  shows "own_subxid_rolled_back (tx_snapshot txn) (snd e) \<longleftrightarrow> \<not> is_current_xid (tx_snapshot txn) (snd e)"
proof -
  let ?sm = "tx_subtxn_stack txn"
  have si: "subtxn_inv (unat (tm_next_xid tm)) ?sm" and li: "log_inv ?sm (live_log ?sm log)"
    and par: "sm_parent_xid ?sm = tx_xid txn"
    and rb: "own_subxid_rolled_back (tx_snapshot txn) (snd e) \<longleftrightarrow> is_rolled_back ?sm (snd e)"
    and cur: "is_current_xid (tx_snapshot txn) (snd e) \<longleftrightarrow> snd e = tx_xid txn \<or> snd e \<in> set (self_subxids ?sm)"
    using assms(1) by (auto simp: session_inv_def)
  have fin: "finite (sm_merged_up ?sm)" "tx_xid txn \<notin> sm_rolled_back ?sm" using si par by (auto simp: subtxn_inv_def)
  have "snd e \<in> insert (tx_xid txn) (stack_xids ?sm \<union> sm_merged_up ?sm)" if "\<not> is_rolled_back ?sm (snd e)"
    using li assms(2) that par by (cases e) (auto simp: log_inv_def live_log_def)
  then show ?thesis
    unfolding rb cur using fin by (auto simp: self_subxids_def is_rolled_back_def stack_xids_def)
qed

text \<open>
  C19. Savepoints truncate. In a session of any length, interleaved with any steps of other
  sessions, every savepoint command succeeds or fails exactly as the specification's does, the
  writes the session's snapshot does not treat as rolled back are exactly the writes left in the
  specification's truncated log, in order, the open savepoints are the specification's marks,
  and every write of the session is either rolled back or recognised as its own.
\<close>

theorem savepoints_truncate:
  assumes "reachable_any tm0" "tm_next_xid tm0 \<noteq> - 1" "txn_begin level tm0 = (txn, tm)"
    and "session_run (txn, tm, []) obs (txn', tm', log)"
  shows "\<exists>marks. run_ops spec_step (map fst obs) \<lparr>spec_log = [], spec_marks = []\<rparr>
        = (map snd obs,
           \<lparr>spec_log = map fst (filter (\<lambda>e. \<not> own_subxid_rolled_back (tx_snapshot txn') (snd e)) log),
            spec_marks = marks\<rparr>)
      \<and> map fst marks = map sx_name (stack_snapshot (tx_subtxn_stack txn'))
      \<and> (\<forall>e \<in> set log. own_subxid_rolled_back (tx_snapshot txn') (snd e)
            \<longleftrightarrow> \<not> is_current_xid (tx_snapshot txn') (snd e))"
proof -
  note sim = session_run_simulates [OF assms(4) session_begin [OF assms(1-3)] refl]
  then have inv: "session_inv (txn', tm', log)" by blast
  have abs0: "abs_state (tm, tx_subtxn_stack txn, []) = \<lparr>spec_log = [], spec_marks = []\<rparr>"
    using begin_fields(3) [OF assms(3)] by (simp add: live_log_def subtxn_new_def)
  have live: "filter (\<lambda>e. \<not> own_subxid_rolled_back (tx_snapshot txn') (snd e)) log = live_log (tx_subtxn_stack txn') log"
    using inv by (simp add: session_inv_def live_log_def)
  let ?marks = "map (\<lambda>s. (sx_name s, length (below (sx_xid s) (live_log (tx_subtxn_stack txn') log))))
      (sm_stack (tx_subtxn_stack txn'))"
  have "run_ops spec_step (map fst obs) \<lparr>spec_log = [], spec_marks = []\<rparr>
      = (map snd obs, \<lparr>spec_log = map fst (live_log (tx_subtxn_stack txn') log), spec_marks = ?marks\<rparr>)"
    using sim unfolding abs0 by simp
  moreover have "map fst ?marks = map sx_name (stack_snapshot (tx_subtxn_stack txn'))"
    by (simp add: stack_snapshot_def comp_def)
  ultimately show ?thesis unfolding live using session_log_own [OF inv] by blast
qed

lemma ex_session:
  obtains txn' tm' where "session_run (ex_writer, ex_tm0, [])
    [(SpSavepoint ''p'', True), (SpWrite (7 :: nat), True), (SpRollbackTo ''p'', True)] (txn', tm', [(7, 4)])"
proof -
  obtain t1 m1 where s1: "session_step (SpSavepoint ''p'') (ex_writer, ex_tm0, []) = (True, t1, m1, [] :: (nat \<times> xid) list)"
    and t1: "tx_subtxn_stack t1 = (subtxn_new 3)\<lparr>sm_stack := [\<lparr>sx_parent_xid = 3, sx_xid = 4, sx_name = ''p'',
        sx_command_id_at_save = tx_current_command ex_writer\<rparr>]\<rparr>" "tm_next_xid m1 = 5"
    by (simp add: begin_savepoint_def savepoint_def alloc_xid_def ex_eqs Let_def subtxn_new_def)
  have s2: "session_step (SpWrite 7) (t1, m1, []) = (True, t1, m1, [(7, 4)])"
    using t1 by (simp add: write_xid_def current_xid_def stack_snapshot_def)
  obtain t2 m2 where s3: "session_step (SpRollbackTo ''p'') (t1, m1, [(7 :: nat, 4)]) = (True, t2, m2, [(7, 4)])"
    using t1 by (simp add: rollback_to_savepoint_def rollback_to_def Let_def case_prod_beta)
  have n: "tm_next_xid ex_tm0 \<noteq> - 1" "tm_next_xid m1 \<noteq> - 1" using t1(2) by (simp_all add: ex_eqs)
  note run = session_run.own [OF session_run.own [OF session_run.own [OF session_run.start n(1) s1] n(2) s2] n(2) s3]
  show thesis using that run by simp
qed

theorem savepoints_truncate_witness:
  "\<exists>txn' tm'. session_run (ex_writer, ex_tm0, [])
      [(SpSavepoint ''p'', True), (SpWrite (7 :: nat), True), (SpRollbackTo ''p'', True)] (txn', tm', [(7, 4)])
    \<and> own_subxid_rolled_back (tx_snapshot txn') 4 \<and> map sx_name (stack_snapshot (tx_subtxn_stack txn')) = [''p'']"
proof -
  obtain txn' tm' where run: "session_run (ex_writer, ex_tm0, [])
    [(SpSavepoint ''p'', True), (SpWrite (7 :: nat), True), (SpRollbackTo ''p'', True)] (txn', tm', [(7, 4)])"
    by (rule ex_session)
  have b: "txn_begin ReadCommitted txn_manager_new = (ex_writer, ex_tm0)" by (simp add: ex_writer_def ex_tm0_def)
  have r: "reachable txn_manager_new" unfolding reachable_def txn_manager_new_def using booted.new by blast
  have n: "tm_next_xid txn_manager_new \<noteq> - 1" by code_simp
  show ?thesis using savepoints_truncate [OF reachable_reachable_any [OF r] n b run] run by (auto split: if_splits)
qed

end
