(* ===== verification/Txn_Lifecycle.thy ===== *)
theory Txn_Lifecycle
  imports Txn_Properties
begin

text \<open>
  The end of a transaction: the first decision on it is final but for the override of a
  prepared family, a commit succeeds as a whole or
  aborts as a whole, and its locks go with it; a rollback to a savepoint releases exactly the
  locks taken since. The facts on the lock table come through the interface \<open>lock_service\<close>.
\<close>

section \<open>The first decision is final\<close>








section \<open>Commit as a whole or abort as a whole\<close>

definition family_ended :: "transaction \<Rightarrow> xid list \<Rightarrow> xid_status \<Rightarrow> txn_manager \<Rightarrow> txn_manager \<Rightarrow> bool" where
  "family_ended txn fs st tm tm' \<longleftrightarrow>
     (\<forall>y \<in> insert (tx_xid txn) (set fs). status tm' y = st)
     \<and> (\<forall>t. grants_at (tm_lock_manager tm') t = filter (\<lambda>g. gr_xid g \<noteq> tx_xid txn) (grants_at (tm_lock_manager tm) t))"

lemma terminate_family:
  assumes "tm_inv tm" "tx_xid txn \<in> tm_in_progress tm" "set fs \<subseteq> tm_in_progress tm" "st \<noteq> InProgress"
  obtains tm1 where "terminate_with_subxids (tx_xid txn) fs st False tm = (Inr (), tm1)"
    "family_ended txn fs st tm (forget_subxid_parents fs (release_txn_locks (tx_xid txn) tm1))" "tm_ssi tm1 = tm_ssi tm"
proof -
  have run: "clog_of tm (tx_xid txn) = Some InProgress" using assms(1,2) by (simp add: tm_inv_def)
  obtain tm1 where t: "terminate_with_subxids (tx_xid txn) fs st False tm = (Inr (), tm1)"
    by (rule terminate_ok [OF assms(1) run assms(4), of False fs]) auto
  note te = terminate_settles [OF assms(1) t assms(4,3)]
  let ?tm' = "forget_subxid_parents fs (release_txn_locks (tx_xid txn) tm1)"
  have k: "tm_inv ?tm'" "evolves tm1 ?tm'" using te(1) keeps_end [of tm1 fs "tx_xid txn"] by (auto simp: keeps_def)
  have "status ?tm' y = st" if "y \<in> insert (tx_xid txn) (set fs)" for y
    using te(2) [OF that] status_settled [OF te(1) k, of y] by simp
  moreover have "grants_at (tm_lock_manager ?tm') t
      = filter (\<lambda>g. gr_xid g \<noteq> tx_xid txn) (grants_at (tm_lock_manager tm) t)" for t
    using te(3) by (simp add: terminated_def forget_subxid_parents_def release_txn_locks_def locks.held_finish)
  ultimately show thesis using that [OF t] te(3) by (simp add: family_ended_def terminated_def)
qed

lemma check_failure:
  assumes "commit_check_serializable txn tm = (Inl err, tm1)"
  obtains d s where "err = SerializationFailure (tx_xid txn) d" "tx_isolation txn = Serializable"
    "tm1 = tm\<lparr>tm_ssi := Some s\<rparr>"
proof -
  obtain ssi where ssi: "tx_isolation txn = Serializable" "tm_ssi tm = Some ssi"
    using assms by (auto simp: commit_check_serializable_def Let_def split: if_splits option.splits)
  obtain v d s' where c: "ssi_commit (tx_xid txn) (tm_next_xid tm) ssi = (Inl (Serialization v d), s')"
    using assms ssi by (auto simp: commit_check_serializable_def Let_def split: prod.splits sum.splits ssi_error.splits)
  have "v = tx_xid txn"
    using c by (auto simp: ssi_commit_def Let_def check_for_dangerous_structure_def scan_in_victim split: option.splits if_splits)
  then show thesis using that [of d "ssi_abort (tx_xid txn) s'"] assms ssi c
    by (simp add: commit_check_serializable_def Let_def)
qed

lemma check_success:
  "commit_check_serializable txn tm = (Inr fs, tm1) \<Longrightarrow> fs = committed_subxid_family txn
     \<and> (\<exists>s. tm1 = tm\<lparr>tm_ssi := s\<rparr>)"
  by (auto simp: commit_check_serializable_def merged_up_family_def Let_def
      split: if_splits option.splits prod.splits sum.splits ssi_error.splits intro: exI [of _ "tm_ssi tm"])

lemma status_ssi [simp]: "status (tm\<lparr>tm_ssi := s\<rparr>) x = status tm x"
  by (simp add: status_def clog_status_def split: option.split)

lemma family_ended_ssi:
  "family_ended txn fs st (tm\<lparr>tm_ssi := s\<rparr>) tm' \<longleftrightarrow> family_ended txn fs st tm tm'"
  "family_ended txn fs st tm (tm'\<lparr>tm_ssi := s\<rparr>) \<longleftrightarrow> family_ended txn fs st tm tm'"
  by (simp_all add: family_ended_def)

text \<open>
  C3. A running transaction commits as a whole or aborts as a whole. A successful commit returns
  the savepoint family it folded and leaves the transaction and all of the family committed. A
  failed one happens under serializable isolation only, names the transaction itself as the
  victim, and leaves the transaction and all of the family aborted and unknown to the conflict
  tracker. Either way every lock of the transaction is released and no lock of another is. The
  comment on \<open>commit\<close> says otherwise of a failed check, that the log is left untouched for the
  caller to abort; the code aborts.
\<close>

theorem commit_whole_or_abort_whole:
  assumes "reachable_any tm" "tx_xid txn \<in> tm_in_progress tm" "set (committed_subxid_family txn) \<subseteq> tm_in_progress tm"
  shows "case txn_commit txn tm of
      (Inr fs, tm') \<Rightarrow> fs = committed_subxid_family txn \<and> family_ended txn fs Committed tm tm'
    | (Inl err, tm') \<Rightarrow>
        tx_isolation txn = Serializable \<and> (\<exists>d. err = SerializationFailure (tx_xid txn) d)
        \<and> family_ended txn (committed_subxid_family txn) Aborted tm tm'
        \<and> (\<forall>s. tm_ssi tm' = Some s \<longrightarrow> \<not> tracked s (tx_xid txn))"
proof -
  have inv: "tm_inv (tm\<lparr>tm_ssi := s\<rparr>)" for s
    using same_core_inv [OF ssi_core(3)] reachable_any_inv [OF assms(1)] by blast
  obtain r tm1 where ch: "commit_check_serializable txn tm = (r, tm1)" by fastforce
  show ?thesis
  proof (cases r)
    case (Inr fs)
    obtain s where fs: "fs = committed_subxid_family txn" "tm1 = tm\<lparr>tm_ssi := s\<rparr>"
      using check_success [of txn tm fs tm1] ch Inr by auto
    obtain tm2 where t: "terminate_with_subxids (tx_xid txn) fs Committed False tm1 = (Inr (), tm2)"
      "family_ended txn fs Committed tm1 (forget_subxid_parents fs (release_txn_locks (tx_xid txn) tm2))"
      by (rule terminate_family [of tm1 txn fs Committed]) (use fs assms(2,3) inv in auto)
    then show ?thesis
      using fs by (simp add: txn_commit_def ch Inr commit_finalize_visible_def family_ended_ssi)
  next
    case (Inl err)
    obtain d s where f: "err = SerializationFailure (tx_xid txn) d" "tx_isolation txn = Serializable"
      "tm1 = tm\<lparr>tm_ssi := Some s\<rparr>" by (rule check_failure [OF ch [unfolded Inl]])
    let ?fs = "committed_subxid_family txn"
    obtain tm2 where t: "terminate_with_subxids (tx_xid txn) ?fs Aborted False tm1 = (Inr (), tm2)"
      "family_ended txn ?fs Aborted tm1 (forget_subxid_parents ?fs (release_txn_locks (tx_xid txn) tm2))"
      "tm_ssi tm2 = tm_ssi tm1"
      by (rule terminate_family [of tm1 txn ?fs Aborted]) (use f assms(2,3) inv in auto)
    let ?tm3 = "forget_subxid_parents ?fs (release_txn_locks (tx_xid txn) tm2)"
    have "tm_ssi ?tm3 = Some s" using t(3) f(3) by (simp add: forget_subxid_parents_def release_txn_locks_def)
    then have "txn_commit txn tm = (Inl err, ?tm3\<lparr>tm_ssi := Some (ssi_abort (tx_xid txn) s)\<rparr>)"
      using f(2) t(1) by (simp add: txn_commit_def ch Inl txn_abort_def abort_family_def merged_up_family_def Let_def ssi_forget_def)
    moreover have "family_ended txn ?fs Aborted tm ?tm3" using t(2) f(3) by (simp add: family_ended_ssi)
    ultimately show ?thesis using f by (simp add: family_ended_ssi tracked_def ssi_abort_def delete_conv' del: split_paired_Ex)
  qed
qed

lemma ex_commit: "txn_commit ex_writer ex_tm1 = (Inr [], ex_tm2)"
  by (simp add: ex_eqs txn_commit_def commit_check_serializable_def commit_finalize_visible_def
     terminate_with_subxids_def count_termination_def merged_up_family_def committed_subxid_family_def
     merged_up_subxids_def live_stack_subxids_def subtxn_new_def forget_subxid_parents_def release_txn_locks_def
     release_all_def sweep_def affected_tags_def lock_manager_new_def Let_def)

theorem commit_whole_or_abort_whole_witness:
  "fst (txn_commit ex_writer ex_tm1) = Inr [] \<and> family_ended ex_writer [] Committed ex_tm1 ex_tm2"
proof -
  have "committed_subxid_family ex_writer = []"
    by (simp add: committed_subxid_family_def ex_eqs merged_up_subxids_def live_stack_subxids_def subtxn_new_def)
  moreover have "tx_xid ex_writer \<in> tm_in_progress ex_tm1" by (simp add: ex_eqs)
  ultimately show ?thesis using commit_whole_or_abort_whole [OF reachable_reachable_any [OF ex_reachable1], of ex_writer] by (simp add: ex_commit)
qed

section \<open>Rolling back to a savepoint\<close>

lemma mark_aborted_view:
  "clog_of (mark_aborted x tm) y = (if y = x \<and> clog_of tm x = Some InProgress then Some Aborted else clog_of tm y)"
  "tm_lock_manager (mark_aborted x tm) = tm_lock_manager tm" "tm_next_xid (mark_aborted x tm) = tm_next_xid tm"
  by (auto simp: mark_aborted_def update_conv')

lemma fold_mark_aborted_view:
  "clog_of (fold mark_aborted xs tm) y = (if y \<in> set xs \<and> clog_of tm y = Some InProgress then Some Aborted else clog_of tm y)"
  "tm_lock_manager (fold mark_aborted xs tm) = tm_lock_manager tm" "tm_next_xid (fold mark_aborted xs tm) = tm_next_xid tm"
  by (induction xs arbitrary: tm) (auto simp: mark_aborted_view)

text \<open>
  C20. Rolling back to a savepoint. The savepoint's own identifier, every inner one, and every
  identifier released since it was set are aborted; the savepoint survives under a fresh running
  identifier, which the next writes carry. Exactly the locks whose owner is one of the
  transaction's rolled-back identifiers are released. Nothing else changes status.
\<close>

theorem rollback_to_savepoint_exact:
  assumes "subtxn_inv (unat (tm_next_xid tm)) (tx_subtxn_stack txn)"
    and "rollback_to_savepoint txn name tm = (Inr aborted, txn', tm')"
    and "rposition (\<lambda>s. sx_name s = name) (stack_snapshot (tx_subtxn_stack txn)) = Some pos"
  shows "set aborted = discarded pos (tx_subtxn_stack txn)
    \<and> (\<forall>x. clog_of tm' x =
          (if x = tm_next_xid tm then Some InProgress
           else if is_rolled_back (tx_subtxn_stack txn') x \<and> clog_of tm x = Some InProgress then Some Aborted
           else clog_of tm x))
    \<and> (\<forall>x. is_rolled_back (tx_subtxn_stack txn') x \<longleftrightarrow> is_rolled_back (tx_subtxn_stack txn) x \<or> x \<in> set aborted)
    \<and> write_xid txn' = tm_next_xid tm
    \<and> (\<forall>t. grants_at (tm_lock_manager tm') t
            = filter (\<lambda>g. \<not> is_rolled_back (tx_subtxn_stack txn') (gr_owner g)) (grants_at (tm_lock_manager tm) t))"
proof -
  let ?sm = "tx_subtxn_stack txn" and ?x = "tm_next_xid tm" and ?A = "discarded pos (tx_subtxn_stack txn)"
  have al: "alloc_xid tm = (?x, snd (alloc_xid tm))" by (simp add: alloc_xid_def Let_def)
  have p: "rposition (\<lambda>s. sx_name s = name) (sm_stack ?sm) = Some pos" using assms(3) by (simp add: stack_snapshot_def)
  obtain sm' where rb: "rollback_to name alloc_xid tm ?sm
      = (Inr \<lparr>ro_aborted = sorted_list_of_set ?A, ro_new_target_xid = ?x\<rparr>, snd (alloc_xid tm), sm')"
    and sm': "sm_stack sm' = take pos (sm_stack ?sm) @ [(sm_stack ?sm ! pos)\<lparr>sx_xid := ?x\<rparr>]"
      "sm_rolled_back sm' = sm_rolled_back ?sm \<union> ?A"
    by (rule rollback_to_found [where alloc = alloc_xid and m = tm, OF p assms(1) al, folded discarded_def])
  have fin: "finite ?A" "finite (sm_rolled_back ?sm)" using assms(1) by (auto simp: subtxn_inv_def discarded_def)
  have known: "fold record_rolled_back (sorted_list_of_set ?A) sm' = sm'"
    using fin sm'(2) by (intro record_known) simp
  have old: "x \<noteq> ?x" if "x \<in> sm_rolled_back sm'" for x
    using that assms(1) unfolding sm'(2)
    by (auto simp: subtxn_inv_def discarded_def stack_xids_def dest!: in_set_dropD)
  let ?t = "(snd (alloc_xid tm))\<lparr>tm_subxid_parent := AList.update ?x (tx_xid txn) (tm_subxid_parent (snd (alloc_xid tm)))\<rparr>"
  let ?t2 = "fold mark_aborted (rolled_back_subxids sm') (fold mark_aborted (sorted_list_of_set ?A) ?t)"
  have out: "aborted = sorted_list_of_set ?A" "txn' = apply_own_subxids (txn\<lparr>tx_subtxn_stack := sm'\<rparr>)"
    "tm' = ?t2\<lparr>tm_lock_manager := release_subxact_locks (rolled_back_subxids sm') (tm_lock_manager ?t2)\<rparr>"
    using assms(2) by (auto simp: rollback_to_savepoint_def rb Let_def known)
  have st: "tx_subtxn_stack txn' = sm'" "tx_xid txn' = tx_xid txn"
    by (simp_all add: out(2) apply_own_subxids_def Let_def)
  have rbs: "set (rolled_back_subxids sm') = sm_rolled_back sm'" using fin sm'(2) by (simp add: rolled_back_subxids_def)
  have al2: "clog_of (snd (alloc_xid tm)) x = (if x = ?x then Some InProgress else clog_of tm x)"
    "tm_lock_manager (snd (alloc_xid tm)) = tm_lock_manager tm" for x
    by (simp_all add: alloc_xid_def Let_def update_conv')
  have "clog_of tm' x = (if x = ?x then Some InProgress
      else if x \<in> sm_rolled_back sm' \<and> clog_of tm x = Some InProgress then Some Aborted else clog_of tm x)" for x
    unfolding out(3) using old [of x] sm'(2) fin by (auto simp: fold_mark_aborted_view rbs al2)
  moreover have "grants_at (tm_lock_manager tm') t
      = filter (\<lambda>g. gr_owner g \<notin> sm_rolled_back sm') (grants_at (tm_lock_manager tm) t)" for t
    unfolding out(3) by (simp add: fold_mark_aborted_view al2 locks.held_undo rbs)
  moreover have "write_xid txn' = ?x"
    by (simp add: write_xid_def current_xid_def stack_snapshot_def st sm'(1))
  ultimately show ?thesis using out(1) fin sm'(2) by (simp add: st is_rolled_back_def)
qed

lemma ex_writer_sp_stack: "tx_subtxn_stack ex_writer_sp = (subtxn_new 3)\<lparr>sm_stack :=
    [\<lparr>sx_parent_xid = 3, sx_xid = 5, sx_name = ''a'', sx_command_id_at_save = tx_current_command ex_writer\<rparr>]\<rparr>"
  by (simp add: ex_writer_sp_def ex_eqs begin_savepoint_def savepoint_def alloc_xid_def subtxn_new_def Let_def)

theorem rollback_to_savepoint_exact_witness:
  "\<exists>txn' tm'. rollback_to_savepoint ex_writer_sp ''a'' ex_tm3 = (Inr [5], txn', tm')
     \<and> clog_of tm' 5 = Some Aborted \<and> clog_of tm' 6 = Some InProgress \<and> write_xid txn' = 6"
proof -
  obtain txn' tm' where r: "rollback_to_savepoint ex_writer_sp ''a'' ex_tm3 = (Inr [5], txn', tm')"
    by (simp add: rollback_to_savepoint_def rollback_to_def ex_writer_sp_stack subtxn_new_def Let_def case_prod_beta)
  have i: "subtxn_inv (unat (tm_next_xid ex_tm3)) (tx_subtxn_stack ex_writer_sp)"
    by (simp add: ex_tm3_eq ex_writer_sp_stack subtxn_inv_def subtxn_new_def stack_xids_def)
  have p: "rposition (\<lambda>s. sx_name s = ''a'') (stack_snapshot (tx_subtxn_stack ex_writer_sp)) = Some 0"
    by (simp add: stack_snapshot_def ex_writer_sp_stack)
  show ?thesis using rollback_to_savepoint_exact [OF i r p] r by (auto simp: ex_tm3_eq)
qed

end
