(* ===== verification/Txn_Recovery.thy ===== *)
theory Txn_Recovery
  imports Txn_Properties
begin

text \<open>
  Restart: the commit-log export of a checkpoint, its import into a fresh manager, the prepared
  transactions re-opened from their state files and the sweep that aborts what the log left
  unfinished (\<^verbatim>\<open>export_clog\<close>, \<^verbatim>\<open>import_clog\<close>, \<^verbatim>\<open>recover_prepared\<close> and
  \<^verbatim>\<open>recover_uncommitted_as_aborted\<close> of \<^verbatim>\<open>manager.rs\<close>).
\<close>

section \<open>Importing\<close>

lemma recover_terminal_view:
  assumes "\<not> is_sentinel x" "x \<noteq> - 1"
  shows "clog_of (recover_terminal st x tm) = (clog_of tm)(x \<mapsto> st)"
    "tm_next_xid (recover_terminal st x tm) = max (tm_next_xid tm) (x + 1)"
    "tm_in_progress (recover_terminal st x tm) = tm_in_progress tm - {x}"
  using assms by (simp_all add: recover_terminal_def observed_next update_conv' fun_eq_iff)

definition importable :: "u64 \<Rightarrow> (xid \<times> xid_status) list \<Rightarrow> bool" where
  "importable n es \<longleftrightarrow> (\<forall>(x, st) \<in> set es. \<not> is_sentinel x \<and> x < n \<and> st \<noteq> InProgress)"

lemma import_entries:
  assumes "importable n es" "tm_next_xid tm \<le> n"
  shows "clog_of (fold import_entry es tm) = map_of es ++ clog_of tm
    \<and> tm_next_xid (fold import_entry es tm) \<le> n
    \<and> tm_in_progress (fold import_entry es tm) \<subseteq> tm_in_progress tm"
  using assms
proof (induction es arbitrary: tm)
  case (Cons e es)
  obtain x st where e: "e = (x, st)" by fastforce
  have x: "\<not> is_sentinel x" "x < n" "st \<noteq> InProgress" "importable n es"
    using Cons.prems(1) by (auto simp: importable_def e)
  then have m: "x \<noteq> - 1" using word_n1_ge [of n] by auto
  have "x + 1 \<le> n" using x(2) m by (simp add: word_less_nat_alt word_le_nat_alt unat_plus_one_less Suc_le_eq)
  then have nx: "tm_next_xid (import_entry e tm) \<le> n"
    using Cons.prems(2) by (simp add: e import_entry_cases [OF x(1) m] recover_terminal_view [OF x(1) m])
  have c: "clog_of (import_entry e tm) = (if clog_of tm x = None then (clog_of tm)(x \<mapsto> st) else clog_of tm)"
    and i: "tm_in_progress (import_entry e tm) \<subseteq> tm_in_progress tm"
    using x(3) by (auto simp: e import_entry_cases [OF x(1) m] recover_terminal_view [OF x(1) m])
  have "map_of es ++ clog_of (import_entry e tm) = map_of (e # es) ++ clog_of tm"
    unfolding c by (auto simp: e fun_eq_iff map_add_def split: option.splits)
  moreover have "fold import_entry (e # es) tm = fold import_entry es (import_entry e tm)" by simp
  ultimately show ?case using Cons.IH [OF x(4) nx] i by (metis order_trans)
qed simp

lemma export_importable:
  assumes "tm_inv tm"
  shows "importable (tm_next_xid tm) (snd (export_clog tm))"
    and "map_of (snd (export_clog tm)) = (\<lambda>x. if clog_of tm x = Some InProgress then None else clog_of tm x)"
proof -
  have d: "distinct (map fst (tm_clog tm))" using assms by (simp add: tm_inv_def)
  have "\<not> is_sentinel x \<and> x < tm_next_xid tm" if "(x, st) \<in> set (tm_clog tm)" for x st
  proof -
    have "clog_of tm x \<noteq> None" using that by (auto simp: map_of_eq_None_iff rev_image_eqI)
    then have "Xid_FIRST_USER \<le> x" "x < tm_next_xid tm" using assms by (auto simp: tm_inv_def)
    then show ?thesis by (auto simp: is_sentinel_def word_le_nat_alt)
  qed
  then show "importable (tm_next_xid tm) (snd (export_clog tm))" by (auto simp: importable_def export_clog_def)
  show "map_of (snd (export_clog tm)) = (\<lambda>x. if clog_of tm x = Some InProgress then None else clog_of tm x)"
  proof
    fix x
    show "map_of (snd (export_clog tm)) x = (if clog_of tm x = Some InProgress then None else clog_of tm x)"
      using map_of_filter_key [OF d, of "\<lambda>_ st. st \<noteq> InProgress" x]
      by (simp add: export_clog_def split: option.splits)
  qed
qed

section \<open>Re-opening and sweeping\<close>

definition restart :: "ssi_manager option \<Rightarrow> u64 \<times> (xid \<times> xid_status) list \<Rightarrow> xid list \<Rightarrow> xid list \<Rightarrow> txn_manager" where
  "restart ssi exported prepared unfinished =
     fold recover_uncommitted_as_aborted unfinished
       (fold (\<lambda>x tm. snd (recover_prepared x tm)) prepared
          (import_clog (fst exported) (snd exported) (txn_manager_with ssi)))"

definition known_xid :: "txn_manager \<Rightarrow> xid \<Rightarrow> bool" where
  "known_xid tm x \<longleftrightarrow> \<not> is_sentinel x \<and> x < tm_next_xid tm"

lemma known_xid_next: "known_xid tm x \<Longrightarrow> x \<noteq> - 1 \<and> max (tm_next_xid tm) (x + 1) = tm_next_xid tm"
proof
  assume k: "known_xid tm x"
  then show m: "x \<noteq> - 1" using word_n1_ge [of "tm_next_xid tm"] by (auto simp: known_xid_def)
  have "x + 1 \<le> tm_next_xid tm"
    using k m by (simp add: known_xid_def word_less_nat_alt word_le_nat_alt unat_plus_one_less Suc_le_eq)
  then show "max (tm_next_xid tm) (x + 1) = tm_next_xid tm" by (simp add: max_def)
qed

lemma reopen_prepared:
  assumes "\<forall>x \<in> set ps. known_xid tm x \<and> (clog_of tm x = None \<or> clog_of tm x = Some InProgress)"
  defines "tm' \<equiv> fold (\<lambda>x tm. snd (recover_prepared x tm)) ps tm"
  shows "clog_of tm' = (\<lambda>x. if x \<in> set ps then Some InProgress else clog_of tm x)
    \<and> tm_next_xid tm' = tm_next_xid tm \<and> tm_in_progress tm' = tm_in_progress tm \<union> set ps"
  using assms(1) unfolding tm'_def
proof (induction ps arbitrary: tm)
  case (Cons p ps)
  have k: "known_xid tm p" "clog_of tm p = None \<or> clog_of tm p = Some InProgress" using Cons.prems by auto
  note kn = known_xid_next [OF k(1)]
  let ?t = "snd (recover_prepared p tm)"
  have t: "clog_of ?t = (clog_of tm)(p \<mapsto> InProgress)" "tm_next_xid ?t = tm_next_xid tm"
    "tm_in_progress ?t = insert p (tm_in_progress tm)"
    using k kn by (auto simp: recover_prepared_def known_xid_def observed_next Let_def update_conv' fun_eq_iff)
  have "\<forall>x \<in> set ps. known_xid ?t x \<and> (clog_of ?t x = None \<or> clog_of ?t x = Some InProgress)"
    using Cons.prems by (simp add: t known_xid_def)
  from Cons.IH [OF this] show ?case by (simp add: t fun_eq_iff)
qed simp

lemma sweep_unfinished:
  assumes "\<forall>x \<in> set xs. known_xid tm x"
  defines "tm' \<equiv> fold recover_uncommitted_as_aborted xs tm"
  shows "clog_of tm' = (\<lambda>x. if x \<in> set xs \<and> clog_of tm x = None then Some Aborted else clog_of tm x)
    \<and> tm_next_xid tm' = tm_next_xid tm
    \<and> tm_in_progress tm' = tm_in_progress tm - {x \<in> set xs. clog_of tm x = None}"
  using assms(1) unfolding tm'_def
proof (induction xs arbitrary: tm)
  case (Cons a xs)
  have k: "known_xid tm a" using Cons.prems by simp
  note kn = known_xid_next [OF k]
  let ?t = "recover_uncommitted_as_aborted a tm"
  have s: "\<not> is_sentinel a" "a \<noteq> - 1" using k kn by (auto simp: known_xid_def)
  have t: "clog_of ?t = (if clog_of tm a = None then (clog_of tm)(a \<mapsto> Aborted) else clog_of tm)"
    "tm_next_xid ?t = tm_next_xid tm"
    "tm_in_progress ?t = (if clog_of tm a = None then tm_in_progress tm - {a} else tm_in_progress tm)"
    using kn by (auto simp: recover_uncommitted_cases [OF s] recover_terminal_view [OF s])
  have "\<forall>x \<in> set xs. known_xid ?t x" using Cons.prems by (simp add: t(2) known_xid_def)
  from Cons.IH [OF this] show ?case by (auto simp: t fun_eq_iff)
qed simp

lemma booted_fold_prepared:
  "booted tm \<Longrightarrow> \<forall>x \<in> set ps. x \<noteq> - 1 \<Longrightarrow> booted (fold (\<lambda>x tm. snd (recover_prepared x tm)) ps tm)"
  by (induction ps arbitrary: tm) (simp_all add: booted.prepared)

lemma booted_fold_sweep:
  "booted tm \<Longrightarrow> \<forall>x \<in> set xs. x \<noteq> - 1 \<Longrightarrow> booted (fold recover_uncommitted_as_aborted xs tm)"
  by (induction xs arbitrary: tm) (simp_all add: booted.uncommitted)

lemma recover_parents [simp]:
  "tm_subxid_parent (recover_observed_xid x tm) = tm_subxid_parent tm"
  "tm_subxid_parent (recover_uncommitted_as_aborted x tm) = tm_subxid_parent tm"
  "tm_subxid_parent (snd (recover_prepared x tm)) = tm_subxid_parent tm"
  "tm_subxid_parent (import_entry e tm) = tm_subxid_parent tm"
  by (simp_all add: recover_observed_xid_def recover_uncommitted_as_aborted_def recover_prepared_def
      import_entry_def bump_next_xid_def Let_def split: option.splits xid_status.splits prod.splits)

lemma fold_parents:
  "(\<And>a tm. tm_subxid_parent (f a tm) = tm_subxid_parent tm) \<Longrightarrow> tm_subxid_parent (fold f as tm) = tm_subxid_parent tm"
  by (induction as arbitrary: tm) simp_all

lemma restart_parents: "tm_subxid_parent (restart ssi exported prepared unfinished) = []"
  by (simp add: restart_def import_clog_def bump_next_xid_def fold_parents txn_manager_with_def)

text \<open>
  C4. A restart loses nothing and resurrects nothing. Take the commit-log export of any manager,
  import it into a fresh one, re-open the prepared transactions and sweep the transactions the
  log left unfinished: every finished transaction has the status it had, every prepared one is
  running again, every other unfinished one is aborted, the allocator continues where it
  stopped, and the running set is exactly the prepared transactions.
\<close>

theorem restart_restores:
  assumes "reachable_any tm" "set prepared \<subseteq> tm_in_progress tm" "set unfinished \<subseteq> tm_in_progress tm"
    and tm': "tm' = restart ssi (export_clog tm) prepared unfinished"
  shows "tm_inv tm' \<and> tm_next_xid tm' = tm_next_xid tm \<and> tm_in_progress tm' = set prepared
    \<and> (\<forall>x. settled tm x \<longrightarrow> status tm' x = status tm x)
    \<and> (\<forall>x \<in> set prepared. status tm' x = InProgress)
    \<and> (\<forall>x \<in> set unfinished - set prepared. status tm' x = Aborted)"
proof -
  have inv: "tm_inv tm" using reachable_any_inv [OF assms(1)] .
  let ?n = "tm_next_xid tm" and ?es = "snd (export_clog tm)" and ?t0 = "txn_manager_with ssi"
  have t0: "tm_next_xid ?t0 \<le> ?n" "clog_of ?t0 = Map.empty" "tm_in_progress ?t0 = {}"
    "tm_subxid_parent ?t0 = []" using inv by (simp_all add: txn_manager_with_def tm_inv_def)
  define t1 where "t1 = import_clog (fst (export_clog tm)) ?es ?t0"
  have fst_export: "fst (export_clog tm) = ?n" by (simp add: export_clog_def)
  note imp = import_entries [OF export_importable(1) [OF inv] t0(1)]
  have t1: "clog_of t1 = (\<lambda>x. if clog_of tm x = Some InProgress then None else clog_of tm x)"
    "tm_next_xid t1 = ?n" "tm_in_progress t1 = {}"
    using imp fst_export by (simp_all add: t1_def import_clog_def bump_next_max export_importable(2) [OF inv] t0 max_def)
  have run: "clog_of tm x = Some InProgress \<and> known_xid t1 x" if "x \<in> tm_in_progress tm" for x
  proof -
    have c: "clog_of tm x = Some InProgress" using inv that by (simp add: tm_inv_def)
    then have "Xid_FIRST_USER \<le> x" "x < ?n" using inv by (auto simp: tm_inv_def)
    then show ?thesis using c t1(2) by (auto simp: known_xid_def is_sentinel_def word_le_nat_alt)
  qed
  define t2 where "t2 = fold (\<lambda>x tm. snd (recover_prepared x tm)) prepared t1"
  have t2: "clog_of t2 = (\<lambda>x. if x \<in> set prepared then Some InProgress else clog_of t1 x)"
    "tm_next_xid t2 = ?n" "tm_in_progress t2 = set prepared"
    using reopen_prepared [of prepared t1] run assms(2) t1 by (auto simp: t2_def subset_iff)
  have tm'_eq: "tm' = fold recover_uncommitted_as_aborted unfinished t2" by (simp add: tm' restart_def t2_def t1_def)
  have c: "clog_of tm' = (\<lambda>x. if x \<in> set unfinished \<and> clog_of t2 x = None then Some Aborted else clog_of t2 x)"
    "tm_next_xid tm' = ?n" "tm_in_progress tm' = set prepared"
    using sweep_unfinished [of unfinished t2] run assms(3) t1(2) t2 unfolding tm'_eq
    by (auto simp: known_xid_def subset_iff)
  have ne: "\<forall>x \<in> set prepared \<union> set unfinished. x \<noteq> - 1" using run assms(2,3) known_xid_next by blast
  have "booted t1"
    unfolding t1_def using export_importable(1) [OF inv] by (intro booted.imported booted.new) (auto simp: importable_def)
  then have "booted t2" unfolding t2_def using ne by (intro booted_fold_prepared) auto
  then have "booted tm'" unfolding tm'_eq using ne by (intro booted_fold_sweep) auto
  then have inv': "tm_inv tm'" by (rule booted_inv)
  have par: "tm_subxid_parent tm' = []" unfolding tm' by (rule restart_parents)
  have "status tm' x = status tm x" if "settled tm x" for x
  proof -
    have x: "clog_of tm x \<noteq> Some InProgress" "x \<notin> set prepared" "x \<notin> set unfinished"
      using that settled_not_running [OF inv] assms(2,3) by (auto simp: settled_def)
    then have "clog_of tm' x = clog_of tm x" by (simp add: c t2 t1)
    moreover have "clog_of tm x = None \<Longrightarrow> map_of (tm_subxid_parent tm) x = None" using inv by (auto simp: tm_inv_def)
    ultimately show ?thesis using x(1) by (auto simp: status_def clog_status_def par split: option.splits)
  qed
  moreover have "status tm' x = InProgress" if "x \<in> set prepared" for x
  proof -
    have "x \<noteq> 1" "x \<noteq> 2" using run [of x] that assms(2) by (auto simp: known_xid_def is_sentinel_def)
    then show ?thesis using that by (simp add: status_def clog_status_def par c t2)
  qed
  moreover have "status tm' x = Aborted" if "x \<in> set unfinished - set prepared" for x
    using that run [of x] assms(3) by (intro status_terminal [OF inv']) (auto simp: c t2 t1)
  ultimately show ?thesis using inv' c(2,3) by blast
qed

theorem restart_restores_witness:
  "let tm' = restart None (export_clog ex_tm2) [] [4] in
     tm_next_xid tm' = 5 \<and> status tm' 3 = Committed \<and> status tm' 4 = Aborted \<and> tm_in_progress tm' = {}"
proof -
  have r: "reachable ex_tm2"
    unfolding ex_tm2_def using reachable_run [OF ex_reachable1] tm_step_intros(6) by blast
  have h: "set [] \<subseteq> tm_in_progress ex_tm2" "set [4] \<subseteq> tm_in_progress ex_tm2" by (simp_all add: ex_eqs)
  have "settled ex_tm2 3" "status ex_tm2 3 = Committed"
    by (simp_all add: settled_def ex_eqs status_def clog_status_def)
  then show ?thesis using restart_restores [OF reachable_reachable_any [OF r] h refl, of None] by (simp add: Let_def ex_eqs)
qed

end
