(* ===== verification/Txn_Vacuum.thy ===== *)
theory Txn_Vacuum
  imports Txn_Properties
begin

text \<open>
  What the horizons promise to vacuum and to the conflict tracker: a row whose deleter lies
  below the vacuum horizon is invisible to every live snapshot and to every snapshot still to
  come, and a conflict entry is retired only when everyone who was running at its commit check
  has ended. The last section shows who may still be concurrent then.
\<close>

section \<open>Horizons are lower bounds\<close>

lemma oldest_in_progress_le:
  assumes "tm_inv tm"
  shows "oldest_in_progress tm \<le> tm_next_xid tm"
    and "x \<in> tm_in_progress tm \<Longrightarrow> oldest_in_progress tm \<le> x"
proof -
  let ?xs = "map fst (filter (\<lambda>(x, st). st = InProgress) (tm_clog tm))"
  have mem: "x \<in> set ?xs \<longleftrightarrow> x \<in> tm_in_progress tm" for x
  proof -
    have "x \<in> set ?xs \<longleftrightarrow> (x, InProgress) \<in> set (tm_clog tm)" by (force simp: image_iff)
    moreover have "distinct (map fst (tm_clog tm))" "tm_in_progress tm = {x. clog_of tm x = Some InProgress}"
      using assms by (simp_all add: tm_inv_def)
    ultimately show ?thesis using map_of_eq_Some_iff [of "tm_clog tm" x InProgress] by simp
  qed
  have below: "x \<in> tm_in_progress tm \<Longrightarrow> x < tm_next_xid tm" for x
    using assms by (auto simp: tm_inv_def)
  show "oldest_in_progress tm \<le> tm_next_xid tm"
    using foldl_min_step(2) [of ?xs] mem below
    by (auto simp: oldest_in_progress_def less_imp_le simp del: set_map set_filter split: option.splits)
  show "oldest_in_progress tm \<le> x" if "x \<in> tm_in_progress tm"
  proof -
    have x: "x \<in> set ?xs" using mem that by blast
    then have "?xs \<noteq> []" by (metis empty_iff list.set(1))
    then obtain m where m: "foldl min_step None ?xs = Some m" using foldl_min_step(1) [of ?xs] by blast
    with foldl_min_step(2) [OF m] x show ?thesis by (simp add: oldest_in_progress_def del: set_map set_filter)
  qed
qed

lemma vacuum_horizon_le:
  "vacuum_horizon tm \<le> oldest_in_progress tm"
  "map_of (tm_snapshot_xmins tm) x = Some f \<Longrightarrow> vacuum_horizon tm \<le> f"
proof -
  show "vacuum_horizon tm \<le> oldest_in_progress tm"
    by (auto simp: vacuum_horizon_def Let_def less_imp_le split: option.splits)
  assume "map_of (tm_snapshot_xmins tm) x = Some f"
  then have f: "f \<in> set (map snd (tm_snapshot_xmins tm))" by (force dest: map_of_SomeD)
  then have "map snd (tm_snapshot_xmins tm) \<noteq> []" by (metis empty_iff list.set(1))
  then obtain m where m: "foldl min_step None (map snd (tm_snapshot_xmins tm)) = Some m"
    using foldl_min_step(1) [of "map snd (tm_snapshot_xmins tm)"] by blast
  with foldl_min_step(2) [OF m] f have "m \<le> f" by blast
  with m show "vacuum_horizon tm \<le> f" by (auto simp: vacuum_horizon_def Let_def)
qed

section \<open>The floor of a live transaction\<close>

lemma fold_subxid_xmins [simp]:
  "tm_snapshot_xmins (fold (fold_subxid p st force) fs tm) = tm_snapshot_xmins tm"
  by (induction fs arbitrary: tm) (simp_all add: fold_subxid_def Let_def)

lemma count_xmins [simp]: "tm_snapshot_xmins (count_termination st tm) = tm_snapshot_xmins tm"
  by (cases st) (simp_all add: count_termination_def)

lemma terminate_xmins:
  "y \<noteq> x \<Longrightarrow> map_of (tm_snapshot_xmins (snd (terminate_with_subxids x fs st force tm))) y = map_of (tm_snapshot_xmins tm) y"
  by (auto simp: terminate_with_subxids_def Let_def delete_conv' split: option.splits xid_status.splits)

lemma fold_mark_aborted_xmins [simp]: "tm_snapshot_xmins (fold mark_aborted xs tm) = tm_snapshot_xmins tm"
  by (induction xs arbitrary: tm) (simp_all add: mark_aborted_def)

lemma other_xmins [simp]:
  "tm_snapshot_xmins (forget_subxid_parents fs tm) = tm_snapshot_xmins tm"
  "tm_snapshot_xmins (release_txn_locks x tm) = tm_snapshot_xmins tm"
  "tm_snapshot_xmins (ssi_forget x tm) = tm_snapshot_xmins tm"
  "tm_snapshot_xmins (snd (commit_check_serializable txn tm)) = tm_snapshot_xmins tm"
  "tm_snapshot_xmins (snd (alloc_xid tm)) = tm_snapshot_xmins tm"
  by (auto simp: forget_subxid_parents_def release_txn_locks_def ssi_forget_def alloc_xid_def Let_def
      commit_check_serializable_def split: option.splits prod.splits sum.splits ssi_error.splits)

lemma savepoint_xmins [simp]:
  "tm_snapshot_xmins (snd (snd (begin_savepoint txn name tm))) = tm_snapshot_xmins tm"
  "tm_snapshot_xmins (snd (snd (rollback_to_savepoint txn name tm))) = tm_snapshot_xmins tm"
proof -
  show "tm_snapshot_xmins (snd (snd (begin_savepoint txn name tm))) = tm_snapshot_xmins tm"
    by (simp add: begin_savepoint_def savepoint_def Let_def case_prod_beta)
  show "tm_snapshot_xmins (snd (snd (rollback_to_savepoint txn name tm))) = tm_snapshot_xmins tm"
    using rollback_to_alloc [of name alloc_xid tm "tx_subtxn_stack txn"]
    by (fastforce simp: rollback_to_savepoint_def Let_def split: prod.splits sum.splits)
qed

lemma finalize_xmins:
  "y \<noteq> tx_xid txn \<Longrightarrow> map_of (tm_snapshot_xmins (snd (commit_finalize_visible txn fs tm))) y = map_of (tm_snapshot_xmins tm) y"
  using terminate_xmins [of y "tx_xid txn" fs Committed False tm]
  by (auto simp: commit_finalize_visible_def split: prod.splits sum.splits)

lemma abort_xmins:
  "y \<noteq> tx_xid txn \<Longrightarrow> map_of (tm_snapshot_xmins (snd (txn_abort txn tm))) y = map_of (tm_snapshot_xmins tm) y"
  using terminate_xmins [of y "tx_xid txn" "abort_family txn" Aborted False tm]
  by (auto simp: txn_abort_def Let_def split: prod.splits sum.splits)

lemma txn_commit_manager:
  "commit_check_serializable txn tm = (r, tm1) \<Longrightarrow> snd (txn_commit txn tm) =
     (case r of Inl e \<Rightarrow> snd (txn_abort txn tm1) | Inr fs \<Rightarrow> snd (commit_finalize_visible txn fs tm1))"
  by (auto simp: txn_commit_def split: sum.splits prod.splits)

lemma commit_xmins:
  assumes "y \<noteq> tx_xid txn"
  shows "map_of (tm_snapshot_xmins (snd (txn_commit txn tm))) y = map_of (tm_snapshot_xmins tm) y"
proof (cases "commit_check_serializable txn tm")
  case (Pair r tm1)
  then have "tm_snapshot_xmins tm1 = tm_snapshot_xmins tm" using other_xmins(4) [of txn tm] by simp
  with assms Pair finalize_xmins [of y txn _ tm1] abort_xmins [of y txn tm1] show ?thesis
    by (simp add: txn_commit_manager [OF Pair] split: sum.splits)
qed

lemma step_floor:
  assumes "tm_step_by a tm tm'" "y \<noteq> a"
  shows "map_of (tm_snapshot_xmins tm') y = map_of (tm_snapshot_xmins tm) y"
  using assms
proof (induction rule: tm_step_by.induct)
  case (start tm level)
  then show ?case
    by (auto simp: txn_begin_def register_serializable_def Let_def case_prod_beta update_conv' alloc_xid_def split: option.splits)
next
  case (refresh txn tm)
  then show ?case by (auto simp: refresh_snapshot_def Let_def update_conv' split: isolation_level.splits)
next
  case (abort_xid x tm)
  then show ?case
    using terminate_xmins [of y x "[x]" Aborted False tm]
    by (auto simp: abort_in_progress_by_xid_def split: prod.splits sum.splits)
next
  case (finalise st family tm x)
  then show ?case
    using terminate_xmins [of y x family st True tm]
    by (auto simp: finalise_prepared_def split: prod.splits sum.splits)
qed (simp_all add: finalize_xmins abort_xmins commit_xmins)


text \<open>Along the life of a transaction its floor is the bound of its current snapshot.\<close>

definition floor_inv :: "transaction \<times> txn_manager \<Rightarrow> bool" where
  "floor_inv s \<longleftrightarrow> (case s of (txn, tm) \<Rightarrow>
     tm_inv tm \<and> map_of (tm_snapshot_xmins tm) (tx_xid txn) = Some (sn_xmin (tx_snapshot txn)))"

lemma run_fields:
  "tx_xid (fst (refresh_snapshot txn tm)) = tx_xid txn"
  "tx_xid (fst (snd (begin_savepoint txn name tm))) = tx_xid txn"
  "tx_xid (fst (snd (rollback_to_savepoint txn name tm))) = tx_xid txn"
  "tx_xid (snd (release_savepoint txn name)) = tx_xid txn"
  "sn_xmin (tx_snapshot (fst (snd (begin_savepoint txn name tm)))) = sn_xmin (tx_snapshot txn)"
  "sn_xmin (tx_snapshot (fst (snd (rollback_to_savepoint txn name tm)))) = sn_xmin (tx_snapshot txn)"
  "sn_xmin (tx_snapshot (snd (release_savepoint txn name))) = sn_xmin (tx_snapshot txn)"
  by (auto simp: refresh_snapshot_def begin_savepoint_def rollback_to_savepoint_def release_savepoint_def
      apply_own_subxids_def Let_def split: prod.splits sum.splits isolation_level.splits)

lemma floor_refresh:
  assumes "floor_inv (txn, tm)"
  shows "floor_inv (refresh_snapshot txn tm)"
proof -
  have "tm_inv (snd (refresh_snapshot txn tm))" using assms keeps_refresh [of tm txn] by (auto simp: floor_inv_def keeps_def)
  moreover have "map_of (tm_snapshot_xmins (snd (refresh_snapshot txn tm))) (tx_xid txn)
      = Some (sn_xmin (tx_snapshot (fst (refresh_snapshot txn tm))))"
    using assms by (cases "tx_isolation txn")
      (simp_all add: floor_inv_def refresh_snapshot_def apply_own_subxids_def Let_def update_conv')
  ultimately show ?thesis by (simp add: floor_inv_def case_prod_beta run_fields)
qed

lemma floor_step: "txn_run s s' \<Longrightarrow> floor_inv s \<Longrightarrow> floor_inv s'"
proof (induction rule: txn_run.induct)
  case (others x tm tm' txn)
  then show ?case
    using step_floor [OF others.hyps(1), of "tx_xid txn"] tm_step_by_keeps [OF others.hyps(1)]
    by (auto simp: floor_inv_def keeps_def)
next
  case (refresh txn tm)
  then show ?case by (rule floor_refresh)
next
  case (savepoint tm txn name)
  then show ?case using keeps_savepoint [OF savepoint.hyps, of txn name]
    by (auto simp: floor_inv_def case_prod_beta run_fields keeps_def)
next
  case (rollback tm txn name)
  then show ?case using keeps_rollback [OF rollback.hyps, of txn name]
    by (auto simp: floor_inv_def case_prod_beta run_fields keeps_def)
next
  case (release txn tm name)
  then show ?case by (simp add: floor_inv_def run_fields)
qed

lemma floor_life: "txn_life F s s' \<Longrightarrow> floor_inv s \<Longrightarrow> floor_inv s'"
proof (induction rule: txn_life.induct)
  case (own p q)
  then show ?case by (simp add: floor_step)
next
  case (others x tm tm' txn)
  have "map_of (tm_snapshot_xmins tm') (tx_xid txn) = map_of (tm_snapshot_xmins tm) (tx_xid txn)"
    using others(1)
  proof cases
    case (forced st family)
    then show ?thesis
      using others(2) terminate_xmins [of "tx_xid txn" x family st True tm]
      by (auto simp: finalise_prepared_def split: prod.splits sum.splits)
  qed (use others(2) step_floor in auto)
  moreover have "tm_inv tm'" using mgr_step_keeps(1) others(1,3) by (auto simp: floor_inv_def mgr_step_def)
  ultimately show ?case using others(3) by (simp add: floor_inv_def)
qed

lemma floor_begin:
  assumes "reachable_any tm0" "tm_next_xid tm0 \<noteq> - 1" "txn_begin level tm0 = (txn, tm)"
  shows "floor_inv (txn, tm)"
  using begin_fields(6) [OF assms(3)] keeps_begin [OF assms(2), of level] assms(3) reachable_any_inv [OF assms(1)]
  by (simp add: floor_inv_def update_conv' keeps_def)

lemma floor_run: "(txn_life F)\<^sup>*\<^sup>* s s' \<Longrightarrow> floor_inv s \<Longrightarrow> floor_inv s'"
  by (induction rule: rtranclp_induct) (auto intro: floor_life)

section \<open>Vacuum\<close>

lemma deleted_before:
  assumes "oracle_is_committed st (th_xmax h)" "\<not> xid_in_progress s (th_xmax h)" "foreign s (th_xmax h)"
    and "th_xmax h \<noteq> Xid_INVALID" "\<not> im_is_frozen (th_infomask h)" "\<not> im_contains (th_infomask h) UPDATED_IN_PLACE"
    and "own_rows_private h s"
  shows "\<not> row_present (is_visible h s st)"
  using assms
  by (auto simp: row_present_def is_visible_defs foreign_def own_rows_private_def committed_before_iff xid_is_invalid_def)

text \<open>
  C5. Vacuum never takes a row from a reader. When the deleter of a row is committed and lies
  below the vacuum horizon, the row is invisible to the snapshot of every transaction that is
  still running, whatever it and the others did since it began, and to every snapshot anyone
  takes from now on. Rows are those the horizon applies to: deleted, not updated in place, not
  frozen, and not stamped by the reader itself. The deleter keeps its status: no later resolution
  of a prepared transaction overrides it.
\<close>

theorem vacuum_horizon_safe:
  assumes "reachable_any tm0" "tm_next_xid tm0 \<noteq> - 1" "txn_begin level tm0 = (txn, tm)"
    and "(txn_life UNIV)\<^sup>*\<^sup>* (txn, tm) (txn', tm')"
    and "th_xmax h < vacuum_horizon tm'" "oracle_is_committed (status tm') (th_xmax h)" "th_xmax h \<noteq> Xid_INVALID"
    and "\<not> im_is_frozen (th_infomask h)" "\<not> im_contains (th_infomask h) UPDATED_IN_PLACE"
  shows "(foreign (tx_snapshot txn') (th_xmax h) \<and> own_rows_private h (tx_snapshot txn')
            \<longrightarrow> \<not> row_present (is_visible h (tx_snapshot txn') (status tm')))
       \<and> (\<forall>F tm'' cur cmd own. (mgr_step F)\<^sup>*\<^sup>* tm' tm'' \<and> th_xmax h \<notin> F
            \<and> foreign (build_snapshot cur cmd own tm'') (th_xmax h)
            \<and> own_rows_private h (build_snapshot cur cmd own tm'')
            \<longrightarrow> \<not> row_present (is_visible h (build_snapshot cur cmd own tm'') (status tm'')))"
proof (intro conjI impI allI; (elim conjE)?)
  have f: "floor_inv (txn', tm')" by (rule floor_run [OF assms(4) floor_begin [OF assms(1-3)]])
  then have inv: "tm_inv tm'" and fl: "map_of (tm_snapshot_xmins tm') (tx_xid txn') = Some (sn_xmin (tx_snapshot txn'))"
    by (simp_all add: floor_inv_def)
  {
    assume "foreign (tx_snapshot txn') (th_xmax h)" "own_rows_private h (tx_snapshot txn')"
    moreover have "\<not> xid_in_progress (tx_snapshot txn') (th_xmax h)"
      using vacuum_horizon_le(2) [OF fl] assms(5) by (auto simp: xid_in_progress_def)
    ultimately show "\<not> row_present (is_visible h (tx_snapshot txn') (status tm'))"
      using assms(6-9) by (intro deleted_before)
  }
  fix F tm'' cur cmd own
  let ?s = "build_snapshot cur cmd own tm''"
  assume run: "(mgr_step F)\<^sup>*\<^sup>* tm' tm''" and out: "th_xmax h \<notin> F" and fo: "foreign ?s (th_xmax h)" "own_rows_private h ?s"
  have o: "th_xmax h < oldest_in_progress tm'" using assms(5) vacuum_horizon_le(1) [of tm'] by simp
  then have "settled_outside F tm' (th_xmax h)"
    using oldest_in_progress_le [OF inv] out by (force simp: settled_outside_def settled_def)
  then have s: "tm_inv tm''" "settled tm'' (th_xmax h)" "status tm'' (th_xmax h) = status tm' (th_xmax h)"
    using mgr_any.run_settled [OF run inv] by (auto simp: settled_outside_def)
  then have "\<not> xid_in_progress ?s (th_xmax h)"
    using build_snapshot_in_progress(1) [of tm''] by (auto simp: tm_inv_def settled_def)
  then show "\<not> row_present (is_visible h ?s (status tm''))"
    using assms(6-9) fo s(3) by (intro deleted_before) (simp_all add: oracle_is_committed_def)
qed

text \<open>Example: the writer (3) deletes a row and commits, then a repeatable reader (4) begins.\<close>

definition ex_deleted :: txn_manager where
  "ex_deleted = snd (txn_commit ex_writer ex_tm0)"

definition ex_dead_row :: tuple_header where
  "ex_dead_row = mark_deleted 3 0 (fresh Xid_BOOTSTRAP 0 (TupleId (PageId 1 0) 0) 1)"

lemma ex_deleted_eq: "ex_deleted = \<lparr>tm_next_xid = 4, tm_clog = [(3, Committed)], tm_in_progress = {},
    tm_snapshot_xmins = [], tm_subxid_parent = [], tm_ssi = None, tm_lock_manager = lock_manager_new,
    tm_xact_commit = 1, tm_xact_rollback = 0\<rparr>"
  by (simp add: ex_deleted_def ex_eqs txn_commit_def commit_check_serializable_def commit_finalize_visible_def
     terminate_with_subxids_def count_termination_def merged_up_family_def committed_subxid_family_def
     merged_up_subxids_def live_stack_subxids_def subtxn_new_def forget_subxid_parents_def release_txn_locks_def
     release_all_def sweep_def affected_tags_def lock_manager_new_def Let_def)

lemma ex_late_eq: "txn_begin RepeatableRead ex_deleted =
    (\<lparr>tx_xid = 4, tx_snapshot = snapshot_new 5 5 4 0 [], tx_isolation = RepeatableRead,
     tx_read_only = False, tx_start_lsn = 0, tx_current_command = 0, tx_subtxn_stack = subtxn_new 4\<rparr>,
     ex_deleted\<lparr>tm_next_xid := 5, tm_clog := [(3, Committed), (4, InProgress)], tm_in_progress := {4},
       tm_snapshot_xmins := [(4, 5)]\<rparr>)"
  by (simp add: ex_deleted_eq txn_begin_def alloc_xid_def Let_def build_snapshot_def own_empty_def own_is_empty_def
      Lsn_ZERO_def CommandId_FIRST_def)

theorem vacuum_horizon_safe_witness:
  "let (txn, tm) = txn_begin RepeatableRead ex_deleted in
     th_xmax ex_dead_row < vacuum_horizon tm
     \<and> \<not> row_present (is_visible ex_dead_row (tx_snapshot txn) (status tm))"
proof -
  have r: "reachable ex_deleted"
    unfolding ex_deleted_def using reachable_run [OF ex_reachable0] tm_step_intros(6) by blast
  have n: "tm_next_xid ex_deleted \<noteq> - 1" by (simp add: ex_deleted_eq)
  obtain txn tm where b: "txn_begin RepeatableRead ex_deleted = (txn, tm)" by fastforce
  note eq = b [unfolded ex_late_eq prod.inject]
  have row: "th_xmin ex_dead_row = 1" "th_xmax ex_dead_row = 3" "th_infomask ex_dead_row = 0"
    by (simp_all add: ex_dead_row_def mark_deleted_def fresh_def im_contains_def UPDATED_IN_PLACE_def)
  have bits: "\<not> im_is_frozen 0" "\<not> im_contains 0 UPDATED_IN_PLACE" by code_simp+
  have h: "th_xmax ex_dead_row < vacuum_horizon tm"
    unfolding eq [THEN conjunct2, symmetric] row
    by (simp add: ex_deleted_eq vacuum_horizon_def oldest_in_progress_def min_step_def Let_def)
  have c: "oracle_is_committed (status tm) (th_xmax ex_dead_row)"
    unfolding eq [THEN conjunct2, symmetric] row
    by (simp add: ex_deleted_eq oracle_is_committed_def status_def clog_status_def)
  have f: "foreign (tx_snapshot txn) (th_xmax ex_dead_row)" "own_rows_private ex_dead_row (tx_snapshot txn)"
    unfolding eq [THEN conjunct1, symmetric]
    by (simp_all add: foreign_def own_rows_private_def row snapshot_eval)
  have "\<not> row_present (is_visible ex_dead_row (tx_snapshot txn) (status tm))"
    using vacuum_horizon_safe [OF reachable_reachable_any [OF r] n b rtranclp.rtrancl_refl h c] f bits by (simp add: row)
  with b h show ?thesis by simp
qed

section \<open>Retiring conflict entries\<close>

text \<open>
  What everyone may do to the conflict tracker once \<open>x\<close> has passed its commit check: anything
  but check or abort \<open>x\<close> again. The entry of \<open>x\<close> gains edges, keeps its horizon, and may go.
\<close>

inductive conflict_step :: "xid \<Rightarrow> ssi_manager \<Rightarrow> ssi_manager \<Rightarrow> bool" for x where
  reg: "conflict_step x s (register_xid y s)"
| lock: "conflict_step x s (add_predicate_lock y tag s)"
| conflict: "conflict_step x s (record_rw_conflict r w s)"
| writes: "conflict_step x s (snd (record_write_conflicts w tag s))"
| commit: "y \<noteq> x \<Longrightarrow> conflict_step x s (snd (ssi_commit y h s))"
| abort: "y \<noteq> x \<Longrightarrow> conflict_step x s (ssi_abort y s)"
| gc: "conflict_step x s (snd (collect_garbage h s))"

definition horizon_at :: "xid \<Rightarrow> xid \<Rightarrow> ssi_manager \<Rightarrow> bool" where
  "horizon_at x h s \<longleftrightarrow> (\<forall>e. map_of s x = Some e \<longrightarrow> si_committed e \<longrightarrow> si_commit_horizon e = Some h)"

lemma horizon_modify:
  assumes "horizon_at x h s" "\<And>e. si_committed (f e) = si_committed e \<and> si_commit_horizon (f e) = si_commit_horizon e"
  shows "horizon_at x h (modify y f s)"
  using assms by (auto simp: horizon_at_def modify_lookup)

lemma horizon_conflict: "horizon_at x h s \<Longrightarrow> horizon_at x h (record_rw_conflict r w s)"
  unfolding record_rw_conflict_def Let_def by (intro horizon_modify) auto

lemma horizon_conflicts: "horizon_at x h s \<Longrightarrow> horizon_at x h (fold (\<lambda>r. record_rw_conflict r w) rs s)"
  by (induction rs arbitrary: s) (auto intro: horizon_conflict)

lemma conflict_step_ssi: "conflict_step x s s' \<Longrightarrow> ssi_step s s'"
  by (induction rule: conflict_step.induct) (rule ssi_step.intros)+

lemma conflict_step_horizon:
  assumes "conflict_step x s s'" "distinct (map fst s)" "horizon_at x h s"
  shows "horizon_at x h s'"
  using assms
proof cases
  case (lock y tag)
  then show ?thesis using assms(3) unfolding add_predicate_lock_def by (auto intro: horizon_modify)
next
  case (writes w tag)
  then show ?thesis using assms(3) by (simp add: record_write_conflicts_def Let_def horizon_conflicts)
next
  case (conflict r w)
  then show ?thesis using assms(3) by (simp add: horizon_conflict)
next
  case (gc g)
  then show ?thesis using assms(2,3) by (auto simp: horizon_at_def collect_garbage_lookup split: option.splits if_splits)
qed (use assms(3) in \<open>auto simp: horizon_at_def register_xid_def ssi_state_new_def update_conv'
      ssi_commit_def Let_def modify_lookup ssi_abort_def delete_conv' split: option.splits\<close>)

lemma conflict_run_horizon:
  assumes "(conflict_step x)\<^sup>*\<^sup>* s s'" "distinct (map fst s)" "horizon_at x h s"
  shows "horizon_at x h s' \<and> distinct (map fst s')"
  using assms
  by (induction rule: rtranclp_induct) (auto dest: conflict_step_horizon distinct_keys_step [OF conflict_step_ssi])

text \<open>
  C22. The conflict tracker forgets nothing that was running at the commit check. A collection
  at the oldest running transaction drops an entry only when its transaction has passed its
  commit check and everyone who was running at that check has ended, whatever conflicts and
  locks were recorded and whoever else committed or aborted in between. Every other entry is
  kept as it is, and the reported number is the number of entries dropped. The bound is the
  check, not the moment the commit becomes visible: see \<open>gc_forgets_concurrent\<close> below.
\<close>

theorem conflict_gc_safe:
  assumes "reachable_any tmc" "tx_isolation txn = Serializable"
    and "commit_check_serializable txn tmc = (Inr fs, tm1)" "tm_ssi tm1 = Some s1" "distinct (map fst s1)"
    and "reachable_any tm" "tm_ssi tm = Some s" "(conflict_step (tx_xid txn))\<^sup>*\<^sup>* s1 s"
    and "collect_ssi_garbage (oldest_in_progress tm) tm = (n, tm')" "tm_ssi tm' = Some s'"
  shows "(tracked s (tx_xid txn) \<longrightarrow> \<not> tracked s' (tx_xid txn) \<longrightarrow> (\<forall>y \<in> tm_in_progress tmc. y \<notin> tm_in_progress tm))
     \<and> (\<forall>y. map_of s' y = map_of s y \<or> (\<not> tracked s' y \<and> leg_committed s y))
     \<and> tracked_len s = tracked_len s' + n"
proof -
  let ?x = "tx_xid txn"
  have s': "s' = filter (\<lambda>(x, e). \<not> retire (oldest_in_progress tm) e) s"
    and n: "n = length (filter (\<lambda>(x, e). retire (oldest_in_progress tm) e) s)"
    using assms(7,9,10) by (auto simp: collect_ssi_garbage_def collect_garbage_def)
  obtain s0 where s0: "tm_ssi tmc = Some s0" "snd (ssi_commit ?x (tm_next_xid tmc) s0) = s1"
    using assms(2-4) by (auto simp: commit_check_serializable_def Let_def split: option.splits prod.splits sum.splits ssi_error.splits)
  have "horizon_at ?x (tm_next_xid tmc) s1"
    using s0(2) by (auto simp: horizon_at_def ssi_commit_def Let_def modify_lookup)
  then have hz: "horizon_at ?x (tm_next_xid tmc) s" "distinct (map fst s)"
    using conflict_run_horizon [OF assms(8,5)] by auto
  have lk: "map_of s' y = (case map_of s y of Some e \<Rightarrow> if retire (oldest_in_progress tm) e then None else Some e | None \<Rightarrow> None)" for y
    unfolding s' using collect_garbage_lookup [OF hz(2), of "oldest_in_progress tm" y]
    by (simp add: collect_garbage_def split: option.splits)
  have "y \<notin> tm_in_progress tm" if "tracked s ?x" "\<not> tracked s' ?x" "y \<in> tm_in_progress tmc" for y
  proof
    assume y: "y \<in> tm_in_progress tm"
    have "tm_next_xid tmc \<le> oldest_in_progress tm"
      using that(1,2) lk [of ?x] hz(1)
      by (auto simp: tracked_def retire_def horizon_at_def split: if_splits option.splits)
    also have "\<dots> \<le> y" using oldest_in_progress_le(2) [OF reachable_any_inv [OF assms(6)] y] .
    also have "y < tm_next_xid tmc" using reachable_any_inv [OF assms(1)] that(3) by (auto simp: tm_inv_def)
    finally show False by simp
  qed
  moreover have "map_of s' y = map_of s y \<or> (\<not> tracked s' y \<and> leg_committed s y)" for y
    using lk [of y] by (auto simp: tracked_def leg_committed_def retire_def split: option.splits if_splits)
  moreover have "tracked_len s = tracked_len s' + n"
    unfolding tracked_len_def s' n using sum_length_filter_compl [of "\<lambda>p. retire (oldest_in_progress tm) (snd p)" s]
    by (simp add: case_prod_beta')
  ultimately show ?thesis by blast
qed

text \<open>Example: a serializable transaction (3) alone in the system commits and is retired.\<close>

definition ex_ssi_begin :: "transaction \<times> txn_manager" where
  "ex_ssi_begin = txn_begin Serializable (new_with_ssi [])"

definition ex_ssi_entry :: ssi_state where
  "ex_ssi_entry = ssi_state_new\<lparr>si_committed := True, si_commit_horizon := Some 4\<rparr>"

lemma ex_ssi_begin_eq:
  "tx_xid (fst ex_ssi_begin) = 3" "tx_isolation (fst ex_ssi_begin) = Serializable"
  "tx_subtxn_stack (fst ex_ssi_begin) = subtxn_new 3"
  "snd ex_ssi_begin = \<lparr>tm_next_xid = 4, tm_clog = [(3, InProgress)], tm_in_progress = {3},
    tm_snapshot_xmins = [(3, 4)], tm_subxid_parent = [], tm_ssi = Some [(3, ssi_state_new)],
    tm_lock_manager = lock_manager_new, tm_xact_commit = 0, tm_xact_rollback = 0\<rparr>"
  by (simp_all add: ex_ssi_begin_def new_with_ssi_def txn_manager_with_def txn_begin_def alloc_xid_def Let_def
    build_snapshot_def own_empty_def own_is_empty_def register_serializable_def register_xid_def)

lemma ex_ssi_check: "commit_check_serializable (fst ex_ssi_begin) (snd ex_ssi_begin) =
    (Inr [], (snd ex_ssi_begin)\<lparr>tm_ssi := Some [(3, ex_ssi_entry)]\<rparr>)"
  by (simp add: commit_check_serializable_def ex_ssi_begin_eq merged_up_family_def committed_subxid_family_def
      merged_up_subxids_def live_stack_subxids_def subtxn_new_def ssi_commit_def modify_def ex_ssi_entry_def
      check_for_dangerous_structure_def ssi_state_new_def Let_def)

definition ex_ssi_done :: txn_manager where
  "ex_ssi_done = snd (txn_commit (fst ex_ssi_begin) (snd ex_ssi_begin))"

lemma ex_ssi_done_eq: "ex_ssi_done = \<lparr>tm_next_xid = 4, tm_clog = [(3, Committed)], tm_in_progress = {},
    tm_snapshot_xmins = [], tm_subxid_parent = [], tm_ssi = Some [(3, ex_ssi_entry)],
    tm_lock_manager = lock_manager_new, tm_xact_commit = 1, tm_xact_rollback = 0\<rparr>"
  unfolding ex_ssi_done_def txn_commit_def ex_ssi_check
  by (simp add: commit_finalize_visible_def ex_ssi_begin_eq
     terminate_with_subxids_def count_termination_def forget_subxid_parents_def release_txn_locks_def
     release_all_def sweep_def affected_tags_def lock_manager_new_def Let_def)

theorem conflict_gc_safe_witness:
  "collect_ssi_garbage (oldest_in_progress ex_ssi_done) ex_ssi_done = (1, ex_ssi_done\<lparr>tm_ssi := Some []\<rparr>)
   \<and> tm_in_progress (snd ex_ssi_begin) = {3} \<and> 3 \<notin> tm_in_progress ex_ssi_done"
proof -
  have b: "booted (new_with_ssi [])" unfolding new_with_ssi_def by (rule booted.new)
  have "tm_next_xid (new_with_ssi []) \<noteq> - 1" by code_simp
  then have r0: "reachable (snd ex_ssi_begin)"
    using b tm_step_intros(1) [of "new_with_ssi []" Serializable] unfolding reachable_def ex_ssi_begin_def by blast
  have r1: "reachable ex_ssi_done"
    unfolding ex_ssi_done_def using reachable_run [OF r0] tm_step_intros(6) by blast
  have g: "collect_ssi_garbage (oldest_in_progress ex_ssi_done) ex_ssi_done = (1, ex_ssi_done\<lparr>tm_ssi := Some []\<rparr>)"
    by (simp add: ex_ssi_done_eq collect_ssi_garbage_def collect_garbage_def retire_def ex_ssi_entry_def
        oldest_in_progress_def)
  have h: "tm_ssi ((snd ex_ssi_begin)\<lparr>tm_ssi := Some [(3, ex_ssi_entry)]\<rparr>) = Some [(3, ex_ssi_entry)]"
    "tracked [(3, ex_ssi_entry)] (tx_xid (fst ex_ssi_begin))" "tm_ssi ex_ssi_done = Some [(3, ex_ssi_entry)]"
    "distinct (map fst [(3 :: xid, ex_ssi_entry)])" "tm_ssi (ex_ssi_done\<lparr>tm_ssi := Some []\<rparr>) = Some []"
    by (simp_all add: tracked_def ex_ssi_begin_eq ex_ssi_done_eq)
  have "\<forall>y \<in> tm_in_progress (snd ex_ssi_begin). y \<notin> tm_in_progress ex_ssi_done"
    using conflict_gc_safe [OF reachable_reachable_any [OF r0] ex_ssi_begin_eq(2) ex_ssi_check h(1,4) reachable_reachable_any [OF r1] h(3) rtranclp.rtrancl_refl g h(5)] h(2)
    by (simp add: tracked_def)
  with g show ?thesis by (simp add: ex_ssi_begin_eq)
qed

text \<open>
  A transaction that begins between the commit check of another and the moment that commit
  becomes visible is concurrent with it, and is not covered. Transaction 3 passes its check
  with the horizon 4; a serializable transaction then begins as 4 and its snapshot counts 3 as
  running; 3 becomes visible. The oldest running transaction is now 4, so the collection drops
  the entry of 3 while 4 is still running.
\<close>

definition ex_ssi_late :: "transaction \<times> txn_manager" where
  "ex_ssi_late = txn_begin Serializable (snd (commit_check_serializable (fst ex_ssi_begin) (snd ex_ssi_begin)))"

definition ex_ssi_window :: txn_manager where
  "ex_ssi_window = snd (commit_finalize_visible (fst ex_ssi_begin) [] (snd ex_ssi_late))"

lemma ex_ssi_late_eq:
  "tx_xid (fst ex_ssi_late) = 4" "sn_xip (tx_snapshot (fst ex_ssi_late)) = [3]"
  "snd ex_ssi_late = \<lparr>tm_next_xid = 5, tm_clog = [(3, InProgress), (4, InProgress)], tm_in_progress = {3, 4},
    tm_snapshot_xmins = [(3, 4), (4, 3)], tm_subxid_parent = [], tm_ssi = Some [(3, ex_ssi_entry), (4, ssi_state_new)],
    tm_lock_manager = lock_manager_new, tm_xact_commit = 0, tm_xact_rollback = 0\<rparr>"
  unfolding ex_ssi_late_def ex_ssi_check
  by (simp_all add: ex_ssi_begin_eq txn_begin_def alloc_xid_def Let_def build_snapshot_def
    own_empty_def own_is_empty_def register_serializable_def register_xid_def snapshot_new_def min_step_def insert_commute)

lemma gc_forgets_concurrent:
  "3 \<in> set (sn_xip (tx_snapshot (fst ex_ssi_late)))" "status ex_ssi_window 3 = Committed"
  "4 \<in> tm_in_progress ex_ssi_window" "tm_ssi ex_ssi_window = Some [(3, ex_ssi_entry), (4, ssi_state_new)]"
  "tm_ssi (snd (collect_ssi_garbage (oldest_in_progress ex_ssi_window) ex_ssi_window)) = Some [(4, ssi_state_new)]"
proof -
  have w: "ex_ssi_window = \<lparr>tm_next_xid = 5, tm_clog = [(3, Committed), (4, InProgress)], tm_in_progress = {4},
    tm_snapshot_xmins = [(4, 3)], tm_subxid_parent = [], tm_ssi = Some [(3, ex_ssi_entry), (4, ssi_state_new)],
    tm_lock_manager = lock_manager_new, tm_xact_commit = 1, tm_xact_rollback = 0\<rparr>"
    by (simp add: ex_ssi_window_def ex_ssi_late_eq commit_finalize_visible_def ex_ssi_begin_eq
      terminate_with_subxids_def count_termination_def forget_subxid_parents_def release_txn_locks_def
      release_all_def sweep_def affected_tags_def lock_manager_new_def Let_def)
  show "3 \<in> set (sn_xip (tx_snapshot (fst ex_ssi_late)))" by (simp add: ex_ssi_late_eq)
  show "status ex_ssi_window 3 = Committed" "4 \<in> tm_in_progress ex_ssi_window"
    "tm_ssi ex_ssi_window = Some [(3, ex_ssi_entry), (4, ssi_state_new)]"
    by (simp_all add: w status_def clog_status_def)
  show "tm_ssi (snd (collect_ssi_garbage (oldest_in_progress ex_ssi_window) ex_ssi_window)) = Some [(4, ssi_state_new)]"
    by (simp add: w collect_ssi_garbage_def collect_garbage_def retire_def ex_ssi_entry_def ssi_state_new_def
        oldest_in_progress_def min_step_def)
qed

end
