(* ===== verification/Txn_Race.thy ===== *)
theory Txn_Race
  imports Txn_Vacuum
begin

text \<open>
  The methods of \<^verbatim>\<open>manager.rs\<close> at the granularity of their atomic sections. \<^verbatim>\<open>begin\<close> takes its
  identifier with one atomic increment, publishes it in the commit log, then in the mirror, then
  samples the counter, then walks the mirror under its lock, and only then records its vacuum
  floor. Run back to back the sections are the operations of \<open>Txn_Manager\<close>; two interleavings
  show that the guarantees of \<open>Txn_Properties\<close> and \<open>Txn_Vacuum\<close> hold between whole operations
  only.
\<close>

section \<open>Atomic sections\<close>

definition fetch_xid :: "txn_manager \<Rightarrow> xid \<times> txn_manager" where
  "fetch_xid tm = (tm_next_xid tm, tm\<lparr>tm_next_xid := tm_next_xid tm + 1\<rparr>)"

definition publish_clog :: "xid \<Rightarrow> txn_manager \<Rightarrow> txn_manager" where
  "publish_clog x tm = tm\<lparr>tm_clog := AList.update x InProgress (tm_clog tm)\<rparr>"

definition publish_active :: "xid \<Rightarrow> txn_manager \<Rightarrow> txn_manager" where
  "publish_active x tm = tm\<lparr>tm_in_progress := insert x (tm_in_progress tm)\<rparr>"

definition sample_xmax :: "txn_manager \<Rightarrow> xid" where
  "sample_xmax tm = tm_next_xid tm"

definition walk_active :: "xid \<Rightarrow> xid \<Rightarrow> command_id \<Rightarrow> own_subxids \<Rightarrow> txn_manager \<Rightarrow> snapshot" where
  "walk_active xmax cur current_command own tm =
     (let xip = filter (\<lambda>x. x \<noteq> cur \<and> x \<notin> set (ow_live own) \<and> \<not> xmax \<le> x)
                  (sorted_list_of_set (tm_in_progress tm));
          xmin = (case foldl min_step None xip of None \<Rightarrow> xmax | Some m \<Rightarrow> m);
          s = snapshot_new xmin xmax cur current_command xip
      in if own_is_empty own then s else set_own_subxids (ow_live own) (ow_rolled_back own) s)"

definition record_floor :: "xid \<Rightarrow> snapshot \<Rightarrow> txn_manager \<Rightarrow> txn_manager" where
  "record_floor x s tm = tm\<lparr>tm_snapshot_xmins := AList.update x (sn_xmin s) (tm_snapshot_xmins tm)\<rparr>"

lemma alloc_sections:
  "alloc_xid tm = (let (x, tm) = fetch_xid tm in (x, publish_active x (publish_clog x tm)))"
  by (simp add: alloc_xid_def fetch_xid_def publish_clog_def publish_active_def Let_def)

lemma snapshot_sections: "build_snapshot cur cmd own tm = walk_active (sample_xmax tm) cur cmd own tm"
  by (simp add: build_snapshot_def walk_active_def sample_xmax_def Let_def)

section \<open>A snapshot between increment and publication\<close>

text \<open>
  A writer increments the counter (3) and is descheduled; a repeatable reader (4) begins as a
  whole; the writer publishes itself, stamps a row and commits.
\<close>

definition race_reader :: "transaction \<times> txn_manager" where
  "race_reader = txn_begin RepeatableRead (snd (fetch_xid txn_manager_new))"

definition race_published :: txn_manager where
  "race_published = publish_active 3 (publish_clog 3 (snd race_reader))"

definition race_committed :: txn_manager where
  "race_committed = snd (commit_finalize_visible ex_writer [] race_published)"

lemma race_reader_eq:
  "tx_snapshot (fst race_reader) = snapshot_new 5 5 4 0 []" "fst (fetch_xid txn_manager_new) = 3"
  "race_published = \<lparr>tm_next_xid = 5, tm_clog = [(4, InProgress), (3, InProgress)], tm_in_progress = {3, 4},
    tm_snapshot_xmins = [(4, 5)], tm_subxid_parent = [], tm_ssi = None, tm_lock_manager = lock_manager_new,
    tm_xact_commit = 0, tm_xact_rollback = 0\<rparr>"
  by (simp_all add: race_reader_def race_published_def publish_active_def publish_clog_def fetch_xid_def
      txn_manager_new_def txn_manager_with_def txn_begin_def alloc_xid_def Let_def build_snapshot_def
      own_empty_def own_is_empty_def CommandId_FIRST_def)

lemma race_committed_eq:
  "race_committed = \<lparr>tm_next_xid = 5, tm_clog = [(4, InProgress), (3, Committed)], tm_in_progress = {4},
    tm_snapshot_xmins = [(4, 5)], tm_subxid_parent = [], tm_ssi = None, tm_lock_manager = lock_manager_new,
    tm_xact_commit = 1, tm_xact_rollback = 0\<rparr>"
  by (simp add: race_committed_def race_reader_eq ex_writer_xid commit_finalize_visible_def
     terminate_with_subxids_def count_termination_def forget_subxid_parents_def release_txn_locks_def
     release_all_def sweep_def affected_tags_def lock_manager_new_def Let_def)

text \<open>
  The reader's frozen snapshot does not list the writer, so the writer's row is invisible before
  the commit and visible after it: the read is not repeatable.
\<close>

lemma snapshot_race_not_repeatable:
  "is_visible ex_row (tx_snapshot (fst race_reader)) (status race_published) = Invisible
   \<and> is_visible ex_row (tx_snapshot (fst race_reader)) (status race_committed) = Visible"
  unfolding race_reader_eq race_committed_eq
  by (simp add: ex_row_def fresh_def is_visible_defs snapshot_eval committed_before_iff oracle_is_committed_def
      xid_is_invalid_def status_def clog_status_def im_is_frozen_def im_contains_def FROZEN_def
      UPDATED_IN_PLACE_def INPLACE_HISTORY_def)

section \<open>A vacuum between snapshot and floor\<close>

text \<open>
  The deleter (3) is running; a reader (4) has its snapshot but not yet its floor; the deleter
  commits; vacuum asks for the horizon.
\<close>

definition floor_reader :: "snapshot \<times> txn_manager" where
  "floor_reader = (let (x, tm) = alloc_xid ex_tm0 in (build_snapshot x CommandId_FIRST own_empty tm, tm))"

definition floor_committed :: txn_manager where
  "floor_committed = snd (commit_finalize_visible ex_writer [] (snd floor_reader))"

lemma floor_reader_eq: "fst floor_reader = snapshot_new 3 5 4 0 [3]"
  by (simp add: floor_reader_def ex_tm0_eq alloc_xid_def Let_def build_snapshot_def own_empty_def own_is_empty_def
      min_step_def CommandId_FIRST_def)

lemma floor_committed_eq:
  "floor_committed = \<lparr>tm_next_xid = 5, tm_clog = [(3, Committed), (4, InProgress)], tm_in_progress = {4},
    tm_snapshot_xmins = [], tm_subxid_parent = [], tm_ssi = None, tm_lock_manager = lock_manager_new,
    tm_xact_commit = 1, tm_xact_rollback = 0\<rparr>"
  by (simp add: floor_committed_def floor_reader_def ex_tm0_eq alloc_xid_def ex_writer_xid commit_finalize_visible_def
     terminate_with_subxids_def count_termination_def forget_subxid_parents_def release_txn_locks_def
     release_all_def sweep_def affected_tags_def lock_manager_new_def Let_def insert_Diff_if)

text \<open>The deleter lies below the horizon although the reader's snapshot still sees the row.\<close>

lemma floor_race_vacuums_visible_row:
  "th_xmax ex_dead_row < vacuum_horizon floor_committed
   \<and> oracle_is_committed (status floor_committed) (th_xmax ex_dead_row)
   \<and> is_visible ex_dead_row (fst floor_reader) (status floor_committed) = Visible"
  unfolding floor_reader_eq floor_committed_eq
  by (simp add: ex_dead_row_def mark_deleted_def fresh_def is_visible_defs snapshot_eval committed_before_iff
      oracle_is_committed_def xid_is_invalid_def status_def clog_status_def im_is_frozen_def im_contains_def FROZEN_def
      UPDATED_IN_PLACE_def INPLACE_HISTORY_def vacuum_horizon_def oldest_in_progress_def min_step_def Let_def
      word_le_nat_alt)

end
