(* ===== verification/Lock_Race.thy ===== *)
theory Lock_Race
  imports Lock_Table
begin

text \<open>
  The lock table below its critical sections, \<^verbatim>\<open>crates/ultrasql-txn/src/lock.rs\<close>. The table maps
  a tag to a shared entry object, so the model has a store: tags point to addresses, addresses
  to entries. An acquire takes the shard lock to fetch or create the entry, drops it, and only
  then locks the entry itself; \<^verbatim>\<open>prune_entry_if_empty\<close> tests and removes under the shard lock.
  Steps of different threads interleave between those sections.
\<close>

record race_table =
  rt_index :: "(lock_tag \<times> nat) list"
  rt_store :: "(nat \<times> lock_entry) list"
  rt_next :: nat

definition race_table_new :: race_table where
  "race_table_new = \<lparr>rt_index = [], rt_store = [], rt_next = 0\<rparr>"

text \<open>\<^verbatim>\<open>table.entry(tag).or_insert_with(LockEntry::new).clone()\<close>.\<close>

definition fetch_entry :: "lock_tag \<Rightarrow> race_table \<Rightarrow> nat \<times> race_table" where
  "fetch_entry tag t =
     (case map_of (rt_index t) tag of
        Some a \<Rightarrow> (a, t)
      | None \<Rightarrow>
          (rt_next t, t\<lparr>rt_index := AList.update tag (rt_next t) (rt_index t),
                        rt_store := AList.update (rt_next t) lock_entry_new (rt_store t),
                        rt_next := Suc (rt_next t)\<rparr>))"

definition entry_at :: "nat \<Rightarrow> race_table \<Rightarrow> lock_entry" where
  "entry_at a t = (case map_of (rt_store t) a of Some e \<Rightarrow> e | None \<Rightarrow> lock_entry_new)"

definition write_entry :: "nat \<Rightarrow> lock_entry \<Rightarrow> race_table \<Rightarrow> race_table" where
  "write_entry a e t = t\<lparr>rt_store := AList.update a e (rt_store t)\<rparr>"

text \<open>The section of an acquire that runs under the entry mutex, on the fetched object.\<close>

definition grant_section :: "lock_request \<Rightarrow> xid \<Rightarrow> nat \<Rightarrow> race_table \<Rightarrow> bool \<times> race_table" where
  "grant_section req owner a t =
     (let e = entry_at a t in
      if \<not> has_conflict (le_grants e) (lq_xid req) (lq_mode req)
      then (True, write_entry a (add_grant req owner e) t)
      else (False, write_entry a (e\<lparr>le_waiters := le_waiters e @ [(lq_xid req, lq_mode req)]\<rparr>) t))"

definition release_section :: "xid \<Rightarrow> lock_tag \<Rightarrow> lock_mode \<Rightarrow> race_table \<Rightarrow> race_table" where
  "release_section x tag mode t =
     (case map_of (rt_index t) tag of
        None \<Rightarrow> t
      | Some a \<Rightarrow>
          let e = entry_at a t in
          write_entry a (e\<lparr>le_grants := remove_first (\<lambda>g. gr_xid g = x \<and> gr_mode g = mode) (le_grants e)\<rparr>) t)"

definition prune_section :: "lock_tag \<Rightarrow> race_table \<Rightarrow> race_table" where
  "prune_section tag t =
     (case map_of (rt_index t) tag of
        Some a \<Rightarrow>
          if le_grants (entry_at a t) = [] \<and> le_waiters (entry_at a t) = []
          then t\<lparr>rt_index := AList.delete tag (rt_index t)\<rparr> else t
      | None \<Rightarrow> t)"

section \<open>A run with two exclusive holders\<close>

text \<open>
  Transaction 10 fetches the entry of a row and is descheduled before it locks the entry.
  Transaction 11 locks and unlocks the same row; its release finds the entry empty and removes
  it from the table. Transaction 10 resumes on the object it holds and is granted; transaction
  12 finds no entry, creates one and is granted too.
\<close>

definition race_run :: "bool \<times> bool \<times> bool \<times> race_table" where
  "race_run =
     (let tag = LockTuple (TupleId (PageId 1 0) 0);
          rq = \<lambda>x. \<lparr>lq_xid = x, lq_tag = tag, lq_mode = Exclusive\<rparr>;
          (a10, t) = fetch_entry tag race_table_new;
          (a11, t) = fetch_entry tag t;
          (g11, t) = grant_section (rq 11) 11 a11 t;
          t = release_section 11 tag Exclusive t;
          t = prune_section tag t;
          (g10, t) = grant_section (rq 10) 10 a10 t;
          (a12, t) = fetch_entry tag t;
          (g12, t) = grant_section (rq 12) 12 a12 t
      in (g10, g11, g12, t))"

lemma prune_race_two_holders:
  "case race_run of (g10, g11, g12, t) \<Rightarrow>
     g10 \<and> g11 \<and> g12 \<and> conflicts_with Exclusive Exclusive
     \<and> map (\<lambda>g. (gr_xid g, gr_mode g)) (le_grants (entry_at 0 t)) = [(10, Exclusive)]
     \<and> map (\<lambda>g. (gr_xid g, gr_mode g)) (le_grants (entry_at 1 t)) = [(12, Exclusive)]
     \<and> map_of (rt_index t) (LockTuple (TupleId (PageId 1 0) 0)) = Some 1"
  by code_simp

end
