(* ===== verification/Page.thy ===== *)
theory Page
  imports Core_Ids "HOL-Library.Monad_Syntax"
begin

text \<open>
  The 8 KiB slotted page, \<^verbatim>\<open>crates/ultrasql-storage/src/page.rs\<close> and \<^verbatim>\<open>checksum.rs\<close>, at byte
  level: the 24-byte header codec, the packed 4-byte slot pointers, insertion (with slot reuse,
  appended, and at a recovered slot), reading, deletion, compaction and the checksum. A page is
  its byte list; \<open>None\<close> is a panic, \<open>Inl\<close> an error, and an operation returns the page it leaves
  behind with its result. The hash \<^verbatim>\<open>xxh3_64\<close> of a third-party crate is a parameter.
\<close>

section \<open>Errors, kinds and slot pointers\<close>

definition PAGE_HEADER_SIZE :: nat where "PAGE_HEADER_SIZE = 24"
definition ITEMID_SIZE :: nat where "ITEMID_SIZE = 4"
definition PAGE_VERSION_CURRENT :: u8 where "PAGE_VERSION_CURRENT = 1"

datatype page_error =
  Malformed string
| ChecksumMismatch u32 u32
| NoSpace nat nat
| InvalidSlot u16 u16
| DeadSlot u16
| SlotOccupied u16
| UnsupportedVersion u8

datatype page_kind = Heap | BTreeIndex | FreeSpaceMap | VisibilityMap | Meta

definition page_kind_from_u16 :: "u16 \<Rightarrow> page_kind option" where
  "page_kind_from_u16 v =
     (if v = 1 then Some Heap else if v = 2 then Some BTreeIndex else if v = 3 then Some FreeSpaceMap
      else if v = 4 then Some VisibilityMap else if v = 5 then Some Meta else None)"

fun page_kind_to_u16 :: "page_kind \<Rightarrow> u16" where
  "page_kind_to_u16 Heap = 1"
| "page_kind_to_u16 BTreeIndex = 2"
| "page_kind_to_u16 FreeSpaceMap = 3"
| "page_kind_to_u16 VisibilityMap = 4"
| "page_kind_to_u16 Meta = 5"

datatype item_id_flags = Unused | Normal | Redirect | Dead

definition item_flags_from_bits :: "u32 \<Rightarrow> item_id_flags" where
  "item_flags_from_bits bits =
     (let b = bits AND 3 in if b = 0 then Unused else if b = 1 then Normal else if b = 2 then Redirect else Dead)"

fun item_flags_to_u32 :: "item_id_flags \<Rightarrow> u32" where
  "item_flags_to_u32 Unused = 0"
| "item_flags_to_u32 Normal = 1"
| "item_flags_to_u32 Redirect = 2"
| "item_flags_to_u32 Dead = 3"

type_synonym item_id = u32

definition ITEM_MAX_OFFSET :: u32 where "ITEM_MAX_OFFSET = push_bit 15 1 - 1"
definition ITEM_MAX_LENGTH :: u32 where "ITEM_MAX_LENGTH = push_bit 15 1 - 1"

definition item_new :: "u32 \<Rightarrow> u32 \<Rightarrow> item_id_flags \<Rightarrow> item_id" where
  "item_new offset len flags = item_flags_to_u32 flags OR push_bit 2 len OR push_bit 17 offset"

definition item_flags :: "item_id \<Rightarrow> item_id_flags" where
  "item_flags raw = item_flags_from_bits raw"

definition item_length :: "item_id \<Rightarrow> u32" where
  "item_length raw = drop_bit 2 raw AND ITEM_MAX_LENGTH"

definition item_offset :: "item_id \<Rightarrow> u32" where
  "item_offset raw = drop_bit 17 raw AND ITEM_MAX_OFFSET"

definition item_is_normal :: "item_id \<Rightarrow> bool" where
  "item_is_normal raw \<longleftrightarrow> item_flags raw = Normal"

section \<open>Header\<close>

record page_header =
  ph_lsn :: u64
  ph_checksum :: u32
  ph_flags :: u16
  ph_kind :: page_kind
  ph_lower :: u16
  ph_upper :: u16
  ph_special :: u16
  ph_version :: u8

definition fresh_heap :: page_header where
  "fresh_heap = \<lparr>ph_lsn = 0, ph_checksum = 0, ph_flags = 0, ph_kind = Heap, ph_lower = 24,
     ph_upper = 8192, ph_special = 8192, ph_version = PAGE_VERSION_CURRENT\<rparr>"

definition pointers_disordered :: "u16 \<Rightarrow> u16 \<Rightarrow> u16 \<Rightarrow> bool" where
  "pointers_disordered lower upper special \<longleftrightarrow>
     (let lo = unat lower; up = unat upper; sp = unat special in
      lo < PAGE_HEADER_SIZE \<or> up < lo \<or> sp < up \<or> PAGE_SIZE < sp
      \<or> (lo - PAGE_HEADER_SIZE) mod ITEMID_SIZE \<noteq> 0)"

definition ph_decode :: "bytes \<Rightarrow> page_error + page_header" where
  "ph_decode bytes =
     rbind (ok_or (read_u64_le (slice 0 8 bytes)) (Malformed ''lsn'')) (\<lambda>lsn.
     rbind (ok_or (read_u32_le (slice 8 12 bytes)) (Malformed ''checksum'')) (\<lambda>checksum.
     rbind (ok_or (read_u16_le (slice 12 14 bytes)) (Malformed ''flags'')) (\<lambda>flags.
     rbind (ok_or (read_u16_le (slice 14 16 bytes)) (Malformed ''kind'')) (\<lambda>kind_raw.
     rbind (ok_or (read_u16_le (slice 16 18 bytes)) (Malformed ''lower'')) (\<lambda>lower.
     rbind (ok_or (read_u16_le (slice 18 20 bytes)) (Malformed ''upper'')) (\<lambda>upper.
     rbind (ok_or (read_u16_le (slice 20 22 bytes)) (Malformed ''special'')) (\<lambda>special.
     (let version = bytes ! 22 in
      rbind (ok_or (page_kind_from_u16 kind_raw) (Malformed ''unknown page kind'')) (\<lambda>kind.
      if bytes ! 23 \<noteq> 0 then Inl (Malformed ''reserved header byte'')
      else if version \<noteq> PAGE_VERSION_CURRENT then Inl (UnsupportedVersion version)
      else if pointers_disordered lower upper special then Inl (Malformed ''pointer ordering'')
      else Inr \<lparr>ph_lsn = lsn, ph_checksum = checksum, ph_flags = flags, ph_kind = kind, ph_lower = lower,
                ph_upper = upper, ph_special = special, ph_version = version\<rparr>)))))))))"

definition ph_encode :: "page_header \<Rightarrow> bytes \<Rightarrow> bytes" where
  "ph_encode h bytes =
     (let b = splice_at 0 (word_to_le (ph_lsn h)) bytes;
          b = splice_at 8 (word_to_le (ph_checksum h)) b;
          b = splice_at 12 (word_to_le (ph_flags h)) b;
          b = splice_at 14 (word_to_le (page_kind_to_u16 (ph_kind h))) b;
          b = splice_at 16 (word_to_le (ph_lower h)) b;
          b = splice_at 18 (word_to_le (ph_upper h)) b;
          b = splice_at 20 (word_to_le (ph_special h)) b;
          b = b[22 := ph_version h]
      in b[23 := 0])"

definition try_slot_count :: "page_header \<Rightarrow> page_error + u16" where
  "try_slot_count h =
     (if ph_lower h < 24 then Inl (Malformed ''slot directory lower before header'')
      else if (ph_lower h - 24) mod 4 \<noteq> 0 then Inl (Malformed ''slot directory alignment'')
      else Inr ((ph_lower h - 24) div 4))"

definition slot_count :: "page_header \<Rightarrow> u16 option" where
  "slot_count h = (case try_slot_count h of Inr count \<Rightarrow> Some count | Inl _ \<Rightarrow> None)"

definition try_free_space :: "page_header \<Rightarrow> page_error + nat" where
  "try_free_space h =
     (if unat (ph_upper h) < unat (ph_lower h) then Inl (Malformed ''free space pointer ordering'')
      else Inr (unat (ph_upper h) - unat (ph_lower h)))"

definition free_space :: "page_header \<Rightarrow> nat option" where
  "free_space h = (case try_free_space h of Inr n \<Rightarrow> Some n | Inl _ \<Rightarrow> None)"

section \<open>Slot directory\<close>

text \<open>Conversions of \<^verbatim>\<open>usize\<close> values, and its overflow-checked sum.\<close>

definition usize_add :: "nat \<Rightarrow> nat \<Rightarrow> nat option" where
  "usize_add a b = (if a + b < 2 ^ 64 then Some (a + b) else None)"

definition usize_sub :: "nat \<Rightarrow> nat \<Rightarrow> nat option" where
  "usize_sub a b = (if b \<le> a then Some (a - b) else None)"

definition page_u16_from_usize :: "nat \<Rightarrow> string \<Rightarrow> page_error + u16" where
  "page_u16_from_usize v field = (if v < 2 ^ 16 then Inr (of_nat v) else Inl (Malformed field))"

definition item_offset_from_usize :: "nat \<Rightarrow> page_error + u32" where
  "item_offset_from_usize v =
     (if 2 ^ 32 \<le> v then Inl (Malformed ''tuple offset overflow'')
      else if ITEM_MAX_OFFSET < of_nat v then Inl (Malformed ''tuple offset exceeds itemid'')
      else Inr (of_nat v))"

definition try_item_id_offset :: "u16 \<Rightarrow> page_error + nat" where
  "try_item_id_offset slot =
     (let off = PAGE_HEADER_SIZE + unat slot * ITEMID_SIZE in
      if PAGE_SIZE < off + ITEMID_SIZE then Inl (Malformed ''slot directory out of bounds'') else Inr off)"

definition item_id_offset :: "u16 \<Rightarrow> nat option" where
  "item_id_offset slot = (case try_item_id_offset slot of Inr off \<Rightarrow> Some off | Inl _ \<Rightarrow> None)"

definition read_item_id :: "bytes \<Rightarrow> u16 \<Rightarrow> item_id option" where
  "read_item_id page slot = do { off \<leftarrow> item_id_offset slot; read_u32_le (slice off (off + ITEMID_SIZE) page) }"

definition write_item_id :: "u16 \<Rightarrow> item_id \<Rightarrow> bytes \<Rightarrow> bytes option" where
  "write_item_id slot item page = do { off \<leftarrow> item_id_offset slot; Some (splice_at off (word_to_le item) page) }"

text \<open>The slots \<^verbatim>\<open>0..count\<close> in order.\<close>

definition slots :: "u16 \<Rightarrow> u16 list" where
  "slots count = map of_nat [0..<unat count]"

primrec find_unused :: "bytes \<Rightarrow> u16 list \<Rightarrow> u16 option option" where
  "find_unused page [] = Some None"
| "find_unused page (i # is) = do {
     item \<leftarrow> read_item_id page i;
     if item_flags item = Unused then Some (Some i) else find_unused page is }"

definition find_reusable_slot :: "bytes \<Rightarrow> u16 \<Rightarrow> u16 option option" where
  "find_reusable_slot page count = find_unused page (slots count)"

primrec validate_slots :: "bytes \<Rightarrow> page_header \<Rightarrow> u16 list \<Rightarrow> (page_error + unit) option" where
  "validate_slots page h [] = Some (Inr ())"
| "validate_slots page h (i # is) = do {
     item \<leftarrow> read_item_id page i;
     if \<not> item_is_normal item then validate_slots page h is
     else if unat (item_offset item) < unat (ph_upper h)
          \<or> unat (ph_special h) < unat (item_offset item) + unat (item_length item)
       then Some (Inl (Malformed ''tuple range out of bounds''))
     else validate_slots page h is }"

definition validate_slot_directory :: "bytes \<Rightarrow> page_header \<Rightarrow> (page_error + unit) option" where
  "validate_slot_directory page h =
     (case try_slot_count h of Inl e \<Rightarrow> Some (Inl e) | Inr count \<Rightarrow> validate_slots page h (slots count))"

section \<open>Pages\<close>

definition new_heap :: bytes where
  "new_heap = ph_encode fresh_heap (replicate PAGE_SIZE 0)"

definition page_from_bytes :: "bytes \<Rightarrow> (page_error + bytes) option" where
  "page_from_bytes bytes =
     (case ph_decode bytes of
        Inl e \<Rightarrow> Some (Inl e)
      | Inr h \<Rightarrow> do {
          r \<leftarrow> validate_slot_directory bytes h;
          Some (case r of Inl e \<Rightarrow> Inl e | Inr _ \<Rightarrow> Inr bytes) })"

definition page_header_of :: "bytes \<Rightarrow> page_header option" where
  "page_header_of page = (case ph_decode page of Inr h \<Rightarrow> Some h | Inl _ \<Rightarrow> None)"

definition write_header :: "page_header \<Rightarrow> bytes \<Rightarrow> (page_error + unit) \<times> bytes" where
  "write_header h page =
     (let scratch = ph_encode h (splice_at 0 (take PAGE_HEADER_SIZE page) (replicate PAGE_SIZE 0)) in
      case ph_decode scratch of Inl e \<Rightarrow> (Inl e, page) | Inr _ \<Rightarrow> (Inr (), ph_encode h page))"

definition set_lsn :: "u64 \<Rightarrow> bytes \<Rightarrow> bytes option" where
  "set_lsn lsn page = do { h \<leftarrow> page_header_of page; Some (ph_encode (h\<lparr>ph_lsn := lsn\<rparr>) page) }"

definition CHECKSUM_OFFSET :: nat where "CHECKSUM_OFFSET = 8"

definition compute_page_checksum :: "(bytes \<Rightarrow> u64) \<Rightarrow> bytes \<Rightarrow> u32" where
  "compute_page_checksum xxh3_64 page =
     (let h = xxh3_64 (splice_at CHECKSUM_OFFSET (replicate 4 0) page);
          folded = h XOR drop_bit 32 h
      in word_from_le (take 4 (word_to_le folded)))"

definition refresh_checksum :: "(bytes \<Rightarrow> u64) \<Rightarrow> bytes \<Rightarrow> bytes" where
  "refresh_checksum xxh3_64 page = splice_at CHECKSUM_OFFSET (word_to_le (compute_page_checksum xxh3_64 page)) page"

definition verify_checksum :: "(bytes \<Rightarrow> u64) \<Rightarrow> bytes \<Rightarrow> page_error + unit" where
  "verify_checksum xxh3_64 page =
     rbind (ok_or (read_u32_le (slice CHECKSUM_OFFSET (CHECKSUM_OFFSET + 4) page)) (Malformed ''checksum slice'')) (\<lambda>stored.
       let actual = compute_page_checksum xxh3_64 page in
       if stored = actual then Inr () else Inl (ChecksumMismatch stored actual))"

section \<open>Tuples\<close>

text \<open>
  The length check, and the placement of the tuple bytes below \<^verbatim>\<open>upper\<close> with the slot pointer
  that names them; the three insertion routines of the source repeat these lines.
\<close>

definition tuple_len_check :: "bytes \<Rightarrow> page_error + u32" where
  "tuple_len_check tuple =
     (if 2 ^ 32 \<le> length tuple then Inl (Malformed ''tuple too large for page'')
      else if ITEM_MAX_LENGTH < of_nat (length tuple) then Inl (Malformed ''tuple length exceeds itemid'')
      else Inr (of_nat (length tuple)))"

definition place_tuple :: "page_header \<Rightarrow> bytes \<Rightarrow> u32 \<Rightarrow> bytes \<Rightarrow> ((page_error + item_id \<times> nat) \<times> bytes) option" where
  "place_tuple h tuple tuple_len page =
     (case usize_sub (unat (ph_upper h)) (length tuple) of
        None \<Rightarrow> Some (Inl (Malformed ''tuple upper underflow''), page)
      | Some new_upper \<Rightarrow>
          (case usize_add new_upper (length tuple) of
             None \<Rightarrow> Some (Inl (Malformed ''tuple range overflow''), page)
           | Some tuple_end \<Rightarrow>
               if length page < tuple_end then None
               else
                 let page = splice_at new_upper tuple page in
                 (case item_offset_from_usize new_upper of
                    Inl e \<Rightarrow> Some (Inl e, page)
                  | Inr off \<Rightarrow> Some (Inr (item_new off tuple_len Normal, new_upper), page))))"

text \<open>The last lines: the header with its new bounds.\<close>

definition finish_insert :: "page_header \<Rightarrow> nat \<Rightarrow> nat \<Rightarrow> 'a \<Rightarrow> bytes \<Rightarrow> (page_error + 'a) \<times> bytes" where
  "finish_insert h grown new_upper result page =
     (case (if grown = 0 then Inr (ph_lower h)
            else rbind (ok_or (usize_add (unat (ph_lower h)) grown) (Malformed ''page lower overflow''))
                   (\<lambda>new_lower. page_u16_from_usize new_lower ''page lower'')) of
        Inl e \<Rightarrow> (Inl e, page)
      | Inr lower \<Rightarrow>
          (case page_u16_from_usize new_upper ''page upper'' of
             Inl e \<Rightarrow> (Inl e, page)
           | Inr upper \<Rightarrow> (Inr result, ph_encode (h\<lparr>ph_lower := lower, ph_upper := upper\<rparr>) page)))"

definition insert_tuple :: "bytes \<Rightarrow> bytes \<Rightarrow> ((page_error + u16) \<times> bytes) option" where
  "insert_tuple tuple page =
     (case tuple_len_check tuple of
        Inl e \<Rightarrow> Some (Inl e, page)
      | Inr tuple_len \<Rightarrow> do {
          h \<leftarrow> page_header_of page;
          count \<leftarrow> slot_count h;
          reuse \<leftarrow> find_reusable_slot page count;
          let needed_slot = (if reuse = None then ITEMID_SIZE else 0);
          (case usize_add (length tuple) needed_slot of
             None \<Rightarrow> Some (Inl (Malformed ''tuple size overflow''), page)
           | Some needed \<Rightarrow>
               (case try_free_space h of
                  Inl e \<Rightarrow> Some (Inl e, page)
                | Inr free \<Rightarrow>
                    if free < needed then Some (Inl (NoSpace needed free), page)
                    else do {
                      (r, page) \<leftarrow> place_tuple h tuple tuple_len page;
                      (case r of
                         Inl e \<Rightarrow> Some (Inl e, page)
                       | Inr (item, new_upper) \<Rightarrow> do {
                           let slot = (case reuse of Some idx \<Rightarrow> idx | None \<Rightarrow> count);
                           page \<leftarrow> write_item_id slot item page;
                           Some (finish_insert h needed_slot new_upper slot page) }) })) })"

definition insert_tuple_appended :: "bytes \<Rightarrow> bytes \<Rightarrow> ((page_error + u16) \<times> bytes) option" where
  "insert_tuple_appended tuple page =
     (case tuple_len_check tuple of
        Inl e \<Rightarrow> Some (Inl e, page)
      | Inr tuple_len \<Rightarrow> do {
          h \<leftarrow> page_header_of page;
          (case usize_add (length tuple) ITEMID_SIZE of
             None \<Rightarrow> Some (Inl (Malformed ''tuple size overflow''), page)
           | Some needed \<Rightarrow>
               (case try_free_space h of
                  Inl e \<Rightarrow> Some (Inl e, page)
                | Inr free \<Rightarrow>
                    if free < needed then Some (Inl (NoSpace needed free), page)
                    else do {
                      (r, page) \<leftarrow> place_tuple h tuple tuple_len page;
                      (case r of
                         Inl e \<Rightarrow> Some (Inl e, page)
                       | Inr (item, new_upper) \<Rightarrow> do {
                           idx \<leftarrow> slot_count h;
                           page \<leftarrow> write_item_id idx item page;
                           Some (finish_insert h ITEMID_SIZE new_upper idx page) }) })) })"

primrec write_gaps :: "u16 list \<Rightarrow> bytes \<Rightarrow> bytes option" where
  "write_gaps [] page = Some page"
| "write_gaps (g # gs) page = do { page \<leftarrow> write_item_id g (item_new 0 0 Unused) page; write_gaps gs page }"

definition insert_tuple_at_slot :: "u16 \<Rightarrow> bytes \<Rightarrow> bytes \<Rightarrow> ((page_error + unit) \<times> bytes) option" where
  "insert_tuple_at_slot slot tuple page =
     (case tuple_len_check tuple of
        Inl e \<Rightarrow> Some (Inl e, page)
      | Inr tuple_len \<Rightarrow> do {
          h \<leftarrow> page_header_of page;
          count \<leftarrow> slot_count h;
          occupied \<leftarrow> (if count \<le> slot then Some False
                       else do { item \<leftarrow> read_item_id page slot; Some (item_is_normal item) });
          if occupied then Some (Inl (SlotOccupied slot), page)
          else
            let new_slots = (if count \<le> slot then unat slot + 1 - unat count else 0);
                needed_slot = new_slots * ITEMID_SIZE in
            (case usize_add (length tuple) needed_slot of
               None \<Rightarrow> Some (Inl (Malformed ''tuple size overflow''), page)
             | Some needed \<Rightarrow>
                 (case try_free_space h of
                    Inl e \<Rightarrow> Some (Inl e, page)
                  | Inr free \<Rightarrow>
                      if free < needed then Some (Inl (NoSpace needed free), page)
                      else do {
                        (r, page) \<leftarrow> place_tuple h tuple tuple_len page;
                        (case r of
                           Inl e \<Rightarrow> Some (Inl e, page)
                         | Inr (item, new_upper) \<Rightarrow> do {
                             page \<leftarrow> (if 0 < new_slots
                                      then write_gaps (map of_nat [unat count..<unat slot]) page else Some page);
                             page \<leftarrow> write_item_id slot item page;
                             Some (finish_insert h needed_slot new_upper () page) }) })) })"

definition read_tuple :: "bytes \<Rightarrow> u16 \<Rightarrow> (page_error + bytes) option" where
  "read_tuple page slot = do {
     h \<leftarrow> page_header_of page;
     count \<leftarrow> slot_count h;
     if count \<le> slot then Some (Inl (InvalidSlot slot count))
     else do {
       item \<leftarrow> read_item_id page slot;
       if \<not> item_is_normal item then Some (Inl (DeadSlot slot))
       else
         let off = unat (item_offset item); end' = off + unat (item_length item) in
         if off < unat (ph_upper h) \<or> unat (ph_special h) < end'
         then Some (Inl (Malformed ''tuple range out of bounds''))
         else Some (Inr (slice off end' page)) } }"

definition delete_tuple :: "u16 \<Rightarrow> bytes \<Rightarrow> ((page_error + unit) \<times> bytes) option" where
  "delete_tuple slot page = do {
     h \<leftarrow> page_header_of page;
     count \<leftarrow> slot_count h;
     if count \<le> slot then Some (Inl (InvalidSlot slot count), page)
     else do {
       item \<leftarrow> read_item_id page slot;
       if \<not> item_is_normal item then Some (Inl (DeadSlot slot), page)
       else do {
         page \<leftarrow> write_item_id slot (item_new (item_offset item) (item_length item) Dead) page;
         Some (Inr (), page) } } }"

section \<open>Compaction\<close>

primrec gather_live :: "bytes \<Rightarrow> u16 list \<Rightarrow> (u16 \<times> u32 \<times> u32) list option" where
  "gather_live page [] = Some []"
| "gather_live page (s # ss) = do {
     item \<leftarrow> read_item_id page s;
     rest \<leftarrow> gather_live page ss;
     Some (if item_is_normal item then (s, item_offset item, item_length item) # rest else rest) }"

text \<open>The rolling move of the live tuples, highest offset first, to the end of the body.\<close>

primrec move_live :: "(u16 \<times> u32 \<times> u32) list \<Rightarrow> nat \<Rightarrow> bytes \<Rightarrow> ((page_error + nat) \<times> bytes) option" where
  "move_live [] write_end page = Some (Inr write_end, page)"
| "move_live (t # ts) write_end page =
     (case t of (slot, off, len) \<Rightarrow>
       let src = unat off; n = unat len in
       if length page < src + n then Some (Inl (Malformed ''tuple range out of bounds''), page)
       else
         (case usize_sub write_end n of
            None \<Rightarrow> Some (Inl (Malformed ''tuple compact underflow''), page)
          | Some new_off \<Rightarrow>
              if length page < new_off + n then None
              else
                let page = (if new_off \<noteq> src then splice_at new_off (slice src (src + n) page) page else page) in
                (case item_offset_from_usize new_off of
                   Inl e \<Rightarrow> Some (Inl e, page)
                 | Inr o' \<Rightarrow> do {
                     page \<leftarrow> write_item_id slot (item_new o' len Normal) page;
                     move_live ts new_off page })))"

primrec clear_dead :: "u16 list \<Rightarrow> bytes \<Rightarrow> bytes option" where
  "clear_dead [] page = Some page"
| "clear_dead (s # ss) page = do {
     item \<leftarrow> read_item_id page s;
     page \<leftarrow> (if item_flags item = Dead then write_item_id s (item_new 0 0 Unused) page else Some page);
     clear_dead ss page }"

definition compact :: "bytes \<Rightarrow> ((page_error + unit) \<times> bytes) option" where
  "compact page = do {
     h \<leftarrow> page_header_of page;
     count \<leftarrow> slot_count h;
     live \<leftarrow> gather_live page (slots count);
     (r, page) \<leftarrow> move_live (sort_key (\<lambda>(s, off, len). unat ITEM_MAX_OFFSET - unat off) live) (unat (ph_special h)) page;
     (case r of
        Inl e \<Rightarrow> Some (Inl e, page)
      | Inr write_end \<Rightarrow> do {
          page \<leftarrow> clear_dead (slots count) page;
          Some (case page_u16_from_usize write_end ''page upper'' of
                  Inl e \<Rightarrow> (Inl e, page)
                | Inr upper \<Rightarrow> (Inr (), ph_encode (h\<lparr>ph_upper := upper\<rparr>) page)) }) }"

end
