(* ===== verification/Page_Layout.thy ===== *)
theory Page_Layout
  imports Page
begin

text \<open>
  The layout lemmas of the slotted page: the slot pointer and header codecs, what each region
  write leaves unchanged, the page invariant (ordered pointers, live tuples inside the body and
  pairwise disjoint) and the abstract view of a page, the list of its slots' contents.
\<close>

section \<open>Slot pointers\<close>

lemma item_max_mask: "ITEM_MAX_OFFSET = mask 15" "ITEM_MAX_LENGTH = mask 15"
  by (simp_all add: ITEM_MAX_OFFSET_def ITEM_MAX_LENGTH_def mask_eq_exp_minus_1 push_bit_eq_mult)

lemma unat_item_max [simp]: "unat ITEM_MAX_OFFSET = 32767" "unat ITEM_MAX_LENGTH = 32767"
  by (simp_all add: ITEM_MAX_OFFSET_def ITEM_MAX_LENGTH_def)

lemma flags_bits: "2 \<le> n \<Longrightarrow> \<not> bit (item_flags_to_u32 f) n"
proof -
  assume n: "2 \<le> n"
  have "item_flags_to_u32 f = take_bit 2 (item_flags_to_u32 f)"
    by (cases f) simp_all
  then have "bit (item_flags_to_u32 f) n \<longleftrightarrow> bit (take_bit 2 (item_flags_to_u32 f)) n" by simp
  with n show ?thesis by (simp add: bit_take_bit_iff)
qed

lemma take_bit_15: "unat (w :: u32) < 2 ^ 15 \<Longrightarrow> take_bit 15 w = w"
  by (rule word_eq_iff_unsigned [where 'a = nat, THEN iffD2])
    (simp add: unsigned_take_bit_eq take_bit_nat_eq_self)

lemma item_fields:
  "item_flags (item_new off len f) = f"
  "item_length (item_new off len f) = take_bit 15 len"
  "unat len < 2 ^ 15 \<Longrightarrow> item_offset (item_new off len f) = take_bit 15 off"
proof -
  have "item_new off len f AND 3 = take_bit 2 (item_new off len f)"
    by (simp add: take_bit_eq_mask mask_eq_exp_minus_1)
  also have "\<dots> = take_bit 2 (item_flags_to_u32 f)"
    by (rule bit_word_eqI) (auto simp: item_new_def bit_simps)
  also have "\<dots> = item_flags_to_u32 f"
    by (cases f) simp_all
  finally have "item_new off len f AND 3 = item_flags_to_u32 f" .
  then show "item_flags (item_new off len f) = f"
    by (cases f) (simp_all add: item_flags_def item_flags_from_bits_def)
  show "item_length (item_new off len f) = take_bit 15 len"
    by (rule bit_word_eqI)
      (auto simp: item_length_def item_new_def item_max_mask bit_simps flags_bits)
  assume "unat len < 2 ^ 15"
  then have len: "len = take_bit 15 len" by (simp add: take_bit_15)
  have "\<not> bit len (Suc (15 + n))" "\<not> bit len (15 + n)" for n
    by (subst len, simp add: bit_take_bit_iff)+
  then show "item_offset (item_new off len f) = take_bit 15 off"
    by (intro bit_word_eqI)
      (auto simp: item_offset_def item_new_def item_max_mask bit_simps flags_bits)
qed

lemma item_new_nat:
  assumes "o' < 2 ^ 15" "unat len < 2 ^ 15"
  shows "unat (item_offset (item_new (of_nat o') len f)) = o'" "item_length (item_new (of_nat o') len f) = len"
proof -
  have "unat (of_nat o' :: u32) = o'" using assms by (simp add: unat_of_nat_small)
  then show "unat (item_offset (item_new (of_nat o') len f)) = o'"
    using assms by (simp add: item_fields take_bit_15)
  show "item_length (item_new (of_nat o') len f) = len"
    using assms by (simp add: item_fields take_bit_15)
qed

text \<open>The item at index \<open>i\<close> of the slot directory, and its replacement.\<close>

definition item :: "bytes \<Rightarrow> nat \<Rightarrow> item_id" where
  "item p i = word_from_le (slice (24 + 4 * i) (28 + 4 * i) p)"

definition set_item :: "nat \<Rightarrow> item_id \<Rightarrow> bytes \<Rightarrow> bytes" where
  "set_item i it p = splice_at (24 + 4 * i) (word_to_le it) p"

abbreviation full_page :: "bytes \<Rightarrow> bool" where
  "full_page p \<equiv> length p = PAGE_SIZE"

lemmas page_sizes [simp] = PAGE_SIZE_def PAGE_HEADER_SIZE_def ITEMID_SIZE_def PAGE_VERSION_CURRENT_def

lemma read_item_id_eq:
  "full_page p \<Longrightarrow> unat s < 2042 \<Longrightarrow> read_item_id p s = Some (item p (unat s))"
  by (simp add: read_item_id_def item_id_offset_def try_item_id_offset_def item_def read_defs
      mult.commute add.commute)

lemma write_item_id_eq: "unat s < 2042 \<Longrightarrow> write_item_id s it p = Some (set_item (unat s) it p)"
  by (simp add: write_item_id_def item_id_offset_def try_item_id_offset_def set_item_def mult.commute)

lemma length_set_item [simp]: "full_page p \<Longrightarrow> i < 2042 \<Longrightarrow> full_page (set_item i it p)"
  by (simp add: set_item_def)

lemma item_set_item:
  "full_page p \<Longrightarrow> i < 2042 \<Longrightarrow> j < 2042 \<Longrightarrow> item (set_item i it p) j = (if i = j then it else item p j)"
proof (cases "i = j")
  case False
  then have "28 + 4 * j \<le> 24 + 4 * i \<or> 28 + 4 * i \<le> 24 + 4 * j" by linarith
  moreover assume "full_page p" "i < 2042" "j < 2042"
  ultimately show ?thesis
    using False slice_splice_at_disjoint [of "24 + 4 * i" "word_to_le it" p "28 + 4 * j" "24 + 4 * j"]
    by (simp add: item_def set_item_def)
qed (simp add: item_def set_item_def slice_splice_at_same)

lemma slice_set_item:
  "full_page p \<Longrightarrow> 28 + 4 * i \<le> a \<Longrightarrow> i < 2042 \<Longrightarrow> b \<le> PAGE_SIZE \<Longrightarrow> slice a b (set_item i it p) = slice a b p"
  by (simp add: set_item_def slice_splice_at_disjoint)

lemma item_splice_at:
  "full_page p \<Longrightarrow> u + length t \<le> PAGE_SIZE \<Longrightarrow> 28 + 4 * i \<le> u \<Longrightarrow> item (splice_at u t p) i = item p i"
  by (simp add: item_def slice_splice_at_disjoint)

section \<open>Header\<close>

text \<open>The pointer ordering a decoded header satisfies.\<close>

definition header_ok :: "page_header \<Rightarrow> bool" where
  "header_ok h \<longleftrightarrow> ph_version h = 1 \<and> \<not> pointers_disordered (ph_lower h) (ph_upper h) (ph_special h)"

definition header_image :: "page_header \<Rightarrow> bytes" where
  "header_image h =
     word_to_le (ph_lsn h) @ word_to_le (ph_checksum h) @ word_to_le (ph_flags h)
     @ word_to_le (page_kind_to_u16 (ph_kind h)) @ word_to_le (ph_lower h) @ word_to_le (ph_upper h)
     @ word_to_le (ph_special h) @ [ph_version h, 0]"

lemma length_header_image [simp]: "length (header_image h) = 24"
  by (simp add: header_image_def)

lemma page_kind_inverse [simp]: "page_kind_from_u16 (page_kind_to_u16 k) = Some k"
  by (cases k) (simp_all add: page_kind_from_u16_def)

lemma page_kind_from_u16_Some: "page_kind_from_u16 v = Some k \<longleftrightarrow> v = page_kind_to_u16 k"
  by (cases k) (auto simp: page_kind_from_u16_def split: if_splits)

lemma ph_encode_eq: "24 \<le> length p \<Longrightarrow> ph_encode h p = header_image h @ drop 24 p"
proof -
  assume "24 \<le> length p"
  then have d: "drop 22 p = p ! 22 # p ! 23 # drop 24 p"
    using Cons_nth_drop_Suc [of 22 p] Cons_nth_drop_Suc [of 23 p] by simp
  show ?thesis
    by (simp add: ph_encode_def header_image_def Let_def codec_simps list_update_append_right d)
qed

lemma ph_decode_image:
  "header_ok h \<Longrightarrow> ph_decode (header_image h @ rest) = Inr h"
  by (simp add: ph_decode_def header_image_def header_ok_def slice_append_right nth_append read_le_exact)

lemma ph_decode_take: "24 \<le> length p \<Longrightarrow> ph_decode (take 24 p) = ph_decode p"
  by (simp add: ph_decode_def slice_take)

lemma ph_decode_cong: "24 \<le> length p \<Longrightarrow> 24 \<le> length q \<Longrightarrow> take 24 p = take 24 q \<Longrightarrow> ph_decode p = ph_decode q"
  by (metis ph_decode_take)

lemma ph_decode_header_ok: "ph_decode p = Inr h \<Longrightarrow> header_ok h"
  by (auto simp: ph_decode_def header_ok_def Let_def split: if_splits)

text \<open>The numbers of slots and of free bytes, as naturals.\<close>

definition nslots :: "page_header \<Rightarrow> nat" where
  "nslots h = (unat (ph_lower h) - 24) div 4"

lemma header_ok_bounds:
  assumes "header_ok h"
  shows "unat (ph_lower h) = 24 + 4 * nslots h" "unat (ph_lower h) \<le> unat (ph_upper h)"
    "unat (ph_upper h) \<le> unat (ph_special h)" "unat (ph_special h) \<le> 8192" "nslots h \<le> 2042"
    "ph_version h = 1"
proof -
  have "4 dvd (unat (ph_lower h) - 24)" "24 \<le> unat (ph_lower h)"
    using assms by (auto simp: header_ok_def pointers_disordered_def Let_def)
  then show low: "unat (ph_lower h) = 24 + 4 * nslots h"
    by (simp add: nslots_def)
  show "unat (ph_lower h) \<le> unat (ph_upper h)" "unat (ph_upper h) \<le> unat (ph_special h)"
    "unat (ph_special h) \<le> 8192" "ph_version h = 1"
    using assms by (auto simp: header_ok_def pointers_disordered_def Let_def)
  with low show "nslots h \<le> 2042" by simp
qed

lemma header_okI:
  "ph_version h = 1 \<Longrightarrow> unat (ph_lower h) = 24 + 4 * n \<Longrightarrow> unat (ph_lower h) \<le> unat (ph_upper h) \<Longrightarrow>
   unat (ph_upper h) \<le> unat (ph_special h) \<Longrightarrow> unat (ph_special h) \<le> 8192 \<Longrightarrow> header_ok h"
  by (simp add: header_ok_def pointers_disordered_def)

lemma slot_count_eq:
  assumes "header_ok h"
  shows "try_slot_count h = Inr (of_nat (nslots h))" "slot_count h = Some (of_nat (nslots h))"
    "unat (of_nat (nslots h) :: u16) = nslots h"
proof -
  note b = header_ok_bounds [OF assms]
  show u: "unat (of_nat (nslots h) :: u16) = nslots h"
    using b by (simp add: unat_of_nat_small)
  have ge: "24 \<le> ph_lower h" using b by (simp add: word_le_nat_alt)
  have d: "unat (ph_lower h - 24) = 4 * nslots h"
    using ge b by (simp add: unat_sub)
  then have "(ph_lower h - 24) mod 4 = 0" "(ph_lower h - 24) div 4 = of_nat (nslots h)"
    using u by (simp_all add: word_unat_eq_iff unat_mod_distrib unat_div_distrib)
  with ge show "try_slot_count h = Inr (of_nat (nslots h))"
    by (simp add: try_slot_count_def not_less)
  then show "slot_count h = Some (of_nat (nslots h))"
    by (simp add: slot_count_def)
qed

lemma slots_eq: "header_ok h \<Longrightarrow> slots (of_nat (nslots h)) = map of_nat [0..<nslots h]"
  by (simp add: slots_def slot_count_eq(3))

lemma try_free_space_eq: "header_ok h \<Longrightarrow> try_free_space h = Inr (unat (ph_upper h) - unat (ph_lower h))"
  using header_ok_bounds [of h] by (simp add: try_free_space_def)

text \<open>Region writes and the header.\<close>

lemma take_24_splice_at: "24 \<le> a \<Longrightarrow> a + length t \<le> length p \<Longrightarrow> take 24 (splice_at a t p) = take 24 p"
  by (simp add: splice_at_def min_def)

lemma ph_decode_splice_at:
  "24 \<le> a \<Longrightarrow> a + length t \<le> length p \<Longrightarrow> ph_decode (splice_at a t p) = ph_decode p"
  by (rule ph_decode_cong) (simp_all add: take_24_splice_at)

lemma ph_decode_set_item: "full_page p \<Longrightarrow> i < 2042 \<Longrightarrow> ph_decode (set_item i it p) = ph_decode p"
  by (simp add: set_item_def ph_decode_splice_at)

lemma ph_decode_encode: "header_ok h \<Longrightarrow> full_page p \<Longrightarrow> ph_decode (ph_encode h p) = Inr h"
  by (simp add: ph_encode_eq ph_decode_image)

lemma full_page_encode [simp]: "full_page p \<Longrightarrow> full_page (ph_encode h p)"
  by (simp add: ph_encode_eq)

lemma slice_encode: "full_page p \<Longrightarrow> 24 \<le> a \<Longrightarrow> slice a b (ph_encode h p) = slice a b p"
  by (cases "a \<le> b") (auto simp: ph_encode_eq slice_append_right slice_drop slice_def)

lemma item_encode [simp]: "full_page p \<Longrightarrow> item (ph_encode h p) i = item p i"
  by (simp add: item_def slice_encode)

section \<open>Invariant and view\<close>

text \<open>
  What a slot shows its readers, and the abstract page: the list of its slots. Two live tuples
  never share a byte.
\<close>

datatype slot_view = Live bytes | Gone item_id_flags

definition tuple_bytes :: "bytes \<Rightarrow> item_id \<Rightarrow> bytes" where
  "tuple_bytes p it = slice (unat (item_offset it)) (unat (item_offset it) + unat (item_length it)) p"

definition slot_view :: "bytes \<Rightarrow> nat \<Rightarrow> slot_view" where
  "slot_view p i =
     (if item_is_normal (item p i) then Live (tuple_bytes p (item p i)) else Gone (item_flags (item p i)))"

definition apart :: "item_id \<Rightarrow> item_id \<Rightarrow> bool" where
  "apart x y \<longleftrightarrow>
     unat (item_offset x) + unat (item_length x) \<le> unat (item_offset y)
     \<or> unat (item_offset y) + unat (item_length y) \<le> unat (item_offset x)"

definition directory_ok :: "bytes \<Rightarrow> page_header \<Rightarrow> bool" where
  "directory_ok p h \<longleftrightarrow>
     (\<forall>i < nslots h. item_is_normal (item p i) \<longrightarrow>
        unat (ph_upper h) \<le> unat (item_offset (item p i))
        \<and> unat (item_offset (item p i)) + unat (item_length (item p i)) \<le> unat (ph_special h)
        \<and> (\<forall>j < nslots h. i \<noteq> j \<and> item_is_normal (item p j) \<longrightarrow> apart (item p i) (item p j)))"

definition page_ok :: "bytes \<Rightarrow> page_header \<Rightarrow> bool" where
  "page_ok p h \<longleftrightarrow> full_page p \<and> ph_decode p = Inr h \<and> directory_ok p h"

definition page_inv :: "bytes \<Rightarrow> bool" where
  "page_inv p \<longleftrightarrow> full_page p \<and> (case ph_decode p of Inl _ \<Rightarrow> False | Inr h \<Rightarrow> directory_ok p h)"

definition page_view :: "bytes \<Rightarrow> slot_view list" where
  "page_view p = (case ph_decode p of Inl _ \<Rightarrow> [] | Inr h \<Rightarrow> map (slot_view p) [0..<nslots h])"

definition page_free :: "bytes \<Rightarrow> nat" where
  "page_free p = (case ph_decode p of Inl _ \<Rightarrow> 0 | Inr h \<Rightarrow> unat (ph_upper h) - unat (ph_lower h))"

lemma page_inv_iff: "page_inv p \<longleftrightarrow> (\<exists>h. page_ok p h)"
  by (auto simp: page_inv_def page_ok_def split: sum.splits)

lemma page_okD:
  assumes "page_ok p h"
  shows "full_page p" "ph_decode p = Inr h" "header_ok h" "directory_ok p h" "page_header_of p = Some h"
    "page_view p = map (slot_view p) [0..<nslots h]" "page_free p = unat (ph_upper h) - unat (ph_lower h)"
    "length (page_view p) = nslots h"
  using assms by (auto simp: page_ok_def page_header_of_def page_view_def page_free_def intro: ph_decode_header_ok)

lemma item_bounds: "unat (item_length it) < 2 ^ 15" "unat (item_offset it) < 2 ^ 15"
  by (simp_all add: item_length_def item_offset_def item_max_mask flip: take_bit_eq_mask)
    (simp_all add: take_bit_eq_mod unat_mod_distrib)

lemma live_bounds:
  assumes "page_ok p h" "i < nslots h" "item_is_normal (item p i)"
  shows "unat (ph_upper h) \<le> unat (item_offset (item p i))"
    "unat (item_offset (item p i)) + unat (item_length (item p i)) \<le> unat (ph_special h)"
  using page_okD(4) [OF assms(1)] assms(2,3) by (auto simp: directory_ok_def)

lemma live_apart:
  "page_ok p h \<Longrightarrow> i < nslots h \<Longrightarrow> j < nslots h \<Longrightarrow> i \<noteq> j \<Longrightarrow> item_is_normal (item p i) \<Longrightarrow>
   item_is_normal (item p j) \<Longrightarrow> apart (item p i) (item p j)"
  by (simp add: page_ok_def directory_ok_def)

lemma apart_sym: "apart x y \<Longrightarrow> apart y x"
  by (auto simp: apart_def)

lemma item_zero [simp]: "item_flags 0 = Unused" "\<not> item_is_normal 0"
  by (simp_all add: item_is_normal_def item_flags_def item_flags_from_bits_def)

lemma slot_view_cong:
  assumes "item q i = item p i"
    and "item_is_normal (item p i) \<Longrightarrow> tuple_bytes q (item p i) = tuple_bytes p (item p i)"
  shows "slot_view q i = slot_view p i"
  using assms by (simp add: slot_view_def)

text \<open>A write that keeps a slot's pointer and the body keeps what the slot shows.\<close>

lemma slot_view_body:
  assumes "page_ok p h" "i < nslots h" "item q i = item p i"
    and body: "\<And>a b. unat (ph_upper h) \<le> a \<Longrightarrow> b \<le> 8192 \<Longrightarrow> slice a b q = slice a b p"
  shows "slot_view q i = slot_view p i"
proof (rule slot_view_cong [OF assms(3)])
  assume "item_is_normal (item p i)"
  from live_bounds [OF assms(1,2) this] header_ok_bounds(4) [OF page_okD(3) [OF assms(1)]]
  show "tuple_bytes q (item p i) = tuple_bytes p (item p i)"
    unfolding tuple_bytes_def by (intro body) simp_all
qed

end
