(* ===== verification/Page_Insert.thy ===== *)
theory Page_Insert
  imports Page_Layout
begin

text \<open>
  The insertion routines of the slotted page against its abstract view: every routine writes
  one tuple below the body, points a slot at it and grows the directory, and all three
  reduce to that one placement.
\<close>

section \<open>Placement\<close>

definition fill_gaps :: "nat list \<Rightarrow> bytes \<Rightarrow> bytes" where
  "fill_gaps is p = fold (\<lambda>i. set_item i 0) is p"

definition grown :: "page_header \<Rightarrow> nat \<Rightarrow> nat \<Rightarrow> page_header" where
  "grown h grow len =
     h\<lparr>ph_lower := of_nat (unat (ph_lower h) + 4 * grow), ph_upper := of_nat (unat (ph_upper h) - len)\<rparr>"

definition placed :: "page_header \<Rightarrow> nat \<Rightarrow> nat \<Rightarrow> bytes \<Rightarrow> bytes \<Rightarrow> bytes" where
  "placed h k grow t p =
     (let new_upper = unat (ph_upper h) - length t in
      ph_encode (grown h grow (length t))
        (set_item k (item_new (of_nat new_upper) (of_nat (length t)) Normal)
          (fill_gaps [nslots h..<nslots h + grow - 1] (splice_at new_upper t p))))"

lemma fill_gaps_simps [simp]: "fill_gaps [] p = p" "fill_gaps (i # is) p = fill_gaps is (set_item i 0 p)"
  by (simp_all add: fill_gaps_def)

lemma fill_gaps_facts:
  assumes "full_page p" "\<forall>i \<in> set is. i < 2042"
  shows "full_page (fill_gaps is p)" "ph_decode (fill_gaps is p) = ph_decode p"
    "j < 2042 \<Longrightarrow> item (fill_gaps is p) j = (if j \<in> set is then 0 else item p j)"
    "\<forall>i \<in> set is. 28 + 4 * i \<le> a \<Longrightarrow> b \<le> PAGE_SIZE \<Longrightarrow> slice a b (fill_gaps is p) = slice a b p"
  using assms
  by (induction "is" arbitrary: p) (auto simp: item_set_item slice_set_item ph_decode_set_item)

text \<open>The situation in which a tuple is placed: it fits, and the slot is new or not live.\<close>

definition placeable :: "bytes \<Rightarrow> page_header \<Rightarrow> nat \<Rightarrow> nat \<Rightarrow> bytes \<Rightarrow> bool" where
  "placeable p h k grow t \<longleftrightarrow>
     page_ok p h \<and> length t + 4 * grow \<le> unat (ph_upper h) - unat (ph_lower h)
     \<and> (if grow = 0 then k < nslots h \<and> \<not> item_is_normal (item p k) else k = nslots h + grow - 1)"

abbreviation new_item :: "page_header \<Rightarrow> bytes \<Rightarrow> item_id" where
  "new_item h t \<equiv> item_new (of_nat (unat (ph_upper h) - length t)) (of_nat (length t)) Normal"

lemma placeable_bounds:
  assumes "placeable p h k grow t"
  shows "24 + 4 * (nslots h + grow) \<le> unat (ph_upper h) - length t" "length t \<le> unat (ph_upper h)"
    "unat (ph_upper h) \<le> 8192" "k < nslots h + grow" "nslots h + grow \<le> 2042"
  using assms header_ok_bounds [of h] by (auto simp: placeable_def dest: page_okD(3) split: if_splits)

lemma new_item_fields:
  assumes "placeable p h k grow t"
  shows "item_is_normal (new_item h t)" "unat (item_length (new_item h t)) = length t"
    "unat (item_offset (new_item h t)) = unat (ph_upper h) - length t"
proof -
  note b = placeable_bounds [OF assms]
  have l: "unat (of_nat (length t) :: u32) = length t" using b by (simp add: unat_of_nat_small)
  show "item_is_normal (new_item h t)" by (simp add: item_is_normal_def item_fields)
  show "unat (item_length (new_item h t)) = length t"
    "unat (item_offset (new_item h t)) = unat (ph_upper h) - length t"
    using b l by (simp_all add: item_new_nat del: of_nat_diff)
qed

lemma grown_fields [simp]: "ph_special (grown h grow len) = ph_special h"
  by (simp add: grown_def)

lemma grown_ok:
  assumes "placeable p h k grow t"
  defines "h' \<equiv> grown h grow (length t)"
  shows "header_ok h'" "nslots h' = nslots h + grow" "unat (ph_upper h') = unat (ph_upper h) - length t"
    "unat (ph_lower h') = unat (ph_lower h) + 4 * grow"
proof -
  note b = placeable_bounds [OF assms(1)]
  have "header_ok h" using assms by (auto simp: placeable_def dest: page_okD(3))
  note h = header_ok_bounds [OF this]
  show lo: "unat (ph_lower h') = unat (ph_lower h) + 4 * grow"
    and up: "unat (ph_upper h') = unat (ph_upper h) - length t"
    using b h by (simp_all add: h'_def grown_def unat_of_nat_small del: of_nat_diff of_nat_add)
  have "ph_special h' = ph_special h" "ph_version h' = ph_version h"
    by (simp_all add: h'_def grown_def)
  then show "header_ok h'"
    using h b lo up by (intro header_okI [where n = "nslots h + grow"]) simp_all
  show "nslots h' = nslots h + grow" using lo h(1) header_ok_bounds(1) [OF \<open>header_ok h'\<close>] by simp
qed

lemma placed_facts:
  assumes "placeable p h k grow t"
  defines "q \<equiv> placed h k grow t p"
  shows "full_page q"
    "ph_decode q = Inr (grown h grow (length t))"
    "i < nslots h + grow \<Longrightarrow>
       item q i = (if i = k then new_item h t else if nslots h \<le> i then 0 else item p i)"
    "unat (ph_upper h) \<le> a \<Longrightarrow> b \<le> 8192 \<Longrightarrow> slice a b q = slice a b p"
    "slice (unat (ph_upper h) - length t) (unat (ph_upper h)) q = t"
proof -
  note b = placeable_bounds [OF assms(1)]
  define u where "u = unat (ph_upper h) - length t"
  define gaps where "gaps = [nslots h..<nslots h + grow - 1]"
  define g where "g = fill_gaps gaps (splice_at u t p)"
  have ok: "page_ok p h" using assms by (simp add: placeable_def)
  note p = page_okD [OF ok]
  have s: "full_page (splice_at u t p)" using p(1) b by (simp add: u_def)
  have "\<forall>i \<in> set gaps. i < 2042" using b by (auto simp: gaps_def)
  note g = fill_gaps_facts [OF s this, folded g_def]
  have k: "k < 2042" using b by simp
  have q: "q = ph_encode (grown h grow (length t)) (set_item k (new_item h t) g)"
    unfolding q_def placed_def Let_def g_def gaps_def u_def ..
  show "full_page q" by (simp add: q g(1) k)
  show "ph_decode q = Inr (grown h grow (length t))"
    by (simp add: q ph_decode_encode grown_ok [OF assms(1)] g(1) k)
  show "item q i = (if i = k then new_item h t else if nslots h \<le> i then 0 else item p i)"
    if "i < nslots h + grow"
  proof -
    have i: "i < 2042" using that b by simp
    have "item (splice_at u t p) i = item p i" using that b p(1) by (simp add: item_splice_at u_def)
    moreover have "i \<in> set gaps \<longleftrightarrow> nslots h \<le> i" if "i \<noteq> k"
      using that \<open>i < nslots h + grow\<close> assms(1) by (auto simp: placeable_def gaps_def split: if_splits)
    ultimately show ?thesis
      using i k g(1) g(3) [OF i] by (auto simp: q item_set_item)
  qed
  have low: "\<forall>i \<in> set gaps. 28 + 4 * i \<le> u" "28 + 4 * k \<le> u" using b by (auto simp: gaps_def u_def)
  have body: "slice a b q = slice a b (splice_at u t p)" if "u \<le> a" "b \<le> 8192" for a b
    using that low g(1) k g(4) [of a b] p(1) by (fastforce simp: q slice_encode slice_set_item)
  show "slice a b q = slice a b p" if "unat (ph_upper h) \<le> a" "b \<le> 8192" for a b
    using that b p(1) body [of a b] by (simp add: slice_splice_at_disjoint u_def)
  show "slice (unat (ph_upper h) - length t) (unat (ph_upper h)) q = t"
    using b p(1) body [of u "unat (ph_upper h)"] by (simp add: slice_splice_at_same u_def)
qed

lemma placed_live:
  assumes "placeable p h k grow t" "i < nslots h + grow" "item_is_normal (item (placed h k grow t p) i)"
  shows "i = k \<or> i \<noteq> k \<and> i < nslots h \<and> item (placed h k grow t p) i = item p i \<and> item_is_normal (item p i)"
  using placed_facts(3) [OF assms(1,2)] assms(3) by (auto split: if_splits)

lemma new_item_apart:
  assumes "placeable p h k grow t" "i < nslots h" "item_is_normal (item p i)"
  shows "apart (new_item h t) (item p i)"
  using live_bounds(1) [OF _ assms(2,3)] new_item_fields [OF assms(1)] placeable_bounds [OF assms(1)] assms(1)
  by (simp add: apart_def placeable_def)

lemma placed_directory:
  assumes pl: "placeable p h k grow t"
  shows "directory_ok (placed h k grow t p) (grown h grow (length t))"
proof -
  let ?q = "placed h k grow t p"
  note b = placeable_bounds [OF pl] and new = new_item_fields [OF pl] and h' = grown_ok [OF pl]
  have ok: "page_ok p h" using pl by (simp add: placeable_def)
  note hb = header_ok_bounds [OF page_okD(3) [OF ok]] and old = live_bounds [OF ok]
  have k: "item ?q k = new_item h t" using placed_facts(3) [OF pl, of k] b by simp
  have range: "unat (ph_upper h) - length t \<le> unat (item_offset (item ?q i))"
      "unat (item_offset (item ?q i)) + unat (item_length (item ?q i)) \<le> unat (ph_special h)"
    if i: "i < nslots h + grow" "item_is_normal (item ?q i)" for i
  proof -
    have "unat (ph_upper h) - length t \<le> unat (item_offset (item ?q i))
        \<and> unat (item_offset (item ?q i)) + unat (item_length (item ?q i)) \<le> unat (ph_special h)"
      using placed_live [OF pl i]
    proof
      assume "i = k"
      with k new b hb show ?thesis by simp
    next
      assume "i \<noteq> k \<and> i < nslots h \<and> item ?q i = item p i \<and> item_is_normal (item p i)"
      with old [of i] show ?thesis by simp
    qed
    then show "unat (ph_upper h) - length t \<le> unat (item_offset (item ?q i))"
      "unat (item_offset (item ?q i)) + unat (item_length (item ?q i)) \<le> unat (ph_special h)" by simp_all
  qed
  have "apart (item ?q i) (item ?q j)"
    if "i < nslots h + grow" "j < nslots h + grow" "i \<noteq> j" "item_is_normal (item ?q i)" "item_is_normal (item ?q j)"
    for i j
    using placed_live [OF pl that(1,4)] placed_live [OF pl that(2,5)] that(3) k
      new_item_apart [OF pl, of i] new_item_apart [OF pl, of j] live_apart [OF ok, of i j]
    by (auto intro: apart_sym)
  with range show ?thesis by (simp add: directory_ok_def h')
qed

lemma placed_ok:
  assumes pl: "placeable p h k grow t"
  shows "page_ok (placed h k grow t p) (grown h grow (length t))"
    "page_free (placed h k grow t p) = page_free p - (length t + 4 * grow)"
proof -
  show ok': "page_ok (placed h k grow t p) (grown h grow (length t))"
    using placed_facts [OF pl] placed_directory [OF pl] by (simp add: page_ok_def)
  have "page_ok p h" using pl by (simp add: placeable_def)
  then show "page_free (placed h k grow t p) = page_free p - (length t + 4 * grow)"
    by (simp add: page_okD(7) [OF ok'] page_okD(7) grown_ok [OF pl])
qed

lemma placed_view:
  assumes pl: "placeable p h k grow t"
  shows "page_view (placed h k grow t p) = (page_view p @ replicate grow (Gone Unused))[k := Live t]"
    (is "?v = ?w")
proof (rule nth_equalityI)
  let ?q = "placed h k grow t p"
  note b = placeable_bounds [OF pl] and q = placed_facts [OF pl] and h' = grown_ok [OF pl]
    and q' = page_okD [OF placed_ok(1) [OF pl]]
  have ok: "page_ok p h" using pl by (simp add: placeable_def)
  note p = page_okD [OF ok]
  show "length ?v = length ?w" using q'(8) p(8) h' by simp
  fix i
  assume "i < length ?v"
  then have i: "i < nslots h + grow" using q'(8) h' by simp
  have view: "?v ! i = slot_view ?q i" using q'(6) i h' by simp
  consider "i = k" | "i \<noteq> k" "nslots h \<le> i" | "i \<noteq> k" "i < nslots h" by linarith
  then show "?v ! i = ?w ! i"
  proof cases
    case 1
    with q(5) q(3) [OF i] new_item_fields [OF pl] b p(8) view show ?thesis
      by (simp add: slot_view_def tuple_bytes_def)
  next
    case 2
    with q(3) [OF i] i p(8) view show ?thesis by (simp add: slot_view_def nth_append)
  next
    case 3
    then have "slot_view ?q i = slot_view p i"
      using q(3) [OF i] q(4) by (intro slot_view_body [OF ok]) simp_all
    with 3 p(6,8) view show ?thesis by (simp add: nth_append)
  qed
qed

section \<open>Operations\<close>

lemma page_u16_small [simp]: "n < 65536 \<Longrightarrow> page_u16_from_usize n f = Inr (of_nat n)"
  by (simp add: page_u16_from_usize_def)

lemma item_offset_small: "n \<le> 8192 \<Longrightarrow> item_offset_from_usize n = Inr (of_nat n)"
  by (simp add: item_offset_from_usize_def word_less_nat_alt unat_of_nat_small)

lemma tuple_len_check_eq:
  "length t \<le> 32767 \<Longrightarrow> tuple_len_check t = Inr (of_nat (length t))"
  "32767 < length t \<Longrightarrow> \<exists>e. tuple_len_check t = Inl (Malformed e)"
  by (auto simp: tuple_len_check_def word_less_nat_alt unat_of_nat_small)

text \<open>The shared tail of the insertion routines.\<close>

lemma place_tuple_eq:
  assumes "placeable p h k grow t"
  shows "place_tuple h t (of_nat (length t)) p =
    Some (Inr (new_item h t, unat (ph_upper h) - length t), splice_at (unat (ph_upper h) - length t) t p)"
  using placeable_bounds [OF assms] page_okD(1) [of p h] assms
  by (simp add: place_tuple_def usize_sub_def usize_add_def placeable_def item_offset_small Let_def del: of_nat_diff)

lemma finish_insert_eq:
  assumes "placeable p h k grow t"
  shows "finish_insert h (grow * 4) (unat (ph_upper h) - length t) r q = (Inr r, ph_encode (grown h grow (length t)) q)"
proof -
  note b = placeable_bounds [OF assms]
  have "unat (ph_lower h) + 4 * grow < 65536"
    using b assms header_ok_bounds(1) [of h] by (auto simp: placeable_def dest: page_okD(3))
  with b show ?thesis
    by (auto simp: finish_insert_def usize_add_def grown_def mult.commute simp del: of_nat_diff of_nat_add)
qed

lemma write_gaps_eq:
  "\<forall>i \<in> set is. i < 2042 \<Longrightarrow> write_gaps (map of_nat is) p = Some (fill_gaps is p)"
proof (induction "is" arbitrary: p)
  case (Cons i "is")
  then have "unat (of_nat i :: u16) = i" by (simp add: unat_of_nat_small)
  with Cons show ?case by (simp add: write_item_id_eq item_new_def)
qed simp

section \<open>Abstract insertion\<close>

text \<open>
  The abstract page is the list of slot contents with the number of free bytes. Inserting at
  slot \<open>k\<close> grows the list to reach it, filling with unused slots, and pays for the bytes and for
  the new directory entries; a live slot refuses, as does a page without the room.
\<close>

type_synonym abs_page = "slot_view list \<times> nat"

definition page_abs :: "bytes \<Rightarrow> abs_page" where
  "page_abs p = (page_view p, page_free p)"

fun is_live :: "slot_view \<Rightarrow> bool" where
  "is_live (Live _) \<longleftrightarrow> True"
| "is_live (Gone _) \<longleftrightarrow> False"

fun insert_spec :: "nat \<Rightarrow> bytes \<Rightarrow> abs_page \<Rightarrow> (page_error + unit) \<times> abs_page" where
  "insert_spec k t (v, free) =
     (let grow = Suc k - length v; needed = length t + 4 * grow in
      case tuple_len_check t of
        Inl e \<Rightarrow> (Inl e, v, free)
      | Inr _ \<Rightarrow>
          if k < length v \<and> is_live (v ! k) then (Inl (SlotOccupied (of_nat k)), v, free)
          else if free < needed then (Inl (NoSpace needed free), v, free)
          else (Inr (), (v @ replicate grow (Gone Unused))[k := Live t], free - needed))"

declare insert_spec.simps [simp del]

text \<open>The slot \<^verbatim>\<open>insert_tuple\<close> takes: the first unused one, or a new one.\<close>

fun first_unused :: "slot_view list \<Rightarrow> nat" where
  "first_unused [] = 0"
| "first_unused (s # ss) = (if s = Gone Unused then 0 else Suc (first_unused ss))"

lemma first_unused_le: "first_unused v \<le> length v"
  by (induction v) auto

lemma first_unused_nth: "first_unused v < length v \<Longrightarrow> v ! first_unused v = Gone Unused"
  by (induction v) auto

lemma slot_view_simps [simp]:
  "is_live (slot_view p i) \<longleftrightarrow> item_is_normal (item p i)"
  "slot_view p i = Gone f \<longleftrightarrow> item_flags (item p i) = f \<and> f \<noteq> Normal"
  by (auto simp: slot_view_def item_is_normal_def)

lemma find_unused_eq:
  assumes "full_page p" "m + n \<le> 2042"
  shows "find_unused p (map of_nat [m..<m + n]) =
    (let k = first_unused (map (slot_view p) [m..<m + n]) in
     Some (if k < n then Some (of_nat (m + k)) else None))"
  using assms(2)
proof (induction n arbitrary: m)
  case (Suc n)
  have "unat (of_nat m :: u16) = m" using Suc.prems by (simp add: unat_of_nat_small)
  then have "read_item_id p (of_nat m) = Some (item p m)"
    using read_item_id_eq [OF assms(1), of "of_nat m"] Suc.prems by simp
  moreover have "[m..<m + Suc n] = m # [Suc m..<Suc m + n]" by (simp add: upt_rec)
  ultimately show ?case
    using Suc.IH [of "Suc m"] Suc.prems by (simp add: Let_def)
qed simp

lemma find_reusable_eq:
  assumes "page_ok p h"
  shows "find_reusable_slot p (of_nat (nslots h)) =
    Some (if first_unused (page_view p) < nslots h then Some (of_nat (first_unused (page_view p))) else None)"
  using find_unused_eq [OF page_okD(1) [OF assms], of 0 "nslots h"] header_ok_bounds(5) [OF page_okD(3) [OF assms]]
  by (simp add: find_reusable_slot_def slots_eq page_okD [OF assms] Let_def)

lemma insert_spec_cases:
  assumes ok: "page_ok p h"
  obtains (too_long) e where "tuple_len_check t = Inl e" "insert_spec k t (page_abs p) = (Inl e, page_abs p)"
  | (occupied) "tuple_len_check t = Inr (of_nat (length t))" "k < nslots h" "item_is_normal (item p k)"
      "insert_spec k t (page_abs p) = (Inl (SlotOccupied (of_nat k)), page_abs p)"
  | (full) "tuple_len_check t = Inr (of_nat (length t))" "length t \<le> 32767" "\<not> (k < nslots h \<and> item_is_normal (item p k))"
      "page_free p < length t + 4 * (Suc k - nslots h)"
      "insert_spec k t (page_abs p) =
         (Inl (NoSpace (length t + 4 * (Suc k - nslots h)) (page_free p)), page_abs p)"
  | (fits) "tuple_len_check t = Inr (of_nat (length t))" "placeable p h k (Suc k - nslots h) t"
      "insert_spec k t (page_abs p) = (Inr (), page_abs (placed h k (Suc k - nslots h) t p))"
proof -
  note p = page_okD [OF ok]
  have live: "k < nslots h \<Longrightarrow> is_live (page_view p ! k) \<longleftrightarrow> item_is_normal (item p k)" by (simp add: p)
  let ?grow = "Suc k - nslots h"
  consider e where "tuple_len_check t = Inl e"
    | "tuple_len_check t = Inr (of_nat (length t))" "length t \<le> 32767"
    by (cases "length t \<le> 32767") (use tuple_len_check_eq [of t] in auto)
  then show ?thesis
  proof cases
    case 1
    with too_long show ?thesis by (simp add: insert_spec.simps page_abs_def)
  next
    case 2
    consider "k < nslots h \<and> item_is_normal (item p k)"
      | "\<not> (k < nslots h \<and> item_is_normal (item p k))" "page_free p < length t + 4 * ?grow"
      | "\<not> (k < nslots h \<and> item_is_normal (item p k))" "length t + 4 * ?grow \<le> page_free p"
      by linarith
    then show ?thesis
    proof cases
      case 1
      with 2 p(8) live show ?thesis by (intro occupied) (simp_all add: insert_spec.simps page_abs_def)
    next
      case no_room: 2
      with 2 p(8) live show ?thesis by (intro full) (auto simp: insert_spec.simps page_abs_def Let_def)
    next
      case 3
      with ok p(7) have pl: "placeable p h k ?grow t" by (auto simp: placeable_def)
      with 2 3 p(8) live show ?thesis
        by (intro fits) (auto simp: insert_spec.simps page_abs_def Let_def placed_view placed_ok)
    qed
  qed
qed

text \<open>What every insertion into slot \<open>k\<close> promises; an error leaves every byte as it was.\<close>

definition inserts_at :: "nat \<Rightarrow> bytes \<Rightarrow> bytes \<Rightarrow> ((page_error + unit) \<times> bytes) option \<Rightarrow> bool" where
  "inserts_at k t p res \<longleftrightarrow>
     (case res of
        None \<Rightarrow> False
      | Some (r, p') \<Rightarrow> page_inv p' \<and> (r, page_abs p') = insert_spec k t (page_abs p) \<and> (isl r \<longrightarrow> p' = p))"

definition forget_slot :: "((page_error + u16) \<times> bytes) option \<Rightarrow> ((page_error + unit) \<times> bytes) option" where
  "forget_slot = map_option (map_prod (map_sum id (\<lambda>_. ())) id)"

lemma inserts_atI:
  assumes "page_ok p h"
  shows "insert_spec k t (page_abs p) = (Inl e, page_abs p) \<Longrightarrow> inserts_at k t p (Some (Inl e, p))"
    and "placeable p h k grow t \<Longrightarrow> insert_spec k t (page_abs p) = (Inr (), page_abs (placed h k grow t p)) \<Longrightarrow>
      inserts_at k t p (Some (Inr (), placed h k grow t p))"
  using assms placed_ok(1) [of p h k grow t] by (auto simp: inserts_at_def page_inv_iff)

lemma at_slot_inserts:
  assumes "page_inv p"
  shows "inserts_at (unat slot) t p (insert_tuple_at_slot slot t p)"
proof -
  obtain h where ok: "page_ok p h" using assms by (auto simp: page_inv_iff)
  note p = page_okD [OF ok] and n = slot_count_eq [OF page_okD(3) [OF ok]]
    and hb = header_ok_bounds [OF page_okD(3) [OF ok]]
  have le: "of_nat (nslots h) \<le> slot \<longleftrightarrow> nslots h \<le> unat slot"
    using n by (simp add: word_le_nat_alt)
  have rd: "read_item_id p slot = Some (item p (unat slot))" if "unat slot < nslots h"
    using that hb p by (simp add: read_item_id_eq)
  let ?k = "unat slot" and ?grow = "Suc (unat slot) - nslots h"
  from ok show ?thesis
  proof (cases rule: insert_spec_cases [where k = "unat slot" and t = t])
    case too_long
    then show ?thesis using inserts_atI(1) [OF ok] by (simp add: insert_tuple_at_slot_def)
  next
    case occupied
    then have "insert_tuple_at_slot slot t p = Some (Inl (SlotOccupied (of_nat ?k)), p)"
      using le rd p n by (simp add: insert_tuple_at_slot_def)
    then show ?thesis using inserts_atI(1) [OF ok occupied(4)] by simp
  next
    case full
    have "?grow \<le> 65536" using unat_less_pow [of slot] by simp
    with full have "insert_tuple_at_slot slot t p = Some (Inl (NoSpace (length t + 4 * ?grow) (page_free p)), p)"
      using le rd p n try_free_space_eq [OF p(3)]
      by (auto simp: insert_tuple_at_slot_def Let_def usize_add_def)
    then show ?thesis using inserts_atI(1) [OF ok full(5)] by simp
  next
    case fits
    note b = placeable_bounds [OF fits(2)]
    have new: "(if of_nat (nslots h) \<le> slot then unat slot + 1 - unat (of_nat (nslots h) :: u16) else 0) = ?grow"
      using le n by simp
    have gaps: "(if 0 < ?grow then write_gaps (map of_nat [unat (of_nat (nslots h) :: u16)..<unat slot]) q else Some q)
        = Some (fill_gaps [nslots h..<nslots h + ?grow - 1] q)" for q
      using b n by (auto simp: write_gaps_eq)
    have occ: "(if of_nat (nslots h) \<le> slot then Some False
        else do { item \<leftarrow> read_item_id p slot; Some (item_is_normal item) }) = Some False"
      using le rd fits(2) by (auto simp: placeable_def)
    have "length t + ?grow * 4 < 2 ^ 64" "length t + ?grow * 4 \<le> unat (ph_upper h) - unat (ph_lower h)"
      using b fits(2) by (auto simp: placeable_def)
    then have "insert_tuple_at_slot slot t p = Some (Inr (), placed h ?k ?grow t p)"
      unfolding insert_tuple_at_slot_def fits(1) p(5) n(2) try_free_space_eq [OF p(3)] Let_def usize_add_def
        sum.case Option.bind.bind_lunit ITEMID_SIZE_def occ new gaps placed_def
      using place_tuple_eq [OF fits(2)] finish_insert_eq [OF fits(2)] b
      by (simp add: write_item_id_eq del: of_nat_diff One_nat_def)
    then show ?thesis using inserts_atI(2) [OF ok fits(2,3)] by simp
  qed
qed

lemma append_inserts:
  assumes "page_inv p"
  shows "inserts_at (length (page_view p)) t p (forget_slot (insert_tuple_appended t p))"
    "insert_tuple_appended t p = Some (Inr slot, q) \<Longrightarrow> unat slot = length (page_view p)"
proof -
  obtain h where ok: "page_ok p h" using assms by (auto simp: page_inv_iff)
  note p = page_okD [OF ok] and n = slot_count_eq [OF page_okD(3) [OF ok]]
    and hb = header_ok_bounds [OF page_okD(3) [OF ok]]
  have "inserts_at (nslots h) t p (forget_slot (insert_tuple_appended t p))
      \<and> (insert_tuple_appended t p = Some (Inr slot, q) \<longrightarrow> unat slot = nslots h)"
    using ok
  proof (cases rule: insert_spec_cases [where k = "nslots h" and t = t])
    case too_long
    then show ?thesis using inserts_atI(1) [OF ok] by (simp add: insert_tuple_appended_def forget_slot_def)
  next
    case full
    then have "insert_tuple_appended t p = Some (Inl (NoSpace (length t + 4) (page_free p)), p)"
      using p try_free_space_eq [OF p(3)] by (simp add: insert_tuple_appended_def Let_def usize_add_def)
    then show ?thesis using inserts_atI(1) [OF ok full(5)] by (simp add: forget_slot_def)
  next
    case fits
    have pl: "placeable p h (nslots h) 1 t" using fits(2) by simp
    note b = placeable_bounds [OF pl]
    have "insert_tuple_appended t p = Some (Inr (of_nat (nslots h)), placed h (nslots h) 1 t p)"
      using fits(1) p n try_free_space_eq [OF p(3)] b hb place_tuple_eq [OF pl] finish_insert_eq [OF pl] pl
      by (simp add: insert_tuple_appended_def Let_def usize_add_def write_item_id_eq placed_def placeable_def)
    then show ?thesis using inserts_atI(2) [OF ok pl] fits(3) n by (auto simp: forget_slot_def)
  qed simp
  then show "inserts_at (length (page_view p)) t p (forget_slot (insert_tuple_appended t p))"
    "insert_tuple_appended t p = Some (Inr slot, q) \<Longrightarrow> unat slot = length (page_view p)"
    by (simp_all add: p)
qed

lemma insert_inserts:
  assumes "page_inv p"
  shows "inserts_at (first_unused (page_view p)) t p (forget_slot (insert_tuple t p))"
    "insert_tuple t p = Some (Inr slot, q) \<Longrightarrow> unat slot = first_unused (page_view p)"
proof -
  obtain h where ok: "page_ok p h" using assms by (auto simp: page_inv_iff)
  note p = page_okD [OF ok] and n = slot_count_eq [OF page_okD(3) [OF ok]]
    and hb = header_ok_bounds [OF page_okD(3) [OF ok]]
  define k where "k = first_unused (page_view p)"
  have kn: "k \<le> nslots h" using first_unused_le [of "page_view p"] p(8) by (simp add: k_def)
  have dead: "\<not> item_is_normal (item p k)" if "k < nslots h"
    using first_unused_nth [of "page_view p"] that p(6,8) by (simp add: k_def item_is_normal_def)
  have ku: "unat (of_nat k :: u16) = k" using kn hb by (simp add: unat_of_nat_small)
  define grow where "grow = Suc k - nslots h"
  define reuse where "reuse = (if k < nslots h then Some (of_nat k :: u16) else None)"
  have reuse: "find_reusable_slot p (of_nat (nslots h)) = Some reuse"
    using find_reusable_eq [OF ok] by (simp add: reuse_def k_def)
  have needed: "(if reuse = None then ITEMID_SIZE else 0) = grow * 4"
    and taken: "(case reuse of Some idx \<Rightarrow> idx | None \<Rightarrow> of_nat (nslots h)) = of_nat k"
    and gap: "[nslots h..<nslots h + grow - 1] = []"
    using kn by (auto simp: grow_def reuse_def)
  note start = tuple_len_check_eq p(5) n(2) reuse needed taken try_free_space_eq [OF p(3)]
  have "inserts_at k t p (forget_slot (insert_tuple t p)) \<and> (insert_tuple t p = Some (Inr slot, q) \<longrightarrow> unat slot = k)"
    using ok
  proof (cases rule: insert_spec_cases [where k = k and t = t])
    case too_long
    then show ?thesis using inserts_atI(1) [OF ok] by (simp add: insert_tuple_def forget_slot_def)
  next
    case occupied
    with dead show ?thesis by simp
  next
    case full
    have "length t + grow * 4 < 2 ^ 64" using full(2) kn by (simp add: grow_def)
    with full have "insert_tuple t p = Some (Inl (NoSpace (length t + 4 * grow) (page_free p)), p)"
      by (simp add: insert_tuple_def Let_def usize_add_def start p(7) grow_def [symmetric] mult.commute del: page_sizes)
    then show ?thesis using inserts_atI(1) [OF ok full(5)] by (simp add: forget_slot_def grow_def)
  next
    case fits
    have pl: "placeable p h k grow t" using fits(2) by (simp add: grow_def)
    note b = placeable_bounds [OF pl]
    have "length t + grow * 4 < 2 ^ 64" "length t + grow * 4 \<le> unat (ph_upper h) - unat (ph_lower h)"
      using b pl by (auto simp: placeable_def)
    then have "insert_tuple t p = Some (Inr (of_nat k), placed h k grow t p)"
      using b ku by (simp add: insert_tuple_def Let_def usize_add_def start fits(1) place_tuple_eq [OF pl]
          finish_insert_eq [OF pl] write_item_id_eq placed_def gap del: page_sizes of_nat_diff One_nat_def)
    then show ?thesis using inserts_atI(2) [OF ok pl] fits(3) ku by (auto simp: forget_slot_def grow_def)
  qed
  then show "inserts_at (first_unused (page_view p)) t p (forget_slot (insert_tuple t p))"
    "insert_tuple t p = Some (Inr slot, q) \<Longrightarrow> unat slot = first_unused (page_view p)"
    by (simp_all add: k_def)
qed

lemma map_sum_eq_Inr: "map_sum f g r = Inr y \<longleftrightarrow> (\<exists>x. r = Inr x \<and> g x = y)"
  by (cases r) auto

lemma forget_slot_eq: "forget_slot res = Some (Inr (), q) \<Longrightarrow> \<exists>slot. res = Some (Inr slot, q)"
  by (auto simp: forget_slot_def map_sum_eq_Inr)

lemma append_succeeds:
  assumes "page_inv p" "page_abs p = (v, free)" "insert_spec (length v) t (v, free) = (Inr (), a)"
  obtains q where "insert_tuple_appended t p = Some (Inr (of_nat (length v)), q)" "page_inv q" "page_abs q = a"
proof -
  note ins = append_inserts [OF assms(1), where t = t]
  have v: "page_view p = v" using assms(2) by (simp add: page_abs_def)
  from ins(1) assms(2,3) obtain q where
    q: "forget_slot (insert_tuple_appended t p) = Some (Inr (), q)" "page_inv q" "page_abs q = a"
    by (auto simp: inserts_at_def v split: option.splits)
  from forget_slot_eq [OF q(1)] obtain slot where slot: "insert_tuple_appended t p = Some (Inr slot, q)" ..
  have "length v = unat slot" using ins(2) [OF slot] v by simp
  then have "of_nat (length v) = slot" by simp
  with slot q that show ?thesis by simp
qed

end
