(* ===== verification/Page_Compact.thy ===== *)
theory Page_Compact
  imports Page_Insert "HOL-Library.Multiset"
begin

text \<open>
  Reading, deletion and compaction of the slotted page against its abstract view. Compaction
  slides the live tuples up in descending offset order; the rolling write never reaches a
  tuple it has still to move, so every live slot keeps its bytes.
\<close>

section \<open>Reading and deleting\<close>

fun read_spec :: "slot_view list \<Rightarrow> u16 \<Rightarrow> page_error + bytes" where
  "read_spec v slot =
     (if unat slot < length v
      then case v ! unat slot of Live t \<Rightarrow> Inr t | Gone _ \<Rightarrow> Inl (DeadSlot slot)
      else Inl (InvalidSlot slot (of_nat (length v))))"

declare read_spec.simps [simp del]

lemma slot_in_range:
  assumes "page_ok p h"
  shows "of_nat (nslots h) \<le> (slot :: u16) \<longleftrightarrow> nslots h \<le> unat slot"
    "unat slot < nslots h \<Longrightarrow> read_item_id p slot = Some (item p (unat slot))"
  using slot_count_eq [OF page_okD(3) [OF assms]] header_ok_bounds(5) [OF page_okD(3) [OF assms]] page_okD(1) [OF assms]
  by (simp_all add: word_le_nat_alt read_item_id_eq)

lemma read_tuple_view:
  assumes "page_inv p"
  shows "read_tuple p slot = Some (read_spec (page_view p) slot)"
proof -
  obtain h where ok: "page_ok p h" using assms by (auto simp: page_inv_iff)
  note p = page_okD [OF ok] and n = slot_count_eq [OF page_okD(3) [OF ok]] and r = slot_in_range [OF ok, of slot]
  show ?thesis
  proof (cases "unat slot < nslots h")
    case True
    with live_bounds [OF ok True] p r n show ?thesis
      by (auto simp: read_tuple_def read_spec.simps slot_view_def tuple_bytes_def Let_def)
  next
    case False
    with p r n show ?thesis by (simp add: read_tuple_def read_spec.simps)
  qed
qed

text \<open>Replacing a pointer by one that is not live.\<close>

lemma kill_item:
  assumes ok: "page_ok p h" and i: "i < nslots h" and it: "\<not> item_is_normal it"
  shows "page_ok (set_item i it p) h"
    "page_abs (set_item i it p) = ((page_view p)[i := Gone (item_flags it)], page_free p)"
proof -
  note p = page_okD [OF ok] and hb = header_ok_bounds [OF page_okD(3) [OF ok]]
  let ?q = "set_item i it p"
  have i': "i < 2042" using i hb by simp
  have item: "item ?q j = (if i = j then it else item p j)" if "j < nslots h" for j
    using that hb i' p(1) by (simp add: item_set_item)
  have body: "slice a b ?q = slice a b p" if "unat (ph_upper h) \<le> a" "b \<le> 8192" for a b
    using that i hb i' p(1) by (simp add: slice_set_item)
  have "directory_ok ?q h"
    using p(4) it item by (auto simp: directory_ok_def split: if_splits)
  with p i' show ok': "page_ok ?q h" by (simp add: page_ok_def ph_decode_set_item)
  have "page_view ?q = (page_view p)[i := Gone (item_flags it)]"
  proof (rule nth_equalityI)
    fix j
    assume "j < length (page_view ?q)"
    then have j: "j < nslots h" using page_okD(8) [OF ok'] by simp
    then have v: "page_view ?q ! j = slot_view ?q j" using page_okD(6) [OF ok'] by simp
    show "page_view ?q ! j = (page_view p)[i := Gone (item_flags it)] ! j"
    proof (cases "i = j")
      case True
      with it item [OF j] j v p(8) show ?thesis by (simp add: slot_view_def)
    next
      case False
      then have "slot_view ?q j = slot_view p j"
        using item [OF j] j body by (intro slot_view_body [OF ok]) simp_all
      with False j v show ?thesis by (simp add: p(6))
    qed
  qed (simp add: page_okD(8) [OF ok'] p(8))
  then show "page_abs ?q = ((page_view p)[i := Gone (item_flags it)], page_free p)"
    by (simp add: page_abs_def page_okD(7) [OF ok'] p(7))
qed

lemma delete_tuple_view:
  assumes "page_inv p"
  obtains (gone) e where "read_spec (page_view p) slot = Inl e" "delete_tuple slot p = Some (Inl e, p)"
  | (live) t p' where "read_spec (page_view p) slot = Inr t" "delete_tuple slot p = Some (Inr (), p')" "page_inv p'"
      "page_abs p' = ((page_view p)[unat slot := Gone Dead], page_free p)"
proof -
  obtain h where ok: "page_ok p h" using assms by (auto simp: page_inv_iff)
  note p = page_okD [OF ok] and n = slot_count_eq [OF page_okD(3) [OF ok]] and r = slot_in_range [OF ok, of slot]
    and hb = header_ok_bounds [OF page_okD(3) [OF ok]]
  let ?it = "item p (unat slot)"
  let ?dead = "item_new (item_offset ?it) (item_length ?it) Dead"
  have dead: "item_flags ?dead = Dead" "\<not> item_is_normal ?dead"
    by (simp_all add: item_fields item_is_normal_def)
  show ?thesis
  proof (cases "unat slot < nslots h \<and> item_is_normal ?it")
    case True
    with p r n hb have "delete_tuple slot p = Some (Inr (), set_item (unat slot) ?dead p)"
      by (simp add: delete_tuple_def write_item_id_eq)
    with True kill_item [OF ok _ dead(2)] dead(1) p(6,8) show ?thesis
      by (intro live [of "tuple_bytes p ?it" "set_item (unat slot) ?dead p"])
        (auto simp: read_spec.simps slot_view_def page_inv_iff)
  next
    case False
    with p r n show ?thesis
      by (intro gone [of "if unat slot < nslots h then DeadSlot slot else InvalidSlot slot (of_nat (nslots h))"])
        (auto simp: delete_tuple_def read_spec.simps slot_view_def)
  qed
qed

section \<open>The rolling move\<close>

type_synonym live_tuple = "u16 \<times> u32 \<times> u32"

abbreviation lt_slot :: "live_tuple \<Rightarrow> nat" where "lt_slot t \<equiv> unat (fst t)"
abbreviation lt_off :: "live_tuple \<Rightarrow> nat" where "lt_off t \<equiv> unat (fst (snd t))"
abbreviation lt_len :: "live_tuple \<Rightarrow> nat" where "lt_len t \<equiv> unat (snd (snd t))"
abbreviation lt_end :: "live_tuple \<Rightarrow> nat" where "lt_end t \<equiv> lt_off t + lt_len t"

text \<open>
  The tuples still to move: distinct slots below \<open>lo\<close>, bytes between \<open>lo\<close> and the write end,
  offsets descending, no two overlapping.
\<close>

definition movable :: "nat \<Rightarrow> nat \<Rightarrow> live_tuple list \<Rightarrow> bool" where
  "movable lo w ts \<longleftrightarrow>
     w \<le> PAGE_SIZE \<and> distinct (map fst ts)
     \<and> (\<forall>t \<in> set ts. 28 + 4 * lt_slot t \<le> lo \<and> lo \<le> lt_off t \<and> lt_end t \<le> w \<and> lt_len t < 2 ^ 15)
     \<and> sorted_wrt (\<lambda>x y. lt_off y \<le> lt_off x \<and> (lt_end y \<le> lt_off x \<or> lt_end x \<le> lt_off y)) ts"

definition moved_tuple :: "nat \<Rightarrow> nat \<Rightarrow> bytes \<Rightarrow> bytes \<Rightarrow> live_tuple \<Rightarrow> bool" where
  "moved_tuple lo w p q t \<longleftrightarrow>
     (let it = item q (lt_slot t) in
      item_is_normal it \<and> unat (item_length it) = lt_len t \<and> lo \<le> unat (item_offset it)
      \<and> unat (item_offset it) + lt_len t \<le> w \<and> tuple_bytes q it = slice (lt_off t) (lt_end t) p)"

definition moved :: "nat \<Rightarrow> nat \<Rightarrow> nat \<Rightarrow> live_tuple list \<Rightarrow> bytes \<Rightarrow> bytes \<Rightarrow> bool" where
  "moved lo w w' ts p q \<longleftrightarrow>
     full_page q \<and> ph_decode q = ph_decode p
     \<and> (\<forall>i. 28 + 4 * i \<le> lo \<and> i \<notin> lt_slot ` set ts \<longrightarrow> item q i = item p i)
     \<and> (\<forall>t \<in> set ts. moved_tuple w' w p q t)
     \<and> (\<forall>t \<in> set ts. \<forall>u \<in> set ts. lt_slot t \<noteq> lt_slot u \<longrightarrow> apart (item q (lt_slot t)) (item q (lt_slot u)))
     \<and> (\<forall>a b. w \<le> a \<and> b \<le> PAGE_SIZE \<longrightarrow> slice a b q = slice a b p)"

definition total_len :: "live_tuple list \<Rightarrow> nat" where
  "total_len ts = sum_list (map lt_len ts)"

lemma splice_slice_same: "b \<le> length p \<Longrightarrow> a \<le> b \<Longrightarrow> splice_at a (slice a b p) p = p"
  by (simp add: splice_at_def slice_def) (metis append_take_drop_id drop_drop le_add_diff_inverse2)

lemma movable_Cons:
  assumes "movable lo w (t # ts)"
  shows "28 + 4 * lt_slot t \<le> lo" "lo \<le> lt_off t" "lt_off t \<le> w - lt_len t" "lt_len t \<le> w" "w \<le> PAGE_SIZE"
    "lt_len t < 2 ^ 15" "movable lo (w - lt_len t) ts" "fst t \<notin> set (map fst ts)"
proof -
  show "28 + 4 * lt_slot t \<le> lo" "lo \<le> lt_off t" "lt_off t \<le> w - lt_len t" "lt_len t \<le> w" "w \<le> PAGE_SIZE"
    "lt_len t < 2 ^ 15" "fst t \<notin> set (map fst ts)"
    using assms by (auto simp: movable_def)
  have "lt_end u \<le> w - lt_len t" if "u \<in> set ts" for u
    using assms that by (fastforce simp: movable_def)
  with assms show "movable lo (w - lt_len t) ts" by (auto simp: movable_def)
qed

lemma movable_total: "movable lo w ts \<Longrightarrow> lo \<le> w \<Longrightarrow> lo + total_len ts \<le> w"
proof (induction ts arbitrary: w)
  case (Cons t ts)
  note m = movable_Cons [OF Cons.prems(1)]
  have "lo \<le> w - lt_len t" using m(2,3) by simp
  from Cons.IH [OF m(7) this] m(4) show ?case by (simp add: total_len_def)
qed (simp add: total_len_def)

text \<open>One step of the move, and its composition with the rest.\<close>

definition move_one :: "nat \<Rightarrow> live_tuple \<Rightarrow> bytes \<Rightarrow> bytes" where
  "move_one w t p =
     set_item (lt_slot t) (item_new (of_nat (w - lt_len t)) (snd (snd t)) Normal)
       (splice_at (w - lt_len t) (slice (lt_off t) (lt_end t) p) p)"

lemma move_live_Cons:
  assumes "movable lo w (t # ts)" "full_page p" "lo \<le> PAGE_SIZE"
  shows "move_live (t # ts) w p = move_live ts (w - lt_len t) (move_one w t p)"
proof -
  note m = movable_Cons [OF assms(1)]
  obtain slot off len where t: "t = (slot, off, len)" by (cases t)
  have "splice_at (unat off) (slice (unat off) (unat off + unat len) p) p = p"
    using m assms(2) by (intro splice_slice_same) (simp_all add: t)
  moreover have "unat off + unat len \<le> 8192" using m by (simp add: t)
  ultimately show ?thesis
    using m assms(2,3) by (simp add: t move_one_def usize_sub_def item_offset_small write_item_id_eq Let_def del: of_nat_diff)
qed

lemma move_one_facts:
  assumes "movable lo w (t # ts)" "full_page p" "lo \<le> PAGE_SIZE"
  defines "q \<equiv> move_one w t p" and "it \<equiv> item_new (of_nat (w - lt_len t)) (snd (snd t)) Normal"
  shows "full_page q" "ph_decode q = ph_decode p" "item q (lt_slot t) = it"
    "28 + 4 * i \<le> lo \<Longrightarrow> i \<noteq> lt_slot t \<Longrightarrow> item q i = item p i"
    "b \<le> w - lt_len t \<Longrightarrow> lo \<le> a \<Longrightarrow> slice a b q = slice a b p"
    "w \<le> a \<Longrightarrow> b \<le> PAGE_SIZE \<Longrightarrow> slice a b q = slice a b p"
    "slice (w - lt_len t) w q = slice (lt_off t) (lt_end t) p"
    "item_is_normal it" "item_length it = snd (snd t)" "unat (item_offset it) = w - lt_len t"
proof -
  note m = movable_Cons [OF assms(1)]
  let ?s = "splice_at (w - lt_len t) (slice (lt_off t) (lt_end t) p) p"
  have len: "length (slice (lt_off t) (lt_end t) p) = lt_len t" using m assms(2) by simp
  have s: "full_page ?s" using len m assms(2) by simp
  have k: "lt_slot t < 2042" using m(1) assms(3) by simp
  have q: "q = set_item (lt_slot t) it ?s" by (simp only: q_def it_def move_one_def)
  show "full_page q" "item q (lt_slot t) = it" using s k by (simp_all add: q item_set_item)
  show "ph_decode q = ph_decode p"
    using s k m len assms(2) by (simp add: q ph_decode_set_item ph_decode_splice_at)
  show "item q i = item p i" if "28 + 4 * i \<le> lo" "i \<noteq> lt_slot t"
    using that s k m len assms(2,3) by (simp add: q item_set_item item_splice_at)
  have body: "slice a b q = slice a b ?s" if "lo \<le> a" "b \<le> PAGE_SIZE" for a b
    using that m s k by (simp add: q slice_set_item)
  show "slice a b q = slice a b p" if "b \<le> w - lt_len t" "lo \<le> a"
    using that body [of a b] m len assms(2) by (simp add: slice_splice_at_disjoint)
  show "slice a b q = slice a b p" if "w \<le> a" "b \<le> PAGE_SIZE"
    using that body [of a b] m len assms(2) by (simp add: slice_splice_at_disjoint)
  show "slice (w - lt_len t) w q = slice (lt_off t) (lt_end t) p"
    using body [of "w - lt_len t" w] m len assms(2) by (simp add: slice_splice_at_same)
  show "item_is_normal it" by (simp add: it_def item_is_normal_def item_fields)
  show "item_length it = snd (snd t)" "unat (item_offset it) = w - lt_len t"
    using m by (simp_all add: it_def item_new_nat del: of_nat_diff)
qed

lemma movedD:
  assumes "moved lo w w' ts p q"
  shows "full_page q" "ph_decode q = ph_decode p"
    "28 + 4 * i \<le> lo \<Longrightarrow> i \<notin> lt_slot ` set ts \<Longrightarrow> item q i = item p i"
    "t \<in> set ts \<Longrightarrow> moved_tuple w' w p q t"
    "t \<in> set ts \<Longrightarrow> u \<in> set ts \<Longrightarrow> lt_slot t \<noteq> lt_slot u \<Longrightarrow> apart (item q (lt_slot t)) (item q (lt_slot u))"
    "w \<le> a \<Longrightarrow> b \<le> PAGE_SIZE \<Longrightarrow> slice a b q = slice a b p"
  using assms by (auto simp: moved_def)

lemma moved_Cons:
  assumes mv: "movable lo w (t # ts)" and p: "full_page p" and lo: "lo \<le> PAGE_SIZE"
    and rest: "moved lo (w - lt_len t) w' ts (move_one w t p) q" and w': "w' \<le> w - lt_len t"
  shows "moved lo w w' (t # ts) p q"
proof -
  note m = movable_Cons [OF mv] and one = move_one_facts [OF mv p lo] and r = movedD [OF rest]
  have slot: "lt_slot t \<notin> lt_slot ` set ts"
    using m(8) by (auto simp flip: word_unat_eq_iff) (metis fst_conv image_eqI)
  have it: "item q (lt_slot t) = item_new (of_nat (w - lt_len t)) (snd (snd t)) Normal"
    using r(3) [OF m(1) slot] one(3) by simp
  have head: "moved_tuple w' w p q t"
    unfolding moved_tuple_def it Let_def tuple_bytes_def
    using one(8-10) m(4,5) w' r(6) [of "w - lt_len t" w] one(7) by simp
  have tail: "moved_tuple w' w p q u" if u: "u \<in> set ts" for u
  proof -
    have "slice (lt_off u) (lt_end u) (move_one w t p) = slice (lt_off u) (lt_end u) p"
      using m(7) u by (intro one(5)) (auto simp: movable_def)
    with r(4) [OF u] show ?thesis by (auto simp: moved_tuple_def Let_def)
  qed
  have low: "apart (item q (lt_slot u)) (item q (lt_slot t))" if "u \<in> set ts" for u
    using r(4) [OF that] one(8-10) it by (simp add: apart_def moved_tuple_def Let_def)
  have pairs: "apart (item q (lt_slot x)) (item q (lt_slot y))"
    if "x \<in> set (t # ts)" "y \<in> set (t # ts)" "lt_slot x \<noteq> lt_slot y" for x y
    using that low [of x] low [of y] r(5) [of x y] by (auto intro: apart_sym)
  have items: "item q i = item p i" if "28 + 4 * i \<le> lo" "i \<notin> lt_slot ` set (t # ts)" for i
    using that r(3) [of i] one(4) [of i] by simp
  have "slice a b q = slice a b p" if "w \<le> a" "b \<le> PAGE_SIZE" for a b
    using that r(6) [of a b] one(6) [of a b] by simp
  with r(1,2) one(2) head tail pairs items show ?thesis by (simp add: moved_def)
qed

lemma move_live_moved:
  "movable lo w ts \<Longrightarrow> full_page p \<Longrightarrow> lo \<le> w \<Longrightarrow>
   \<exists>q. move_live ts w p = Some (Inr (w - total_len ts), q) \<and> moved lo w (w - total_len ts) ts p q"
proof (induction ts arbitrary: w p)
  case Nil
  then show ?case by (simp add: moved_def total_len_def)
next
  case (Cons t ts)
  note m = movable_Cons [OF Cons.prems(1)]
  have lo: "lo \<le> PAGE_SIZE" "lo \<le> w - lt_len t" using Cons.prems(3) m by simp_all
  have "full_page (move_one w t p)" by (rule move_one_facts(1) [OF Cons.prems(1,2) lo(1)])
  from Cons.IH [OF m(7) this lo(2)] obtain q where
    q: "move_live ts (w - lt_len t) (move_one w t p) = Some (Inr (w - lt_len t - total_len ts), q)"
      "moved lo (w - lt_len t) (w - lt_len t - total_len ts) ts (move_one w t p) q" by blast
  have "w - lt_len t - total_len ts = w - total_len (t # ts)" by (simp add: total_len_def)
  with q moved_Cons [OF Cons.prems(1,2) lo(1) q(2)] show ?case
    by (simp only: move_live_Cons [OF Cons.prems(1,2) lo(1)]) simp
qed

section \<open>Compaction\<close>

fun compact_view :: "slot_view \<Rightarrow> slot_view" where
  "compact_view (Live t) = Live t"
| "compact_view (Gone f) = Gone (if f = Dead then Unused else f)"

fun live_bytes :: "slot_view \<Rightarrow> nat" where
  "live_bytes (Live t) = length t"
| "live_bytes (Gone _) = 0"

text \<open>The live tuples as the first loop gathers them.\<close>

definition live_list :: "bytes \<Rightarrow> nat list \<Rightarrow> live_tuple list" where
  "live_list p is =
     map (\<lambda>i. (of_nat i, item_offset (item p i), item_length (item p i))) (filter (\<lambda>i. item_is_normal (item p i)) is)"

lemma gather_live_eq:
  assumes "full_page p" "\<forall>i \<in> set is. i < 2042"
  shows "gather_live p (map of_nat is) = Some (live_list p is)"
  using assms(2)
proof (induction "is")
  case (Cons i "is")
  then have "unat (of_nat i :: u16) = i" by (simp add: unat_of_nat_small)
  with Cons read_item_id_eq [OF assms(1), of "of_nat i"] show ?case by (simp add: live_list_def)
qed (simp add: live_list_def)

lemma clear_dead_eq:
  assumes "full_page p" "\<forall>i \<in> set is. i < 2042" "distinct is"
  shows "clear_dead (map of_nat is) p = Some (fill_gaps (filter (\<lambda>i. item_flags (item p i) = Dead) is) p)"
  using assms
proof (induction "is" arbitrary: p)
  case (Cons i "is")
  then have i: "i < 2042" "unat (of_nat i :: u16) = i" by (simp_all add: unat_of_nat_small)
  have zero: "item_new 0 0 Unused = 0" by (simp add: item_new_def)
  show ?case
  proof (cases "item_flags (item p i) = Dead")
    case True
    have "filter (\<lambda>j. item_flags (item (set_item i 0 p) j) = Dead) is = filter (\<lambda>j. item_flags (item p j) = Dead) is"
      using Cons.prems i by (intro filter_cong) (auto simp: item_set_item)
    then show ?thesis
      using Cons.IH [of "set_item i 0 p"] Cons.prems i True read_item_id_eq [of p "of_nat i"]
        write_item_id_eq [of "of_nat i"] zero by simp
  next
    case False
    then show ?thesis
      using Cons.IH [of p] Cons.prems i read_item_id_eq [of p "of_nat i"] by simp
  qed
qed simp

abbreviation off_key :: "live_tuple \<Rightarrow> nat" where
  "off_key \<equiv> \<lambda>(s, off, len). unat ITEM_MAX_OFFSET - unat off"

lemma live_list_set:
  assumes "page_ok p h" "t \<in> set (live_list p [0..<nslots h])"
  obtains i where "i < nslots h" "lt_slot t = i" "item_is_normal (item p i)" "fst (snd t) = item_offset (item p i)"
    "snd (snd t) = item_length (item p i)"
proof -
  from assms(2) obtain i where i: "i < nslots h" "item_is_normal (item p i)"
    "t = (of_nat i, item_offset (item p i), item_length (item p i))" by (auto simp: live_list_def)
  then have "unat (of_nat i :: u16) = i"
    using header_ok_bounds(5) [OF page_okD(3) [OF assms(1)]] by (simp add: unat_of_nat_small)
  with i that show ?thesis by simp
qed

lemma live_list_mem:
  assumes "page_ok p h" "i < nslots h" "item_is_normal (item p i)"
  shows "(of_nat i, item_offset (item p i), item_length (item p i)) \<in> set (live_list p [0..<nslots h])"
    "unat (of_nat i :: u16) = i"
  using assms(2,3) header_ok_bounds(5) [OF page_okD(3) [OF assms(1)]]
  by (simp_all add: live_list_def unat_of_nat_small)

lemma sorted_wrt_pairs:
  assumes "sorted_wrt P xs" "distinct xs" "\<And>x y. x \<in> set xs \<Longrightarrow> y \<in> set xs \<Longrightarrow> x \<noteq> y \<Longrightarrow> P x y \<Longrightarrow> Q x y"
  shows "sorted_wrt Q xs"
  using assms by (induction xs) auto

lemma live_sorted_movable:
  assumes ok: "page_ok p h"
  shows "movable (unat (ph_lower h)) (unat (ph_special h)) (sort_key off_key (live_list p [0..<nslots h]))"
proof -
  note hb = header_ok_bounds [OF page_okD(3) [OF ok]]
  let ?L = "live_list p [0..<nslots h]"
  have inj: "inj_on (of_nat :: nat \<Rightarrow> u16) {0..<nslots h}"
    using hb by (intro inj_on_inverseI [where g = unat]) (simp add: unat_of_nat_small)
  have "map fst ?L = map of_nat (filter (\<lambda>i. item_is_normal (item p i)) [0..<nslots h])"
    by (simp add: live_list_def)
  then have dist: "distinct (map fst ?L)"
    using inj_on_subset [OF inj] by (simp add: distinct_map subset_iff del: map_map)
  then have dist': "distinct (map fst (sort_key off_key ?L))"
    by (simp add: distinct_map)
  have key: "lt_off y \<le> lt_off x" if le: "off_key x \<le> off_key y" and y: "y \<in> set ?L" for x y
  proof -
    obtain i where "fst (snd y) = item_offset (item p i)"
      using live_list_set [OF ok y] by blast
    with item_bounds(2) [of "item p i"] le show ?thesis by (cases x; cases y) auto
  qed
  have "lt_end y \<le> lt_off x \<or> lt_end x \<le> lt_off y" if x: "x \<in> set ?L" and y: "y \<in> set ?L" and ne: "x \<noteq> y" for x y
  proof -
    obtain i where i: "i < nslots h" "lt_slot x = i" "item_is_normal (item p i)" "fst (snd x) = item_offset (item p i)"
      "snd (snd x) = item_length (item p i)" using live_list_set [OF ok x] by blast
    obtain j where j: "j < nslots h" "lt_slot y = j" "item_is_normal (item p j)" "fst (snd y) = item_offset (item p j)"
      "snd (snd y) = item_length (item p j)" using live_list_set [OF ok y] by blast
    have "i \<noteq> j" using ne i j by (cases x; cases y) (auto simp flip: word_unat_eq_iff)
    from live_apart [OF ok i(1) j(1) this i(3) j(3)] i j show ?thesis by (auto simp: apart_def)
  qed
  moreover have "sorted_wrt (\<lambda>x y. off_key x \<le> off_key y) (sort_key off_key ?L)"
    using sorted_sort_key [of off_key ?L] by (simp add: sorted_map)
  ultimately have "sorted_wrt (\<lambda>x y. lt_off y \<le> lt_off x \<and> (lt_end y \<le> lt_off x \<or> lt_end x \<le> lt_off y)) (sort_key off_key ?L)"
    using key dist' by (elim sorted_wrt_pairs) (simp_all add: distinct_map)
  moreover have "28 + 4 * lt_slot t \<le> unat (ph_lower h) \<and> unat (ph_lower h) \<le> lt_off t \<and> lt_end t \<le> unat (ph_special h)
      \<and> lt_len t < 2 ^ 15" if t: "t \<in> set ?L" for t
  proof -
    obtain i where "i < nslots h" "lt_slot t = i" "item_is_normal (item p i)" "fst (snd t) = item_offset (item p i)"
      "snd (snd t) = item_length (item p i)" using live_list_set [OF ok t] by blast
    with live_bounds [OF ok this(1,3)] hb item_bounds(1) [of "item p i"] show ?thesis by simp
  qed
  ultimately show ?thesis using dist' hb(4) by (simp add: movable_def)
qed

lemma total_live:
  assumes ok: "page_ok p h"
  shows "total_len (sort_key f (live_list p [0..<nslots h])) = sum_list (map live_bytes (page_view p))"
proof -
  have "total_len (sort_key f ts) = total_len ts" for ts :: "live_tuple list"
    unfolding total_len_def by (simp flip: sum_mset_sum_list)
  moreover have "total_len (live_list p is) = sum_list (map live_bytes (map (slot_view p) is))"
    if "set is \<subseteq> {0..<nslots h}" for "is"
    using that
  proof (induction "is")
    case (Cons i "is")
    have "length (tuple_bytes p (item p i)) = unat (item_length (item p i))" if "item_is_normal (item p i)"
      using live_bounds(2) [OF ok _ that] Cons.prems page_okD(1) [OF ok] header_ok_bounds(4) [OF page_okD(3) [OF ok]]
      by (simp add: tuple_bytes_def)
    with Cons show ?case by (auto simp: total_len_def live_list_def slot_view_def)
  qed (simp add: total_len_def live_list_def)
  ultimately show ?thesis by (simp add: page_okD(6) [OF ok])
qed

text \<open>The page compaction leaves, and the facts that determine what it shows.\<close>

definition compacted :: "page_header \<Rightarrow> nat \<Rightarrow> bytes \<Rightarrow> bytes" where
  "compacted h w q =
     ph_encode (h\<lparr>ph_upper := of_nat w\<rparr>) (fill_gaps (filter (\<lambda>i. item_flags (item q i) = Dead) [0..<nslots h]) q)"

lemma compact_eq:
  assumes ok: "page_ok p h"
  defines "ts \<equiv> sort_key off_key (live_list p [0..<nslots h])"
  defines "w \<equiv> unat (ph_special h) - sum_list (map live_bytes (page_view p))"
  obtains q where "moved (unat (ph_lower h)) (unat (ph_special h)) w ts p q" "compact p = Some (Inr (), compacted h w q)"
    "unat (ph_lower h) + sum_list (map live_bytes (page_view p)) \<le> unat (ph_special h)"
proof -
  note p = page_okD [OF ok] and n = slot_count_eq [OF page_okD(3) [OF ok]]
    and hb = header_ok_bounds [OF page_okD(3) [OF ok]] and mv = live_sorted_movable [OF ok, folded ts_def]
  have le: "unat (ph_lower h) \<le> unat (ph_special h)" using hb by simp
  have w: "unat (ph_special h) - total_len ts = w" by (simp only: ts_def w_def total_live [OF ok])
  obtain q where q: "move_live ts (unat (ph_special h)) p = Some (Inr w, q)"
      "moved (unat (ph_lower h)) (unat (ph_special h)) w ts p q"
    using move_live_moved [OF mv p(1) le] w by auto
  have small: "\<forall>i \<in> set [0..<nslots h]. i < 2042" using hb by simp
  have "w < 65536" using w hb by simp
  moreover have "clear_dead (map of_nat [0..<nslots h]) q =
      Some (fill_gaps (filter (\<lambda>i. item_flags (item q i) = Dead) [0..<nslots h]) q)"
    by (rule clear_dead_eq [OF movedD(1) [OF q(2)] small]) simp
  ultimately have "compact p = Some (Inr (), compacted h w q)"
    unfolding compact_def p(5) n(2) slots_eq [OF p(3)] Option.bind.bind_lunit gather_live_eq [OF p(1) small]
      ts_def [symmetric] q(1)
    by (simp add: compacted_def)
  moreover have "unat (ph_lower h) + sum_list (map live_bytes (page_view p)) \<le> unat (ph_special h)"
    using movable_total [OF mv le] by (simp only: ts_def total_live [OF ok])
  ultimately show ?thesis using that q(2) by blast
qed

lemma compacted_facts:
  assumes ok: "page_ok p h" and w: "unat (ph_lower h) \<le> w" "w \<le> unat (ph_special h)"
    and mv: "moved (unat (ph_lower h)) (unat (ph_special h)) w ts p q"
  defines "r \<equiv> compacted h w q" and "h' \<equiv> h\<lparr>ph_upper := of_nat w\<rparr>"
  shows "full_page r" "ph_decode r = Inr h'" "nslots h' = nslots h" "unat (ph_upper h') = w"
    "i < nslots h \<Longrightarrow> item r i = (if item_flags (item q i) = Dead then 0 else item q i)"
    "unat (ph_lower h) \<le> a \<Longrightarrow> b \<le> 8192 \<Longrightarrow> slice a b r = slice a b q"
proof -
  note q = movedD [OF mv] and hb = header_ok_bounds [OF page_okD(3) [OF ok]]
  have small: "\<forall>i \<in> set (filter (\<lambda>i. item_flags (item q i) = Dead) [0..<nslots h]). i < 2042" using hb by auto
  note g = fill_gaps_facts [OF q(1) small]
  show "full_page r" using g(1) by (simp add: r_def compacted_def)
  show up: "unat (ph_upper h') = w" using w hb by (simp add: h'_def unat_of_nat_small)
  show "nslots h' = nslots h" by (simp add: h'_def nslots_def)
  have "ph_version h' = ph_version h" "ph_special h' = ph_special h" "ph_lower h' = ph_lower h"
    by (simp_all add: h'_def)
  with up w hb have "header_ok h'" by (intro header_okI [where n = "nslots h"]) simp_all
  then show "ph_decode r = Inr h'" using g(1) by (simp add: r_def compacted_def h'_def ph_decode_encode)
  show "item r i = (if item_flags (item q i) = Dead then 0 else item q i)" if "i < nslots h"
    using that hb g(1) g(3) [of i] by (simp add: r_def compacted_def)
  show "slice a b r = slice a b q" if "unat (ph_lower h) \<le> a" "b \<le> 8192"
    using that hb g(1) g(4) [of a b] by (fastforce simp: r_def compacted_def slice_encode)
qed

text \<open>What a slot is after the move: live ones moved, the others as they were.\<close>

lemma moved_item:
  assumes ok: "page_ok p h" and i: "i < nslots h"
    and mv: "moved (unat (ph_lower h)) (unat (ph_special h)) w (sort_key f (live_list p [0..<nslots h])) p q"
  shows "item_is_normal (item p i) \<Longrightarrow>
      item_is_normal (item q i) \<and> w \<le> unat (item_offset (item q i))
      \<and> unat (item_offset (item q i)) + unat (item_length (item q i)) \<le> unat (ph_special h)
      \<and> tuple_bytes q (item q i) = tuple_bytes p (item p i)"
    "\<not> item_is_normal (item p i) \<Longrightarrow> item q i = item p i"
    "j < nslots h \<Longrightarrow> i \<noteq> j \<Longrightarrow> item_is_normal (item p i) \<Longrightarrow> item_is_normal (item p j) \<Longrightarrow> apart (item q i) (item q j)"
proof -
  note q = movedD [OF mv] and hb = header_ok_bounds [OF page_okD(3) [OF ok]]
  show "item_is_normal (item q i) \<and> w \<le> unat (item_offset (item q i))
      \<and> unat (item_offset (item q i)) + unat (item_length (item q i)) \<le> unat (ph_special h)
      \<and> tuple_bytes q (item q i) = tuple_bytes p (item p i)" if "item_is_normal (item p i)"
    using q(4) [of "(of_nat i, item_offset (item p i), item_length (item p i))"] live_list_mem [OF ok i that]
    by (auto simp: moved_tuple_def Let_def tuple_bytes_def)
  show "item q i = item p i" if "\<not> item_is_normal (item p i)"
  proof (rule q(3))
    show "28 + 4 * i \<le> unat (ph_lower h)" using i hb by simp
    show "i \<notin> lt_slot ` set (sort_key f (live_list p [0..<nslots h]))"
      using that by (auto elim!: live_list_set [OF ok])
  qed
  show "apart (item q i) (item q j)"
    if j: "j < nslots h" "i \<noteq> j" and live: "item_is_normal (item p i)" "item_is_normal (item p j)"
    using q(5) [of "(of_nat i, item_offset (item p i), item_length (item p i))"
        "(of_nat j, item_offset (item p j), item_length (item p j))"]
      live_list_mem [OF ok i live(1)] live_list_mem [OF ok j(1) live(2)] j(2) by simp
qed

lemma compacted_ok:
  assumes ok: "page_ok p h" and w: "unat (ph_lower h) \<le> w" "w \<le> unat (ph_special h)"
    and mv: "moved (unat (ph_lower h)) (unat (ph_special h)) w (sort_key f (live_list p [0..<nslots h])) p q"
  shows "page_ok (compacted h w q) (h\<lparr>ph_upper := of_nat w\<rparr>)"
    "page_abs (compacted h w q) = (map compact_view (page_view p), w - unat (ph_lower h))"
proof -
  let ?r = "compacted h w q" and ?h = "h\<lparr>ph_upper := of_nat w\<rparr>"
  note r = compacted_facts [OF ok w mv] and m = moved_item [OF ok _ mv] and hb = header_ok_bounds [OF page_okD(3) [OF ok]]
  have live: "item ?r i = item q i" if "i < nslots h" "item_is_normal (item p i)" for i
    using r(5) [of i] m(1) [of i] that by (simp add: item_is_normal_def)
  have dead: "item_is_normal (item ?r i) \<longleftrightarrow> item_is_normal (item p i)" if "i < nslots h" for i
    using r(5) [of i] m(1,2) [of i] that by (cases "item_is_normal (item p i)") (auto simp: item_is_normal_def)
  have "directory_ok ?r ?h"
    unfolding directory_ok_def r(3,4) using live dead m by simp
  with r show ok': "page_ok ?r ?h" by (simp add: page_ok_def)
  have "slot_view ?r i = compact_view (slot_view p i)" if i: "i < nslots h" for i
  proof (cases "item_is_normal (item p i)")
    case True
    have "tuple_bytes ?r (item q i) = tuple_bytes q (item q i)"
      using m(1) [OF i True] w hb unfolding tuple_bytes_def by (intro r(6)) simp_all
    with True live [OF i] m(1) [OF i] show ?thesis by (simp add: slot_view_def)
  next
    case False
    with r(5) [OF i] m(2) [OF i] show ?thesis by (simp add: slot_view_def item_is_normal_def)
  qed
  then have "page_view ?r = map compact_view (page_view p)"
    by (simp add: page_okD(6) [OF ok'] page_okD(6) [OF ok] r(3))
  then show "page_abs ?r = (map compact_view (page_view p), w - unat (ph_lower h))"
    using r(4) by (simp add: page_abs_def page_okD(7) [OF ok'])
qed

text \<open>The bytes between the slot directory and the special area.\<close>

definition page_body :: "bytes \<Rightarrow> nat" where
  "page_body p = (case ph_decode p of Inl _ \<Rightarrow> 0 | Inr h \<Rightarrow> unat (ph_special h) - unat (ph_lower h))"

lemma compact_abs:
  assumes "page_inv p"
  obtains p' where "compact p = Some (Inr (), p')" "page_inv p'"
    "page_abs p' = (map compact_view (page_view p), page_body p - sum_list (map live_bytes (page_view p)))"
    "sum_list (map live_bytes (page_view p)) \<le> page_body p"
proof -
  obtain h where ok: "page_ok p h" using assms by (auto simp: page_inv_iff)
  let ?w = "unat (ph_special h) - sum_list (map live_bytes (page_view p))"
  obtain q where q: "moved (unat (ph_lower h)) (unat (ph_special h)) ?w
      (sort_key off_key (live_list p [0..<nslots h])) p q"
    "compact p = Some (Inr (), compacted h ?w q)"
    "unat (ph_lower h) + sum_list (map live_bytes (page_view p)) \<le> unat (ph_special h)"
    using compact_eq [OF ok] by blast
  then have "unat (ph_lower h) \<le> ?w" by simp
  note c = compacted_ok [OF ok this _ q(1)]
  have "page_inv (compacted h ?w q)" using c(1) by (auto simp: page_inv_iff)
  moreover have "?w - unat (ph_lower h) = page_body p - sum_list (map live_bytes (page_view p))"
    by (simp add: page_body_def page_okD(2) [OF ok])
  moreover have "sum_list (map live_bytes (page_view p)) \<le> page_body p"
    using q(3) by (simp add: page_body_def page_okD(2) [OF ok])
  ultimately show ?thesis using that q(2) c(2) by simp
qed

end
