(* ===== verification/Page_Spec.thy ===== *)
theory Page_Spec
  imports Page_Compact
begin

text \<open>
  The promises of the slotted page: insertion, deletion, reading and compaction implement the
  abstract list of slots; a tuple stays readable at its slot through any sequence of
  operations that does not delete it; redo of inserts at recorded slots is independent of
  the order of the records; validation, header codec and checksum.
\<close>

section \<open>Examples\<close>

lemma fresh_ok: "header_ok fresh_heap" "nslots fresh_heap = 0"
  by (simp_all add: fresh_heap_def header_ok_def pointers_disordered_def nslots_def)

lemma new_heap_ok: "page_ok new_heap fresh_heap" "page_inv new_heap" "page_abs new_heap = ([], 8168)"
proof -
  show ok: "page_ok new_heap fresh_heap"
    using fresh_ok by (simp add: page_ok_def new_heap_def ph_decode_encode directory_ok_def)
  then show "page_inv new_heap" by (auto simp: page_inv_iff)
  show "page_abs new_heap = ([], 8168)"
    by (simp add: page_abs_def page_okD(6,7) [OF ok] fresh_ok) (simp add: fresh_heap_def)
qed

lemma new_heap_view [simp]: "page_view new_heap = []" "page_free new_heap = 8168"
  using new_heap_ok(3) by (simp_all add: page_abs_def)

lemma tuple_len_check_small: "length t \<le> 8192 \<Longrightarrow> tuple_len_check t = Inr (of_nat (length t))"
  by (rule tuple_len_check_eq) simp

section \<open>Insertion\<close>

text \<open>
  C9. Inserting into a well-formed page: no panic, the page stays well formed, and slots and free
  space change exactly as the abstract insertion at the first unused slot (or a new one); the
  returned slot is that slot, where the tuple is then read back, and an error leaves the
  page as it was, byte for byte.
\<close>

theorem insert_tuple_refines:
  assumes "page_inv p"
  shows "\<exists>r p'. insert_tuple t p = Some (r, p') \<and> page_inv p'
    \<and> (map_sum id (\<lambda>_. ()) r, page_abs p') = insert_spec (first_unused (page_view p)) t (page_abs p)
    \<and> (case r of Inl _ \<Rightarrow> p' = p
        | Inr slot \<Rightarrow> unat slot = first_unused (page_view p) \<and> read_tuple p' slot = Some (Inr t))"
proof -
  let ?k = "first_unused (page_view p)"
  note ins = insert_inserts [OF assms, where t = t]
  obtain r p' where res: "insert_tuple t p = Some (r, p')" and inv: "page_inv p'"
    and spec: "(map_sum id (\<lambda>_. ()) r, page_abs p') = insert_spec ?k t (page_abs p)"
    and same: "isl r \<longrightarrow> p' = p"
    using ins(1) by (cases "insert_tuple t p") (auto simp: inserts_at_def forget_slot_def isl_map_sum)
  have "read_tuple p' slot = Some (Inr t)" if "r = Inr slot" "unat slot = ?k" for slot
    using that spec inv
    by (auto simp: read_tuple_view read_spec.simps page_abs_def insert_spec.simps Let_def split: sum.splits if_splits)
  with res inv spec same ins(2) show ?thesis by (cases r) auto
qed

theorem insert_tuple_refines_witness:
  "page_inv new_heap \<and>
   (\<exists>p'. insert_tuple [7, 8, 9] new_heap = Some (Inr 0, p') \<and> page_abs p' = ([Live [7, 8, 9]], 8161)
      \<and> read_tuple p' 0 = Some (Inr [7, 8, 9]))"
proof -
  from insert_tuple_refines [OF new_heap_ok(2), of "[7, 8, 9]", unfolded new_heap_view first_unused.simps new_heap_ok(3)]
  obtain r p' where
    r: "insert_tuple [7, 8, 9] new_heap = Some (r, p')"
      "(map_sum id (\<lambda>_. ()) r, page_abs p') = insert_spec 0 [7, 8, 9] ([], 8168)"
      "case r of Inl _ \<Rightarrow> p' = new_heap | Inr slot \<Rightarrow> unat slot = 0 \<and> read_tuple p' slot = Some (Inr [7, 8, 9])"
    by blast
  have "insert_spec 0 [7, 8, 9] ([], 8168) = (Inr (), [Live [7, 8, 9]], 8161)"
    by (simp add: insert_spec.simps tuple_len_check_small)
  with r show ?thesis by (cases r) (auto simp: unat_eq_0 new_heap_ok(2))
qed

section \<open>Recovery redo\<close>

text \<open>Redo of a list of insert records, each at its recorded slot; it stops at an error.\<close>

fun redo_inserts :: "(u16 \<times> bytes) list \<Rightarrow> bytes \<Rightarrow> bytes option" where
  "redo_inserts [] p = Some p"
| "redo_inserts ((slot, t) # rs) p =
     (case insert_tuple_at_slot slot t p of Some (Inr _, p') \<Rightarrow> redo_inserts rs p' | _ \<Rightarrow> None)"

fun redo_spec :: "(nat \<times> bytes) list \<Rightarrow> abs_page \<Rightarrow> abs_page option" where
  "redo_spec [] a = Some a"
| "redo_spec ((k, t) # rs) a = (case insert_spec k t a of (Inr _, a') \<Rightarrow> redo_spec rs a' | _ \<Rightarrow> None)"

abbreviation on_slots :: "(u16 \<times> bytes) list \<Rightarrow> (nat \<times> bytes) list" where
  "on_slots \<equiv> map (map_prod unat id)"

lemma redo_inserts_spec:
  "page_inv p \<Longrightarrow>
   (case redo_inserts rs p of
      None \<Rightarrow> redo_spec (on_slots rs) (page_abs p) = None
    | Some q \<Rightarrow> page_inv q \<and> redo_spec (on_slots rs) (page_abs p) = Some (page_abs q))"
proof (induction rs arbitrary: p)
  case (Cons r rs)
  obtain slot t where r: "r = (slot, t)" by (cases r)
  obtain x p' where res: "insert_tuple_at_slot slot t p = Some (x, p')" "page_inv p'"
    "insert_spec (unat slot) t (page_abs p) = (x, page_abs p')"
    using at_slot_inserts [OF Cons.prems, of slot t] by (auto simp: inserts_at_def split: option.splits)
  with Cons.IH [OF res(2)] r show ?case by (cases x) (auto split: option.splits)
qed simp

text \<open>Redo in closed form: what must fit, and what each slot shows in the end.\<close>

definition reach :: "(nat \<times> bytes) list \<Rightarrow> nat \<Rightarrow> nat" where
  "reach rs n = Max (insert n (Suc ` fst ` set rs))"

definition redo_cost :: "(nat \<times> bytes) list \<Rightarrow> nat \<Rightarrow> nat" where
  "redo_cost rs n = sum_list (map (\<lambda>r. length (snd r)) rs) + 4 * (reach rs n - n)"

definition redo_view :: "(nat \<times> bytes) list \<Rightarrow> slot_view list \<Rightarrow> slot_view list" where
  "redo_view rs v =
     map (\<lambda>i. case map_of rs i of Some t \<Rightarrow> Live t | None \<Rightarrow> if i < length v then v ! i else Gone Unused)
       [0..<reach rs (length v)]"

definition redo_ready :: "(nat \<times> bytes) list \<Rightarrow> abs_page \<Rightarrow> bool" where
  "redo_ready rs a \<longleftrightarrow>
     distinct (map fst rs) \<and> redo_cost rs (length (fst a)) \<le> snd a
     \<and> (\<forall>(k, t) \<in> set rs. \<not> isl (tuple_len_check t) \<and> \<not> (k < length (fst a) \<and> is_live (fst a ! k)))"

lemma reach_Cons: "reach ((k, t) # rs) n = reach rs (max n (Suc k))"
  by (cases "rs = []") (simp_all add: reach_def max.assoc)

lemma reach_ge: "n \<le> reach rs n"
  by (simp add: reach_def)

lemma insert_spec_grows:
  defines "w v k t \<equiv> (v @ replicate (Suc k - length v) (Gone Unused))[k := Live t]"
  shows "length (w v k t) = max (length v) (Suc k)"
    "i < max (length v) (Suc k) \<Longrightarrow>
       w v k t ! i = (if i = k then Live t else if i < length v then v ! i else Gone Unused)"
  by (auto simp: w_def nth_append nth_list_update)

lemma redo_ready_Cons:
  fixes v t k
  defines "w \<equiv> (v @ replicate (Suc k - length v) (Gone Unused))[k := Live t]"
    and "needed \<equiv> length t + 4 * (Suc k - length v)"
  assumes "\<not> isl (tuple_len_check t)" "\<not> (k < length v \<and> is_live (v ! k))" "needed \<le> free"
  shows "redo_ready ((k, t) # rs) (v, free) \<longleftrightarrow> redo_ready rs (w, free - needed)"
    "redo_cost ((k, t) # rs) (length v) = needed + redo_cost rs (length w)"
    "redo_ready rs (w, free') \<Longrightarrow> redo_view ((k, t) # rs) v = redo_view rs w"
proof -
  note w = insert_spec_grows [where v = v and k = k and t = t, folded w_def]
  let ?m = "max (length v) (Suc k)"
  have "reach rs ?m \<ge> ?m" by (rule reach_ge)
  then show cost: "redo_cost ((k, t) # rs) (length v) = needed + redo_cost rs (length w)"
    unfolding redo_cost_def reach_Cons w(1) needed_def
    by (cases "Suc k \<le> length v") (simp_all add: max_absorb1 max_absorb2)
  have live: "k' < length w \<and> is_live (w ! k') \<longleftrightarrow> k' = k \<or> k' < length v \<and> is_live (v ! k')" for k'
    using w(1) w(2) [of k'] by (cases "k' < ?m") auto
  show "redo_ready ((k, t) # rs) (v, free) \<longleftrightarrow> redo_ready rs (w, free - needed)"
    unfolding redo_ready_def fst_conv snd_conv cost live using assms(3-5) by (auto simp: image_iff)
  assume "redo_ready rs (w, free')"
  then have "map_of rs k = None"
    using live [of k] by (force simp: redo_ready_def map_of_eq_None_iff)
  then show "redo_view ((k, t) # rs) v = redo_view rs w"
    unfolding redo_view_def reach_Cons w(1) using w(2) by (auto split: option.splits)
qed

lemma redo_spec_eq:
  "redo_spec rs (v, free) =
     (if redo_ready rs (v, free) then Some (redo_view rs v, free - redo_cost rs (length v)) else None)"
proof (induction rs arbitrary: v free)
  case Nil
  then show ?case
    by (auto simp: redo_ready_def redo_cost_def reach_def redo_view_def intro: nth_equalityI)
next
  case (Cons r rs)
  obtain k t where r: "r = (k, t)" by (cases r)
  let ?needed = "length t + 4 * (Suc k - length v)"
  let ?w = "(v @ replicate (Suc k - length v) (Gone Unused))[k := Live t]"
  show ?case
  proof (cases "isl (tuple_len_check t) \<or> (k < length v \<and> is_live (v ! k)) \<or> free < ?needed")
    case True
    moreover have "Suc k - length v \<le> reach rs (max (length v) (Suc k)) - length v"
      using reach_ge [of "max (length v) (Suc k)" rs] by (simp add: diff_le_mono)
    then have "?needed \<le> redo_cost ((k, t) # rs) (length v)"
      by (simp add: redo_cost_def reach_Cons)
    ultimately show ?thesis
      by (auto simp: r redo_ready_def insert_spec.simps Let_def isl_def split: sum.splits)
  next
    case False
    then have "insert_spec k t (v, free) = (Inr (), ?w, free - ?needed)"
      by (auto simp: insert_spec.simps Let_def isl_def split: sum.splits)
    moreover from False have "\<not> isl (tuple_len_check t)" "\<not> (k < length v \<and> is_live (v ! k))" "?needed \<le> free" by auto
    note ready = redo_ready_Cons [OF this]
    ultimately show ?thesis using Cons.IH [of ?w "free - ?needed"] by (simp add: r ready diff_diff_left)
  qed
qed

lemma redo_spec_perm:
  assumes "mset rs = mset rs'"
  shows "redo_spec rs a = redo_spec rs' a"
proof -
  obtain v free where a: "a = (v, free)" by (cases a)
  have set: "set rs = set rs'" using assms by (metis set_mset_mset)
  have dist: "distinct (map fst rs) \<longleftrightarrow> distinct (map fst rs')"
    using assms by (metis mset_map mset_eq_imp_distinct_iff)
  have "sum_list (map (\<lambda>r. length (snd r)) rs) = sum_list (map (\<lambda>r. length (snd r)) rs')"
    using assms by (simp flip: sum_mset_sum_list)
  then have cost: "redo_cost rs n = redo_cost rs' n" for n
    by (simp add: redo_cost_def reach_def set)
  moreover have "map_of rs = map_of rs'" if "distinct (map fst rs)"
    using map_of_inject_set [of rs rs'] dist that set by simp
  then have "redo_view rs v = redo_view rs' v" if "distinct (map fst rs)"
    using that by (simp add: redo_view_def reach_def set)
  moreover have "redo_ready rs a \<longleftrightarrow> redo_ready rs' a"
    by (simp add: redo_ready_def cost dist set)
  ultimately show ?thesis
    by (auto simp: a redo_spec_eq redo_ready_def)
qed

lemma redo_view_reads:
  assumes "(slot, t) \<in> set rs" "distinct (map fst rs)"
  shows "slot < length (redo_view rs v)" "redo_view rs v ! slot = Live t"
proof -
  have "Suc slot \<le> reach rs (length v)"
    unfolding reach_def using assms(1) by (intro Max_ge) (auto intro!: rev_image_eqI)
  then show "slot < length (redo_view rs v)" "redo_view rs v ! slot = Live t"
    using map_of_is_SomeI [OF assms(2,1)] by (simp_all add: redo_view_def)
qed

text \<open>
  C11. Redo of heap inserts at their recorded slots does not depend on the order of the records:
  if one order of a page's records replays without an error, every permutation of them does,
  with the same slots and the same free space, so every slot reads the same, and each record's
  tuple is read at its slot.
\<close>

theorem redo_order_independent:
  assumes "page_inv p" and "redo_inserts rs p = Some q" and "mset rs' = mset rs"
  shows "\<exists>q'. redo_inserts rs' p = Some q' \<and> page_inv q' \<and> page_abs q' = page_abs q
    \<and> (\<forall>slot. read_tuple q' slot = read_tuple q slot)
    \<and> (\<forall>(slot, t) \<in> set rs. read_tuple q' slot = Some (Inr t))"
proof -
  have spec: "redo_spec (on_slots rs) (page_abs p) = Some (page_abs q)" "page_inv q"
    using redo_inserts_spec [OF assms(1), of rs] assms(2) by simp_all
  have "redo_spec (on_slots rs') (page_abs p) = redo_spec (on_slots rs) (page_abs p)"
    using assms(3) by (intro redo_spec_perm) simp
  with spec redo_inserts_spec [OF assms(1), of rs'] obtain q' where
    q': "redo_inserts rs' p = Some q'" "page_inv q'" "page_abs q' = page_abs q"
    by (auto split: option.splits)
  have view: "page_view q = redo_view (on_slots rs) (page_view p)" "distinct (map fst (on_slots rs))"
    using spec(1) by (auto simp: page_abs_def redo_spec_eq redo_ready_def split: if_splits)
  have "read_spec (page_view q) slot = Inr t" if "(slot, t) \<in> set rs" for slot t
  proof -
    have "(unat slot, t) \<in> set (on_slots rs)" using that by force
    from redo_view_reads [OF this view(2)] view(1) show ?thesis by (simp add: read_spec.simps)
  qed
  moreover have "page_view q' = page_view q" using q'(3) by (simp add: page_abs_def)
  ultimately show ?thesis using q' spec(2) by (auto simp: read_tuple_view)
qed

theorem redo_order_independent_witness:
  "\<exists>q q'. redo_inserts [(0, [1]), (2, [5, 6])] new_heap = Some q \<and> redo_inserts [(2, [5, 6]), (0, [1])] new_heap = Some q'
     \<and> read_tuple q' 0 = Some (Inr [1]) \<and> read_tuple q' 2 = Some (Inr [5, 6])"
proof -
  let ?rs = "[(0 :: u16, [1 :: u8]), (2, [5, 6])]"
  have "redo_ready (on_slots ?rs) ([], 8168)"
    by (simp add: redo_ready_def redo_cost_def reach_def tuple_len_check_small)
  then have "redo_spec (on_slots ?rs) (page_abs new_heap) \<noteq> None"
    unfolding new_heap_ok(3) redo_spec_eq by simp
  then obtain q where q: "redo_inserts ?rs new_heap = Some q"
    using redo_inserts_spec [OF new_heap_ok(2), of ?rs] by (auto split: option.splits)
  with redo_order_independent [OF new_heap_ok(2) q, of "rev ?rs"] show ?thesis by auto
qed

section \<open>Compaction\<close>

text \<open>
  C10. Compacting a well-formed page always succeeds and keeps it well formed: every live slot keeps
  its index and its bytes, dead slots become reusable and the free space becomes everything
  the live tuples do not occupy.
\<close>

theorem compact_reclaims:
  assumes "page_inv p"
  shows "\<exists>p'. compact p = Some (Inr (), p') \<and> page_inv p'
    \<and> page_view p' = map compact_view (page_view p)
    \<and> page_free p' + sum_list (map live_bytes (page_view p)) = page_body p
    \<and> (\<forall>slot t. read_tuple p slot = Some (Inr t) \<longleftrightarrow> read_tuple p' slot = Some (Inr t))"
proof -
  obtain p' where p': "compact p = Some (Inr (), p')" "page_inv p'"
    "page_abs p' = (map compact_view (page_view p), page_body p - sum_list (map live_bytes (page_view p)))"
    "sum_list (map live_bytes (page_view p)) \<le> page_body p"
    using compact_abs [OF assms] by blast
  have "read_spec (map compact_view v) slot = Inr t \<longleftrightarrow> read_spec v slot = Inr t" for v slot t
    by (auto simp: read_spec.simps split: slot_view.splits elim!: compact_view.elims)
  with p' show ?thesis by (auto simp: page_abs_def read_tuple_view assms)
qed

text \<open>A page with a dead and a live slot, built by the page's own operations.\<close>

lemma ex_mixed_page:
  obtains p1 p2 p3 where "insert_tuple_appended [1] new_heap = Some (Inr 0, p1)"
    "insert_tuple_appended [2, 3] p1 = Some (Inr 1, p2)" "delete_tuple 0 p2 = Some (Inr (), p3)"
    "page_inv p3" "page_abs p3 = ([Gone Dead, Live [2, 3]], 8157)"
proof -
  have "insert_spec (length []) [1] ([], 8168) = (Inr (), [Live [1]], 8163)"
    by (simp add: insert_spec.simps tuple_len_check_small)
  from append_succeeds [OF new_heap_ok(2,3) this]
  obtain p1 where p1: "insert_tuple_appended [1] new_heap = Some (Inr 0, p1)" "page_inv p1" "page_abs p1 = ([Live [1]], 8163)"
    by auto
  have "insert_spec (length [Live [1]]) [2, 3] ([Live [1]], 8163) = (Inr (), [Live [1], Live [2, 3]], 8157)"
    by (simp add: insert_spec.simps tuple_len_check_small)
  from append_succeeds [OF p1(2,3) this] obtain p2 where p2: "insert_tuple_appended [2, 3] p1 = Some (Inr 1, p2)"
    "page_inv p2" "page_abs p2 = ([Live [1], Live [2, 3]], 8157)" by auto
  have v2: "page_view p2 = [Live [1], Live [2, 3]]" "page_free p2 = 8157" using p2(3) by (simp_all add: page_abs_def)
  obtain p3 where "delete_tuple 0 p2 = Some (Inr (), p3)" "page_inv p3" "page_abs p3 = ([Gone Dead, Live [2, 3]], 8157)"
    using p2(2) by (cases rule: delete_tuple_view [where slot = 0]) (auto simp: read_spec.simps v2)
  with p1(1) p2(1) that show ?thesis by simp
qed

theorem compact_reclaims_witness:
  "\<exists>p1 p2 p3 p4. insert_tuple_appended [1] new_heap = Some (Inr 0, p1)
     \<and> insert_tuple_appended [2, 3] p1 = Some (Inr 1, p2) \<and> delete_tuple 0 p2 = Some (Inr (), p3)
     \<and> compact p3 = Some (Inr (), p4) \<and> page_view p4 = [Gone Unused, Live [2, 3]]
     \<and> read_tuple p4 1 = Some (Inr [2, 3])"
proof -
  obtain p1 p2 p3 where p: "insert_tuple_appended [1] new_heap = Some (Inr 0, p1)"
    "insert_tuple_appended [2, 3] p1 = Some (Inr 1, p2)" "delete_tuple 0 p2 = Some (Inr (), p3)"
    "page_inv p3" "page_abs p3 = ([Gone Dead, Live [2, 3]], 8157)" by (rule ex_mixed_page)
  have v: "page_view p3 = [Gone Dead, Live [2, 3]]" using p(5) by (simp add: page_abs_def)
  then have "read_tuple p3 1 = Some (Inr [2, 3])" by (simp add: read_tuple_view [OF p(4)] read_spec.simps)
  with compact_reclaims [OF p(4)] p(1-3) v show ?thesis by auto
qed

section \<open>Slot stability\<close>

text \<open>
  The interface of a store of tuples under stable names: operations never fail to return and
  keep every entry they do not remove.
\<close>

locale tuple_store =
  fixes inv :: "'p \<Rightarrow> bool" and lookup :: "'p \<Rightarrow> 's \<Rightarrow> 't option" and step :: "'op \<Rightarrow> 'p \<Rightarrow> 'p option"
    and kills :: "'op \<Rightarrow> 's \<Rightarrow> bool"
  assumes total: "inv p \<Longrightarrow> \<exists>q. step op p = Some q \<and> inv q"
    and keeps: "inv p \<Longrightarrow> step op p = Some q \<Longrightarrow> lookup p s = Some t \<Longrightarrow> \<not> kills op s \<Longrightarrow> lookup q s = Some t"
begin

lemma run_keeps:
  "inv p \<Longrightarrow> \<exists>q. run_steps step ops p = Some q \<and> inv q
     \<and> (\<forall>s t. lookup p s = Some t \<and> (\<forall>op \<in> set ops. \<not> kills op s) \<longrightarrow> lookup q s = Some t)"
proof (induction ops arbitrary: p)
  case (Cons op ops)
  obtain p' where p': "step op p = Some p'" "inv p'" using total [OF Cons.prems] by blast
  obtain q where "run_steps step ops p' = Some q" "inv q"
    "\<forall>s t. lookup p' s = Some t \<and> (\<forall>op \<in> set ops. \<not> kills op s) \<longrightarrow> lookup q s = Some t"
    using Cons.IH [OF p'(2)] by blast
  with p' keeps [OF Cons.prems p'(1)] show ?case by auto
qed simp

end

datatype page_op = PInsert bytes | PAppend bytes | PInsertAt u16 bytes | PDelete u16 | PCompact | PSetLsn u64

fun page_step :: "page_op \<Rightarrow> bytes \<Rightarrow> bytes option" where
  "page_step (PInsert t) p = map_option snd (insert_tuple t p)"
| "page_step (PAppend t) p = map_option snd (insert_tuple_appended t p)"
| "page_step (PInsertAt slot t) p = map_option snd (insert_tuple_at_slot slot t p)"
| "page_step (PDelete slot) p = map_option snd (delete_tuple slot p)"
| "page_step PCompact p = map_option snd (compact p)"
| "page_step (PSetLsn lsn) p = set_lsn lsn p"

definition page_lookup :: "bytes \<Rightarrow> u16 \<Rightarrow> bytes option" where
  "page_lookup p slot = (case read_tuple p slot of Some (Inr t) \<Rightarrow> Some t | _ \<Rightarrow> None)"

lemma page_lookup_Some: "page_lookup p slot = Some t \<longleftrightarrow> read_tuple p slot = Some (Inr t)"
  by (auto simp: page_lookup_def split: option.splits sum.splits)

lemma read_spec_Inr: "read_spec v slot = Inr t \<longleftrightarrow> unat slot < length v \<and> v ! unat slot = Live t"
  by (auto simp: read_spec.simps split: slot_view.splits)

lemma insert_spec_reads:
  assumes "insert_spec k t (v, free) = (r, v', free')" "i < length v" "v ! i = Live t'"
  shows "i < length v'" "v' ! i = Live t'"
proof -
  have "is_live (v ! i)" using assms(3) by simp
  then consider "v' = v" | "v' = (v @ replicate (Suc k - length v) (Gone Unused))[k := Live t]" "i \<noteq> k"
    using assms(1,2) by (cases "i = k") (auto simp: insert_spec.simps Let_def split: sum.splits if_splits)
  then have "i < length v' \<and> v' ! i = Live t'"
  proof cases
    case 2
    with assms(2,3) show ?thesis by (simp add: nth_append)
  qed (use assms in simp)
  then show "i < length v'" "v' ! i = Live t'" by simp_all
qed

lemma inserts_at_step:
  assumes "page_inv p" "inserts_at k t p res"
  shows "\<exists>q. map_option snd res = Some q \<and> page_inv q
    \<and> (\<forall>slot t'. read_tuple p slot = Some (Inr t') \<longrightarrow> read_tuple q slot = Some (Inr t'))"
proof -
  obtain r q where res: "res = Some (r, q)" "page_inv q" "insert_spec k t (page_abs p) = (r, page_abs q)"
    using assms(2) by (auto simp: inserts_at_def split: option.splits)
  have "read_spec (page_view q) slot = Inr t'" if "read_spec (page_view p) slot = Inr t'" for slot t'
    using that insert_spec_reads [OF res(3) [unfolded page_abs_def]] by (simp add: read_spec_Inr)
  with assms(1) res(1,2) show ?thesis by (auto simp: read_tuple_view)
qed

lemma set_lsn_ok:
  assumes "page_inv p"
  obtains q where "set_lsn lsn p = Some q" "page_inv q" "page_view q = page_view p"
proof -
  obtain h where ok: "page_ok p h" using assms by (auto simp: page_inv_iff)
  note p = page_okD [OF ok]
  let ?h = "h\<lparr>ph_lsn := lsn\<rparr>" and ?q = "ph_encode (h\<lparr>ph_lsn := lsn\<rparr>) p"
  have n: "nslots ?h = nslots h" by (simp add: nslots_def)
  have "header_ok ?h" using p(3) by (simp add: header_ok_def)
  moreover have "directory_ok ?q ?h" using p(1,4) by (simp add: directory_ok_def n del: page_sizes)
  ultimately have ok': "page_ok ?q ?h" using p(1) by (simp add: page_ok_def ph_decode_encode del: page_sizes)
  have "slot_view ?q i = slot_view p i" if "i < nslots h" for i
    using that p(1) header_ok_bounds [OF p(3)] by (intro slot_view_body [OF ok]) (simp_all add: slice_encode)
  then have "page_view ?q = page_view p" by (simp add: page_okD(6) [OF ok'] p(6) n)
  with that ok' show ?thesis by (auto simp: set_lsn_def p(5) page_inv_iff)
qed

lemma page_step_total:
  assumes "page_inv p"
  shows "\<exists>q. page_step op p = Some q \<and> page_inv q
    \<and> (\<forall>slot t. op \<noteq> PDelete slot \<and> read_tuple p slot = Some (Inr t) \<longrightarrow> read_tuple q slot = Some (Inr t))"
proof (cases op)
  case (PInsert t)
  then show ?thesis
    using inserts_at_step [OF assms insert_inserts(1) [OF assms, of t]]
    by (auto simp: forget_slot_def option.map_comp comp_def)
next
  case (PAppend t)
  then show ?thesis
    using inserts_at_step [OF assms append_inserts(1) [OF assms, of t]]
    by (auto simp: forget_slot_def option.map_comp comp_def)
next
  case (PInsertAt slot t)
  then show ?thesis using inserts_at_step [OF assms at_slot_inserts [OF assms, of slot t]] by auto
next
  case (PDelete slot)
  from assms show ?thesis
  proof (cases rule: delete_tuple_view [where slot = slot])
    case (live t p')
    have "read_spec (page_view p') s = Inr t'" if "s \<noteq> slot" "read_spec (page_view p) s = Inr t'" for s t'
      using that live(4) by (simp add: read_spec_Inr page_abs_def word_unat_eq_iff)
    with PDelete live assms show ?thesis by (auto simp: read_tuple_view)
  qed (use PDelete assms in auto)
next
  case PCompact
  obtain q where "compact p = Some (Inr (), q)" "page_inv q"
    "page_abs q = (map compact_view (page_view p), page_body p - sum_list (map live_bytes (page_view p)))"
    using compact_abs [OF assms] by blast
  moreover have "read_spec (map compact_view v) slot = Inr t" if "read_spec v slot = Inr t" for v slot t
    using that by (simp add: read_spec_Inr)
  ultimately show ?thesis using PCompact assms by (auto simp: read_tuple_view page_abs_def)
next
  case (PSetLsn lsn)
  with set_lsn_ok [OF assms, of lsn] assms show ?thesis by (metis page_op.distinct page_step.simps(6) read_tuple_view)
qed

interpretation pages: tuple_store page_inv page_lookup page_step "\<lambda>op slot. op = PDelete slot"
proof
  show "\<exists>q. page_step op p = Some q \<and> page_inv q" if "page_inv p" for p op
    using page_step_total [OF that, of op] by blast
  show "page_lookup q s = Some t"
    if "page_inv p" "page_step op p = Some q" "page_lookup p s = Some t" "op \<noteq> PDelete s" for p op q s t
    using page_step_total [OF that(1), of op] that(2-4) by (auto simp: page_lookup_Some)
qed

text \<open>
  C12. Slot indices are stable: through any sequence of insertions (of the three kinds), deletions,
  compactions and LSN updates of a well-formed page no operation panics, the page stays well formed, and a
  tuple readable at a slot stays readable there, unchanged, unless that slot is deleted.
\<close>

theorem slots_are_stable:
  assumes "page_inv p"
  shows "\<exists>q. run_steps page_step ops p = Some q \<and> page_inv q
    \<and> (\<forall>slot t. read_tuple p slot = Some (Inr t) \<and> PDelete slot \<notin> set ops \<longrightarrow> read_tuple q slot = Some (Inr t))"
  using pages.run_keeps [OF assms, of ops] by (auto simp: page_lookup_Some)

theorem slots_are_stable_witness:
  "\<exists>p q. insert_tuple_appended [9] new_heap = Some (Inr 0, p) \<and> read_tuple p 0 = Some (Inr [9])
     \<and> run_steps page_step [PInsert [4, 4], PDelete 1, PCompact, PInsertAt 5 [8], PAppend []] p = Some q
     \<and> read_tuple q 0 = Some (Inr [9])"
proof -
  have "insert_spec (length []) [9] ([], 8168) = (Inr (), [Live [9]], 8163)"
    by (simp add: insert_spec.simps tuple_len_check_small)
  from append_succeeds [OF new_heap_ok(2,3) this] obtain p where
    p: "insert_tuple_appended [9] new_heap = Some (Inr 0, p)" "page_inv p" "page_abs p = ([Live [9]], 8163)" by auto
  have r: "read_tuple p 0 = Some (Inr [9])"
    using p(2,3) by (simp add: read_tuple_view read_spec.simps page_abs_def)
  from slots_are_stable [OF p(2), of "[PInsert [4, 4], PDelete 1, PCompact, PInsertAt 5 [8], PAppend []]"]
  obtain q where "run_steps page_step [PInsert [4, 4], PDelete 1, PCompact, PInsertAt 5 [8], PAppend []] p = Some q"
    "PDelete 0 \<notin> set [PInsert [4, 4], PDelete 1, PCompact, PInsertAt 5 [8], PAppend []] \<longrightarrow> read_tuple q 0 = Some (Inr [9])"
    using r by blast
  with p(1) r show ?thesis by auto
qed

section \<open>Validation, header and checksum\<close>

definition live_in_body :: "bytes \<Rightarrow> page_header \<Rightarrow> bool" where
  "live_in_body p h \<longleftrightarrow>
     (\<forall>i < nslots h. item_is_normal (item p i) \<longrightarrow>
        unat (ph_upper h) \<le> unat (item_offset (item p i))
        \<and> unat (item_offset (item p i)) + unat (item_length (item p i)) \<le> unat (ph_special h))"

lemma validate_slots_eq:
  assumes "full_page p" "\<forall>i \<in> set is. i < 2042"
  shows "validate_slots p h (map of_nat is) =
    Some (if \<forall>i \<in> set is. item_is_normal (item p i) \<longrightarrow>
               unat (ph_upper h) \<le> unat (item_offset (item p i))
               \<and> unat (item_offset (item p i)) + unat (item_length (item p i)) \<le> unat (ph_special h)
          then Inr () else Inl (Malformed ''tuple range out of bounds''))"
  using assms(2)
proof (induction "is")
  case (Cons i "is")
  then have "unat (of_nat i :: u16) = i" by (simp add: unat_of_nat_small)
  with Cons read_item_id_eq [OF assms(1), of "of_nat i"] show ?case by auto
qed simp

text \<open>
  C26. Validation of a page buffer never panics, accepts a buffer exactly when its header decodes and
  every live slot points between \<^verbatim>\<open>upper\<close> and \<^verbatim>\<open>special\<close>, and an accepted page can be read: every slot
  gives its tuple, \<^verbatim>\<open>DeadSlot\<close> or \<^verbatim>\<open>InvalidSlot\<close>, never a panic or a malformed range.
\<close>

theorem from_bytes_validates:
  assumes "length b = PAGE_SIZE"
  shows "page_from_bytes b = Some (case ph_decode b of Inl e \<Rightarrow> Inl e
      | Inr h \<Rightarrow> if live_in_body b h then Inr b else Inl (Malformed ''tuple range out of bounds''))
    \<and> (page_from_bytes b = Some (Inr p) \<longrightarrow>
        p = b \<and> (\<forall>slot. \<exists>r. read_tuple p slot = Some r \<and> (\<forall>m. r \<noteq> Inl (Malformed m))))"
proof (cases "ph_decode b")
  case (Inl e)
  then show ?thesis by (simp add: page_from_bytes_def)
next
  case (Inr h)
  note ok = ph_decode_header_ok [OF Inr]
  note n = slot_count_eq [OF ok] and hb = header_ok_bounds [OF ok]
  have "validate_slot_directory b h = Some (if live_in_body b h then Inr () else Inl (Malformed ''tuple range out of bounds''))"
    using validate_slots_eq [OF assms, of "[0..<nslots h]" h] hb n slots_eq [OF ok]
    by (simp add: validate_slot_directory_def live_in_body_def Ball_def)
  then have from_bytes: "page_from_bytes b = Some (if live_in_body b h then Inr b else Inl (Malformed ''tuple range out of bounds''))"
    using Inr by (simp add: page_from_bytes_def)
  have "\<exists>r. read_tuple b slot = Some r \<and> (\<forall>m. r \<noteq> Inl (Malformed m))" if "live_in_body b h" for slot
  proof (cases "unat slot < nslots h")
    case True
    then have "read_item_id b slot = Some (item b (unat slot))" "\<not> of_nat (nslots h) \<le> slot"
      using hb n assms by (simp_all add: read_item_id_eq word_le_nat_alt)
    with that True Inr n show ?thesis
      by (auto simp: read_tuple_def page_header_of_def live_in_body_def Let_def)
  next
    case False
    with Inr n show ?thesis by (simp add: read_tuple_def page_header_of_def word_le_nat_alt)
  qed
  with from_bytes Inr show ?thesis by (auto split: if_splits)
qed

theorem from_bytes_validates_witness:
  "page_from_bytes new_heap = Some (Inr new_heap) \<and> (\<exists>r. read_tuple new_heap 3 = Some r \<and> (\<forall>m. r \<noteq> Inl (Malformed m)))"
proof -
  have "full_page new_heap" "ph_decode new_heap = Inr fresh_heap" using page_okD(1,2) [OF new_heap_ok(1)] .
  with from_bytes_validates [of new_heap new_heap] show ?thesis
    by (simp add: live_in_body_def fresh_ok)
qed

text \<open>
  C40. The header codec is a bijection between the valid headers and the byte images that decode:
  encoding and decoding a valid header gives it back and leaves the rest of the page alone, and
  re-encoding a decoded header reproduces the page byte for byte.
\<close>

theorem header_roundtrip:
  assumes "length p = PAGE_SIZE"
  shows "(header_ok h \<longrightarrow> ph_decode (ph_encode h p) = Inr h \<and> drop 24 (ph_encode h p) = drop 24 p)
    \<and> (ph_decode p = Inr h \<longrightarrow> header_ok h \<and> ph_encode h p = p)"
proof (intro conjI impI)
  assume "header_ok h"
  then show "ph_decode (ph_encode h p) = Inr h" using assms by (rule ph_decode_encode)
  show "drop 24 (ph_encode h p) = drop 24 p" using assms by (simp add: ph_encode_eq)
next
  assume dec: "ph_decode p = Inr h"
  then show "header_ok h" by (rule ph_decode_header_ok)
  have fields: "read_u64_le (slice 0 8 p) = Some (ph_lsn h)" "read_u32_le (slice 8 12 p) = Some (ph_checksum h)"
    "read_u16_le (slice 12 14 p) = Some (ph_flags h)"
    "read_u16_le (slice 14 16 p) = Some (page_kind_to_u16 (ph_kind h))"
    "read_u16_le (slice 16 18 p) = Some (ph_lower h)" "read_u16_le (slice 18 20 p) = Some (ph_upper h)"
    "read_u16_le (slice 20 22 p) = Some (ph_special h)" "p ! 22 = ph_version h" "p ! 23 = 0"
    using dec by (auto simp: ph_decode_def Let_def page_kind_from_u16_Some split: if_splits)
  have "[ph_version h, 0] = slice 22 24 p"
    using assms fields(8,9) by (intro nth_equalityI) (auto simp: nth_slice less_Suc_eq numeral_2_eq_2)
  moreover have "word_to_le (ph_lsn h) = slice 0 8 p" "word_to_le (ph_checksum h) = slice 8 12 p"
    "word_to_le (ph_flags h) = slice 12 14 p" "word_to_le (page_kind_to_u16 (ph_kind h)) = slice 14 16 p"
    "word_to_le (ph_lower h) = slice 16 18 p" "word_to_le (ph_upper h) = slice 18 20 p"
    "word_to_le (ph_special h) = slice 20 22 p"
    using assms by (simp_all add: read_le_slice(1) [OF _ fields(3)] read_le_slice(1) [OF _ fields(4)]
        read_le_slice(1) [OF _ fields(5)] read_le_slice(1) [OF _ fields(6)] read_le_slice(1) [OF _ fields(7)]
        read_le_slice(2) [OF _ fields(2)] read_le_slice(3) [OF _ fields(1)])
  ultimately have "header_image h = slice 0 24 p"
    unfolding header_image_def by (simp add: slice_join)
  then have "header_image h = take 24 p" by (simp add: slice_def)
  then show "ph_encode h p = p" using assms by (simp add: ph_encode_eq)
qed

theorem header_roundtrip_witness:
  "ph_decode new_heap = Inr fresh_heap \<and> ph_encode fresh_heap new_heap = new_heap
   \<and> (let h = fresh_heap\<lparr>ph_lsn := 77, ph_kind := BTreeIndex\<rparr> in ph_decode (ph_encode h new_heap) = Inr h)"
proof -
  have p: "full_page new_heap" "ph_decode new_heap = Inr fresh_heap" using page_okD(1,2) [OF new_heap_ok(1)] .
  have "header_ok (fresh_heap\<lparr>ph_lsn := 77, ph_kind := BTreeIndex\<rparr>)"
    by (simp add: fresh_heap_def header_ok_def pointers_disordered_def)
  with header_roundtrip [OF p(1), of "fresh_heap\<lparr>ph_lsn := 77, ph_kind := BTreeIndex\<rparr>"]
    header_roundtrip [OF p(1), of fresh_heap] p(2)
  show ?thesis by (simp add: Let_def)
qed

text \<open>
  The page checksum, for any hash function: it ignores the field it is stored in, so refreshing
  changes nothing but that field and makes verification succeed; and any other
  page that carries the same stored field verifies exactly when its contents have the same
  checksum, so only a collision of the hash goes unnoticed.
\<close>

theorem checksum_protects:
  assumes "length p = PAGE_SIZE"
  shows "verify_checksum xxh3_64 (refresh_checksum xxh3_64 p) = Inr ()
    \<and> take 8 (refresh_checksum xxh3_64 p) = take 8 p \<and> drop 12 (refresh_checksum xxh3_64 p) = drop 12 p
    \<and> (\<forall>q. length q = PAGE_SIZE \<and> slice 8 12 q = slice 8 12 (refresh_checksum xxh3_64 p) \<longrightarrow>
         (verify_checksum xxh3_64 q = Inr () \<longleftrightarrow>
            compute_page_checksum xxh3_64 q = compute_page_checksum xxh3_64 p))"
proof -
  let ?c = "compute_page_checksum xxh3_64 p"
  have r: "refresh_checksum xxh3_64 p = splice_at 8 (word_to_le ?c) p"
    by (simp add: refresh_checksum_def CHECKSUM_OFFSET_def)
  have stored: "slice 8 12 (refresh_checksum xxh3_64 p) = word_to_le ?c"
    unfolding r using assms by (intro slice_splice_at_same) simp_all
  have "compute_page_checksum xxh3_64 (refresh_checksum xxh3_64 p) = ?c"
    unfolding r using assms by (simp add: compute_page_checksum_def CHECKSUM_OFFSET_def splice_splice_same)
  moreover have "verify_checksum xxh3_64 q = Inr () \<longleftrightarrow> compute_page_checksum xxh3_64 q = ?c"
    if "slice 8 12 q = word_to_le ?c" for q
    using that by (auto simp: verify_checksum_def CHECKSUM_OFFSET_def read_le_exact Let_def)
  moreover have "take 8 (refresh_checksum xxh3_64 p) = take 8 p" "drop 12 (refresh_checksum xxh3_64 p) = drop 12 p"
    unfolding r using assms by (simp_all add: splice_at_def)
  ultimately show ?thesis by (simp add: stored)
qed

theorem checksum_protects_witness:
  "verify_checksum (\<lambda>b. of_nat (sum_list (map unat b))) (refresh_checksum (\<lambda>b. of_nat (sum_list (map unat b))) new_heap) = Inr ()"
  using checksum_protects [OF page_okD(1) [OF new_heap_ok(1)]] by blast

end
