(* ===== verification/Wal_Record.thy ===== *)
theory Wal_Record
  imports Core_Ids
begin

text \<open>
  The write-ahead log record format, \<^verbatim>\<open>crates/ultrasql-wal/src/record.rs\<close>: the 28-byte header, its
  codec and the checked decoder. The CRC-32C of a third-party crate is the parameter
  \<open>crc\<close> (\<^verbatim>\<open>crc32c_append\<close>); nothing is assumed of it. The lemmas show that the codec is a
  bijection between well-formed records and the byte strings the decoder accepts, and that a strict
  prefix of a record always decodes to \<^verbatim>\<open>Truncated\<close>.
\<close>

section \<open>Records\<close>

definition RECORD_HEADER_SIZE :: nat where "RECORD_HEADER_SIZE = 28"
definition MAX_RECORD_BYTES :: nat where "MAX_RECORD_BYTES = 64 * 1024 * 1024"

datatype wal_record_error =
  Truncated nat nat
| Malformed string
| TooLarge nat nat
| CrcMismatch u32 u32
| UnknownType u8

datatype record_type =
  HeapInsert | HeapUpdate | HeapDelete | FullPageWrite | Commit | Abort | Checkpoint | BTreeOp
| HeapUpdateInPlace | HeapDeleteInPlace | SequenceOp | HashOp | HnswOp | IvfFlatOp
| HeapUpdateInPlaceBatch | HeapDeleteInPlaceBatch | HeapInsertBatch | HeapUpdateInt32PairDeltaBatch
| HeapDeleteInPlaceRangeBatch | HeapUpdateInt32PairDeltaRangeBatch | Nop

fun record_type_to_u8 :: "record_type \<Rightarrow> u8" where
  "record_type_to_u8 HeapInsert = 1"
| "record_type_to_u8 HeapUpdate = 2"
| "record_type_to_u8 HeapDelete = 3"
| "record_type_to_u8 FullPageWrite = 4"
| "record_type_to_u8 Commit = 5"
| "record_type_to_u8 Abort = 6"
| "record_type_to_u8 Checkpoint = 7"
| "record_type_to_u8 BTreeOp = 8"
| "record_type_to_u8 HeapUpdateInPlace = 9"
| "record_type_to_u8 HeapDeleteInPlace = 10"
| "record_type_to_u8 SequenceOp = 11"
| "record_type_to_u8 HashOp = 12"
| "record_type_to_u8 HnswOp = 13"
| "record_type_to_u8 IvfFlatOp = 14"
| "record_type_to_u8 HeapUpdateInPlaceBatch = 15"
| "record_type_to_u8 HeapDeleteInPlaceBatch = 16"
| "record_type_to_u8 HeapInsertBatch = 17"
| "record_type_to_u8 HeapUpdateInt32PairDeltaBatch = 18"
| "record_type_to_u8 HeapDeleteInPlaceRangeBatch = 19"
| "record_type_to_u8 HeapUpdateInt32PairDeltaRangeBatch = 20"
| "record_type_to_u8 Nop = 255"

definition record_type_from_u8 :: "u8 \<Rightarrow> wal_record_error + record_type" where
  "record_type_from_u8 v =
     (if v = 1 then Inr HeapInsert else if v = 2 then Inr HeapUpdate else if v = 3 then Inr HeapDelete
      else if v = 4 then Inr FullPageWrite else if v = 5 then Inr Commit else if v = 6 then Inr Abort
      else if v = 7 then Inr Checkpoint else if v = 8 then Inr BTreeOp else if v = 9 then Inr HeapUpdateInPlace
      else if v = 10 then Inr HeapDeleteInPlace else if v = 11 then Inr SequenceOp else if v = 12 then Inr HashOp
      else if v = 13 then Inr HnswOp else if v = 14 then Inr IvfFlatOp
      else if v = 15 then Inr HeapUpdateInPlaceBatch else if v = 16 then Inr HeapDeleteInPlaceBatch
      else if v = 17 then Inr HeapInsertBatch else if v = 18 then Inr HeapUpdateInt32PairDeltaBatch
      else if v = 19 then Inr HeapDeleteInPlaceRangeBatch else if v = 20 then Inr HeapUpdateInt32PairDeltaRangeBatch
      else if v = 255 then Inr Nop else Inl (UnknownType v))"

definition record_type_all :: "record_type list" where
  "record_type_all =
     [HeapInsert, HeapUpdate, HeapDelete, FullPageWrite, Commit, Abort, Checkpoint, BTreeOp,
      HeapUpdateInPlace, HeapDeleteInPlace, SequenceOp, HashOp, HnswOp, IvfFlatOp,
      HeapUpdateInPlaceBatch, HeapDeleteInPlaceBatch, HeapInsertBatch, HeapUpdateInt32PairDeltaBatch,
      HeapDeleteInPlaceRangeBatch, HeapUpdateInt32PairDeltaRangeBatch, Nop]"

record wal_record_header =
  wh_total_length :: u32
  wh_crc :: u32
  wh_prev_lsn :: lsn
  wh_xid :: xid
  wh_record_type :: record_type
  wh_flags :: u8

record wal_record =
  wr_header :: wal_record_header
  wr_payload :: bytes

section \<open>Encoding\<close>

type_synonym crc_append = "u32 \<Rightarrow> bytes \<Rightarrow> u32"

definition encode_header_into :: "wal_record_header \<Rightarrow> bytes \<Rightarrow> bytes" where
  "encode_header_into h bytes =
     (let b = splice_at 0 (word_to_le (wh_total_length h)) bytes;
          b = splice_at 4 (word_to_le (wh_crc h)) b;
          b = splice_at 8 (word_to_le (wh_prev_lsn h)) b;
          b = splice_at 16 (word_to_le (wh_xid h)) b;
          b = b[24 := record_type_to_u8 (wh_record_type h)];
          b = b[25 := wh_flags h]
      in splice_at 26 [0, 0] b)"

definition compute_record_crc :: "crc_append \<Rightarrow> wal_record_header \<Rightarrow> bytes \<Rightarrow> u32" where
  "compute_record_crc crc h payload =
     (let header_bytes = encode_header_into (h\<lparr>wh_crc := 0\<rparr>) (replicate RECORD_HEADER_SIZE 0)
      in crc (crc 0 header_bytes) payload)"

definition build_header ::
  "crc_append \<Rightarrow> record_type \<Rightarrow> xid \<Rightarrow> lsn \<Rightarrow> u8 \<Rightarrow> bytes \<Rightarrow> wal_record_error + wal_record_header" where
  "build_header crc record_type xid prev_lsn flags payload =
     (let total_len = RECORD_HEADER_SIZE + length payload in
      if 2 ^ 64 \<le> total_len then Inl (Malformed ''total_length overflow'')
      else if MAX_RECORD_BYTES < total_len
        then Inl (TooLarge (length payload) (MAX_RECORD_BYTES - RECORD_HEADER_SIZE))
      else if flags \<noteq> 0 then Inl (Malformed ''record flags reserved bits'')
      else if 2 ^ 32 \<le> total_len then Inl (Malformed ''total_length overflow'')
      else
        let h = \<lparr>wh_total_length = of_nat total_len, wh_crc = 0, wh_prev_lsn = prev_lsn, wh_xid = xid,
                 wh_record_type = record_type, wh_flags = flags\<rparr>
        in Inr (h\<lparr>wh_crc := compute_record_crc crc h payload\<rparr>))"

definition wal_record_new ::
  "crc_append \<Rightarrow> record_type \<Rightarrow> xid \<Rightarrow> lsn \<Rightarrow> u8 \<Rightarrow> bytes \<Rightarrow> wal_record_error + wal_record" where
  "wal_record_new crc record_type xid prev_lsn flags payload =
     rbind (build_header crc record_type xid prev_lsn flags payload) (\<lambda>h.
       Inr \<lparr>wr_header = h, wr_payload = payload\<rparr>)"

definition trusted_total_length_to_usize :: "u32 \<Rightarrow> nat" where
  "trusted_total_length_to_usize total_length =
     (let b = word_to_le total_length;
          lo = word_from_le [b ! 0, b ! 1] :: u16;
          hi = word_from_le [b ! 2, b ! 3] :: u16
      in unat lo OR push_bit 16 (unat hi))"

text \<open>A length field that does not match the payload is a slice panic, \<open>None\<close>.\<close>

definition wal_encode :: "wal_record \<Rightarrow> bytes option" where
  "wal_encode r =
     (let total = trusted_total_length_to_usize (wh_total_length (wr_header r)) in
      if total < RECORD_HEADER_SIZE \<or> total - RECORD_HEADER_SIZE \<noteq> length (wr_payload r) then None
      else Some (splice_at RECORD_HEADER_SIZE (wr_payload r)
                  (encode_header_into (wr_header r) (replicate total 0))))"

definition append_encoded_parts_to :: "wal_record_header \<Rightarrow> bytes \<Rightarrow> bytes \<Rightarrow> bytes" where
  "append_encoded_parts_to h payload out =
     out @ encode_header_into h (replicate RECORD_HEADER_SIZE 0) @ payload"

definition append_encoded_to :: "wal_record \<Rightarrow> bytes \<Rightarrow> bytes" where
  "append_encoded_to r out = append_encoded_parts_to (wr_header r) (wr_payload r) out"

section \<open>Decoding\<close>

definition decode_header_from :: "bytes \<Rightarrow> wal_record_error + wal_record_header" where
  "decode_header_from bytes =
     (if length bytes < RECORD_HEADER_SIZE then Inl (Truncated RECORD_HEADER_SIZE (length bytes))
      else
        rbind (ok_or (read_u32_le (slice 0 4 bytes)) (Malformed ''len'')) (\<lambda>total_length.
        rbind (ok_or (read_u32_le (slice 4 8 bytes)) (Malformed ''crc'')) (\<lambda>crc.
        rbind (ok_or (read_u64_le (slice 8 16 bytes)) (Malformed ''prev_lsn'')) (\<lambda>prev_lsn.
        rbind (ok_or (read_u64_le (slice 16 24 bytes)) (Malformed ''xid'')) (\<lambda>xid.
        rbind (record_type_from_u8 (bytes ! 24)) (\<lambda>record_type.
        let flags = bytes ! 25 in
        if flags \<noteq> 0 then Inl (Malformed ''record flags reserved bits'')
        else if list_ex (\<lambda>b. b \<noteq> 0) (slice 26 RECORD_HEADER_SIZE bytes)
          then Inl (Malformed ''header reserved bytes must be zero'')
        else Inr \<lparr>wh_total_length = total_length, wh_crc = crc, wh_prev_lsn = prev_lsn, wh_xid = xid,
                  wh_record_type = record_type, wh_flags = flags\<rparr>))))))"

definition wal_decode :: "crc_append \<Rightarrow> bytes \<Rightarrow> wal_record_error + wal_record \<times> nat" where
  "wal_decode crc bytes =
     rbind (decode_header_from bytes) (\<lambda>h.
       let total = unat (wh_total_length h) in
       if total < RECORD_HEADER_SIZE then Inl (Malformed ''total_length too small'')
       else if MAX_RECORD_BYTES < total then Inl (Malformed ''total_length above ceiling'')
       else if length bytes < total then Inl (Truncated total (length bytes))
       else
         let payload = slice RECORD_HEADER_SIZE total bytes;
             actual = compute_record_crc crc h payload in
         if actual \<noteq> wh_crc h then Inl (CrcMismatch (wh_crc h) actual)
         else Inr (\<lparr>wr_header = h, wr_payload = payload\<rparr>, total))"

section \<open>The byte image of a record\<close>

lemmas record_sizes [simp] = RECORD_HEADER_SIZE_def MAX_RECORD_BYTES_def

definition header_bytes :: "wal_record_header \<Rightarrow> bytes" where
  "header_bytes h =
     word_to_le (wh_total_length h) @ word_to_le (wh_crc h) @ word_to_le (wh_prev_lsn h)
     @ word_to_le (wh_xid h) @ [record_type_to_u8 (wh_record_type h), wh_flags h, 0, 0]"

definition record_bytes :: "wal_record \<Rightarrow> bytes" where
  "record_bytes r = header_bytes (wr_header r) @ wr_payload r"

definition well_formed :: "crc_append \<Rightarrow> wal_record \<Rightarrow> bool" where
  "well_formed crc r \<longleftrightarrow>
     wh_flags (wr_header r) = 0 \<and> unat (wh_total_length (wr_header r)) = 28 + length (wr_payload r)
     \<and> 28 + length (wr_payload r) \<le> MAX_RECORD_BYTES
     \<and> wh_crc (wr_header r) = compute_record_crc crc (wr_header r) (wr_payload r)"

lemma length_header_bytes [simp]: "length (header_bytes h) = 28"
  by (simp add: header_bytes_def)

lemma length_record_bytes: "length (record_bytes r) = 28 + length (wr_payload r)"
  by (simp add: record_bytes_def)

lemma record_bytes_not_Nil [simp]: "record_bytes r \<noteq> []"
  using length_record_bytes [of r] by force

lemma encode_header_into_eq: "28 \<le> length b \<Longrightarrow> encode_header_into h b = header_bytes h @ drop 28 b"
proof -
  assume len: "28 \<le> length b"
  then have "drop 24 b = b ! 24 # b ! 25 # drop 26 b"
    using Cons_nth_drop_Suc [of 24 b] Cons_nth_drop_Suc [of 25 b] by simp
  then show ?thesis
    by (simp add: encode_header_into_def header_bytes_def Let_def codec_simps list_update_append_right)
      (simp add: splice_at_def)
qed

lemma append_encoded_to_eq: "append_encoded_to r out = out @ record_bytes r"
  by (simp add: append_encoded_to_def append_encoded_parts_to_def encode_header_into_eq record_bytes_def)

lemma le_bytes_add: "le_bytes (m + n) v = le_bytes m v @ le_bytes n (v div 256 ^ m)"
  by (induction m arbitrary: v) (simp_all add: div_mult2_eq)

lemma four_bytes: "length b = 4 \<Longrightarrow> [b ! 0, b ! 1] = take 2 b \<and> [b ! 2, b ! 3] = drop 2 b"
  by (auto simp: numeral_nat length_Suc_conv)

lemma trusted_total_length: "trusted_total_length_to_usize t = unat t"
proof -
  let ?x = "unat t"
  have x: "?x < 2 ^ 32" using unat_less_pow [of t] by simp
  have "word_to_le t = le_bytes 2 ?x @ le_bytes 2 (?x div 65536)"
    using le_bytes_add [of 2 2 ?x] by (simp add: word_to_le_def)
  with four_bytes [of "word_to_le t"] have b: "[word_to_le t ! 0, word_to_le t ! 1] = le_bytes 2 ?x"
    "[word_to_le t ! 2, word_to_le t ! 3] = le_bytes 2 (?x div 65536)" by auto
  have lo: "unat (of_nat (?x mod 256 ^ 2) :: u16) = take_bit 16 ?x"
    by (simp add: unat_of_nat take_bit_eq_mod)
  have hi: "unat (of_nat (?x div 65536 mod 256 ^ 2) :: u16) = drop_bit 16 ?x"
    using x by (simp add: unat_of_nat_small drop_bit_eq_div less_mult_imp_div_less)
  have "take_bit 16 ?x OR push_bit 16 (drop_bit 16 ?x) = ?x"
  proof (rule bit_eqI)
    show "bit (take_bit 16 ?x OR push_bit 16 (drop_bit 16 ?x)) n = bit ?x n" for n
      by (cases "n < 16") (auto simp: bit_simps)
  qed
  then show ?thesis
    unfolding trusted_total_length_to_usize_def Let_def b word_from_le_def le_nat_le_bytes lo hi .
qed

lemma wal_encode_eq: "well_formed crc r \<Longrightarrow> wal_encode r = Some (record_bytes r)"
  by (simp add: wal_encode_def well_formed_def trusted_total_length encode_header_into_eq record_bytes_def
      splice_at_def)

lemma record_type_inverse [simp]: "record_type_from_u8 (record_type_to_u8 t) = Inr t"
  by (cases t) (simp_all add: record_type_from_u8_def)

lemma record_type_from_u8_Inr: "record_type_from_u8 v = Inr t \<longleftrightarrow> v = record_type_to_u8 t"
  by (cases t) (auto simp: record_type_from_u8_def split: if_splits)

lemma decode_header_bytes:
  "wh_flags h = 0 \<Longrightarrow> decode_header_from (header_bytes h @ rest) = Inr h"
  by (simp add: decode_header_from_def header_bytes_def slice_append_right nth_append) (simp add: slice_def)

lemma wal_decode_record:
  "well_formed crc r \<Longrightarrow> wal_decode crc (record_bytes r @ rest) = Inr (r, length (record_bytes r))"
  by (simp add: wal_decode_def well_formed_def record_bytes_def decode_header_bytes slice_append_right slice_def Let_def)

lemma wal_decode_sound:
  assumes "wal_decode crc b = Inr (r, n)"
  shows "well_formed crc r" "n = length (record_bytes r)" "b = record_bytes r @ drop n b" "n \<le> length b"
proof -
  from assms obtain h where h: "decode_header_from b = Inr h" and n: "n = unat (wh_total_length h)"
    and r: "r = \<lparr>wr_header = h, wr_payload = slice 28 n b\<rparr>"
    and bounds: "28 \<le> n" "n \<le> MAX_RECORD_BYTES" "n \<le> length b"
    and crc: "compute_record_crc crc h (slice 28 n b) = wh_crc h"
    by (auto simp: wal_decode_def Let_def split: if_splits)
  from h bounds have f: "read_u32_le (slice 0 4 b) = Some (wh_total_length h)" "read_u32_le (slice 4 8 b) = Some (wh_crc h)"
    "read_u64_le (slice 8 16 b) = Some (wh_prev_lsn h)" "read_u64_le (slice 16 24 b) = Some (wh_xid h)"
    "b ! 24 = record_type_to_u8 (wh_record_type h)" "b ! 25 = wh_flags h" "wh_flags h = 0"
    "\<not> list_ex (\<lambda>b. b \<noteq> 0) (slice 26 28 b)"
    by (auto simp: decode_header_from_def Let_def record_type_from_u8_Inr split: if_splits)
  have "slice 26 28 b = [0, 0]"
    using f(8) bounds by (intro replicate_eqI [of _ 2 0, simplified numeral_2_eq_2 replicate.simps]) (auto simp: list_ex_iff)
  moreover have "slice 24 26 b = [b ! 24, b ! 25]"
    using bounds by (intro nth_equalityI) (auto simp: nth_slice less_Suc_eq numeral_2_eq_2)
  ultimately have tail: "[record_type_to_u8 (wh_record_type h), wh_flags h, 0, 0] = slice 24 28 b"
    using slice_join [of 24 26 28 b] f(5,6) by simp
  have "word_to_le (wh_total_length h) = slice 0 4 b" "word_to_le (wh_crc h) = slice 4 8 b"
    "word_to_le (wh_prev_lsn h) = slice 8 16 b" "word_to_le (wh_xid h) = slice 16 24 b"
    using bounds by (simp_all add: read_le_slice(2) [OF _ f(1)] read_le_slice(2) [OF _ f(2)]
        read_le_slice(3) [OF _ f(3)] read_le_slice(3) [OF _ f(4)])
  then have "header_bytes h = slice 0 28 b"
    unfolding header_bytes_def tail by (simp add: slice_join)
  then have img: "record_bytes r = slice 0 n b"
    using bounds slice_join [of 0 28 n b] by (simp add: record_bytes_def r)
  then show "b = record_bytes r @ drop n b" by (simp add: slice_def)
  show "n = length (record_bytes r)" using img bounds by simp
  show "n \<le> length b" by (rule bounds)
  show "well_formed crc r" using bounds crc f(7) n by (simp add: well_formed_def r)
qed

lemma wal_decode_prefix:
  assumes "well_formed crc r" "k < length (record_bytes r)"
  obtains needed where "wal_decode crc (take k (record_bytes r)) = Inl (Truncated needed k)"
proof (cases "k < 28")
  case True
  then show ?thesis
    using that assms(2) by (simp add: wal_decode_def decode_header_from_def)
next
  case False
  have "take k (record_bytes r) = header_bytes (wr_header r) @ take (k - 28) (wr_payload r)"
    using False by (simp add: record_bytes_def)
  with that assms False show ?thesis
    by (simp add: wal_decode_def decode_header_bytes well_formed_def length_record_bytes)
qed

lemma total_length_word: "n \<le> 67108836 \<Longrightarrow> unat (28 + of_nat n :: u32) = 28 + n"
  using unat_of_nat_small [of "28 + n", where 'a = 32] by simp

lemma wal_record_new_Inr:
  "wal_record_new crc t x prev flags payload = Inr r \<longleftrightarrow>
     flags = 0 \<and> well_formed crc r \<and> wr_payload r = payload \<and> wh_record_type (wr_header r) = t
     \<and> wh_xid (wr_header r) = x \<and> wh_prev_lsn (wr_header r) = prev" (is "?new \<longleftrightarrow> ?wf")
proof
  assume ?new
  then show ?wf
    by (auto simp: wal_record_new_def build_header_def well_formed_def Let_def compute_record_crc_def
        total_length_word split: if_splits)
next
  assume wf: ?wf
  obtain h p where r: "r = \<lparr>wr_header = h, wr_payload = p\<rparr>" by (cases r)
  have "length payload \<le> 67108836" using wf by (auto simp: well_formed_def)
  moreover from this have "wh_total_length h = 28 + of_nat (length payload)"
    using wf by (auto simp: well_formed_def r word_unat_eq_iff total_length_word)
  ultimately show ?new
    using wf by (cases h) (auto simp: wal_record_new_def build_header_def well_formed_def Let_def compute_record_crc_def r)
qed

end
