(* ===== verification/Wal_Payload.thy ===== *)
theory Wal_Payload
  imports Wal_Record
begin

text \<open>
  Typed payloads of the log records: the shared helpers of
  \<^verbatim>\<open>crates/ultrasql-wal/src/payload/mod.rs\<close>, the transaction payloads of \<^verbatim>\<open>payload/txn.rs\<close>
  (commit, abort, checkpoint, full-page write) and the heap insert payloads of
  \<^verbatim>\<open>payload/heap_insert.rs\<close>. The locale \<open>payload_codec\<close> states what recovery needs of
  a codec: what the encoder writes the decoder reads back, and the decoder accepts nothing it
  does not understand completely.
\<close>

section \<open>Shared helpers\<close>

definition MAX_VARIABLE_PAYLOAD_BYTES :: nat where
  "MAX_VARIABLE_PAYLOAD_BYTES = MAX_RECORD_BYTES - RECORD_HEADER_SIZE - 64"

datatype payload_error =
  PTruncated nat nat
| PMalformed string
| PTrailing nat nat
| PFlagsReserved u8

definition require_exact_len :: "bytes \<Rightarrow> nat \<Rightarrow> payload_error + unit" where
  "require_exact_len bytes expected =
     (if length bytes < expected then Inl (PTruncated expected (length bytes))
      else if length bytes = expected then Inr ()
      else Inl (PTrailing expected (length bytes)))"

definition checked_offset :: "nat \<Rightarrow> nat \<Rightarrow> string \<Rightarrow> payload_error + nat" where
  "checked_offset start len context =
     (if start + len < 2 ^ 64 then Inr (start + len) else Inl (PMalformed context))"

primrec checked_len_sum_from :: "nat \<Rightarrow> nat list \<Rightarrow> string \<Rightarrow> payload_error + nat" where
  "checked_len_sum_from acc [] context = Inr acc"
| "checked_len_sum_from acc (p # ps) context =
     (if acc + p < 2 ^ 64 then checked_len_sum_from (acc + p) ps context else Inl (PMalformed context))"

definition checked_len_sum :: "nat list \<Rightarrow> string \<Rightarrow> payload_error + nat" where
  "checked_len_sum parts context = checked_len_sum_from 0 parts context"

definition TID_SIZE :: nat where "TID_SIZE = 12"

definition encode_tid :: "tuple_id \<Rightarrow> payload_error + bytes" where
  "encode_tid tid =
     (let block = pg_block (tid_page tid) in
      if 0x00FFFFFF < block then Inl (PMalformed ''tid block number exceeds 24-bit wire field'')
      else
        let b = splice_at 0 (word_to_le (pg_relation (tid_page tid))) (replicate TID_SIZE 0);
            b = splice_at 4 (word_to_le block) b;
            b = splice_at 8 (word_to_le (tid_slot tid)) b
        in Inr (splice_at 10 (word_to_le (0 :: u16)) b))"

definition decode_tid :: "bytes \<Rightarrow> payload_error + tuple_id" where
  "decode_tid bytes =
     (if length bytes < TID_SIZE then Inl (PTruncated TID_SIZE (length bytes))
      else
        rbind (ok_or (read_u32_le (slice 0 4 bytes)) (PMalformed ''tid relation'')) (\<lambda>rel_raw.
        rbind (ok_or (read_u32_le (slice 4 8 bytes)) (PMalformed ''tid block'')) (\<lambda>block_word.
        if block_word AND 0xFF000000 \<noteq> 0 then Inl (PMalformed ''tid block reserved bits set'')
        else
          rbind (ok_or (read_u16_le (slice 10 12 bytes)) (PMalformed ''tid reserved bytes'')) (\<lambda>reserved.
          if reserved \<noteq> 0 then Inl (PMalformed ''tid reserved bytes must be zero'')
          else
            rbind (ok_or (read_u16_le (slice 8 10 bytes)) (PMalformed ''tid slot'')) (\<lambda>slot.
            Inr (TupleId (PageId rel_raw (block_word AND 0x00FFFFFF)) slot))))))"

definition PAGE_ID_SIZE :: nat where "PAGE_ID_SIZE = 8"

definition encode_page_id :: "page_id \<Rightarrow> bytes" where
  "encode_page_id page =
     splice_at 4 (word_to_le (pg_block page)) (splice_at 0 (word_to_le (pg_relation page)) (replicate PAGE_ID_SIZE 0))"

definition decode_page_id :: "bytes \<Rightarrow> payload_error + page_id" where
  "decode_page_id bytes =
     (if length bytes < PAGE_ID_SIZE then Inl (PTruncated PAGE_ID_SIZE (length bytes))
      else
        rbind (ok_or (read_u32_le (slice 0 4 bytes)) (PMalformed ''page relation'')) (\<lambda>rel_raw.
        rbind (ok_or (read_u32_le (slice 4 8 bytes)) (PMalformed ''page block'')) (\<lambda>block_raw.
        Inr (PageId rel_raw block_raw))))"

section \<open>Commit, abort and checkpoint\<close>

record commit_payload =
  cp_commit_lsn :: lsn
  cp_commit_timestamp_micros :: u64
  cp_committed_subxids :: "xid list"

primrec encode_subxids :: "xid list \<Rightarrow> nat \<Rightarrow> bytes \<Rightarrow> bytes" where
  "encode_subxids [] offset out = out"
| "encode_subxids (sub # subs) offset out = encode_subxids subs (offset + 8) (splice_at offset (word_to_le sub) out)"

definition commit_encode :: "commit_payload \<Rightarrow> payload_error + bytes" where
  "commit_encode p =
     (let n = length (cp_committed_subxids p) in
      if 2 ^ 32 \<le> n then Inl (PMalformed ''commit subxid count overflow'')
      else if 2 ^ 64 \<le> n * 8 then Inl (PMalformed ''commit subxid bytes overflow'')
      else
        rbind (checked_offset 20 (n * 8) ''commit length overflow'') (\<lambda>total.
        let out = splice_at 0 (word_to_le (cp_commit_lsn p)) (replicate total 0);
            out = splice_at 8 (word_to_le (cp_commit_timestamp_micros p)) out;
            out = splice_at 16 (word_to_le (of_nat n :: u32)) out
        in Inr (encode_subxids (cp_committed_subxids p) 20 out)))"

primrec decode_subxids :: "nat \<Rightarrow> nat \<Rightarrow> bytes \<Rightarrow> payload_error + xid list" where
  "decode_subxids 0 offset bytes = Inr []"
| "decode_subxids (Suc n) offset bytes =
     rbind (ok_or (read_u64_le (slice offset (offset + 8) bytes)) (PMalformed ''commit subxid'')) (\<lambda>raw.
     rbind (decode_subxids n (offset + 8) bytes) (\<lambda>rest. Inr (raw # rest)))"

definition commit_decode :: "bytes \<Rightarrow> payload_error + commit_payload" where
  "commit_decode bytes =
     (if length bytes < 16 then Inl (PTruncated 16 (length bytes))
      else
        rbind (ok_or (read_u64_le (slice 0 8 bytes)) (PMalformed ''commit lsn'')) (\<lambda>commit_lsn.
        rbind (ok_or (read_u64_le (slice 8 16 bytes)) (PMalformed ''commit timestamp'')) (\<lambda>ts.
        if length bytes = 16
        then Inr \<lparr>cp_commit_lsn = commit_lsn, cp_commit_timestamp_micros = ts, cp_committed_subxids = []\<rparr>
        else if length bytes < 20 then Inl (PTruncated 20 (length bytes))
        else
          rbind (ok_or (read_u32_le (slice 16 20 bytes)) (PMalformed ''commit subxid count'')) (\<lambda>cnt.
          let n = unat cnt in
          if 2 ^ 64 \<le> n * 8 then Inl (PMalformed ''commit subxid bytes overflow'')
          else
            rbind (checked_offset 20 (n * 8) ''commit length overflow'') (\<lambda>needed.
            if length bytes < needed then Inl (PTruncated needed (length bytes))
            else
              rbind (decode_subxids n 20 bytes) (\<lambda>subs.
              rbind (require_exact_len bytes needed) (\<lambda>_.
              Inr \<lparr>cp_commit_lsn = commit_lsn, cp_commit_timestamp_micros = ts, cp_committed_subxids = subs\<rparr>)))))))"

record abort_payload =
  ap_abort_lsn :: lsn

definition abort_encode :: "abort_payload \<Rightarrow> bytes" where
  "abort_encode p = splice_at 0 (word_to_le (ap_abort_lsn p)) (replicate 8 0)"

definition abort_decode :: "bytes \<Rightarrow> payload_error + abort_payload" where
  "abort_decode bytes =
     (if length bytes < 8 then Inl (PTruncated 8 (length bytes))
      else
        rbind (ok_or (read_u64_le (slice 0 8 bytes)) (PMalformed ''abort lsn'')) (\<lambda>abort_lsn.
        rbind (require_exact_len bytes 8) (\<lambda>_. Inr \<lparr>ap_abort_lsn = abort_lsn\<rparr>)))"

record checkpoint_payload =
  kp_redo_from :: lsn
  kp_oldest_in_progress :: xid
  kp_next_xid :: xid

definition checkpoint_encode :: "checkpoint_payload \<Rightarrow> bytes" where
  "checkpoint_encode p =
     (let out = splice_at 0 (word_to_le (kp_redo_from p)) (replicate 24 0);
          out = splice_at 8 (word_to_le (kp_oldest_in_progress p)) out
      in splice_at 16 (word_to_le (kp_next_xid p)) out)"

definition checkpoint_decode :: "bytes \<Rightarrow> payload_error + checkpoint_payload" where
  "checkpoint_decode bytes =
     (if length bytes < 24 then Inl (PTruncated 24 (length bytes))
      else
        rbind (ok_or (read_u64_le (slice 0 8 bytes)) (PMalformed ''ckpt redo_from'')) (\<lambda>redo_from.
        rbind (ok_or (read_u64_le (slice 8 16 bytes)) (PMalformed ''ckpt oldest_in_progress'')) (\<lambda>oldest.
        rbind (ok_or (read_u64_le (slice 16 24 bytes)) (PMalformed ''ckpt next_xid'')) (\<lambda>next_xid.
        rbind (require_exact_len bytes 24) (\<lambda>_.
        Inr \<lparr>kp_redo_from = redo_from, kp_oldest_in_progress = oldest, kp_next_xid = next_xid\<rparr>)))))"

section \<open>Full-page writes\<close>

record full_page_write_payload =
  fp_page :: page_id
  fp_page_bytes :: bytes

definition full_page_write_encode :: "full_page_write_payload \<Rightarrow> payload_error + bytes" where
  "full_page_write_encode p =
     (if length (fp_page_bytes p) \<noteq> PAGE_SIZE then Inl (PMalformed ''fpw page_bytes length'')
      else
        let out = splice_at 0 (encode_page_id (fp_page p)) (replicate (12 + PAGE_SIZE) 0);
            out = splice_at 8 (word_to_le (of_nat PAGE_SIZE :: u32)) out
        in Inr (splice_at 12 (fp_page_bytes p) out))"

definition full_page_write_decode :: "bytes \<Rightarrow> payload_error + full_page_write_payload" where
  "full_page_write_decode bytes =
     (if length bytes < 12 then Inl (PTruncated 12 (length bytes))
      else
        rbind (decode_page_id bytes) (\<lambda>page.
        rbind (ok_or (read_u32_le (slice 8 12 bytes)) (PMalformed ''fpw page_bytes_len'')) (\<lambda>len.
        if unat len \<noteq> PAGE_SIZE then Inl (PMalformed ''fpw page_bytes_len must equal PAGE_SIZE'')
        else
          rbind (checked_offset 12 (unat len) ''fpw length overflow'') (\<lambda>needed.
          if length bytes < needed then Inl (PTruncated needed (length bytes))
          else
            rbind (require_exact_len bytes needed) (\<lambda>_.
            Inr \<lparr>fp_page = page, fp_page_bytes = slice 12 needed bytes\<rparr>)))))"

section \<open>Heap inserts\<close>

record heap_insert_payload =
  hi_tid :: tuple_id
  hi_tuple_bytes :: bytes

definition heap_insert_encode :: "heap_insert_payload \<Rightarrow> payload_error + bytes" where
  "heap_insert_encode p =
     (let n = length (hi_tuple_bytes p) in
      if 2 ^ 32 \<le> n then Inl (PMalformed ''heap_insert tuple_len overflow'')
      else
        rbind (checked_len_sum [TID_SIZE, 4, n] ''heap_insert length overflow'') (\<lambda>total.
        rbind (encode_tid (hi_tid p)) (\<lambda>tid_buf.
        let out = splice_at 0 tid_buf (replicate total 0);
            out = splice_at TID_SIZE (word_to_le (of_nat n :: u32)) out
        in Inr (splice_at (TID_SIZE + 4) (hi_tuple_bytes p) out))))"

definition heap_insert_decode :: "bytes \<Rightarrow> payload_error + heap_insert_payload" where
  "heap_insert_decode bytes =
     (if length bytes < TID_SIZE + 4 then Inl (PTruncated (TID_SIZE + 4) (length bytes))
      else
        rbind (decode_tid bytes) (\<lambda>tid.
        rbind (ok_or (read_u32_le (slice TID_SIZE (TID_SIZE + 4) bytes)) (PMalformed ''heap_insert tuple_len'')) (\<lambda>len.
        if MAX_VARIABLE_PAYLOAD_BYTES < unat len then Inl (PMalformed ''heap_insert tuple_len exceeds ceiling'')
        else
          rbind (checked_len_sum [TID_SIZE + 4, unat len] ''heap_insert length overflow'') (\<lambda>needed.
          if length bytes < needed then Inl (PTruncated needed (length bytes))
          else
            rbind (require_exact_len bytes needed) (\<lambda>_.
            Inr \<lparr>hi_tid = tid, hi_tuple_bytes = slice (TID_SIZE + 4) needed bytes\<rparr>)))))"

record heap_insert_batch_entry =
  be_slot :: u16
  be_tuple_bytes :: bytes

record heap_insert_batch_payload =
  bp_page :: page_id
  bp_entries :: "heap_insert_batch_entry list"

primrec batch_total :: "heap_insert_batch_entry list \<Rightarrow> nat \<Rightarrow> payload_error + nat" where
  "batch_total [] acc = Inr acc"
| "batch_total (e # es) acc =
     (if MAX_VARIABLE_PAYLOAD_BYTES < length (be_tuple_bytes e)
      then Inl (PMalformed ''heap_insert_batch tuple_len exceeds ceiling'')
      else
        rbind (checked_len_sum [acc, 8, length (be_tuple_bytes e)] ''heap_insert_batch length overflow'') (\<lambda>t.
        batch_total es t))"

primrec encode_entries :: "heap_insert_batch_entry list \<Rightarrow> nat \<Rightarrow> bytes \<Rightarrow> payload_error + bytes" where
  "encode_entries [] off out = Inr out"
| "encode_entries (e # es) off out =
     rbind (checked_offset off 2 ''heap_insert_batch length overflow'') (\<lambda>slot_end.
     rbind (checked_offset slot_end 2 ''heap_insert_batch length overflow'') (\<lambda>reserved_end.
     rbind (checked_offset reserved_end 4 ''heap_insert_batch length overflow'') (\<lambda>len_end.
     if 2 ^ 32 \<le> length (be_tuple_bytes e) then Inl (PMalformed ''heap_insert_batch tuple_len overflow'')
     else
       rbind (checked_offset len_end (length (be_tuple_bytes e)) ''heap_insert_batch length overflow'') (\<lambda>tuple_end.
       let out = splice_at off (word_to_le (be_slot e)) out;
           out = splice_at slot_end (word_to_le (0 :: u16)) out;
           out = splice_at reserved_end (word_to_le (of_nat (length (be_tuple_bytes e)) :: u32)) out;
           out = splice_at len_end (be_tuple_bytes e) out
       in encode_entries es tuple_end out))))"

definition heap_insert_batch_encode :: "heap_insert_batch_payload \<Rightarrow> payload_error + bytes" where
  "heap_insert_batch_encode p =
     (if 2 ^ 32 \<le> length (bp_entries p) then Inl (PMalformed ''heap_insert_batch entry_count overflow'')
      else
        rbind (batch_total (bp_entries p) 12) (\<lambda>total.
        if MAX_VARIABLE_PAYLOAD_BYTES < total then Inl (PMalformed ''heap_insert_batch length exceeds ceiling'')
        else
          let out = splice_at 0 (encode_page_id (bp_page p)) (replicate total 0);
              out = splice_at 8 (word_to_le (of_nat (length (bp_entries p)) :: u32)) out
          in encode_entries (bp_entries p) 12 out))"

primrec decode_entries :: "nat \<Rightarrow> nat \<Rightarrow> bytes \<Rightarrow> payload_error + heap_insert_batch_entry list \<times> nat" where
  "decode_entries 0 off bytes = Inr ([], off)"
| "decode_entries (Suc n) off bytes =
     rbind (checked_offset off 2 ''heap_insert_batch length overflow'') (\<lambda>slot_end.
     if length bytes < slot_end then Inl (PTruncated slot_end (length bytes))
     else
       rbind (ok_or (read_u16_le (slice off slot_end bytes)) (PMalformed ''heap_insert_batch slot'')) (\<lambda>slot.
       rbind (checked_offset slot_end 2 ''heap_insert_batch length overflow'') (\<lambda>reserved_end.
       if length bytes < reserved_end then Inl (PTruncated reserved_end (length bytes))
       else
         rbind (ok_or (read_u16_le (slice slot_end reserved_end bytes)) (PMalformed ''heap_insert_batch entry reserved'')) (\<lambda>reserved.
         if reserved \<noteq> 0 then Inl (PMalformed ''heap_insert_batch entry reserved bits set'')
         else
           rbind (checked_offset reserved_end 4 ''heap_insert_batch length overflow'') (\<lambda>len_end.
           if length bytes < len_end then Inl (PTruncated len_end (length bytes))
           else
             rbind (ok_or (read_u32_le (slice reserved_end len_end bytes)) (PMalformed ''heap_insert_batch tuple_len'')) (\<lambda>len.
             if MAX_VARIABLE_PAYLOAD_BYTES < unat len
             then Inl (PMalformed ''heap_insert_batch tuple_len exceeds ceiling'')
             else
               rbind (checked_offset len_end (unat len) ''heap_insert_batch length overflow'') (\<lambda>tuple_end.
               if length bytes < tuple_end then Inl (PTruncated tuple_end (length bytes))
               else
                 rbind (decode_entries n tuple_end bytes) (\<lambda>(rest, end_off).
                 Inr (\<lparr>be_slot = slot, be_tuple_bytes = slice len_end tuple_end bytes\<rparr> # rest, end_off)))))))))"

definition heap_insert_batch_decode :: "bytes \<Rightarrow> payload_error + heap_insert_batch_payload" where
  "heap_insert_batch_decode bytes =
     (if length bytes < 12 then Inl (PTruncated 12 (length bytes))
      else
        rbind (decode_page_id bytes) (\<lambda>page.
        rbind (ok_or (read_u32_le (slice 8 12 bytes)) (PMalformed ''heap_insert_batch entry_count'')) (\<lambda>entry_count.
        rbind (decode_entries (unat entry_count) 12 bytes) (\<lambda>(entries, off).
        rbind (require_exact_len bytes off) (\<lambda>_.
        Inr \<lparr>bp_page = page, bp_entries = entries\<rparr>)))))"

section \<open>Byte images\<close>

text \<open>
  Each encoder writes fields into a zeroed buffer; its result is the concatenation of the fields, and
  each decoder accepts exactly such concatenations.
\<close>

lemmas payload_sizes [simp] = TID_SIZE_def PAGE_ID_SIZE_def MAX_VARIABLE_PAYLOAD_BYTES_def

definition tid_bytes :: "tuple_id \<Rightarrow> bytes" where
  "tid_bytes t = word_to_le (pg_relation (tid_page t)) @ word_to_le (pg_block (tid_page t))
     @ word_to_le (tid_slot t) @ [0, 0]"

definition page_id_bytes :: "page_id \<Rightarrow> bytes" where
  "page_id_bytes p = word_to_le (pg_relation p) @ word_to_le (pg_block p)"

lemma length_tid_bytes [simp]: "length (tid_bytes t) = 12"
  by (simp add: tid_bytes_def)

lemma length_page_id_bytes [simp]: "length (page_id_bytes p) = 8"
  by (simp add: page_id_bytes_def)

lemmas read_slice_bytes = read_le_slice [rotated 1]

lemma word_to_le_zero16: "word_to_le (0 :: u16) = [0, 0]"
  by (simp add: word_to_le_def numeral_2_eq_2)

lemma encode_page_id_eq [simp]: "encode_page_id p = page_id_bytes p"
  by (simp add: encode_page_id_def page_id_bytes_def codec_simps)

lemma decode_page_id_bytes [simp]: "decode_page_id (page_id_bytes p @ rest) = Inr p"
  by (simp add: decode_page_id_def page_id_bytes_def slice_append_right)

lemma decode_page_id_Inr:
  "decode_page_id b = Inr p \<Longrightarrow> 8 \<le> length b \<and> page_id_bytes p = slice 0 8 b"
  by (auto simp: decode_page_id_def page_id_bytes_def read_slice_bytes slice_join split: if_splits)

lemma encode_tid_Inr: "encode_tid t = Inr b \<longleftrightarrow> unat (pg_block (tid_page t)) < 2 ^ 24 \<and> b = tid_bytes t"
  by (auto simp: encode_tid_def tid_bytes_def Let_def codec_simps word_to_le_zero16 word_less_nat_alt not_less)

lemma high_mask: "(0xFF000000 :: u32) = push_bit 24 (mask 8)"
  by (simp add: push_bit_eq_mult mask_eq_exp_minus_1)

lemma block_mask: "(w :: u32) AND 0xFF000000 = 0 \<longleftrightarrow> unat w < 2 ^ 24"
proof -
  have "w AND 0xFF000000 = 0 \<longleftrightarrow> drop_bit 24 w = 0"
  proof
    assume "w AND 0xFF000000 = 0"
    then have *: "\<not> bit (w AND push_bit 24 (mask 8)) (24 + n)" for n by (simp add: high_mask)
    have "\<not> bit w (24 + n)" for n
      using * [of n] bit_imp_le_length [of w "24 + n"] by (auto simp: bit_simps)
    then show "drop_bit 24 w = 0" by (intro bit_word_eqI) (simp add: bit_simps)
  next
    assume "drop_bit 24 w = 0"
    then have "\<not> bit (drop_bit 24 w) n" for n by simp
    then have "\<not> bit w (24 + n)" for n by (simp add: bit_simps add.commute)
    then show "w AND 0xFF000000 = 0"
      unfolding high_mask by (intro bit_word_eqI) (auto simp: bit_simps le_iff_add)
  qed
  also have "\<dots> \<longleftrightarrow> unat w div 2 ^ 24 = 0"
    by (simp add: word_unat_eq_iff drop_bit_eq_div unat_div)
  finally show ?thesis by (simp add: div_eq_0_iff)
qed

lemma block_low: "unat (w :: u32) < 2 ^ 24 \<Longrightarrow> w AND 0x00FFFFFF = w"
proof -
  assume "unat w < 2 ^ 24"
  then have "take_bit 24 w = w"
    by (simp add: word_unat_eq_iff unsigned_take_bit_eq take_bit_nat_eq_self)
  then show ?thesis by (simp add: take_bit_eq_mask mask_eq_exp_minus_1)
qed

lemma decode_tid_bytes [simp]:
  "unat (pg_block (tid_page t)) < 2 ^ 24 \<Longrightarrow> decode_tid (tid_bytes t @ rest) = Inr t"
  by (simp add: decode_tid_def tid_bytes_def slice_append_right block_mask block_low
      flip: word_to_le_zero16)

lemma decode_tid_Inr:
  "decode_tid b = Inr t \<Longrightarrow>
     12 \<le> length b \<and> tid_bytes t = slice 0 12 b \<and> unat (pg_block (tid_page t)) < 2 ^ 24"
  by (auto simp: decode_tid_def tid_bytes_def read_slice_bytes slice_join block_mask block_low
      split: if_splits simp flip: word_to_le_zero16)

text \<open>Lengths and offsets.\<close>

lemma require_exact_len_Inr [simp]: "require_exact_len b n = Inr u \<longleftrightarrow> length b = n"
  by (auto simp: require_exact_len_def)

lemma require_exact_len_eq: "length b = n \<Longrightarrow> require_exact_len b n = Inr ()"
  by simp

lemma checked_offset_Inr [simp]: "checked_offset a n c = Inr r \<longleftrightarrow> a + n < 2 ^ 64 \<and> r = a + n"
  by (auto simp: checked_offset_def)

lemma checked_offset_eq: "a + n < 2 ^ 64 \<Longrightarrow> checked_offset a n c = Inr (a + n)"
  by simp

lemma checked_len_sum_from_Inr:
  "acc < 2 ^ 64 \<Longrightarrow> checked_len_sum_from acc ps c = Inr r \<longleftrightarrow> acc + sum_list ps < 2 ^ 64 \<and> r = acc + sum_list ps"
  by (induction ps arbitrary: acc) auto

lemma checked_len_sum_Inr [simp]: "checked_len_sum ps c = Inr r \<longleftrightarrow> sum_list ps < 2 ^ 64 \<and> r = sum_list ps"
  by (simp add: checked_len_sum_def checked_len_sum_from_Inr)

lemma checked_len_sum_eq: "sum_list ps < 2 ^ 64 \<Longrightarrow> checked_len_sum ps c = Inr (sum_list ps)"
  by simp

lemma slice_replicate_0 [simp]: "drop n (replicate n x) = []"
  by simp

lemma slice_concat_head [simp]: "a = length xs \<Longrightarrow> b = a + length ys \<Longrightarrow> slice a b (xs @ ys @ zs) = ys"
  by (simp add: slice_def)

lemma slice_concat_tail [simp]: "a = length xs \<Longrightarrow> b = a + length ys \<Longrightarrow> slice a b (xs @ ys) = ys"
  by (simp add: slice_def)

subsection \<open>Transaction payloads\<close>

definition subxids_bytes :: "xid list \<Rightarrow> bytes" where
  "subxids_bytes subs = concat (map word_to_le subs)"

lemma length_subxids_bytes [simp]: "length (subxids_bytes subs) = length subs * 8"
  by (induction subs) (simp_all add: subxids_bytes_def)

lemma encode_subxids_eq:
  "off = length pre \<Longrightarrow> encode_subxids subs off (pre @ replicate (length subs * 8) 0) = pre @ subxids_bytes subs"
proof (induction subs arbitrary: pre off)
  case (Cons s subs)
  have "splice_at (length pre) (word_to_le s) (pre @ replicate (length (s # subs) * 8) 0)
      = (pre @ word_to_le s) @ replicate (length subs * 8) 0"
    by (simp add: codec_simps)
  with Cons.IH [of "off + 8" "pre @ word_to_le s"] Cons.prems show ?case by (simp add: subxids_bytes_def)
qed (simp add: subxids_bytes_def)

lemma decode_subxids_bytes:
  "off = length pre \<Longrightarrow> decode_subxids (length subs) off (pre @ subxids_bytes subs @ rest) = Inr subs"
proof (induction subs arbitrary: pre off)
  case (Cons s subs)
  from Cons.IH [of "off + 8" "pre @ word_to_le s"] Cons.prems show ?case
    by (simp add: subxids_bytes_def)
qed simp

lemma decode_subxids_Inr:
  "decode_subxids n off b = Inr subs \<Longrightarrow> off + n * 8 \<le> length b \<Longrightarrow>
     length subs = n \<and> subxids_bytes subs = slice off (off + n * 8) b"
proof (induction n arbitrary: off subs)
  case (Suc n)
  then obtain s subs' where s: "read_u64_le (slice off (off + 8) b) = Some s" "subs = s # subs'"
    "decode_subxids n (off + 8) b = Inr subs'" by auto
  with Suc.IH [of "off + 8" subs'] Suc.prems show ?case
    using slice_join [of off "off + 8" "off + 8 + n * 8" b] read_slice_bytes(3) [OF s(1)]
    by (simp add: subxids_bytes_def add.assoc)
qed (simp add: subxids_bytes_def slice_def)

definition commit_bytes :: "commit_payload \<Rightarrow> bytes" where
  "commit_bytes p = word_to_le (cp_commit_lsn p) @ word_to_le (cp_commit_timestamp_micros p)
     @ word_to_le (of_nat (length (cp_committed_subxids p)) :: u32) @ subxids_bytes (cp_committed_subxids p)"

lemma commit_encode_Inr: "commit_encode p = Inr b \<longleftrightarrow> length (cp_committed_subxids p) < 2 ^ 32 \<and> b = commit_bytes p"
proof -
  let ?s = "cp_committed_subxids p"
  let ?pre = "word_to_le (cp_commit_lsn p) @ word_to_le (cp_commit_timestamp_micros p) @ word_to_le (of_nat (length ?s) :: u32)"
  have "encode_subxids ?s 20 (?pre @ replicate (length ?s * 8) 0) = ?pre @ subxids_bytes ?s"
    by (rule encode_subxids_eq) simp
  then show ?thesis
    by (auto simp: commit_encode_def commit_bytes_def Let_def codec_simps not_less)
qed

lemma commit_decode_bytes:
  assumes "length (cp_committed_subxids p) < 2 ^ 32"
  shows "commit_decode (commit_bytes p) = Inr p"
proof -
  let ?s = "cp_committed_subxids p"
  let ?pre = "word_to_le (cp_commit_lsn p) @ word_to_le (cp_commit_timestamp_micros p) @ word_to_le (of_nat (length ?s) :: u32)"
  have "decode_subxids (length ?s) 20 (?pre @ subxids_bytes ?s @ []) = Inr ?s"
    by (rule decode_subxids_bytes) simp
  with assms show ?thesis
    by (simp add: commit_decode_def commit_bytes_def Let_def unat_of_nat_small slice_append_right
        checked_offset_eq require_exact_len_eq)
qed

lemma commit_decode_Inr:
  assumes "commit_decode b = Inr p" and "length b \<noteq> 16"
  shows "length (cp_committed_subxids p) < 2 ^ 32 \<and> b = commit_bytes p"
proof -
  from assms obtain cnt where r: "read_u64_le (slice 0 8 b) = Some (cp_commit_lsn p)"
      "read_u64_le (slice 8 16 b) = Some (cp_commit_timestamp_micros p)"
      "read_u32_le (slice 16 20 b) = Some cnt"
      "decode_subxids (unat cnt) 20 b = Inr (cp_committed_subxids p)"
      and len: "length b = 20 + unat cnt * 8"
    by (auto simp: commit_decode_def Let_def split: if_splits)
  from decode_subxids_Inr [OF r(4)] len have n: "length (cp_committed_subxids p) = unat cnt"
    "subxids_bytes (cp_committed_subxids p) = slice 20 (length b) b" by simp_all
  have "word_to_le (cp_commit_lsn p) = slice 0 8 b" "word_to_le (cp_commit_timestamp_micros p) = slice 8 16 b"
    "word_to_le cnt = slice 16 20 b"
    using len by (simp_all add: read_slice_bytes(3) [OF r(1)] read_slice_bytes(3) [OF r(2)] read_slice_bytes(2) [OF r(3)])
  with n len have "b = commit_bytes p"
    by (simp add: commit_bytes_def slice_join)
  with n unat_less_pow [of cnt] show ?thesis by simp
qed

lemma abort_decode_Inr: "abort_decode b = Inr p \<longleftrightarrow> b = abort_encode p"
proof
  assume "abort_decode b = Inr p"
  then have r: "read_u64_le (slice 0 8 b) = Some (ap_abort_lsn p)" and "length b = 8"
    by (auto simp: abort_decode_def split: if_splits)
  with read_slice_bytes(3) [OF r] show "b = abort_encode p" by (simp add: abort_encode_def codec_simps)
qed (simp add: abort_encode_def abort_decode_def codec_simps require_exact_len_eq)

lemma checkpoint_encode_eq:
  "checkpoint_encode p = word_to_le (kp_redo_from p) @ word_to_le (kp_oldest_in_progress p) @ word_to_le (kp_next_xid p)"
  by (simp add: checkpoint_encode_def Let_def codec_simps)

lemma checkpoint_decode_Inr: "checkpoint_decode b = Inr p \<longleftrightarrow> b = checkpoint_encode p"
proof
  assume "checkpoint_decode b = Inr p"
  then have r: "read_u64_le (slice 0 8 b) = Some (kp_redo_from p)"
    "read_u64_le (slice 8 16 b) = Some (kp_oldest_in_progress p)" "read_u64_le (slice 16 24 b) = Some (kp_next_xid p)"
    and len: "length b = 24"
    by (auto simp: checkpoint_decode_def split: if_splits)
  then show "b = checkpoint_encode p"
    by (simp add: checkpoint_encode_eq read_slice_bytes(3) [OF r(1)] read_slice_bytes(3) [OF r(2)]
        read_slice_bytes(3) [OF r(3)] slice_join)
qed (simp add: checkpoint_encode_eq checkpoint_decode_def slice_append_right require_exact_len_eq)

definition full_page_write_bytes :: "full_page_write_payload \<Rightarrow> bytes" where
  "full_page_write_bytes p = page_id_bytes (fp_page p) @ word_to_le (8192 :: u32) @ fp_page_bytes p"

lemma full_page_write_encode_Inr:
  "full_page_write_encode p = Inr b \<longleftrightarrow> length (fp_page_bytes p) = PAGE_SIZE \<and> b = full_page_write_bytes p"
  by (auto simp: full_page_write_encode_def full_page_write_bytes_def Let_def codec_simps PAGE_SIZE_def)

lemma full_page_write_decode_Inr:
  "full_page_write_decode b = Inr p \<longleftrightarrow> length (fp_page_bytes p) = PAGE_SIZE \<and> b = full_page_write_bytes p"
proof
  assume "full_page_write_decode b = Inr p"
  then obtain len where r: "decode_page_id b = Inr (fp_page p)" "read_u32_le (slice 8 12 b) = Some len"
    "fp_page_bytes p = slice 12 (length b) b" and len: "length b = 12 + PAGE_SIZE" "unat len = PAGE_SIZE"
    by (auto simp: full_page_write_decode_def split: if_splits)
  have "len = 8192" using len(2) by (simp add: word_unat_eq_iff PAGE_SIZE_def)
  with r len decode_page_id_Inr [OF r(1)] read_slice_bytes(2) [OF r(2)]
  show "length (fp_page_bytes p) = PAGE_SIZE \<and> b = full_page_write_bytes p"
    by (simp add: full_page_write_bytes_def slice_join)
qed (auto simp: full_page_write_decode_def full_page_write_bytes_def PAGE_SIZE_def slice_append_right
    checked_offset_eq require_exact_len_eq)

subsection \<open>Heap inserts\<close>

definition heap_insert_bytes :: "heap_insert_payload \<Rightarrow> bytes" where
  "heap_insert_bytes p = tid_bytes (hi_tid p) @ word_to_le (of_nat (length (hi_tuple_bytes p)) :: u32) @ hi_tuple_bytes p"

lemma heap_insert_encode_Inr:
  "heap_insert_encode p = Inr b \<longleftrightarrow>
     length (hi_tuple_bytes p) < 2 ^ 32 \<and> unat (pg_block (tid_page (hi_tid p))) < 2 ^ 24 \<and> b = heap_insert_bytes p"
  by (auto simp: heap_insert_encode_def heap_insert_bytes_def Let_def encode_tid_Inr codec_simps not_less)

lemma heap_insert_decode_bytes:
  "length (hi_tuple_bytes p) \<le> MAX_VARIABLE_PAYLOAD_BYTES \<Longrightarrow> unat (pg_block (tid_page (hi_tid p))) < 2 ^ 24 \<Longrightarrow>
     heap_insert_decode (heap_insert_bytes p) = Inr p"
  by (simp add: heap_insert_decode_def heap_insert_bytes_def unat_of_nat_small checked_len_sum_eq require_exact_len_eq
      slice_append_right)

lemma heap_insert_decode_Inr:
  assumes "heap_insert_decode b = Inr p"
  shows "length (hi_tuple_bytes p) \<le> MAX_VARIABLE_PAYLOAD_BYTES \<and> unat (pg_block (tid_page (hi_tid p))) < 2 ^ 24
    \<and> b = heap_insert_bytes p"
proof -
  from assms obtain len where r: "decode_tid b = Inr (hi_tid p)" "read_u32_le (slice 12 16 b) = Some len"
    "hi_tuple_bytes p = slice 16 (length b) b" and len: "length b = 16 + unat len" "unat len \<le> MAX_VARIABLE_PAYLOAD_BYTES"
    by (auto simp: heap_insert_decode_def split: if_splits)
  with decode_tid_Inr [OF r(1)] read_slice_bytes(2) [OF r(2)] show ?thesis
    by (simp add: heap_insert_bytes_def slice_join)
qed

definition entry_bytes :: "heap_insert_batch_entry \<Rightarrow> bytes" where
  "entry_bytes e = word_to_le (be_slot e) @ word_to_le (0 :: u16)
     @ word_to_le (of_nat (length (be_tuple_bytes e)) :: u32) @ be_tuple_bytes e"

definition entries_bytes :: "heap_insert_batch_entry list \<Rightarrow> bytes" where
  "entries_bytes es = concat (map entry_bytes es)"

definition entries_ok :: "heap_insert_batch_entry list \<Rightarrow> bool" where
  "entries_ok es \<longleftrightarrow> list_all (\<lambda>e. length (be_tuple_bytes e) \<le> MAX_VARIABLE_PAYLOAD_BYTES) es"

lemma length_entry_bytes [simp]: "length (entry_bytes e) = 8 + length (be_tuple_bytes e)"
  by (simp add: entry_bytes_def)

lemma entries_simps [simp]:
  "entries_bytes [] = []" "entries_bytes (e # es) = entry_bytes e @ entries_bytes es"
  "entries_ok []" "entries_ok (e # es) \<longleftrightarrow> length (be_tuple_bytes e) \<le> MAX_VARIABLE_PAYLOAD_BYTES \<and> entries_ok es"
  by (simp_all add: entries_bytes_def entries_ok_def)

lemma batch_total_Inr:
  "acc < 2 ^ 64 \<Longrightarrow> batch_total es acc = Inr t \<longleftrightarrow>
     entries_ok es \<and> acc + length (entries_bytes es) < 2 ^ 64 \<and> t = acc + length (entries_bytes es)"
  by (induction es arbitrary: acc) (auto simp: not_less)

lemma encode_entries_eq:
  "entries_ok es \<Longrightarrow> off = length pre \<Longrightarrow> off + length (entries_bytes es) < 2 ^ 64 \<Longrightarrow>
     encode_entries es off (pre @ replicate (length (entries_bytes es)) 0) = Inr (pre @ entries_bytes es)"
proof (induction es arbitrary: pre off)
  case (Cons e es)
  from Cons.IH [of "length (pre @ entry_bytes e)" "pre @ entry_bytes e"] Cons.prems show ?case
    by (simp add: Let_def checked_offset_eq codec_simps entry_bytes_def add_ac)
qed simp

lemma entry_slices:
  assumes "s1 = length pre + 2" "s2 = s1 + 2" "s3 = s2 + 4" "s4 = s3 + length (be_tuple_bytes e)"
  shows "slice (length pre) s1 (pre @ entry_bytes e @ rest) = word_to_le (be_slot e)"
    "slice s1 s2 (pre @ entry_bytes e @ rest) = word_to_le (0 :: u16)"
    "slice s2 s3 (pre @ entry_bytes e @ rest) = word_to_le (of_nat (length (be_tuple_bytes e)) :: u32)"
    "slice s3 s4 (pre @ entry_bytes e @ rest) = be_tuple_bytes e"
  unfolding assms entry_bytes_def by (simp_all add: slice_append_right)

lemma decode_entries_bytes:
  "entries_ok es \<Longrightarrow> off = length pre \<Longrightarrow> off + length (entries_bytes es) < 2 ^ 64 \<Longrightarrow>
     decode_entries (length es) off (pre @ entries_bytes es) = Inr (es, off + length (entries_bytes es))"
proof (induction es arbitrary: pre off)
  case (Cons e es)
  let ?b = "pre @ entry_bytes e @ entries_bytes es"
  obtain s1 s2 s3 s4 where s: "s1 = length pre + 2" "s2 = s1 + 2" "s3 = s2 + 4" "s4 = s3 + length (be_tuple_bytes e)"
    by simp
  have bounds: "s1 \<le> length ?b" "s2 \<le> length ?b" "s3 \<le> length ?b" "s4 \<le> length ?b" "length ?b < 2 ^ 64"
    using Cons.prems by (simp_all add: s)
  have offsets: "checked_offset (length pre) 2 c = Inr s1" "checked_offset s1 2 c = Inr s2"
    "checked_offset s2 4 c = Inr s3" "checked_offset s3 (length (be_tuple_bytes e)) c = Inr s4" for c
    using bounds s by simp_all
  have len: "unat (of_nat (length (be_tuple_bytes e)) :: u32) = length (be_tuple_bytes e)"
    "length (be_tuple_bytes e) \<le> MAX_VARIABLE_PAYLOAD_BYTES"
    using Cons.prems by (simp_all add: unat_of_nat_small)
  have "decode_entries (length es) s4 ?b = Inr (es, length pre + length (entries_bytes (e # es)))"
    using Cons.IH [of s4 "pre @ entry_bytes e"] Cons.prems by (simp add: s add.assoc)
  then show ?case
    using bounds len Cons.prems(2) by (simp add: offsets entry_slices [OF s] not_less del: length_append)
qed simp

lemma decode_entries_Inr:
  "decode_entries n off b = Inr (es, e) \<Longrightarrow> off \<le> length b \<Longrightarrow>
     length es = n \<and> entries_ok es \<and> entries_bytes es = slice off e b \<and> off \<le> e \<and> e \<le> length b"
proof (induction n arbitrary: off es)
  case (Suc n)
  let ?c = "''heap_insert_batch length overflow''"
  from Suc.prems(1) obtain slot len es' s1 s2 s3 s4 where
      o: "checked_offset off 2 ?c = Inr s1" "checked_offset s1 2 ?c = Inr s2"
        "checked_offset s2 4 ?c = Inr s3" "checked_offset s3 (unat len) ?c = Inr s4"
      and r: "read_u16_le (slice off s1 b) = Some slot" "read_u16_le (slice s1 s2 b) = Some 0"
        "read_u32_le (slice s2 s3 b) = Some len"
      and len: "unat len \<le> MAX_VARIABLE_PAYLOAD_BYTES" "s4 \<le> length b"
      and rest: "decode_entries n s4 b = Inr (es', e)" "es = \<lparr>be_slot = slot, be_tuple_bytes = slice s3 s4 b\<rparr> # es'"
    by (auto split: if_splits prod.splits simp del: checked_offset_Inr)
  from o have s: "s1 = off + 2" "s2 = s1 + 2" "s3 = s2 + 4" "s4 = s3 + unat len" by simp_all
  with len(2) have f: "word_to_le slot = slice off s1 b" "word_to_le (0 :: u16) = slice s1 s2 b" "word_to_le len = slice s2 s3 b"
    by (simp_all add: read_slice_bytes(1) [OF r(1)] read_slice_bytes(1) [OF r(2)] read_slice_bytes(2) [OF r(3)])
  have "length (slice s3 s4 b) = unat len" using len(2) s by simp
  with Suc.IH [OF rest(1) len(2)] len rest(2) s f show ?case
    by (simp add: entry_bytes_def slice_join)
qed (simp add: slice_def)

definition batch_bytes :: "heap_insert_batch_payload \<Rightarrow> bytes" where
  "batch_bytes p = page_id_bytes (bp_page p) @ word_to_le (of_nat (length (bp_entries p)) :: u32) @ entries_bytes (bp_entries p)"

definition batch_ok :: "heap_insert_batch_payload \<Rightarrow> bool" where
  "batch_ok p \<longleftrightarrow> length (bp_entries p) < 2 ^ 32 \<and> entries_ok (bp_entries p)"

lemma heap_insert_batch_encode_Inr:
  "heap_insert_batch_encode p = Inr b \<longleftrightarrow>
     batch_ok p \<and> length (batch_bytes p) \<le> MAX_VARIABLE_PAYLOAD_BYTES \<and> b = batch_bytes p"
proof -
  let ?pre = "page_id_bytes (bp_page p) @ word_to_le (of_nat (length (bp_entries p)) :: u32)"
  have "entries_ok (bp_entries p) \<Longrightarrow> length (entries_bytes (bp_entries p)) \<le> 67108760 \<Longrightarrow>
    encode_entries (bp_entries p) 12 (?pre @ replicate (length (entries_bytes (bp_entries p))) 0)
      = Inr (?pre @ entries_bytes (bp_entries p))"
    by (rule encode_entries_eq) simp_all
  then show ?thesis
    by (auto simp: heap_insert_batch_encode_def batch_ok_def batch_bytes_def batch_total_Inr Let_def codec_simps not_less)
qed

lemma heap_insert_batch_decode_bytes:
  assumes "batch_ok p" "length (batch_bytes p) < 2 ^ 64"
  shows "heap_insert_batch_decode (batch_bytes p) = Inr p"
proof -
  let ?pre = "page_id_bytes (bp_page p) @ word_to_le (of_nat (length (bp_entries p)) :: u32)"
  have "decode_entries (length (bp_entries p)) 12 (?pre @ entries_bytes (bp_entries p))
      = Inr (bp_entries p, 12 + length (entries_bytes (bp_entries p)))"
    using assms by (intro decode_entries_bytes) (simp_all add: batch_ok_def batch_bytes_def)
  with assms show ?thesis
    by (simp add: heap_insert_batch_decode_def batch_ok_def batch_bytes_def unat_of_nat_small
        slice_append_right require_exact_len_eq)
qed

lemma heap_insert_batch_decode_Inr:
  assumes "heap_insert_batch_decode b = Inr p"
  shows "batch_ok p \<and> b = batch_bytes p"
proof -
  from assms obtain cnt where r: "decode_page_id b = Inr (bp_page p)" "read_u32_le (slice 8 12 b) = Some cnt"
    "decode_entries (unat cnt) 12 b = Inr (bp_entries p, length b)" "12 \<le> length b"
    by (auto simp: heap_insert_batch_decode_def split: if_splits prod.splits)
  from decode_page_id_Inr [OF r(1)] read_slice_bytes(2) [OF r(2)] decode_entries_Inr [OF r(3,4)] r(4) show ?thesis
    using unat_less_pow [of cnt] by (simp add: batch_bytes_def batch_ok_def slice_join)
qed

section \<open>What the log relies on\<close>

text \<open>
  A payload codec is exact when, on the images of its current wire format, encoding and decoding are
  each other's inverse. \<open>current\<close> leaves out what a codec deliberately treats asymmetrically: the
  old 16-byte commit record, which is still read, and tuples above the payload ceiling, which are
  not.
\<close>

locale payload_codec =
  fixes encode :: "'p \<Rightarrow> payload_error + bytes"
    and decode :: "bytes \<Rightarrow> payload_error + 'p"
    and current :: "'p \<Rightarrow> bytes \<Rightarrow> bool"
  assumes exact: "current p b \<Longrightarrow> encode p = Inr b \<longleftrightarrow> decode b = Inr p"
begin

lemma unique_meaning: "current p b \<Longrightarrow> current q b \<Longrightarrow> encode p = Inr b \<Longrightarrow> encode q = Inr b \<Longrightarrow> p = q"
  using exact by (metis sum.inject(2))

lemma unique_image: "current p b \<Longrightarrow> current p c \<Longrightarrow> decode b = Inr p \<Longrightarrow> decode c = Inr p \<Longrightarrow> b = c"
  using exact by (metis sum.inject(2))

lemma logged:
  assumes "encode p = Inr b" "current p b" "wal_record_new crc t x prev 0 b = Inr r"
  shows "\<exists>img. wal_encode r = Some img \<and> wal_decode crc (img @ rest) = Inr (r, length img)
    \<and> decode (wr_payload r) = Inr p"
  using assms exact [of p b] by (auto simp: wal_record_new_Inr wal_encode_eq wal_decode_record)

end

interpretation commit_codec: payload_codec commit_encode commit_decode "\<lambda>p b. length b \<noteq> 16"
  by unfold_locales (use commit_decode_bytes commit_decode_Inr in \<open>auto simp: commit_encode_Inr\<close>)

interpretation abort_codec: payload_codec "\<lambda>p. Inr (abort_encode p)" abort_decode "\<lambda>p b. True"
  by unfold_locales (auto simp: abort_decode_Inr)

interpretation checkpoint_codec: payload_codec "\<lambda>p. Inr (checkpoint_encode p)" checkpoint_decode "\<lambda>p b. True"
  by unfold_locales (auto simp: checkpoint_decode_Inr)

interpretation fpw_codec: payload_codec full_page_write_encode full_page_write_decode "\<lambda>p b. True"
  by unfold_locales (simp add: full_page_write_encode_Inr full_page_write_decode_Inr)

interpretation insert_codec: payload_codec heap_insert_encode heap_insert_decode
    "\<lambda>p b. length (hi_tuple_bytes p) \<le> MAX_VARIABLE_PAYLOAD_BYTES"
  by unfold_locales (use heap_insert_decode_bytes heap_insert_decode_Inr in \<open>auto simp: heap_insert_encode_Inr\<close>)

interpretation batch_codec: payload_codec heap_insert_batch_encode heap_insert_batch_decode
    "\<lambda>p b. length b \<le> MAX_VARIABLE_PAYLOAD_BYTES"
  by unfold_locales
    (use heap_insert_batch_decode_bytes heap_insert_batch_decode_Inr in \<open>auto simp: heap_insert_batch_encode_Inr\<close>)

text \<open>
  The encoder of a single insert lets a tuple pass that the decoder refuses: it checks only the
  32-bit length field, the decoder the payload ceiling.
\<close>

lemma heap_insert_above_ceiling:
  assumes "MAX_VARIABLE_PAYLOAD_BYTES < length (hi_tuple_bytes p)" "length (hi_tuple_bytes p) \<le> MAX_RECORD_BYTES - 44"
    and "unat (pg_block (tid_page (hi_tid p))) < 2 ^ 24"
  obtains b where "heap_insert_encode p = Inr b" "length b \<le> MAX_RECORD_BYTES - RECORD_HEADER_SIZE"
    "heap_insert_decode b = Inl (PMalformed ''heap_insert tuple_len exceeds ceiling'')"
proof
  show "heap_insert_encode p = Inr (heap_insert_bytes p)" using assms by (simp add: heap_insert_encode_Inr)
  show "length (heap_insert_bytes p) \<le> MAX_RECORD_BYTES - RECORD_HEADER_SIZE"
    using assms by (simp add: heap_insert_bytes_def)
  show "heap_insert_decode (heap_insert_bytes p) = Inl (PMalformed ''heap_insert tuple_len exceeds ceiling'')"
    using assms by (simp add: heap_insert_decode_def heap_insert_bytes_def unat_of_nat_small)
qed

end
