(* ===== verification/Wal_Segment.thy ===== *)
theory Wal_Segment
  imports Wal_Payload "HOL-Library.AList" "HOL-Library.More_List"
begin

text \<open>
  The log directory: segment file names and their enumeration
  (\<^verbatim>\<open>crates/ultrasql-wal/src/segment.rs\<close>), the recovery-floor manifest (\<^verbatim>\<open>manifest.rs\<close>), the
  errors of recovery (\<^verbatim>\<open>recovery.rs\<close>) and the file system operations these files use. A directory
  is an association list from file names to files; a file keeps how many of its bytes a sync has made
  durable, and a crash may cut every file back to any length from there on. Input/output succeeds:
  failing system calls are not modelled.
\<close>

section \<open>Files and crashes\<close>

record disk_file =
  df_content :: bytes
  df_synced :: nat

type_synonym wal_dir = "(string \<times> disk_file) list"

definition create_file :: "string \<Rightarrow> wal_dir \<Rightarrow> wal_dir" where
  "create_file name d = AList.update name \<lparr>df_content = [], df_synced = 0\<rparr> d"

definition append_file :: "string \<Rightarrow> bytes \<Rightarrow> wal_dir \<Rightarrow> wal_dir" where
  "append_file name bs d = AList.map_entry name (\<lambda>f. f\<lparr>df_content := df_content f @ bs\<rparr>) d"

definition sync_file :: "string \<Rightarrow> wal_dir \<Rightarrow> wal_dir" where
  "sync_file name d = AList.map_entry name (\<lambda>f. f\<lparr>df_synced := length (df_content f)\<rparr>) d"

definition set_len_file :: "string \<Rightarrow> nat \<Rightarrow> wal_dir \<Rightarrow> wal_dir" where
  "set_len_file name n d =
     AList.map_entry name (\<lambda>f. f\<lparr>df_content := take n (df_content f), df_synced := min n (df_synced f)\<rparr>) d"

definition remove_file :: "string \<Rightarrow> wal_dir \<Rightarrow> wal_dir" where
  "remove_file name d = AList.delete name d"

definition rename_file :: "string \<Rightarrow> string \<Rightarrow> wal_dir \<Rightarrow> wal_dir" where
  "rename_file old new d =
     (case map_of d old of None \<Rightarrow> d | Some f \<Rightarrow> AList.update new f (AList.delete old d))"

definition crash_file :: "disk_file \<Rightarrow> disk_file \<Rightarrow> bool" where
  "crash_file f f' \<longleftrightarrow>
     (\<exists>k. df_synced f \<le> k \<and> df_content f' = take k (df_content f)) \<and> df_synced f' = length (df_content f')"

definition crash_dir :: "wal_dir \<Rightarrow> wal_dir \<Rightarrow> bool" where
  "crash_dir d d' \<longleftrightarrow> list_all2 (\<lambda>(n, f) (n', f'). n' = n \<and> crash_file f f') d d'"

section \<open>Errors of recovery\<close>

text \<open>
  The string of \<^verbatim>\<open>RecoveryError::Applier\<close> keeps what it is rendered from.
\<close>

datatype recovery_error =
  RIo string
| RRecord wal_record_error
| RApplier applier_message
| TargetBeforeFloor lsn lsn
| TargetXidNotFound xid
and applier_message =
  AppText string
| AppCommitPayload payload_error
| AppShown recovery_error
| AppBelowFloor lsn lsn

section \<open>Segment names\<close>

definition SEGMENT_PREFIX :: string where "SEGMENT_PREFIX = ''segment_''"
definition SEGMENT_INDEX_WIDTH :: nat where "SEGMENT_INDEX_WIDTH = 10"

primrec dec_digits :: "nat \<Rightarrow> nat \<Rightarrow> string" where
  "dec_digits 0 n = []"
| "dec_digits (Suc k) n = dec_digits k (n div 10) @ [char_of (48 + n mod 10)]"

definition segment_path :: "u32 \<Rightarrow> string" where
  "segment_path index = SEGMENT_PREFIX @ dec_digits SEGMENT_INDEX_WIDTH (unat index)"

definition digit_value :: "char \<Rightarrow> nat option" where
  "digit_value c = (let v = of_char c in if 48 \<le> v \<and> v < 58 then Some (v - 48) else None)"

text \<open>\<^verbatim>\<open>str::parse::<u32>\<close>: one optional plus sign, then decimal digits, at least one.\<close>

fun parse_digits :: "nat \<Rightarrow> string \<Rightarrow> nat option" where
  "parse_digits acc [] = Some acc"
| "parse_digits acc (c # cs) =
     (case digit_value c of None \<Rightarrow> None | Some v \<Rightarrow> parse_digits (acc * 10 + v) cs)"

definition parse_u32 :: "string \<Rightarrow> u32 option" where
  "parse_u32 s =
     (let ds = (case s of c # cs \<Rightarrow> if c = CHR ''+'' then cs else s | [] \<Rightarrow> []) in
      if ds = [] then None
      else case parse_digits 0 ds of None \<Rightarrow> None | Some v \<Rightarrow> if v < 2 ^ 32 then Some (of_nat v) else None)"

definition strip_prefix :: "string \<Rightarrow> string \<Rightarrow> string option" where
  "strip_prefix p s = (if take (length p) s = p then Some (drop (length p) s) else None)"

definition parse_segment_index :: "string \<Rightarrow> u32 option" where
  "parse_segment_index name =
     (case strip_prefix SEGMENT_PREFIX name of None \<Rightarrow> None
      | Some rest \<Rightarrow> if length rest \<noteq> SEGMENT_INDEX_WIDTH then None else parse_u32 rest)"

definition list_segments :: "wal_dir \<Rightarrow> (u32 \<times> string) list" where
  "list_segments d =
     sort_key fst (List.map_filter (\<lambda>(name, f). map_option (\<lambda>i. (i, name)) (parse_segment_index name)) d)"

section \<open>The recovery floor\<close>

record wal_floor =
  fl_segment_index :: u32
  fl_floor_lsn :: lsn

definition WalFloor_ORIGIN :: wal_floor where
  "WalFloor_ORIGIN = \<lparr>fl_segment_index = 0, fl_floor_lsn = Lsn_ZERO\<rparr>"

definition MANIFEST_FILE :: string where "MANIFEST_FILE = ''wal.manifest''"
definition MANIFEST_TMP_FILE :: string where "MANIFEST_TMP_FILE = ''wal.manifest.tmp''"
definition MANIFEST_MAGIC :: bytes where "MANIFEST_MAGIC = [85, 83, 81, 76, 87, 70, 76, 49]"
definition MANIFEST_VERSION :: u32 where "MANIFEST_VERSION = 1"
definition MANIFEST_BODY_LEN :: nat where "MANIFEST_BODY_LEN = 24"
definition MANIFEST_FILE_LEN :: nat where "MANIFEST_FILE_LEN = MANIFEST_BODY_LEN + 4"

definition manifest_malformed :: "string \<Rightarrow> recovery_error" where
  "manifest_malformed msg = RRecord (Malformed msg)"

text \<open>\<^verbatim>\<open>crc32c(data)\<close> is \<^verbatim>\<open>crc32c_append(0, data)\<close>.\<close>

definition read_floor :: "crc_append \<Rightarrow> wal_dir \<Rightarrow> recovery_error + wal_floor" where
  "read_floor crc d =
     (case map_of d MANIFEST_FILE of
        None \<Rightarrow> Inr WalFloor_ORIGIN
      | Some f \<Rightarrow>
          let bytes = df_content f in
          if length bytes \<noteq> MANIFEST_FILE_LEN then Inl (manifest_malformed ''wal manifest wrong length'')
          else
            let body = take MANIFEST_BODY_LEN bytes;
                stored_crc = word_from_le (drop MANIFEST_BODY_LEN bytes) :: u32 in
            if crc 0 body \<noteq> stored_crc then Inl (manifest_malformed ''wal manifest checksum mismatch'')
            else if slice 0 8 body \<noteq> MANIFEST_MAGIC then Inl (manifest_malformed ''wal manifest magic mismatch'')
            else if (word_from_le (slice 8 12 body) :: u32) \<noteq> MANIFEST_VERSION
              then Inl (manifest_malformed ''wal manifest version unsupported'')
            else Inr \<lparr>fl_segment_index = word_from_le (slice 12 16 body), fl_floor_lsn = word_from_le (slice 16 24 body)\<rparr>)"

definition manifest_image :: "crc_append \<Rightarrow> wal_floor \<Rightarrow> bytes" where
  "manifest_image crc floor =
     (let body = MANIFEST_MAGIC @ word_to_le MANIFEST_VERSION @ word_to_le (fl_segment_index floor)
                 @ word_to_le (fl_floor_lsn floor)
      in body @ word_to_le (crc 0 body))"

definition write_floor_tmp :: "crc_append \<Rightarrow> wal_dir \<Rightarrow> wal_floor \<Rightarrow> wal_dir" where
  "write_floor_tmp crc d floor =
     sync_file MANIFEST_TMP_FILE (append_file MANIFEST_TMP_FILE (manifest_image crc floor) (create_file MANIFEST_TMP_FILE d))"

definition write_floor :: "crc_append \<Rightarrow> wal_dir \<Rightarrow> wal_floor \<Rightarrow> wal_dir" where
  "write_floor crc d floor = rename_file MANIFEST_TMP_FILE MANIFEST_FILE (write_floor_tmp crc d floor)"

section \<open>Names\<close>

lemma length_dec_digits [simp]: "length (dec_digits k n) = k"
  by (induction k arbitrary: n) simp_all

lemma digit_value_char [simp]: "v < 10 \<Longrightarrow> digit_value (char_of (48 + v)) = Some v"
  by (simp add: digit_value_def)

lemma parse_digits_append:
  "parse_digits acc (xs @ ys) = (case parse_digits acc xs of None \<Rightarrow> None | Some v \<Rightarrow> parse_digits v ys)"
  by (induction acc xs rule: parse_digits.induct) (auto split: option.splits)

lemma parse_dec_digits: "n < 10 ^ k \<Longrightarrow> parse_digits acc (dec_digits k n) = Some (acc * 10 ^ k + n)"
proof (induction k arbitrary: n)
  case (Suc k)
  then have "n div 10 < 10 ^ k" by (simp add: less_mult_imp_div_less)
  with Suc.IH show ?case by (simp add: parse_digits_append algebra_simps)
qed simp

lemma dec_digits_head: "dec_digits (Suc k) n = c # cs \<Longrightarrow> c \<noteq> CHR ''+''"
proof (induction k arbitrary: n cs)
  case 0
  then have "c = char_of (48 + n mod 10)" by simp
  then have "of_char c = (48 + n mod 10 :: nat)" by simp
  then show ?case by auto
next
  case (Suc k)
  then obtain cs' where "dec_digits (Suc k) (n div 10) = c # cs'"
    by (metis append_is_Nil_conv dec_digits.simps(2) hd_append2 hd_Cons_tl list.sel(1) not_Cons_self2)
  with Suc.IH show ?case by blast
qed

lemma parse_u32_digits: "parse_u32 (dec_digits 10 (unat i)) = Some i"
proof -
  have i: "unat i < 2 ^ 32" using unat_less_pow [of i] by simp
  obtain c cs where ds: "dec_digits 10 (unat i) = c # cs"
    using length_dec_digits [of 10 "unat i"] by (cases "dec_digits 10 (unat i)") auto
  then have "c \<noteq> CHR ''+''" using dec_digits_head [of 9 "unat i"] by simp
  moreover have "parse_digits 0 (c # cs) = Some (unat i)"
    using parse_dec_digits [of "unat i" 10 0] i ds by simp
  ultimately show ?thesis using i by (simp add: parse_u32_def ds Let_def)
qed

lemma parse_segment_path [simp]: "parse_segment_index (segment_path i) = Some i"
  by (simp add: parse_segment_index_def segment_path_def strip_prefix_def SEGMENT_INDEX_WIDTH_def parse_u32_digits)

lemma segment_path_inject [simp]: "segment_path i = segment_path j \<longleftrightarrow> i = j"
  using parse_segment_path by (metis option.inject)

lemma manifest_names [simp]:
  "parse_segment_index MANIFEST_FILE = None" "parse_segment_index MANIFEST_TMP_FILE = None"
  "MANIFEST_FILE \<noteq> MANIFEST_TMP_FILE" "MANIFEST_TMP_FILE \<noteq> MANIFEST_FILE"
  by (simp_all add: MANIFEST_FILE_def MANIFEST_TMP_FILE_def parse_segment_index_def strip_prefix_def SEGMENT_PREFIX_def)

lemma segment_path_not_manifest [simp]:
  "segment_path i \<noteq> MANIFEST_FILE" "segment_path i \<noteq> MANIFEST_TMP_FILE"
  "MANIFEST_FILE \<noteq> segment_path i" "MANIFEST_TMP_FILE \<noteq> segment_path i"
  using parse_segment_path [of i] manifest_names by (metis option.distinct(1))+

section \<open>Well-formed directories\<close>

definition dir_ok :: "wal_dir \<Rightarrow> bool" where
  "dir_ok d \<longleftrightarrow> distinct (map fst d) \<and>
     (\<forall>n \<in> set (map fst d). case parse_segment_index n of None \<Rightarrow> True | Some i \<Rightarrow> n = segment_path i)"

definition seg_set :: "wal_dir \<Rightarrow> u32 set" where
  "seg_set d = {i. segment_path i \<in> set (map fst d)}"

definition seg_bytes :: "wal_dir \<Rightarrow> u32 \<Rightarrow> bytes" where
  "seg_bytes d i = (case map_of d (segment_path i) of None \<Rightarrow> [] | Some f \<Rightarrow> df_content f)"

lemma finite_seg_set [simp]: "finite (seg_set d)"
  unfolding seg_set_def
  by (rule finite_subset [of _ "(\<lambda>n. the (parse_segment_index n)) ` set (map fst d)"]) (force simp: image_iff)+

lemma seg_set_parsed:
  assumes "dir_ok d"
  shows "List.map_filter (\<lambda>(n, f). map_option (\<lambda>i. (i, n)) (parse_segment_index n)) d
    = map (\<lambda>i. (i, segment_path i)) (List.map_filter (\<lambda>e. parse_segment_index (fst e)) d)"
  using assms
  by (induction d) (auto simp: dir_ok_def map_filter_simps split: option.splits prod.splits)

lemma map_filter_set: "set (List.map_filter f xs) = {y. \<exists>x \<in> set xs. f x = Some y}"
  by (force simp: map_filter_def)

lemma dir_ok_parse: "dir_ok d \<Longrightarrow> (n, f) \<in> set d \<Longrightarrow> parse_segment_index n = Some i \<longleftrightarrow> n = segment_path i"
proof -
  assume "dir_ok d" "(n, f) \<in> set d"
  then have "case parse_segment_index n of None \<Rightarrow> True | Some i \<Rightarrow> n = segment_path i"
    unfolding dir_ok_def by (metis (no_types, lifting) fst_conv image_eqI list.set_map)
  then show ?thesis by (cases "parse_segment_index n") auto
qed

lemma dir_ok_Cons: "dir_ok ((n, f) # d) \<Longrightarrow> n \<notin> fst ` set d \<and> dir_ok d"
  by (simp add: dir_ok_def)

lemma distinct_parsed: "dir_ok d \<Longrightarrow> distinct (List.map_filter (\<lambda>e. parse_segment_index (fst e)) d)"
proof (induction d)
  case (Cons e d)
  obtain n f where e: "e = (n, f)" by (cases e)
  show ?case
  proof (cases "parse_segment_index n")
    case (Some i)
    have "i \<notin> set (List.map_filter (\<lambda>e. parse_segment_index (fst e)) d)"
    proof
      assume "i \<in> set (List.map_filter (\<lambda>e. parse_segment_index (fst e)) d)"
      then obtain n' f' where "(n', f') \<in> set d" "parse_segment_index n' = Some i" by (auto simp: map_filter_set)
      moreover from this have "n' = n"
        using Some Cons.prems dir_ok_parse [OF Cons.prems, of n f i] dir_ok_parse [OF Cons.prems, of n' f' i] by (simp add: e)
      ultimately show False using Cons.prems e dir_ok_Cons by force
    qed
    with Cons Some dir_ok_Cons show ?thesis unfolding e by (auto simp: map_filter_simps)
  qed (use Cons dir_ok_Cons in \<open>auto simp: e map_filter_simps\<close>)
qed (simp add: map_filter_simps)

lemma list_segments_eq:
  assumes "dir_ok d"
  shows "list_segments d = map (\<lambda>i. (i, segment_path i)) (sorted_list_of_set (seg_set d))"
proof -
  let ?is = "List.map_filter (\<lambda>e. parse_segment_index (fst e)) d"
  have set: "set ?is = seg_set d"
  proof -
    have "(\<exists>x \<in> set d. parse_segment_index (fst x) = Some i) \<longleftrightarrow> segment_path i \<in> fst ` set d" for i
      using dir_ok_parse [OF assms, of _ _ i] by (metis (no_types, lifting) fst_conv imageE imageI prod.collapse)
    then show ?thesis by (auto simp: map_filter_set seg_set_def)
  qed
  have dist: "distinct ?is" by (rule distinct_parsed [OF assms])
  have "sort_key fst (map (\<lambda>i. (i, segment_path i)) ?is) = map (\<lambda>i. (i, segment_path i)) (sort ?is)"
    by (rule sym, rule map_sorted_distinct_set_unique [of fst]) 
      (use dist in \<open>auto simp: distinct_map inj_on_def comp_def\<close>)
  moreover have "sort ?is = sorted_list_of_set (seg_set d)"
    using set dist by (metis distinct_remdups_id sorted_list_of_set_sort_remdups)
  ultimately show ?thesis
    by (simp add: list_segments_def seg_set_parsed [OF assms])
qed

subsection \<open>The file operations\<close>

lemma names_map_entry [simp]: "map fst (AList.map_entry k f d) = map fst d"
  by (induction d rule: AList.map_entry.induct) auto

lemma map_of_map_entry: "map_of (AList.map_entry k f d) = (map_of d)(k := map_option f (map_of d k))"
  by (induction d) (auto simp: fun_eq_iff)

lemma names_ops [simp]:
  "map fst (append_file n bs d) = map fst d" "map fst (sync_file n d) = map fst d"
  "map fst (set_len_file n k d) = map fst d"
  by (simp_all add: append_file_def sync_file_def set_len_file_def)

lemma dir_ok_cong: "map fst d = map fst d' \<Longrightarrow> dir_ok d \<longleftrightarrow> dir_ok d'"
  by (simp only: dir_ok_def)

lemma seg_set_cong: "map fst d = map fst d' \<Longrightarrow> seg_set d = seg_set d'"
  by (simp only: seg_set_def)

lemma dir_ok_ops [simp]:
  "dir_ok (append_file n bs d) \<longleftrightarrow> dir_ok d" "dir_ok (sync_file n d) \<longleftrightarrow> dir_ok d" "dir_ok (set_len_file n k d) \<longleftrightarrow> dir_ok d"
  by (rule dir_ok_cong; simp)+

lemma seg_set_ops [simp]:
  "seg_set (append_file n bs d) = seg_set d" "seg_set (sync_file n d) = seg_set d" "seg_set (set_len_file n k d) = seg_set d"
  by (rule seg_set_cong; simp)+

lemma map_of_ops:
  "map_of (append_file n bs d) = (map_of d)(n := map_option (\<lambda>f. f\<lparr>df_content := df_content f @ bs\<rparr>) (map_of d n))"
  "map_of (sync_file n d) = (map_of d)(n := map_option (\<lambda>f. f\<lparr>df_synced := length (df_content f)\<rparr>) (map_of d n))"
  "map_of (set_len_file n k d) = (map_of d)(n := map_option (\<lambda>f. f\<lparr>df_content := take k (df_content f), df_synced := min k (df_synced f)\<rparr>) (map_of d n))"
  "map_of (create_file n d) = (map_of d)(n \<mapsto> \<lparr>df_content = [], df_synced = 0\<rparr>)"
  "map_of (remove_file n d) = (map_of d)(n := None)"
  by (auto simp: append_file_def sync_file_def set_len_file_def create_file_def remove_file_def map_of_map_entry
      update_conv' delete_conv')

lemma seg_set_map_of: "i \<in> seg_set d \<longleftrightarrow> map_of d (segment_path i) \<noteq> None"
  by (simp add: seg_set_def map_of_eq_None_iff)

lemma dir_ok_create: "dir_ok d \<Longrightarrow> dir_ok (create_file (segment_path i) d)"
  by (auto simp: dir_ok_def create_file_def update_keys distinct_update)

lemma dir_ok_create_tmp: "dir_ok d \<Longrightarrow> dir_ok (create_file MANIFEST_TMP_FILE d)"
  by (auto simp: dir_ok_def create_file_def update_keys distinct_update)

lemma dir_ok_remove: "dir_ok d \<Longrightarrow> dir_ok (remove_file n d)"
  by (auto simp: dir_ok_def remove_file_def delete_keys distinct_removeAll)

lemma seg_set_create [simp]: "seg_set (create_file (segment_path i) d) = insert i (seg_set d)"
  by (auto simp: seg_set_map_of map_of_ops split: if_splits)

lemma seg_set_remove [simp]: "seg_set (remove_file (segment_path i) d) = seg_set d - {i}"
  by (auto simp: seg_set_map_of map_of_ops split: if_splits)

lemma seg_bytes_ops [simp]:
  "seg_bytes (append_file (segment_path i) bs d) j =
     (if j = i \<and> i \<in> seg_set d then seg_bytes d i @ bs else seg_bytes d j)"
  "seg_bytes (sync_file n d) j = seg_bytes d j"
  "seg_bytes (set_len_file (segment_path i) k d) j = (if j = i then take k (seg_bytes d i) else seg_bytes d j)"
  "seg_bytes (create_file (segment_path i) d) j = (if j = i then [] else seg_bytes d j)"
  "j \<noteq> i \<Longrightarrow> seg_bytes (remove_file (segment_path i) d) j = seg_bytes d j"
  by (auto simp: seg_bytes_def seg_set_map_of map_of_ops split: option.splits)

subsection \<open>The manifest\<close>

lemma read_floor_cong: "map_of d MANIFEST_FILE = map_of d' MANIFEST_FILE \<Longrightarrow> read_floor crc d = read_floor crc d'"
  by (simp add: read_floor_def)

lemma read_floor_ops [simp]:
  "read_floor crc (append_file (segment_path i) bs d) = read_floor crc d"
  "read_floor crc (sync_file (segment_path i) d) = read_floor crc d"
  "read_floor crc (set_len_file (segment_path i) k d) = read_floor crc d"
  "read_floor crc (create_file (segment_path i) d) = read_floor crc d"
  "read_floor crc (remove_file (segment_path i) d) = read_floor crc d"
  by (rule read_floor_cong; simp add: map_of_ops)+

lemma length_manifest_image [simp]: "length (manifest_image crc fl) = 28"
  by (simp add: manifest_image_def Let_def MANIFEST_MAGIC_def)

lemma read_manifest_image:
  assumes "map_of d MANIFEST_FILE = Some f" "df_content f = manifest_image crc fl"
  shows "read_floor crc d = Inr fl"
proof -
  let ?body = "MANIFEST_MAGIC @ word_to_le MANIFEST_VERSION @ word_to_le (fl_segment_index fl) @ word_to_le (fl_floor_lsn fl)"
  have len: "length MANIFEST_MAGIC = 8" by (simp add: MANIFEST_MAGIC_def)
  have img: "take 24 (manifest_image crc fl) = ?body" "drop 24 (manifest_image crc fl) = word_to_le (crc 0 ?body)"
    by (simp_all add: manifest_image_def Let_def len)
  have "slice 0 8 ?body = MANIFEST_MAGIC" "slice 8 12 ?body = word_to_le MANIFEST_VERSION"
    "slice 12 16 ?body = word_to_le (fl_segment_index fl)" "slice 16 24 ?body = word_to_le (fl_floor_lsn fl)"
    by (simp_all add: slice_append_right len)
  then show ?thesis
    using assms by (simp add: read_floor_def MANIFEST_FILE_LEN_def MANIFEST_BODY_LEN_def img Let_def)
qed

lemma map_of_write_floor:
  "map_of (write_floor_tmp crc d fl) n =
     (if n = MANIFEST_TMP_FILE then Some \<lparr>df_content = manifest_image crc fl, df_synced = 28\<rparr> else map_of d n)"
  "map_of (write_floor crc d fl) n =
     (if n = MANIFEST_FILE then Some \<lparr>df_content = manifest_image crc fl, df_synced = 28\<rparr>
      else if n = MANIFEST_TMP_FILE then None else map_of d n)"
  by (simp_all add: write_floor_tmp_def write_floor_def rename_file_def map_of_ops update_conv' delete_conv')

lemma read_write_floor [simp]:
  "read_floor crc (write_floor crc d fl) = Inr fl" "read_floor crc (write_floor_tmp crc d fl) = read_floor crc d"
proof -
  show "read_floor crc (write_floor crc d fl) = Inr fl"
    by (rule read_manifest_image) (simp add: map_of_write_floor, simp)
  show "read_floor crc (write_floor_tmp crc d fl) = read_floor crc d"
    by (rule read_floor_cong) (simp add: map_of_write_floor)
qed

lemma seg_write_floor [simp]:
  "seg_set (write_floor crc d fl) = seg_set d" "seg_bytes (write_floor crc d fl) = seg_bytes d"
  "seg_set (write_floor_tmp crc d fl) = seg_set d" "seg_bytes (write_floor_tmp crc d fl) = seg_bytes d"
  by (auto simp: seg_set_map_of seg_bytes_def map_of_write_floor fun_eq_iff)

lemma dir_ok_write_floor:
  assumes "dir_ok d"
  shows "dir_ok (write_floor_tmp crc d fl)" "dir_ok (write_floor crc d fl)"
proof -
  show tmp: "dir_ok (write_floor_tmp crc d fl)" by (simp add: write_floor_tmp_def dir_ok_create_tmp [OF assms])
  have "dir_ok (AList.update MANIFEST_FILE f (AList.delete MANIFEST_TMP_FILE d'))" if "dir_ok d'" for f d'
    using dir_ok_remove [OF that, of MANIFEST_TMP_FILE]
    by (auto simp: dir_ok_def remove_file_def update_keys distinct_update)
  then show "dir_ok (write_floor crc d fl)"
    using tmp by (auto simp: write_floor_def rename_file_def split: option.splits)
qed

subsection \<open>Crashes\<close>

lemma crash_dir_names: "crash_dir d d' \<Longrightarrow> map fst d' = map fst d"
  unfolding crash_dir_def by (induction rule: list_all2_induct) auto

lemma crash_dir_map_of:
  "crash_dir d d' \<Longrightarrow> rel_option crash_file (map_of d n) (map_of d' n)"
  unfolding crash_dir_def by (induction rule: list_all2_induct) auto

lemma crash_dir_seg:
  assumes "crash_dir d d'"
  shows "dir_ok d' \<longleftrightarrow> dir_ok d" "seg_set d' = seg_set d"
  using crash_dir_names [OF assms] dir_ok_cong seg_set_cong by metis+

end
