(* ===== verification/Wal_Recovery.thy ===== *)
theory Wal_Recovery
  imports Wal_Segment
begin

text \<open>
  Crash recovery, \<^verbatim>\<open>crates/ultrasql-wal/src/recovery.rs\<close>: recovery targets, the scan over the
  segments of a log directory with its torn-tail rule, and the repair of the final segment. The
  closure that applies a record is the parameter \<open>apply\<close>, a function on the caller's state that
  may fail; the read limit that an environment variable sets is the parameter \<open>limit\<close>. The
  lemmas show that recovery replays exactly the complete records of the log, up to the target, in
  order, and that repair cuts exactly the torn tail off.
\<close>

section \<open>Recovery targets\<close>

record recovery_target =
  rt_target_lsn :: "lsn option"
  rt_target_xid :: "xid option"
  rt_target_time_micros :: "u64 option"

definition target_none :: recovery_target where
  "target_none = \<lparr>rt_target_lsn = None, rt_target_xid = None, rt_target_time_micros = None\<rparr>"

definition is_configured :: "recovery_target \<Rightarrow> bool" where
  "is_configured t \<longleftrightarrow> rt_target_lsn t \<noteq> None \<or> rt_target_xid t \<noteq> None \<or> rt_target_time_micros t \<noteq> None"

definition up_to_lsn :: "lsn \<Rightarrow> recovery_target" where
  "up_to_lsn target = \<lparr>rt_target_lsn = Some target, rt_target_xid = None, rt_target_time_micros = None\<rparr>"

definition up_to_xid :: "xid \<Rightarrow> recovery_target" where
  "up_to_xid target = \<lparr>rt_target_lsn = None, rt_target_xid = Some target, rt_target_time_micros = None\<rparr>"

definition up_to_time_micros :: "u64 \<Rightarrow> recovery_target" where
  "up_to_time_micros target = \<lparr>rt_target_lsn = None, rt_target_xid = None, rt_target_time_micros = Some target\<rparr>"

datatype replay_decision_kind = Continue | StopBeforeRecord | StopAfterRecord

definition replay_decision :: "wal_record \<Rightarrow> recovery_target \<Rightarrow> recovery_error + replay_decision_kind" where
  "replay_decision record target =
     (if wh_record_type (wr_header record) \<noteq> Commit then Inr Continue
      else
        rbind (case rt_target_time_micros target of
                 None \<Rightarrow> Inr False
               | Some t \<Rightarrow> (case commit_decode (wr_payload record) of
                     Inl err \<Rightarrow> Inl (RApplier (AppCommitPayload err))
                   | Inr p \<Rightarrow> Inr (t < cp_commit_timestamp_micros p))) (\<lambda>newer.
        if newer then Inr StopBeforeRecord
        else if rt_target_xid target = Some (wh_xid (wr_header record)) then Inr StopAfterRecord
        else Inr Continue))"

definition finish_recovery_at :: "recovery_target \<Rightarrow> lsn \<Rightarrow> recovery_error + lsn" where
  "finish_recovery_at target l =
     (case rt_target_xid target of Some x \<Rightarrow> Inl (TargetXidNotFound x) | None \<Rightarrow> Inr l)"

section \<open>Scanning a segment\<close>

definition checked_record_end :: "u64 \<Rightarrow> nat \<Rightarrow> recovery_error + u64" where
  "checked_record_end stream_pos used =
     (if 2 ^ 64 \<le> used then Inl (RRecord (Malformed ''recovery record length overflow''))
      else ok_or (checked_add stream_pos (of_nat used)) (RRecord (Malformed ''recovery lsn overflow'')))"

definition checked_record_count :: "u64 \<Rightarrow> recovery_error + u64" where
  "checked_record_count n = ok_or (checked_add n 1) (RRecord (Malformed ''recovery record count overflow''))"

definition checked_segment_offset :: "nat \<Rightarrow> nat \<Rightarrow> recovery_error + nat" where
  "checked_segment_offset offset used =
     (if offset + used < 2 ^ 64 then Inr (offset + used)
      else Inl (RRecord (Malformed ''recovery segment offset overflow'')))"

definition crc_mismatch_is_at_segment_tail :: "bytes \<Rightarrow> nat \<Rightarrow> recovery_error + bool" where
  "crc_mismatch_is_at_segment_tail buf offset =
     (if length buf < offset then Inl (RRecord (Malformed ''recovery segment offset out of bounds''))
      else
        let remaining = drop offset buf in
        if length remaining < RECORD_HEADER_SIZE then Inr True
        else
          let total = unat (word_from_le (take 4 remaining) :: u32) in
          if total < RECORD_HEADER_SIZE then Inl (RRecord (Malformed ''total_length too small''))
          else rbind (checked_segment_offset offset total) (\<lambda>record_end. Inr (record_end = length buf)))"

text \<open>
  \<open>apply\<close> returns the caller's state and the closure's result; the cursor holds that state and the
  local variables of the scan. A step either returns from the whole function (\<open>Inl\<close>) or goes on.
\<close>

type_synonym 's applier = "wal_record \<Rightarrow> 's \<Rightarrow> 's \<times> (recovery_error + unit)"

record 's recovery_cursor =
  rc_state :: 's
  rc_stream_pos :: u64
  rc_last_good_pos :: u64
  rc_record_count :: u64

type_synonym 's recovery_result = "'s \<times> (recovery_error + lsn)"

definition applier_error :: "recovery_error \<Rightarrow> recovery_error" where
  "applier_error e = (case e of RApplier m \<Rightarrow> RApplier m | _ \<Rightarrow> RApplier (AppShown e))"

definition recover_record ::
  "recovery_target \<Rightarrow> 's applier \<Rightarrow> wal_record \<Rightarrow> nat \<Rightarrow> nat \<Rightarrow> 's recovery_cursor
     \<Rightarrow> 's recovery_result + nat \<times> 's recovery_cursor" where
  "recover_record target apply record used offset c =
     (case checked_record_end (rc_stream_pos c) used of
        Inl e \<Rightarrow> Inl (rc_state c, Inl e)
      | Inr record_end \<Rightarrow>
          if (case rt_target_lsn target of Some t \<Rightarrow> t < record_end | None \<Rightarrow> False)
          then Inl (rc_state c, finish_recovery_at target (rc_last_good_pos c))
          else (case replay_decision record target of
            Inl e \<Rightarrow> Inl (rc_state c, Inl e)
          | Inr decision \<Rightarrow>
              if decision = StopBeforeRecord
              then Inl (rc_state c, finish_recovery_at target (rc_last_good_pos c))
              else (case apply record (rc_state c) of
                (s, Inl e) \<Rightarrow> Inl (s, Inl (applier_error e))
              | (s, Inr _) \<Rightarrow>
                  (case checked_segment_offset offset used of
                     Inl e \<Rightarrow> Inl (s, Inl e)
                   | Inr offset' \<Rightarrow>
                       (case checked_record_count (rc_record_count c) of
                          Inl e \<Rightarrow> Inl (s, Inl e)
                        | Inr n \<Rightarrow>
                            if decision = StopAfterRecord then Inl (s, Inr record_end)
                            else Inr (offset', \<lparr>rc_state = s, rc_stream_pos = record_end,
                                                rc_last_good_pos = record_end, rc_record_count = n\<rparr>))))))"

lemma wal_decode_used_pos: "wal_decode crc b = Inr (r, used) \<Longrightarrow> 0 < used"
  using wal_decode_sound(2) length_record_bytes by fastforce

lemma recover_record_advances: "recover_record t ap r used offset c = Inr (offset', c') \<Longrightarrow> offset' = offset + used"
  by (auto simp: recover_record_def checked_segment_offset_def split: sum.splits if_splits prod.splits)

function recover_segment ::
  "crc_append \<Rightarrow> recovery_target \<Rightarrow> 's applier \<Rightarrow> bool \<Rightarrow> bytes \<Rightarrow> nat \<Rightarrow> 's recovery_cursor
     \<Rightarrow> 's recovery_result + 's recovery_cursor" where
  "recover_segment crc target apply is_final buf offset c =
     (if offset < length buf then
        (case wal_decode crc (drop offset buf) of
           Inr (record, used) \<Rightarrow>
             (case recover_record target apply record used offset c of
                Inl res \<Rightarrow> Inl res
              | Inr (offset', c') \<Rightarrow> recover_segment crc target apply is_final buf offset' c')
         | Inl (Truncated needed have_len) \<Rightarrow>
             if \<not> is_final then Inl (rc_state c, Inl (RRecord (Truncated needed have_len)))
             else Inl (rc_state c, finish_recovery_at target (rc_last_good_pos c))
         | Inl (CrcMismatch expected actual) \<Rightarrow>
             if \<not> is_final then Inl (rc_state c, Inl (RRecord (CrcMismatch expected actual)))
             else (case crc_mismatch_is_at_segment_tail buf offset of
                 Inl e \<Rightarrow> Inl (rc_state c, Inl e)
               | Inr at_tail \<Rightarrow>
                   if \<not> at_tail then Inl (rc_state c, Inl (RRecord (CrcMismatch expected actual)))
                   else Inl (rc_state c, finish_recovery_at target (rc_last_good_pos c)))
         | Inl other \<Rightarrow> Inl (rc_state c, Inl (RRecord other)))
      else Inr c)"
  by pat_completeness auto
termination
  by (relation "measure (\<lambda>(crc, target, apply, is_final, buf, offset, c). length buf - offset)")
    (auto dest!: wal_decode_used_pos recover_record_advances)

declare recover_segment.simps [simp del]

section \<open>Recovering a directory\<close>

definition read_segment_bytes_with_limit :: "nat \<Rightarrow> wal_dir \<Rightarrow> string \<Rightarrow> recovery_error + bytes" where
  "read_segment_bytes_with_limit limit d path =
     (case map_of d path of
        None \<Rightarrow> Inl (RIo path)
      | Some f \<Rightarrow> if limit < length (df_content f) then Inl (RIo path) else Inr (df_content f))"

primrec recover_segments ::
  "crc_append \<Rightarrow> nat \<Rightarrow> wal_dir \<Rightarrow> recovery_target \<Rightarrow> 's applier \<Rightarrow> (u32 \<times> string) list \<Rightarrow> 's recovery_cursor
     \<Rightarrow> 's recovery_result" where
  "recover_segments crc limit d target apply [] c = (rc_state c, finish_recovery_at target (rc_last_good_pos c))"
| "recover_segments crc limit d target apply (s # segments) c =
     (case read_segment_bytes_with_limit limit d (snd s) of
        Inl e \<Rightarrow> (rc_state c, Inl e)
      | Inr buf \<Rightarrow>
          (case recover_segment crc target apply (segments = []) buf 0 c of
             Inl res \<Rightarrow> res
           | Inr c' \<Rightarrow> recover_segments crc limit d target apply segments c'))"

definition recover_with_target ::
  "crc_append \<Rightarrow> nat \<Rightarrow> wal_dir \<Rightarrow> recovery_target \<Rightarrow> 's applier \<Rightarrow> 's \<Rightarrow> 's recovery_result" where
  "recover_with_target crc limit d target apply st =
     (case read_floor crc d of
        Inl e \<Rightarrow> (st, Inl e)
      | Inr floor \<Rightarrow>
          (case (case rt_target_lsn target of
                   Some t \<Rightarrow> if t < fl_floor_lsn floor then Some (TargetBeforeFloor t (fl_floor_lsn floor)) else None
                 | None \<Rightarrow> None) of
             Some e \<Rightarrow> (st, Inl e)
           | None \<Rightarrow>
               let segments = filter (\<lambda>(index, _). fl_segment_index floor \<le> index) (list_segments d) in
               if segments = [] then (st, finish_recovery_at target (fl_floor_lsn floor))
               else recover_segments crc limit d target apply segments
                 \<lparr>rc_state = st, rc_stream_pos = fl_floor_lsn floor, rc_last_good_pos = fl_floor_lsn floor,
                  rc_record_count = 0\<rparr>))"

definition recover :: "crc_append \<Rightarrow> nat \<Rightarrow> wal_dir \<Rightarrow> 's applier \<Rightarrow> 's \<Rightarrow> 's recovery_result" where
  "recover crc limit d apply st = recover_with_target crc limit d target_none apply st"

section \<open>Repairing the final segment\<close>

function good_prefix_len :: "crc_append \<Rightarrow> bytes \<Rightarrow> nat \<Rightarrow> recovery_error + nat" where
  "good_prefix_len crc buf offset =
     (if offset < length buf then
        (case wal_decode crc (drop offset buf) of
           Inr (record, used) \<Rightarrow>
             (case checked_segment_offset offset used of
                Inl e \<Rightarrow> Inl e
              | Inr offset' \<Rightarrow> good_prefix_len crc buf offset')
         | Inl (Truncated needed have_len) \<Rightarrow> Inr offset
         | Inl (CrcMismatch expected actual) \<Rightarrow>
             rbind (crc_mismatch_is_at_segment_tail buf offset) (\<lambda>at_tail.
             if at_tail then Inr offset else Inl (RRecord (CrcMismatch expected actual)))
         | Inl other \<Rightarrow> Inl (RRecord other))
      else Inr offset)"
  by pat_completeness auto
termination
  by (relation "measure (\<lambda>(crc, buf, offset). length buf - offset)")
    (auto dest!: wal_decode_used_pos simp: checked_segment_offset_def split: if_splits)

declare good_prefix_len.simps [simp del]

definition repair_final_segment_tail ::
  "crc_append \<Rightarrow> nat \<Rightarrow> wal_dir \<Rightarrow> recovery_error + wal_dir \<times> nat option" where
  "repair_final_segment_tail crc limit d =
     rbind (read_floor crc d) (\<lambda>floor.
       let segments = filter (\<lambda>(index, _). fl_segment_index floor \<le> index) (list_segments d) in
       if segments = [] then Inr (d, None)
       else
         let path = snd (last segments) in
         rbind (read_segment_bytes_with_limit limit d path) (\<lambda>buf.
         rbind (good_prefix_len crc buf 0) (\<lambda>good.
         if length buf \<le> good then Inr (d, None)
         else Inr (sync_file path (set_len_file path good d), Some (length buf - good)))))"

section \<open>The bytes of a log\<close>

definition log_image :: "wal_record list \<Rightarrow> bytes" where
  "log_image rs = concat (map record_bytes rs)"

lemma log_image_simps [simp]:
  "log_image [] = []" "log_image (r # rs) = record_bytes r @ log_image rs" "log_image (rs @ rs') = log_image rs @ log_image rs'"
  by (simp_all add: log_image_def)

text \<open>
  What a crash may leave behind the last complete record: nothing, a record cut short, or a record of
  full length whose bytes are not all there.
\<close>

definition torn :: "crc_append \<Rightarrow> bytes \<Rightarrow> bool" where
  "torn crc tail \<longleftrightarrow> tail = [] \<or>
     (case wal_decode crc tail of
        Inl (Truncated _ _) \<Rightarrow> True
      | Inl (CrcMismatch _ _) \<Rightarrow> unat (word_from_le (take 4 tail) :: u32) = length tail
      | _ \<Rightarrow> False)"

lemma torn_Nil [simp]: "torn crc []"
  by (simp add: torn_def)

lemma torn_prefix: "well_formed crc r \<Longrightarrow> k < length (record_bytes r) \<Longrightarrow> torn crc (take k (record_bytes r))"
  by (erule (1) wal_decode_prefix) (simp add: torn_def)

lemma crc_mismatch_length:
  assumes "wal_decode crc b = Inl (CrcMismatch e a)"
  shows "28 \<le> unat (word_from_le (take 4 b) :: u32)" "28 \<le> length b"
proof -
  from assms obtain h where h: "decode_header_from b = Inr h" "28 \<le> unat (wh_total_length h)"
    by (cases "decode_header_from b")
      (auto simp: wal_decode_def decode_header_from_def ok_or_def record_type_from_u8_def Let_def
        split: if_splits option.splits)
  then show "28 \<le> unat (word_from_le (take 4 b) :: u32)" "28 \<le> length b"
    by (auto simp: decode_header_from_def read_defs slice_def Let_def split: if_splits)
qed

lemma tail_offset:
  "wal_decode crc tail = Inl (CrcMismatch e a) \<Longrightarrow> length (pre @ tail) < 2 ^ 64 \<Longrightarrow>
     unat (word_from_le (take 4 tail) :: u32) = length tail \<Longrightarrow>
     crc_mismatch_is_at_segment_tail (pre @ tail) (length pre) = Inr True"
  using crc_mismatch_length [of crc tail e a]
  by (simp add: crc_mismatch_is_at_segment_tail_def Let_def checked_segment_offset_def)

section \<open>What recovery is to do\<close>

text \<open>
  The plan of a recovery over a list of records starting at position \<open>pos\<close>: the records to apply,
  and how the scan ends.
\<close>

datatype plan_end = EndOfLog | TargetReached | PlanError recovery_error

primrec redo_plan :: "recovery_target \<Rightarrow> nat \<Rightarrow> wal_record list \<Rightarrow> wal_record list \<times> plan_end" where
  "redo_plan t pos [] = ([], EndOfLog)"
| "redo_plan t pos (r # rs) =
     (if (case rt_target_lsn t of Some l \<Rightarrow> unat l < pos + length (record_bytes r) | None \<Rightarrow> False) then ([], EndOfLog)
      else case replay_decision r t of
        Inl e \<Rightarrow> ([], PlanError e)
      | Inr StopBeforeRecord \<Rightarrow> ([], EndOfLog)
      | Inr StopAfterRecord \<Rightarrow> ([r], TargetReached)
      | Inr Continue \<Rightarrow> map_prod (Cons r) id (redo_plan t (pos + length (record_bytes r)) rs))"

primrec redo :: "'s applier \<Rightarrow> wal_record list \<Rightarrow> 's \<Rightarrow> 's \<times> (recovery_error + unit)" where
  "redo apply [] s = (s, Inr ())"
| "redo apply (r # rs) s =
     (case apply r s of (s', Inl e) \<Rightarrow> (s', Inl (applier_error e)) | (s', Inr _) \<Rightarrow> redo apply rs s')"

definition plan_outcome :: "recovery_target \<Rightarrow> lsn \<Rightarrow> plan_end \<Rightarrow> recovery_error + lsn" where
  "plan_outcome t l e =
     (case e of EndOfLog \<Rightarrow> finish_recovery_at t l | TargetReached \<Rightarrow> Inr l | PlanError err \<Rightarrow> Inl err)"

definition run_plan :: "recovery_target \<Rightarrow> 's applier \<Rightarrow> nat \<Rightarrow> wal_record list \<Rightarrow> 's \<Rightarrow> 's recovery_result" where
  "run_plan t apply pos rs st =
     (case redo_plan t pos rs of (todo, e) \<Rightarrow>
        (case redo apply todo st of
           (s, Inl err) \<Rightarrow> (s, Inl err)
         | (s, Inr _) \<Rightarrow> (s, plan_outcome t (of_nat (pos + length (log_image todo))) e)))"

section \<open>The scan follows the plan\<close>

primrec scan_records ::
  "recovery_target \<Rightarrow> 's applier \<Rightarrow> wal_record list \<Rightarrow> 's recovery_cursor \<Rightarrow> 's recovery_result + 's recovery_cursor" where
  "scan_records t ap [] c = Inr c"
| "scan_records t ap (r # rs) c =
     (case recover_record t ap r (length (record_bytes r)) 0 c of
        Inl res \<Rightarrow> Inl res | Inr (_, c') \<Rightarrow> scan_records t ap rs c')"

lemma recover_record_offset:
  "offset + used < 2 ^ 64 \<Longrightarrow>
     recover_record t ap r used offset c = map_sum id (map_prod (\<lambda>_. offset + used) id) (recover_record t ap r used 0 c)"
  by (auto simp: recover_record_def checked_segment_offset_def split: sum.splits prod.splits)

lemma recover_segment_end [simp]: "length buf \<le> offset \<Longrightarrow> recover_segment crc t ap fin buf offset c = Inr c"
  by (simp add: recover_segment.simps [of crc t ap fin buf offset c])

lemma recover_segment_records:
  "list_all (well_formed crc) rs \<Longrightarrow> length (pre @ log_image rs @ tail) < 2 ^ 64 \<Longrightarrow>
     recover_segment crc t ap fin (pre @ log_image rs @ tail) (length pre) c =
       (case scan_records t ap rs c of Inl res \<Rightarrow> Inl res
        | Inr c' \<Rightarrow> recover_segment crc t ap fin (pre @ log_image rs @ tail) (length pre + length (log_image rs)) c')"
proof (induction rs arbitrary: pre c)
  case (Cons r rs)
  let ?buf = "pre @ record_bytes r @ log_image rs @ tail" and ?n = "length (record_bytes r)"
  have dec: "wal_decode crc (drop (length pre) ?buf) = Inr (r, ?n)"
    using Cons.prems wal_decode_record by simp
  have lt: "length pre < length ?buf" by (simp add: length_record_bytes)
  have off: "recover_record t ap r ?n (length pre) c
      = map_sum id (map_prod (\<lambda>_. length pre + ?n) id) (recover_record t ap r ?n 0 c)"
    using Cons.prems by (intro recover_record_offset) simp
  have IH: "recover_segment crc t ap fin ?buf (length pre + ?n) c' = (case scan_records t ap rs c' of Inl res \<Rightarrow> Inl res
      | Inr c'' \<Rightarrow> recover_segment crc t ap fin ?buf (length pre + (?n + length (log_image rs))) c'')" for c'
    using Cons.IH [of "pre @ record_bytes r" c'] Cons.prems by (simp add: add.assoc cong: sum.case_cong)
  show ?case
    using dec lt by (simp add: recover_segment.simps [of crc t ap fin ?buf "length pre" c] off IH split: sum.split prod.split)
qed simp

lemma recover_segment_torn:
  assumes "torn crc tail" "tail \<noteq> []" "length (pre @ tail) < 2 ^ 64"
  shows "recover_segment crc t ap True (pre @ tail) (length pre) c = Inl (rc_state c, finish_recovery_at t (rc_last_good_pos c))"
proof -
  from assms(1,2) consider n h where "wal_decode crc tail = Inl (Truncated n h)"
    | e a where "wal_decode crc tail = Inl (CrcMismatch e a)" "unat (word_from_le (take 4 tail) :: u32) = length tail"
    by (auto simp: torn_def split: sum.splits wal_record_error.splits)
  then show ?thesis
    using assms tail_offset [OF _ assms(3)]
    by cases (simp_all add: recover_segment.simps [of crc t ap True "pre @ tail" "length pre" c])
qed

section \<open>A directory that holds a log\<close>

fun log_bytes :: "wal_record list list \<Rightarrow> bytes \<Rightarrow> bytes list" where
  "log_bytes [] tail = []"
| "log_bytes [rs] tail = [log_image rs @ tail]"
| "log_bytes (rs # rs' # rss) tail = log_image rs # log_bytes (rs' # rss) tail"

definition live :: "wal_dir \<Rightarrow> wal_floor \<Rightarrow> u32 list" where
  "live d fl = filter (\<lambda>i. fl_segment_index fl \<le> i) (sorted_list_of_set (seg_set d))"

text \<open>
  From the floor on, the segments hold the records \<open>rss\<close>, segment by segment, and the final
  segment ends in \<open>tail\<close>.
\<close>

definition holds_log :: "crc_append \<Rightarrow> nat \<Rightarrow> wal_dir \<Rightarrow> wal_floor \<Rightarrow> wal_record list list \<Rightarrow> bytes \<Rightarrow> bool" where
  "holds_log crc limit d fl rss tail \<longleftrightarrow>
     dir_ok d \<and> read_floor crc d = Inr fl \<and> list_all (list_all (well_formed crc)) rss \<and> torn crc tail
     \<and> (rss = [] \<longrightarrow> tail = []) \<and> map (seg_bytes d) (live d fl) = log_bytes rss tail
     \<and> list_all (\<lambda>b. length b \<le> limit) (log_bytes rss tail)
     \<and> unat (fl_floor_lsn fl) + length (log_image (concat rss)) + length tail < 2 ^ 64"

lemma length_log_image_ge: "28 * length rs \<le> length (log_image rs)"
  by (induction rs) (simp_all add: length_record_bytes)

lemma live_segments:
  assumes "dir_ok d"
  shows "filter (\<lambda>(index, _). fl_segment_index fl \<le> index) (list_segments d) = map (\<lambda>i. (i, segment_path i)) (live d fl)"
  by (simp add: list_segments_eq [OF assms] live_def filter_map comp_def)

lemma read_live_segment:
  "i \<in> set (live d fl) \<Longrightarrow> length (seg_bytes d i) \<le> limit \<Longrightarrow>
     read_segment_bytes_with_limit limit d (segment_path i) = Inr (seg_bytes d i)"
  by (auto simp: live_def seg_set_map_of seg_bytes_def read_segment_bytes_with_limit_def)

lemma log_bytes_short: "b \<in> set (log_bytes rss tail) \<Longrightarrow> length b \<le> length (log_image (concat rss)) + length tail"
  by (induction rss tail rule: log_bytes.induct) auto

lemma scan_records_append:
  "scan_records t ap (rs @ rs') c = (case scan_records t ap rs c of Inl res \<Rightarrow> Inl res | Inr c' \<Rightarrow> scan_records t ap rs' c')"
  by (induction rs arbitrary: c) (auto split: sum.splits)

definition finish_scan :: "recovery_target \<Rightarrow> 's recovery_result + 's recovery_cursor \<Rightarrow> 's recovery_result" where
  "finish_scan t r = (case r of Inl res \<Rightarrow> res | Inr c \<Rightarrow> (rc_state c, finish_recovery_at t (rc_last_good_pos c)))"

lemma recover_segments_log:
  "list_all (list_all (well_formed crc)) rss \<Longrightarrow> torn crc tail \<Longrightarrow> rss = [] \<longrightarrow> tail = [] \<Longrightarrow>
   list_all2 (\<lambda>s b. read_segment_bytes_with_limit limit d (snd s) = Inr b) segs (log_bytes rss tail) \<Longrightarrow>
   length (log_image (concat rss)) + length tail < 2 ^ 64 \<Longrightarrow>
   recover_segments crc limit d t ap segs c = finish_scan t (scan_records t ap (concat rss) c)"
proof (induction rss tail arbitrary: segs c rule: log_bytes.induct)
  case (1 tail)
  then show ?case by (simp add: finish_scan_def)
next
  case (2 rs tail)
  then obtain s where segs: "segs = [s]" and rd: "read_segment_bytes_with_limit limit d (snd s) = Inr (log_image rs @ tail)"
    by (auto simp: list_all2_Cons2)
  have "recover_segment crc t ap True (log_image rs @ tail) 0 c = (case scan_records t ap rs c of Inl res \<Rightarrow> Inl res
      | Inr c' \<Rightarrow> recover_segment crc t ap True (log_image rs @ tail) (length (log_image rs)) c')"
    using recover_segment_records [of crc rs "[]" tail t ap True c] 2 by (simp cong: sum.case_cong)
  moreover have "tail \<noteq> [] \<Longrightarrow> recover_segment crc t ap True (log_image rs @ tail) (length (log_image rs)) c'
      = Inl (rc_state c', finish_recovery_at t (rc_last_good_pos c'))" for c'
    using recover_segment_torn [of crc tail "log_image rs"] 2 by simp
  ultimately show ?case
    by (cases "tail = []") (simp_all add: segs rd finish_scan_def split: sum.splits)
next
  case (3 rs rs' rss tail)
  then obtain s segs' where segs: "segs = s # segs'" "segs' \<noteq> []"
    and rd: "read_segment_bytes_with_limit limit d (snd s) = Inr (log_image rs)"
    and rest: "list_all2 (\<lambda>s b. read_segment_bytes_with_limit limit d (snd s) = Inr b) segs' (log_bytes (rs' # rss) tail)"
    by (cases rss) (auto simp: list_all2_Cons2)
  have "recover_segment crc t ap False (log_image rs) 0 c = scan_records t ap rs c"
    using recover_segment_records [of crc rs "[]" "[]" t ap False c] 3 by (simp cong: sum.case_cong split: sum.split)
  with 3 rest show ?case
    by (simp add: segs rd finish_scan_def scan_records_append split: sum.split)
qed

lemma checked_record_end_small:
  "unat p + n < 2 ^ 64 \<Longrightarrow> checked_record_end p n = Inr (of_nat (unat p + n)) \<and> unat (of_nat (unat p + n) :: u64) = unat p + n"
  using unat_of_nat_small [of "unat p + n", where 'a = 64] by (auto simp: checked_record_end_def checked_add_def unat_of_nat_small)

lemma checked_record_count_small:
  "Suc (unat p) < 2 ^ 64 \<Longrightarrow> checked_record_count p = Inr (p + 1) \<and> unat (p + 1) = Suc (unat p)"
  by (auto simp: checked_record_count_def checked_add_def unat_plus_one_less unat_not_max)

lemma run_plan_Cons:
  "run_plan t ap p (r # rs) st =
     (if (case rt_target_lsn t of Some l \<Rightarrow> unat l < p + length (record_bytes r) | None \<Rightarrow> False)
      then (st, finish_recovery_at t (of_nat p))
      else case replay_decision r t of
        Inl e \<Rightarrow> (st, Inl e)
      | Inr StopBeforeRecord \<Rightarrow> (st, finish_recovery_at t (of_nat p))
      | Inr d \<Rightarrow> (case ap r st of (s, Inl e) \<Rightarrow> (s, Inl (applier_error e))
          | (s, Inr _) \<Rightarrow> if d = StopAfterRecord then (s, Inr (of_nat (p + length (record_bytes r))))
              else run_plan t ap (p + length (record_bytes r)) rs s))"
proof -
  obtain todo e where "redo_plan t (p + length (record_bytes r)) rs = (todo, e)" by fastforce
  then show ?thesis
    by (cases "ap r st"; cases "snd (ap r st)")
      (auto simp: run_plan_def plan_outcome_def add.assoc split: sum.splits replay_decision_kind.splits prod.split plan_end.split)
qed

lemma scan_follows_plan:
  "rc_last_good_pos c = rc_stream_pos c \<Longrightarrow> unat (rc_stream_pos c) + length (log_image rs) < 2 ^ 64 \<Longrightarrow>
   unat (rc_record_count c) + length rs < 2 ^ 64 \<Longrightarrow>
   finish_scan t (scan_records t ap rs c) = run_plan t ap (unat (rc_stream_pos c)) rs (rc_state c)"
proof (induction rs arbitrary: c)
  case Nil
  then show ?case by (simp add: finish_scan_def run_plan_def plan_outcome_def)
next
  case (Cons r rs)
  let ?n = "length (record_bytes r)" and ?p = "unat (rc_stream_pos c)"
  define e :: u64 where "e = of_nat (?p + ?n)"
  have e: "checked_record_end (rc_stream_pos c) ?n = Inr e" "unat e = ?p + ?n"
    using checked_record_end_small [of "rc_stream_pos c" ?n] Cons.prems by (simp_all add: e_def)
  have n: "checked_record_count (rc_record_count c) = Inr (rc_record_count c + 1)" "unat (rc_record_count c + 1) = Suc (unat (rc_record_count c))"
    using checked_record_count_small [of "rc_record_count c"] Cons.prems by simp_all
  have off: "checked_segment_offset 0 ?n = Inr ?n"
    using Cons.prems by (simp add: checked_segment_offset_def)
  have lsn: "l < e \<longleftrightarrow> unat l < ?p + ?n" for l by (simp add: word_less_nat_alt e)
  have IH: "finish_scan t (scan_records t ap rs \<lparr>rc_state = s, rc_stream_pos = e, rc_last_good_pos = e, rc_record_count = rc_record_count c + 1\<rparr>)
      = run_plan t ap (?p + ?n) rs s" for s
    using Cons.IH [of "\<lparr>rc_state = s, rc_stream_pos = e, rc_last_good_pos = e, rc_record_count = rc_record_count c + 1\<rparr>"] Cons.prems
    by (simp add: e n)
  have step: "recover_record t ap r ?n 0 c =
      (if (case rt_target_lsn t of Some l \<Rightarrow> unat l < ?p + ?n | None \<Rightarrow> False) then Inl (rc_state c, finish_recovery_at t (rc_stream_pos c))
       else case replay_decision r t of Inl e \<Rightarrow> Inl (rc_state c, Inl e)
         | Inr StopBeforeRecord \<Rightarrow> Inl (rc_state c, finish_recovery_at t (rc_stream_pos c))
         | Inr d \<Rightarrow> (case ap r (rc_state c) of (s, Inl e) \<Rightarrow> Inl (s, Inl (applier_error e))
             | (s, Inr _) \<Rightarrow> if d = StopAfterRecord then Inl (s, Inr e)
                 else Inr (?n, \<lparr>rc_state = s, rc_stream_pos = e, rc_last_good_pos = e, rc_record_count = rc_record_count c + 1\<rparr>)))"
    using Cons.prems(1)
    by (simp add: recover_record_def e(1) n(1) off lsn cong: option.case_cong split: sum.split replay_decision_kind.split prod.split)
  have word: "rc_stream_pos c + of_nat ?n = e" by (simp add: e_def)
  show ?case
  proof (cases "replay_decision r t")
    case (Inr k)
    obtain s res where ap: "ap r (rc_state c) = (s, res)" by fastforce
    show ?thesis
      using IH [of s] by (cases k; cases res; simp add: step run_plan_Cons Inr ap word; simp add: finish_scan_def)
  qed (simp add: step finish_scan_def run_plan_Cons)
qed

lemma log_bytes_Nil [simp]: "log_bytes rss tail = [] \<longleftrightarrow> rss = []"
  by (cases "(rss, tail)" rule: log_bytes.cases) auto

lemma holds_log_segments:
  assumes "holds_log crc limit d fl rss tail"
  shows "list_all2 (\<lambda>s b. read_segment_bytes_with_limit limit d (snd s) = Inr b)
    (map (\<lambda>i. (i, segment_path i)) (live d fl)) (log_bytes rss tail)"
proof -
  have bytes: "log_bytes rss tail = map (seg_bytes d) (live d fl)"
    and "list_all (\<lambda>b. length b \<le> limit) (log_bytes rss tail)"
    using assms by (simp_all add: holds_log_def)
  then have "\<forall>i \<in> set (live d fl). length (seg_bytes d i) \<le> limit" by (simp add: list_all_iff)
  then show ?thesis
    unfolding bytes by (auto simp: list_all2_map1 list_all2_map2 list_all2_same read_live_segment)
qed

lemma recover_with_target_plan:
  assumes log: "holds_log crc limit d fl rss tail" and t: "case rt_target_lsn t of Some l \<Rightarrow> fl_floor_lsn fl \<le> l | None \<Rightarrow> True"
  shows "recover_with_target crc limit d t ap st = run_plan t ap (unat (fl_floor_lsn fl)) (concat rss) st"
proof -
  have ok: "dir_ok d" "read_floor crc d = Inr fl" "list_all (list_all (well_formed crc)) rss" "torn crc tail" "rss = [] \<longrightarrow> tail = []"
    and len: "unat (fl_floor_lsn fl) + length (log_image (concat rss)) + length tail < 2 ^ 64"
    and live: "map (seg_bytes d) (live d fl) = log_bytes rss tail"
    using log by (simp_all add: holds_log_def)
  have no_error: "(case rt_target_lsn t of Some t \<Rightarrow> if t < fl_floor_lsn fl then Some (TargetBeforeFloor t (fl_floor_lsn fl)) else None
      | None \<Rightarrow> None) = None"
    using t by (auto split: option.splits)
  let ?c = "\<lparr>rc_state = st, rc_stream_pos = fl_floor_lsn fl, rc_last_good_pos = fl_floor_lsn fl, rc_record_count = 0\<rparr>"
  have count: "length (concat rss) < 2 ^ 64"
    using len length_log_image_ge [of "concat rss"] by linarith
  have "recover_with_target crc limit d t ap st = finish_scan t (scan_records t ap (concat rss) ?c)"
  proof (cases "rss = []")
    case True
    then have "live d fl = []" using live by simp
    with True show ?thesis
      by (simp add: recover_with_target_def ok(2) no_error live_segments [OF ok(1)] finish_scan_def)
  next
    case False
    then have "live d fl \<noteq> []" using live by (metis list.map_disc_iff log_bytes_Nil)
    with recover_segments_log [OF ok(3-5) holds_log_segments [OF log]] len show ?thesis
      by (simp add: recover_with_target_def ok(2) no_error live_segments [OF ok(1)])
  qed
  also have "\<dots> = run_plan t ap (unat (fl_floor_lsn fl)) (concat rss) st"
    using scan_follows_plan [of ?c "concat rss" t ap] len count by simp
  finally show ?thesis .
qed

section \<open>Plans of the single targets\<close>

lemma redo_total: "(\<And>r s. ap r s = (f r s, Inr ())) \<Longrightarrow> redo ap rs st = (fold f rs st, Inr ())"
  by (induction rs arbitrary: st) simp_all

lemma plan_none [simp]: "redo_plan target_none pos rs = (rs, EndOfLog)"
  by (induction rs arbitrary: pos) (simp_all add: target_none_def replay_decision_def)

primrec ends_by :: "nat \<Rightarrow> nat \<Rightarrow> wal_record list \<Rightarrow> wal_record list" where
  "ends_by l pos [] = []"
| "ends_by l pos (r # rs) =
     (if pos + length (record_bytes r) \<le> l then r # ends_by l (pos + length (record_bytes r)) rs else [])"

lemma plan_up_to_lsn [simp]: "redo_plan (up_to_lsn l) pos rs = (ends_by (unat l) pos rs, EndOfLog)"
  by (induction rs arbitrary: pos) (simp_all add: up_to_lsn_def replay_decision_def)

lemma ends_by_prefix:
  "\<exists>n \<le> length rs. ends_by l pos rs = take n rs \<and> (\<forall>k \<le> length rs. pos \<le> l \<longrightarrow> (k \<le> n \<longleftrightarrow> pos + length (log_image (take k rs)) \<le> l))"
proof (induction rs arbitrary: pos)
  case (Cons r rs)
  let ?p = "pos + length (record_bytes r)"
  show ?case
  proof (cases "?p \<le> l")
    case True
    from Cons.IH [of ?p] obtain n where n: "n \<le> length rs" "ends_by l ?p rs = take n rs"
      "\<forall>k \<le> length rs. k \<le> n \<longleftrightarrow> ?p + length (log_image (take k rs)) \<le> l" using True by auto
    have "k \<le> Suc n \<longleftrightarrow> pos + length (log_image (take k (r # rs))) \<le> l" if "k \<le> Suc (length rs)" "pos \<le> l" for k
      using n(3) that by (cases k) (simp_all add: add.assoc)
    then show ?thesis using n True by (intro exI [of _ "Suc n"]) simp
  next
    case False
    have "k \<le> 0 \<longleftrightarrow> pos + length (log_image (take k (r # rs))) \<le> l" if "pos \<le> l" for k
      using False that by (cases k) simp_all
    then show ?thesis using False by (intro exI [of _ 0]) simp
  qed
qed simp

definition commit_of :: "xid \<Rightarrow> wal_record \<Rightarrow> bool" where
  "commit_of x r \<longleftrightarrow> wh_record_type (wr_header r) = Commit \<and> wh_xid (wr_header r) = x"

lemma plan_up_to_xid:
  "redo_plan (up_to_xid x) pos rs =
     (if list_ex (commit_of x) rs then (takeWhile (\<lambda>r. \<not> commit_of x r) rs @ [hd (dropWhile (\<lambda>r. \<not> commit_of x r) rs)], TargetReached)
      else (rs, EndOfLog))"
  by (induction rs arbitrary: pos) (auto simp: up_to_xid_def replay_decision_def commit_of_def)

definition newer_commit :: "u64 \<Rightarrow> wal_record \<Rightarrow> bool" where
  "newer_commit t r \<longleftrightarrow> wh_record_type (wr_header r) = Commit
     \<and> (case commit_decode (wr_payload r) of Inr p \<Rightarrow> t < cp_commit_timestamp_micros p | Inl _ \<Rightarrow> False)"

definition commits_decode :: "wal_record list \<Rightarrow> bool" where
  "commits_decode rs \<longleftrightarrow> list_all (\<lambda>r. wh_record_type (wr_header r) = Commit \<longrightarrow> \<not> isl (commit_decode (wr_payload r))) rs"

lemma plan_up_to_time:
  "commits_decode rs \<Longrightarrow> redo_plan (up_to_time_micros t) pos rs = (takeWhile (\<lambda>r. \<not> newer_commit t r) rs, EndOfLog)"
  by (induction rs arbitrary: pos)
    (auto simp: commits_decode_def up_to_time_micros_def replay_decision_def newer_commit_def split: sum.splits)

section \<open>The repair\<close>

lemma good_prefix_records:
  "list_all (well_formed crc) rs \<Longrightarrow> torn crc tail \<Longrightarrow> length (pre @ log_image rs @ tail) < 2 ^ 64 \<Longrightarrow>
     good_prefix_len crc (pre @ log_image rs @ tail) (length pre) = Inr (length pre + length (log_image rs))"
proof (induction rs arbitrary: pre)
  case Nil
  then show ?case
    using tail_offset [of crc tail]
    by (auto simp: good_prefix_len.simps [of crc "pre @ tail" "length pre"] torn_def split: sum.splits wal_record_error.splits)
next
  case (Cons r rs)
  let ?buf = "pre @ record_bytes r @ log_image rs @ tail"
  have "wal_decode crc (drop (length pre) ?buf) = Inr (r, length (record_bytes r))"
    using Cons.prems wal_decode_record by simp
  moreover have "checked_segment_offset (length pre) (length (record_bytes r)) = Inr (length pre + length (record_bytes r))"
    using Cons.prems by (simp add: checked_segment_offset_def)
  moreover have "length pre < length ?buf" by (simp add: length_record_bytes)
  ultimately show ?case
    using Cons.IH [of "pre @ record_bytes r"] Cons.prems
    by (simp add: good_prefix_len.simps [of crc ?buf "length pre"] add.assoc)
qed

lemma log_bytes_snoc: "log_bytes (rss @ [rs]) tail = map log_image rss @ [log_image rs @ tail]"
proof (induction rss)
  case (Cons rs' rss)
  then show ?case by (cases rss) simp_all
qed simp

lemma map_seg_bytes [simp]:
  "seg_bytes (sync_file n d) = seg_bytes d"
  "i \<notin> set ix \<Longrightarrow> map (seg_bytes (set_len_file (segment_path i) k d)) ix = map (seg_bytes d) ix"
  "i \<notin> set ix \<Longrightarrow> map (seg_bytes (append_file (segment_path i) bs d)) ix = map (seg_bytes d) ix"
  "i \<notin> set ix \<Longrightarrow> map (seg_bytes (create_file (segment_path i) d)) ix = map (seg_bytes d) ix"
  by auto

lemma live_ops [simp]:
  "live (sync_file n d) fl = live d fl" "live (set_len_file n k d) fl = live d fl" "live (append_file n bs d) fl = live d fl"
  by (simp_all add: live_def)

lemma distinct_live: "distinct (live d fl)"
  by (simp add: live_def)

lemma holds_log_last:
  assumes "holds_log crc limit d fl (rss @ [rs]) tail"
  obtains ix i where "live d fl = ix @ [i]" "i \<notin> set ix" "map (seg_bytes d) ix = map log_image rss"
    "seg_bytes d i = log_image rs @ tail" "length (log_image rs @ tail) \<le> limit"
proof -
  have m: "map (seg_bytes d) (live d fl) = map log_image rss @ [log_image rs @ tail]"
    using assms by (simp add: holds_log_def log_bytes_snoc)
  then obtain ix i where "live d fl = ix @ [i]" "map (seg_bytes d) ix = map log_image rss" "seg_bytes d i = log_image rs @ tail"
    by (auto simp: map_eq_append_conv)
  moreover from this have "i \<notin> set ix" using distinct_live [of d fl] by simp
  moreover have "length (log_image rs @ tail) \<le> limit"
    using assms by (simp add: holds_log_def log_bytes_snoc)
  ultimately show ?thesis using that by blast
qed

lemma repair_log:
  assumes log: "holds_log crc limit d fl rss tail"
  shows "\<exists>d'. repair_final_segment_tail crc limit d = Inr (d', if tail = [] then None else Some (length tail))
    \<and> holds_log crc limit d' fl rss [] \<and> seg_set d' = seg_set d
    \<and> (d' = d \<or> tail \<noteq> [] \<and> (\<exists>i k. d' = sync_file (segment_path i) (set_len_file (segment_path i) k d)))"
proof (cases rss rule: rev_cases)
  case Nil
  then have "live d fl = []" "tail = []" using log by (simp_all add: holds_log_def)
  with log Nil show ?thesis by (simp add: holds_log_def repair_final_segment_tail_def live_segments)
next
  case (snoc rss' rs)
  from log [unfolded snoc] obtain ix i where i: "live d fl = ix @ [i]" "i \<notin> set ix" "map (seg_bytes d) ix = map log_image rss'"
    "seg_bytes d i = log_image rs @ tail" "length (log_image rs @ tail) \<le> limit" by (rule holds_log_last)
  let ?d = "sync_file (segment_path i) (set_len_file (segment_path i) (length (log_image rs)) d)"
  have rd: "read_segment_bytes_with_limit limit d (segment_path i) = Inr (log_image rs @ tail)"
    using i by (simp add: read_live_segment [of i d fl])
  have good: "good_prefix_len crc (log_image rs @ tail) 0 = Inr (length (log_image rs))"
    using good_prefix_records [of crc rs tail "[]"] log by (simp add: holds_log_def snoc)
  have rep: "repair_final_segment_tail crc limit d = Inr (if tail = [] then d else ?d, if tail = [] then None else Some (length tail))"
    using log i(1) rd good by (simp add: repair_final_segment_tail_def holds_log_def live_segments Let_def)
  have "map (seg_bytes ?d) (live ?d fl) = log_bytes rss []"
    using i by (simp add: snoc log_bytes_snoc)
  then have "holds_log crc limit ?d fl rss []"
    using log by (auto simp: holds_log_def snoc log_bytes_snoc)
  with rep log show ?thesis by (cases "tail = []") auto
qed

lemma good_prefix_sound:
  "good_prefix_len crc buf off = Inr n \<Longrightarrow> off \<le> length buf \<Longrightarrow>
     \<exists>rs tail. drop off buf = log_image rs @ tail \<and> list_all (well_formed crc) rs \<and> torn crc tail \<and> n = off + length (log_image rs)"
proof (induction crc buf off rule: good_prefix_len.induct)
  case (1 crc buf off)
  show ?case
  proof (cases "off < length buf \<and> (\<exists>p. wal_decode crc (drop off buf) = Inr p)")
    case True
    then obtain r used where dec: "wal_decode crc (drop off buf) = Inr (r, used)" by auto
    from "1.prems"(1) True dec obtain off' where off': "checked_segment_offset off used = Inr off'" "good_prefix_len crc buf off' = Inr n"
      by (auto simp: good_prefix_len.simps [of crc buf off] split: sum.splits)
    then have o: "off' = off + used" by (auto simp: checked_segment_offset_def split: if_splits)
    note snd = wal_decode_sound [OF dec]
    from snd(4) o True have "off' \<le> length buf" by auto
    from "1.IH" [OF conjunct1 [OF True] dec refl off'(1) off'(2) this]
    obtain rs tail where "drop off' buf = log_image rs @ tail" "list_all (well_formed crc) rs" "torn crc tail" "n = off' + length (log_image rs)"
      by auto
    moreover have "drop off buf = record_bytes r @ drop off' buf" using snd(3) o by (simp add: add.commute)
    ultimately show ?thesis using snd(1,2) o by (intro exI [of _ "r # rs"]) simp
  next
    case False
    have at_tail: "unat (word_from_le (take 4 (drop off buf)) :: u32) = length buf - off"
      if "wal_decode crc (drop off buf) = Inl (CrcMismatch e a)" "crc_mismatch_is_at_segment_tail buf off = Inr True" for e a
      using that crc_mismatch_length [OF that(1)] "1.prems"(2)
      by (auto simp: crc_mismatch_is_at_segment_tail_def checked_segment_offset_def Let_def split: if_splits)
    have "n = off \<and> torn crc (drop off buf)"
      using "1.prems" False at_tail
      by (auto simp: good_prefix_len.simps [of crc buf off] torn_def split: if_splits sum.splits wal_record_error.splits)
    then show ?thesis by (intro exI [of _ "[]"] exI [of _ "drop off buf"]) simp
  qed
qed

text \<open>
  A length field that points past the end of the segment is taken for a torn record, whatever
  follows: complete valid records behind it are cut off with it.
\<close>

lemma long_length_field_is_torn:
  assumes "wh_flags h = 0" "length (header_bytes h @ rest) < unat (wh_total_length h)" "unat (wh_total_length h) \<le> MAX_RECORD_BYTES"
  shows "torn crc (header_bytes h @ rest)"
  using assms by (simp add: torn_def wal_decode_def decode_header_bytes Let_def)

end
