(* ===== verification/Wal_Buffer.thy ===== *)
theory Wal_Buffer
  imports Wal_Recovery
begin

text \<open>
  The in-memory append buffer of the log, \<^verbatim>\<open>crates/ultrasql-wal/src/buffer.rs\<close>: reservation with
  backpressure, the three append paths, draining and the published durable position. An appender that
  parks is a pass with no effect that is tried again later. The lemmas show that positions are handed
  out without gap or overlap, that the three append paths write the same bytes, and that the linked
  path builds one chain per transaction.
\<close>

datatype wal_buffer_error =
  BRecord wal_record_error
| BFull nat nat
| BClosed
| BLsnOverflow u64 u64
| BBufferedBytesOverflow nat
| BLsnUnderflow u64 u64

record wal_buffer =
  wb_bytes :: bytes
  wb_next_lsn :: u64
  wb_drainer :: bool
  wb_closed :: bool
  wb_durable_lsn :: u64
  wb_capacity :: nat

definition wal_buffer_new :: "nat \<Rightarrow> lsn \<Rightarrow> wal_buffer" where
  "wal_buffer_new capacity initial_lsn =
     \<lparr>wb_bytes = [], wb_next_lsn = initial_lsn, wb_drainer = False, wb_closed = False,
      wb_durable_lsn = initial_lsn, wb_capacity = capacity\<rparr>"

definition set_drainer :: "wal_buffer \<Rightarrow> wal_buffer" where
  "set_drainer b = b\<lparr>wb_drainer := True\<rparr>"

definition close_appends :: "wal_buffer \<Rightarrow> wal_buffer" where
  "close_appends b = b\<lparr>wb_closed := True\<rparr>"

text \<open>One pass of the loop in \<^verbatim>\<open>reserve\<close>: admit, refuse, or park until a drain frees space.\<close>

datatype reserve_outcome = Reserved | Refused wal_buffer_error | Parked

definition reserve :: "wal_buffer \<Rightarrow> nat \<Rightarrow> reserve_outcome" where
  "reserve b record_len =
     (if wb_closed b then Refused BClosed
      else
        let used = length (wb_bytes b) in
        if used + record_len < 2 ^ 64 \<and> used + record_len \<le> wb_capacity b then Reserved
        else if \<not> wb_drainer b then Refused (BFull used (wb_capacity b))
        else if used = 0 then Reserved
        else Parked)"

definition advance_to_lsn :: "wal_buffer \<Rightarrow> lsn \<Rightarrow> wal_buffer" where
  "advance_to_lsn b raw =
     (let b = (if wb_next_lsn b < raw then b\<lparr>wb_next_lsn := raw\<rparr> else b)
      in if wb_durable_lsn b < raw then b\<lparr>wb_durable_lsn := raw\<rparr> else b)"

text \<open>The result of an append pass: the error or the position, with the buffer after it; or a wait.\<close>

datatype append_outcome = AppendParked | AppendDone wal_buffer "wal_buffer_error + lsn"

definition append_bytes :: "wal_buffer \<Rightarrow> u32 \<Rightarrow> (bytes \<Rightarrow> bytes) \<Rightarrow> append_outcome" where
  "append_bytes b total_length write_record =
     (let byte_len = ucast total_length :: u64;
          record_len = unat total_length in
      case reserve b record_len of
        Refused e \<Rightarrow> AppendDone b (Inl e)
      | Parked \<Rightarrow> AppendParked
      | Reserved \<Rightarrow>
          let l = wb_next_lsn b in
          (case checked_add (wb_next_lsn b) byte_len of
             None \<Rightarrow> AppendDone b (Inl (BLsnOverflow (wb_next_lsn b) byte_len))
           | Some next \<Rightarrow> AppendDone (b\<lparr>wb_next_lsn := next, wb_bytes := write_record (wb_bytes b)\<rparr>) (Inr l)))"

definition buffer_append :: "wal_buffer \<Rightarrow> wal_record \<Rightarrow> append_outcome" where
  "buffer_append b record = append_bytes b (wh_total_length (wr_header record)) (append_encoded_to record)"

definition append_borrowed ::
  "crc_append \<Rightarrow> wal_buffer \<Rightarrow> record_type \<Rightarrow> xid \<Rightarrow> lsn \<Rightarrow> u8 \<Rightarrow> bytes \<Rightarrow> append_outcome" where
  "append_borrowed crc b record_type xid prev_lsn flags payload =
     (case build_header crc record_type xid prev_lsn flags payload of
        Inl e \<Rightarrow> AppendDone b (Inl (BRecord e))
      | Inr header \<Rightarrow> append_bytes b (wh_total_length header) (append_encoded_parts_to header payload))"

text \<open>
  The linked append also returns the new value of the transaction's link cell. The second header is
  built inside the critical section, between the reservation and the assignment of the position.
\<close>

definition append_borrowed_linked ::
  "crc_append \<Rightarrow> wal_buffer \<Rightarrow> record_type \<Rightarrow> xid \<Rightarrow> u8 \<Rightarrow> bytes \<Rightarrow> u64 \<Rightarrow> append_outcome \<times> u64" where
  "append_borrowed_linked crc b record_type xid flags payload link =
     (case build_header crc record_type xid Lsn_ZERO flags payload of
        Inl e \<Rightarrow> (AppendDone b (Inl (BRecord e)), link)
      | Inr probe \<Rightarrow>
          let byte_len = ucast (wh_total_length probe) :: u64 in
          (case reserve b (unat (wh_total_length probe)) of
             Refused e \<Rightarrow> (AppendDone b (Inl e), link)
           | Parked \<Rightarrow> (AppendParked, link)
           | Reserved \<Rightarrow>
               (case build_header crc record_type xid link flags payload of
                  Inl e \<Rightarrow> (AppendDone b (Inl (BRecord e)), link)
                | Inr header \<Rightarrow>
                    let l = wb_next_lsn b in
                    (case checked_add (wb_next_lsn b) byte_len of
                       None \<Rightarrow> (AppendDone b (Inl (BLsnOverflow (wb_next_lsn b) byte_len)), link)
                     | Some next \<Rightarrow>
                         (AppendDone (b\<lparr>wb_next_lsn := next,
                              wb_bytes := append_encoded_parts_to header payload (wb_bytes b)\<rparr>) (Inr l), l)))))"

text \<open>A drain takes the bytes out before it checks the positions.\<close>

definition drain_into :: "wal_buffer \<Rightarrow> wal_buffer \<times> bytes \<times> (wal_buffer_error + lsn \<times> lsn)" where
  "drain_into b =
     (let end_lsn = wb_next_lsn b;
          bytes = wb_bytes b;
          b' = b\<lparr>wb_bytes := []\<rparr> in
      (b', bytes,
       if 2 ^ 64 \<le> length bytes then Inl (BBufferedBytesOverflow (length bytes))
       else if unat end_lsn < length bytes then Inl (BLsnUnderflow end_lsn (of_nat (length bytes)))
       else Inr (end_lsn - of_nat (length bytes), end_lsn)))"

definition buffer_publish_durable_lsn :: "wal_buffer \<Rightarrow> lsn \<Rightarrow> wal_buffer" where
  "buffer_publish_durable_lsn b l = b\<lparr>wb_durable_lsn := l\<rparr>"

section \<open>Appending\<close>

lemma total_length_bytes: "well_formed crc r \<Longrightarrow> unat (wh_total_length (wr_header r)) = length (record_bytes r)"
  by (simp add: well_formed_def length_record_bytes)

lemma unat_ucast_32_64: "unat (ucast (w :: u32) :: u64) = unat w"
  using unat_less_pow [of w] by (simp add: unsigned_ucast_eq take_bit_nat_eq_self)

lemma buffer_append_Done:
  assumes "well_formed crc r" "buffer_append b r = AppendDone b' (Inr l)"
  shows "l = wb_next_lsn b" "wb_bytes b' = wb_bytes b @ record_bytes r"
    "unat (wb_next_lsn b') = unat (wb_next_lsn b) + length (record_bytes r)"
    "wb_durable_lsn b' = wb_durable_lsn b" "\<not> wb_closed b" "wb_closed b' = wb_closed b" "wb_capacity b' = wb_capacity b"
    "wb_drainer b' = wb_drainer b"
  using assms total_length_bytes [OF assms(1)]
  by (auto simp: buffer_append_def append_bytes_def Let_def append_encoded_to_eq checked_add_def unat_ucast_32_64
      unat_word_ariths reserve_def split: reserve_outcome.splits option.splits if_splits)

lemma buffer_append_error: "buffer_append b r = AppendDone b' (Inl e) \<Longrightarrow> b' = b"
  by (auto simp: buffer_append_def append_bytes_def Let_def split: reserve_outcome.splits option.splits)

text \<open>The borrowed path is \<^verbatim>\<open>WalRecord::new\<close> followed by \<^verbatim>\<open>append\<close>.\<close>

lemma append_borrowed_eq:
  "append_borrowed crc b t x prev flags payload =
     (case wal_record_new crc t x prev flags payload of
        Inl e \<Rightarrow> AppendDone b (Inl (BRecord e)) | Inr r \<Rightarrow> buffer_append b r)"
proof -
  have "append_encoded_to \<lparr>wr_header = h, wr_payload = payload\<rparr> = append_encoded_parts_to h payload" for h
    by (simp add: append_encoded_to_def fun_eq_iff)
  then show ?thesis
    by (simp add: append_borrowed_def wal_record_new_def buffer_append_def split: sum.split)
qed

text \<open>The probe header differs from the final one in the link and the checksum only.\<close>

lemma build_header_link:
  "build_header crc t x prev flags payload =
     map_sum id (\<lambda>h. (h\<lparr>wh_prev_lsn := prev, wh_crc := compute_record_crc crc (h\<lparr>wh_prev_lsn := prev, wh_crc := 0\<rparr>) payload\<rparr>))
       (build_header crc t x prev' flags payload)"
  by (simp add: build_header_def Let_def)

lemma append_borrowed_linked_eq:
  "append_borrowed_linked crc b t x flags payload link =
     (let out = append_borrowed crc b t x link flags payload in
      (out, case out of AppendDone _ (Inr l) \<Rightarrow> l | _ \<Rightarrow> link))"
proof (cases "build_header crc t x Lsn_ZERO flags payload")
  case (Inr h)
  have "build_header crc t x link flags payload
      = Inr (h\<lparr>wh_prev_lsn := link, wh_crc := compute_record_crc crc (h\<lparr>wh_prev_lsn := link, wh_crc := 0\<rparr>) payload\<rparr>)"
    using build_header_link [of crc t x link flags payload Lsn_ZERO] Inr by simp
  with Inr show ?thesis
    by (simp add: append_borrowed_linked_def append_borrowed_def append_bytes_def Let_def split: reserve_outcome.split option.split)
qed (use build_header_link [of crc t x link flags payload Lsn_ZERO] in
    \<open>simp add: append_borrowed_linked_def append_borrowed_def\<close>)

lemma drain_into_ok:
  assumes "length (wb_bytes b) \<le> unat (wb_next_lsn b)"
  shows "drain_into b = (b\<lparr>wb_bytes := []\<rparr>, wb_bytes b, Inr (wb_next_lsn b - of_nat (length (wb_bytes b)), wb_next_lsn b))"
  using assms unat_less_pow [of "wb_next_lsn b"] by (simp add: drain_into_def Let_def)

end
