(* ===== verification/Wal_Writer.thy ===== *)
theory Wal_Writer
  imports Wal_Buffer
begin

text \<open>
  The log writer, \<^verbatim>\<open>crates/ultrasql-wal/src/writer.rs\<close>: opening the directory, the driver's loop
  (drain, write with rotation on record boundaries, group fsync, publication of the durable position,
  shutdown) and the wait for durability. The system state joins the log directory, the append buffer,
  the driver's fields and the state the driver shares with waiters. One iteration of a loop is a
  function of its own, so that a crash can be placed between any two of them. Whether the
  group-commit window has elapsed is an input; statistics and the test-only freeze are left out.
\<close>

section \<open>State\<close>

datatype wal_writer_error =
  WIo string
| WEncode wal_record_error
| WBuffer wal_buffer_error
| WSegmentIndexExhausted
| WCounterOverflow string
| WRepair recovery_error

record wal_writer_config =
  wc_segment_size_bytes :: u64
  wc_fsync_batch_bytes :: nat

datatype wal_durability_wait = Durable | Fatal | TimedOut

record wake_state =
  wk_stopping :: bool
  wk_force_fsync :: bool
  wk_epoch :: u64

record writer_driver =
  dr_current_index :: u32
  dr_current_file :: "string option"
  dr_current_size :: u64
  dr_unflushed_bytes :: nat
  dr_pending_lsn :: lsn
  dr_durable_lsn :: lsn

record wal_system =
  sy_dir :: wal_dir
  sy_buffer :: wal_buffer
  sy_driver :: writer_driver
  sy_wake :: wake_state
  sy_durable_lsn :: lsn
  sy_fatal :: bool

section \<open>Waiters\<close>

definition take_force_fsync_if_work_pending :: "wake_state \<Rightarrow> bool \<Rightarrow> wake_state \<times> bool" where
  "take_force_fsync_if_work_pending w work_pending =
     (if wk_force_fsync w \<and> work_pending then w\<lparr>wk_force_fsync := False\<rparr> else w, wk_force_fsync w)"

definition request_fsync :: "wal_system \<Rightarrow> wal_system" where
  "request_fsync s = s\<lparr>sy_wake := (sy_wake s)\<lparr>wk_force_fsync := True, wk_epoch := wk_epoch (sy_wake s) + 1\<rparr>\<rparr>"

definition request_drain :: "wal_system \<Rightarrow> wal_system" where
  "request_drain s = s\<lparr>sy_wake := (sy_wake s)\<lparr>wk_epoch := wk_epoch (sy_wake s) + 1\<rparr>\<rparr>"

definition signal_stop :: "wal_system \<Rightarrow> wal_system" where
  "signal_stop s = s\<lparr>sy_wake := (sy_wake s)\<lparr>wk_stopping := True, wk_epoch := wk_epoch (sy_wake s) + 1\<rparr>\<rparr>"

definition publish_durable_lsn :: "wal_system \<Rightarrow> lsn \<Rightarrow> wal_system" where
  "publish_durable_lsn s l = s\<lparr>sy_durable_lsn := l\<rparr>"

definition publish_fatal :: "wal_system \<Rightarrow> wal_system" where
  "publish_fatal s = s\<lparr>sy_fatal := True\<rparr>"

text \<open>One pass of the waiting loop; no outcome means the waiter asks for an fsync and sleeps.\<close>

definition wait_for_record_durable ::
  "wal_system \<Rightarrow> lsn \<Rightarrow> bool \<Rightarrow> wal_system \<times> wal_durability_wait option" where
  "wait_for_record_durable s record_start timed_out =
     (if record_start < sy_durable_lsn s then (s, Some Durable)
      else if sy_fatal s then (s, Some Fatal)
      else if timed_out then (s, Some TimedOut)
      else (request_fsync s, None))"

section \<open>Writing\<close>

definition saturating_sub :: "'a::len word \<Rightarrow> 'a word \<Rightarrow> 'a word" where
  "saturating_sub a b = (if b \<le> a then a - b else 0)"

definition checked_writer_u64_add :: "u64 \<Rightarrow> u64 \<Rightarrow> string \<Rightarrow> wal_writer_error + u64" where
  "checked_writer_u64_add a b counter = ok_or (checked_add a b) (WCounterOverflow counter)"

definition checked_writer_usize_add :: "nat \<Rightarrow> nat \<Rightarrow> string \<Rightarrow> wal_writer_error + nat" where
  "checked_writer_usize_add a b counter = (if a + b < 2 ^ 64 then Inr (a + b) else Inl (WCounterOverflow counter))"

definition peek_record_length :: "bytes \<Rightarrow> wal_writer_error + u64" where
  "peek_record_length bytes =
     (if length bytes < 4 then Inl (WIo ''wal drain produced fewer than 4 bytes; corrupt buffer state'')
      else
        let total = word_from_le (take 4 bytes) :: u32 in
        if unat total < RECORD_HEADER_SIZE then Inl (WEncode (Malformed ''total_length too small''))
        else Inr (ucast total))"

text \<open>The segment file is created anew; a file of that name is an error.\<close>

definition open_segment_file :: "wal_dir \<Rightarrow> string \<Rightarrow> wal_writer_error + wal_dir" where
  "open_segment_file d path = (if map_of d path \<noteq> None then Inl (WIo path) else Inr (create_file path d))"

definition ensure_segment_open :: "wal_system \<Rightarrow> wal_system \<times> (wal_writer_error + unit)" where
  "ensure_segment_open s =
     (let dr = sy_driver s in
      if dr_current_file dr \<noteq> None then (s, Inr ())
      else
        let path = segment_path (dr_current_index dr) in
        (case open_segment_file (sy_dir s) path of
           Inl e \<Rightarrow> (s, Inl e)
         | Inr d \<Rightarrow>
             (s\<lparr>sy_dir := d,
                sy_driver := dr\<lparr>dr_current_file := Some path,
                  dr_current_size := of_nat (case map_of d path of None \<Rightarrow> 0 | Some f \<Rightarrow> length (df_content f))\<rparr>\<rparr>, Inr ())))"

definition flush_current :: "wal_system \<Rightarrow> wal_system" where
  "flush_current s =
     (let s = (case dr_current_file (sy_driver s) of None \<Rightarrow> s | Some path \<Rightarrow> s\<lparr>sy_dir := sync_file path (sy_dir s)\<rparr>);
          dr = (sy_driver s)\<lparr>dr_unflushed_bytes := 0, dr_durable_lsn := dr_pending_lsn (sy_driver s)\<rparr>;
          s = s\<lparr>sy_driver := dr, sy_buffer := buffer_publish_durable_lsn (sy_buffer s) (dr_durable_lsn dr)\<rparr>
      in publish_durable_lsn s (dr_durable_lsn dr))"

definition rotate_segment :: "wal_system \<Rightarrow> wal_system \<times> (wal_writer_error + unit)" where
  "rotate_segment s =
     (let s = (if 0 < dr_unflushed_bytes (sy_driver s) then flush_current s else s);
          dr = (sy_driver s)\<lparr>dr_current_file := None\<rparr> in
      (case checked_add (dr_current_index dr) 1 of
         None \<Rightarrow> (s\<lparr>sy_driver := dr\<rparr>, Inl WSegmentIndexExhausted)
       | Some index \<Rightarrow> (s\<lparr>sy_driver := dr\<lparr>dr_current_index := index, dr_current_size := 0\<rparr>\<rparr>, Inr ())))"

text \<open>One iteration of the loop in \<^verbatim>\<open>write_drained\<close>: a rotation, or the write of one record.\<close>

definition write_chunk :: "bytes \<Rightarrow> nat \<Rightarrow> u64 \<Rightarrow> wal_system \<Rightarrow> wal_system \<times> (wal_writer_error + nat)" where
  "write_chunk bytes cursor record_len s =
     (let dr = sy_driver s in
      case checked_writer_usize_add cursor (unat record_len) ''drain cursor'' of
        Inl e \<Rightarrow> (s, Inl e)
      | Inr next_cursor \<Rightarrow>
          if length bytes < next_cursor then (s, Inl (WIo ''wal drain ended before record length''))
          else
            let chunk = slice cursor next_cursor bytes in
            (case checked_writer_u64_add (dr_current_size dr) record_len ''segment size'' of
               Inl e \<Rightarrow> (s, Inl e)
             | Inr next_current_size \<Rightarrow>
                 (case checked_writer_usize_add (dr_unflushed_bytes dr) (length chunk) ''unflushed bytes'' of
                    Inl e \<Rightarrow> (s, Inl e)
                  | Inr next_unflushed_bytes \<Rightarrow>
                      (case dr_current_file dr of
                         None \<Rightarrow> (s, Inl (WIo ''segment file unexpectedly closed''))
                       | Some path \<Rightarrow>
                           (s\<lparr>sy_dir := append_file path chunk (sy_dir s),
                              sy_driver := dr\<lparr>dr_current_size := next_current_size,
                                dr_unflushed_bytes := next_unflushed_bytes\<rparr>\<rparr>, Inr next_cursor)))))"

definition write_step ::
  "wal_writer_config \<Rightarrow> bytes \<Rightarrow> nat \<Rightarrow> wal_system \<Rightarrow> wal_system \<times> (wal_writer_error + nat)" where
  "write_step cfg bytes cursor s =
     (case peek_record_length (drop cursor bytes) of
        Inl e \<Rightarrow> (s, Inl e)
      | Inr record_len \<Rightarrow>
          (case ensure_segment_open s of
             (s1, Inl e) \<Rightarrow> (s1, Inl e)
           | (s1, Inr _) \<Rightarrow>
               let remaining_capacity = saturating_sub (wc_segment_size_bytes cfg) (dr_current_size (sy_driver s1)) in
               if remaining_capacity < record_len \<and> 0 < dr_current_size (sy_driver s1)
               then (case rotate_segment s1 of (s2, Inl e) \<Rightarrow> (s2, Inl e) | (s2, Inr _) \<Rightarrow> (s2, Inr cursor))
               else write_chunk bytes cursor record_len s1))"

lemma peek_record_length_pos: "peek_record_length b = Inr n \<Longrightarrow> 0 < unat n"
  by (auto simp: peek_record_length_def Let_def unat_ucast_32_64 split: if_splits)

lemma rotate_segment_size: "rotate_segment s = (s', Inr u) \<Longrightarrow> dr_current_size (sy_driver s') = 0"
  by (auto simp: rotate_segment_def Let_def split: option.splits)

lemma write_chunk_cursor:
  "write_chunk bytes cursor n s = (s', Inr cursor') \<Longrightarrow> cursor' = cursor + unat n \<and> cursor' \<le> length bytes"
  by (auto simp: write_chunk_def checked_writer_usize_add_def Let_def split: sum.splits if_splits option.splits)

lemma ensure_segment_open_size:
  "ensure_segment_open s = (s', Inr u) \<Longrightarrow> dr_current_size (sy_driver s') = dr_current_size (sy_driver s) \<or> dr_current_size (sy_driver s') = 0"
  by (auto simp: ensure_segment_open_def open_segment_file_def Let_def map_of_ops split: sum.splits if_splits)

lemma write_step_progress:
  assumes "write_step cfg bytes cursor s = (s', Inr cursor')"
  shows "cursor < cursor' \<and> cursor' \<le> length bytes
    \<or> cursor' = cursor \<and> unat (dr_current_size (sy_driver s')) < unat (dr_current_size (sy_driver s))"
proof -
  from assms obtain n s1 u where n: "peek_record_length (drop cursor bytes) = Inr n" and s1: "ensure_segment_open s = (s1, Inr u)"
    and "0 < dr_current_size (sy_driver s1) \<and> rotate_segment s1 = (s', Inr ()) \<and> cursor' = cursor
      \<or> write_chunk bytes cursor n s1 = (s', Inr cursor')"
    by (auto simp: write_step_def Let_def split: sum.splits prod.splits if_splits)
  then show ?thesis
    using peek_record_length_pos [OF n] ensure_segment_open_size [OF s1] rotate_segment_size [of s1 s'] write_chunk_cursor [of bytes cursor n s1 s' cursor']
    by (auto simp: word_less_nat_alt)
qed

function write_loop ::
  "wal_writer_config \<Rightarrow> bytes \<Rightarrow> nat \<Rightarrow> wal_system \<Rightarrow> wal_system \<times> (wal_writer_error + unit)" where
  "write_loop cfg bytes cursor s =
     (if cursor < length bytes then
        (case write_step cfg bytes cursor s of
           (s', Inl e) \<Rightarrow> (s', Inl e)
         | (s', Inr cursor') \<Rightarrow> write_loop cfg bytes cursor' s')
      else (s, Inr ()))"
  by pat_completeness auto
termination
  by (relation "measures [\<lambda>(cfg, bytes, cursor, s). length bytes - cursor,
        \<lambda>(cfg, bytes, cursor, s). unat (dr_current_size (sy_driver s))]")
    (auto dest!: sym [THEN write_step_progress])

declare write_loop.simps [simp del]

definition write_drained ::
  "wal_writer_config \<Rightarrow> bytes \<Rightarrow> lsn \<Rightarrow> wal_system \<Rightarrow> wal_system \<times> (wal_writer_error + unit)" where
  "write_drained cfg bytes end_lsn s =
     (case write_loop cfg bytes 0 s of
        (s', Inl e) \<Rightarrow> (s', Inl e)
      | (s', Inr _) \<Rightarrow> (s'\<lparr>sy_driver := (sy_driver s')\<lparr>dr_pending_lsn := end_lsn\<rparr>\<rparr>, Inr ()))"

section \<open>The driver's loop\<close>

definition drain_and_write :: "wal_writer_config \<Rightarrow> wal_system \<Rightarrow> wal_system \<times> (wal_writer_error + unit)" where
  "drain_and_write cfg s =
     (case drain_into (sy_buffer s) of
        (b, bytes, Inl e) \<Rightarrow> (s\<lparr>sy_buffer := b\<rparr>, Inl (WBuffer e))
      | (b, bytes, Inr (start_lsn, end_lsn)) \<Rightarrow>
          if bytes \<noteq> [] then write_drained cfg bytes end_lsn (s\<lparr>sy_buffer := b\<rparr>)
          else (s\<lparr>sy_buffer := b\<rparr>, Inr ()))"

text \<open>One iteration of \<^verbatim>\<open>run\<close>: \<open>True\<close> when it returns, after a stop request.\<close>

definition run_iteration ::
  "wal_writer_config \<Rightarrow> bool \<Rightarrow> wal_system \<Rightarrow> wal_system \<times> (wal_writer_error + bool)" where
  "run_iteration cfg window_elapsed s =
     (case drain_and_write cfg s of
        (s, Inl e) \<Rightarrow> (s, Inl e)
      | (s, Inr _) \<Rightarrow>
          let (w, force_fsync) = take_force_fsync_if_work_pending (sy_wake s) (0 < dr_unflushed_bytes (sy_driver s));
              stopping = wk_stopping w;
              s = s\<lparr>sy_wake := w\<rparr>;
              need_fsync = (0 < dr_unflushed_bytes (sy_driver s)
                \<and> (force_fsync \<or> stopping \<or> wc_fsync_batch_bytes cfg \<le> dr_unflushed_bytes (sy_driver s) \<or> window_elapsed));
              s = (if need_fsync then flush_current s else s) in
          if stopping then
            (case drain_and_write cfg (s\<lparr>sy_buffer := close_appends (sy_buffer s)\<rparr>) of
               (s, Inl e) \<Rightarrow> (s, Inl e)
             | (s, Inr _) \<Rightarrow> (if 0 < dr_unflushed_bytes (sy_driver s) then flush_current s else s, Inr True))
          else (s, Inr False))"

text \<open>When the thread ends on an error it publishes that before it releases parked appenders.\<close>

definition thread_failed :: "wal_system \<Rightarrow> wal_system" where
  "thread_failed s = (publish_fatal s)\<lparr>sy_buffer := close_appends (sy_buffer s)\<rparr>"

section \<open>Opening\<close>

definition next_segment_index :: "wal_dir \<Rightarrow> wal_writer_error + u32" where
  "next_segment_index d =
     (let segs = list_segments d in
      if segs = [] then Inr 0 else ok_or (checked_add (fst (last segs)) 1) WSegmentIndexExhausted)"

definition driver_new :: "wal_buffer \<Rightarrow> u32 \<Rightarrow> writer_driver" where
  "driver_new b first_index =
     \<lparr>dr_current_index = first_index, dr_current_file = None, dr_current_size = 0, dr_unflushed_bytes = 0,
      dr_pending_lsn = wb_durable_lsn b, dr_durable_lsn = wb_durable_lsn b\<rparr>"

definition writer_open :: "crc_append \<Rightarrow> nat \<Rightarrow> wal_dir \<Rightarrow> wal_buffer \<Rightarrow> wal_writer_error + wal_system" where
  "writer_open crc limit d b =
     (case repair_final_segment_tail crc limit d of
        Inl e \<Rightarrow> Inl (WRepair e)
      | Inr (d, trimmed) \<Rightarrow>
          rbind (next_segment_index d) (\<lambda>next_index.
          Inr \<lparr>sy_dir = d, sy_buffer = set_drainer b, sy_driver = driver_new b next_index,
               sy_wake = \<lparr>wk_stopping = False, wk_force_fsync = False, wk_epoch = 0\<rparr>,
               sy_durable_lsn = wb_durable_lsn b, sy_fatal = False\<rparr>))"

end
