(* ===== verification/Wal_Durability.thy ===== *)
theory Wal_Durability
  imports Wal_Writer "HOL-Library.Sublist"
begin

text \<open>
  Durability of the log, from the append buffer through the writer, a crash and recovery. The relation
  \<open>wal_step\<close> interleaves appenders with the writer thread at the grain at which a crash can fall
  between them: one append, one drain, one iteration of the write loop, one fsync. The invariant says
  how the records appended so far are spread over the segments, the batch being written and the
  buffer, and how much of them is synced. A crash at any point leaves a directory that holds the old
  records and a prefix of the new ones, and the prefix covers the published durable position.
\<close>

section \<open>Steps\<close>

datatype phase = Idle | Writing bytes nat lsn | Stopped

inductive wal_step ::
  "crc_append \<Rightarrow> wal_writer_config \<Rightarrow> wal_system \<times> phase \<times> wal_record list \<Rightarrow> wal_system \<times> phase \<times> wal_record list \<Rightarrow> bool"
  for crc cfg where
  step_append: "well_formed crc r \<Longrightarrow> buffer_append (sy_buffer s) r = AppendDone b (Inr l) \<Longrightarrow>
    wal_step crc cfg (s, p, log) (s\<lparr>sy_buffer := b\<rparr>, p, log @ [r])"
| step_drain: "drain_into (sy_buffer s) = (b, bytes, Inr (start_lsn, end_lsn)) \<Longrightarrow>
    wal_step crc cfg (s, Idle, log) (s\<lparr>sy_buffer := b\<rparr>, if bytes = [] then Idle else Writing bytes 0 end_lsn, log)"
| step_write: "cursor < length bytes \<Longrightarrow> write_step cfg bytes cursor s = (s', Inr cursor') \<Longrightarrow>
    wal_step crc cfg (s, Writing bytes cursor end_lsn, log) (s', Writing bytes cursor' end_lsn, log)"
| step_write_failed: "cursor < length bytes \<Longrightarrow> write_step cfg bytes cursor s = (s', Inl e) \<Longrightarrow>
    wal_step crc cfg (s, Writing bytes cursor end_lsn, log) (thread_failed s', Stopped, log)"
| step_written: "\<not> cursor < length bytes \<Longrightarrow>
    wal_step crc cfg (s, Writing bytes cursor end_lsn, log) (s\<lparr>sy_driver := (sy_driver s)\<lparr>dr_pending_lsn := end_lsn\<rparr>\<rparr>, Idle, log)"
| step_flush: "0 < dr_unflushed_bytes (sy_driver s) \<Longrightarrow> wal_step crc cfg (s, Idle, log) (flush_current s, Idle, log)"
| step_wake: "wal_step crc cfg (s, p, log) (s\<lparr>sy_wake := w\<rparr>, p, log)"
| step_close: "wal_step crc cfg (s, p, log) (s\<lparr>sy_buffer := close_appends (sy_buffer s)\<rparr>, p, log)"

section \<open>Synced bytes\<close>

definition seg_synced :: "wal_dir \<Rightarrow> u32 \<Rightarrow> nat" where
  "seg_synced d i = (case map_of d (segment_path i) of None \<Rightarrow> 0 | Some f \<Rightarrow> df_synced f)"

definition seg_full :: "wal_dir \<Rightarrow> u32 \<Rightarrow> bool" where
  "seg_full d i \<longleftrightarrow> seg_synced d i = length (seg_bytes d i)"

definition settled :: "wal_dir \<Rightarrow> bool" where
  "settled d \<longleftrightarrow> list_all (\<lambda>(n, f). df_synced f = length (df_content f)) d"

lemma seg_synced_ops [simp]:
  "seg_synced (append_file n bs d) j = seg_synced d j"
  "seg_synced (sync_file (segment_path i) d) j = (if j = i then length (seg_bytes d i) else seg_synced d j)"
  "seg_synced (create_file (segment_path i) d) j = (if j = i then 0 else seg_synced d j)"
  by (auto simp: seg_synced_def seg_bytes_def map_of_ops split: option.splits)

definition manifest_synced :: "wal_dir \<Rightarrow> bool" where
  "manifest_synced d \<longleftrightarrow> (case map_of d MANIFEST_FILE of None \<Rightarrow> True | Some f \<Rightarrow> df_synced f = length (df_content f))"

lemma manifest_synced_ops [simp]:
  "manifest_synced (append_file (segment_path i) bs d) = manifest_synced d"
  "manifest_synced (sync_file (segment_path i) d) = manifest_synced d"
  "manifest_synced (create_file (segment_path i) d) = manifest_synced d"
  by (simp_all add: manifest_synced_def map_of_ops)

lemma settled_manifest: "settled d \<Longrightarrow> manifest_synced d"
  by (auto simp: settled_def manifest_synced_def list_all_iff split: option.splits dest: map_of_SomeD)

lemma settled_full: "settled d \<Longrightarrow> seg_full d i"
  by (auto simp: settled_def seg_full_def seg_synced_def seg_bytes_def list_all_iff split: option.splits dest: map_of_SomeD)

lemma crash_seg:
  assumes "crash_dir d d'"
  obtains k where "seg_synced d i \<le> k" "seg_bytes d' i = take k (seg_bytes d i)"
  using crash_dir_map_of [OF assms, of "segment_path i"] that
  by (auto simp: seg_synced_def seg_bytes_def crash_file_def elim!: option.rel_cases)

lemma crash_full: "crash_dir d d' \<Longrightarrow> seg_full d i \<Longrightarrow> seg_bytes d' i = seg_bytes d i"
  by (erule crash_seg [of d d' i]) (simp add: seg_full_def)

lemma crash_settled: "crash_dir d d' \<Longrightarrow> settled d'"
  unfolding crash_dir_def settled_def by (induction rule: list_all2_induct) (auto simp: crash_file_def)

lemma sorted_list_of_set_snoc:
  assumes "finite A" "\<And>x. x \<in> A \<Longrightarrow> x < m"
  shows "sorted_list_of_set (insert m A) = sorted_list_of_set A @ [m]"
proof (rule sorted_distinct_set_unique)
  show "sorted (sorted_list_of_set A @ [m])" using assms by (auto simp: sorted_append less_imp_le)
  show "distinct (sorted_list_of_set A @ [m])" using assms by auto
qed (use assms in \<open>auto simp del: sorted_list_of_set_insert_remove\<close>)

lemma sorted_le_last: "sorted xs \<Longrightarrow> x \<in> set xs \<Longrightarrow> x \<le> last xs"
  by (induction xs) auto

lemma live_create:
  assumes "\<And>i. i \<in> seg_set d \<Longrightarrow> i < m" "fl_segment_index fl \<le> m"
  shows "live (create_file (segment_path m) d) fl = live d fl @ [m]"
  using assms by (simp add: live_def sorted_list_of_set_snoc del: sorted_list_of_set_insert_remove)

lemma sorted_live: "sorted (live d fl)"
  unfolding live_def using sorted_filter [of id] by (metis map_idI id_apply sorted_sorted_list_of_set)

lemma set_live: "set (live d fl) = {i \<in> seg_set d. fl_segment_index fl \<le> i}"
  by (auto simp: live_def)

section \<open>The invariant\<close>

text \<open>
  \<open>new\<close> are the records of the segments this writer has opened, \<open>P\<close> the records below the pending
  position and \<open>D\<close> those below the durable one.
\<close>

definition core ::
  "crc_append \<Rightarrow> nat \<Rightarrow> wal_floor \<Rightarrow> wal_record list list \<Rightarrow> nat \<Rightarrow> wal_system \<Rightarrow> wal_record list list
     \<Rightarrow> wal_record list \<Rightarrow> wal_record list \<Rightarrow> bool" where
  "core crc limit fl old base s new P D \<longleftrightarrow>
     (let d = sy_dir s in
      dir_ok d \<and> manifest_synced d \<and> read_floor crc d = Inr fl \<and> map (seg_bytes d) (live d fl) = map log_image (old @ new)
      \<and> list_all (\<lambda>rs. length (log_image rs) \<le> limit) (old @ new)
      \<and> unat (dr_pending_lsn (sy_driver s)) = base + length (log_image P)
      \<and> unat (dr_durable_lsn (sy_driver s)) = base + length (log_image D)
      \<and> sy_durable_lsn s = dr_durable_lsn (sy_driver s) \<and> wb_durable_lsn (sy_buffer s) = dr_durable_lsn (sy_driver s)
      \<and> prefix D P \<and> prefix P (concat new)
      \<and> (\<forall>i \<in> set (butlast (live d fl)). seg_full d i) \<and> (new = [] \<longrightarrow> (\<forall>i \<in> set (live d fl). seg_full d i))
      \<and> length (log_image D) \<le> length (log_image (concat (butlast new))) + (if new = [] then 0 else seg_synced d (last (live d fl))))"

definition driver_ok :: "wal_floor \<Rightarrow> wal_system \<Rightarrow> wal_record list list \<Rightarrow> bool" where
  "driver_ok fl s new \<longleftrightarrow>
     (let d = sy_dir s; dr = sy_driver s; i = dr_current_index dr in
      fl_segment_index fl \<le> i \<and>
      (case dr_current_file dr of
         None \<Rightarrow> dr_current_size dr = 0 \<and> dr_unflushed_bytes dr = 0 \<and> (\<forall>j \<in> seg_set d. j < i)
           \<and> (\<forall>j \<in> set (live d fl). seg_full d j)
       | Some path \<Rightarrow> new \<noteq> [] \<and> path = segment_path i \<and> i \<in> seg_set d \<and> (\<forall>j \<in> seg_set d. j \<le> i)
           \<and> unat (dr_current_size dr) = length (log_image (last new))
           \<and> seg_synced d i + dr_unflushed_bytes dr = length (seg_bytes d i)))"

lemma last_live:
  assumes "i \<in> seg_set d" "\<forall>j \<in> seg_set d. j \<le> i" "fl_segment_index fl \<le> i"
  obtains ix where "live d fl = ix @ [i]" "i \<notin> set ix"
proof -
  have i: "i \<in> set (live d fl)" using assms by (simp add: set_live)
  then have ne: "live d fl \<noteq> []" by auto
  then have "last (live d fl) \<le> i" using assms(2) last_in_set [OF ne] by (simp add: set_live)
  moreover have "i \<le> last (live d fl)"
    by (rule sorted_le_last [OF sorted_live i])
  ultimately have "live d fl = butlast (live d fl) @ [i]" using ne by (metis append_butlast_last_id order_antisym)
  moreover from this have "i \<notin> set (butlast (live d fl))" using distinct_live [of d fl] by (metis distinct_append disjoint_iff list.set_intros(1))
  ultimately show ?thesis by (rule that)
qed

section \<open>The driver keeps the invariant\<close>

lemma driver_ok_Some:
  assumes "core crc limit fl old base s new P D" "driver_ok fl s new" "dr_current_file (sy_driver s) = Some path"
  obtains ix where "live (sy_dir s) fl = ix @ [dr_current_index (sy_driver s)]" "dr_current_index (sy_driver s) \<notin> set ix"
    "map (seg_bytes (sy_dir s)) ix = map log_image (old @ butlast new)"
    "seg_bytes (sy_dir s) (dr_current_index (sy_driver s)) = log_image (last new)" "new \<noteq> []"
    "path = segment_path (dr_current_index (sy_driver s))"
proof -
  let ?i = "dr_current_index (sy_driver s)"
  have i: "?i \<in> seg_set (sy_dir s)" "\<forall>j \<in> seg_set (sy_dir s). j \<le> ?i" "fl_segment_index fl \<le> ?i" and new: "new \<noteq> []"
    and path: "path = segment_path ?i"
    using assms(2,3) by (auto simp: driver_ok_def Let_def)
  obtain ix where ix: "live (sy_dir s) fl = ix @ [?i]" "?i \<notin> set ix" using last_live [OF i] .
  obtain nb nl where nl: "new = nb @ [nl]" using new by (cases new rule: rev_cases) auto
  have "map (seg_bytes (sy_dir s)) (ix @ [?i]) = map log_image (old @ nb @ [nl])"
    using assms(1) unfolding core_def Let_def ix(1) nl by blast
  then have "map (seg_bytes (sy_dir s)) ix = map log_image (old @ nb)" "seg_bytes (sy_dir s) ?i = log_image nl"
    by (simp_all flip: append_assoc)
  with that ix path show ?thesis by (simp add: nl)
qed

lemma core_last:
  assumes "core crc limit fl old base s new P D" "new \<noteq> []"
  shows "last (live (sy_dir s) fl) \<in> set (live (sy_dir s) fl)" "seg_bytes (sy_dir s) (last (live (sy_dir s) fl)) = log_image (last new)"
proof -
  have m: "map (seg_bytes (sy_dir s)) (live (sy_dir s) fl) = map log_image (old @ new)"
    using assms(1) unfolding core_def Let_def by blast
  with assms(2) have ne: "live (sy_dir s) fl \<noteq> []" by auto
  then show "last (live (sy_dir s) fl) \<in> set (live (sy_dir s) fl)" by simp
  have "seg_bytes (sy_dir s) (last (live (sy_dir s) fl)) = last (map log_image (old @ new))"
    unfolding m [symmetric] by (rule last_map [OF ne, symmetric])
  then show "seg_bytes (sy_dir s) (last (live (sy_dir s) fl)) = log_image (last new)"
    using assms(2) by (simp add: last_map)
qed

lemma ensure_open_core:
  assumes core: "core crc limit fl old base s new P D" and ok: "driver_ok fl s new"
  obtains new' s' where "ensure_segment_open s = (s', Inr ())" "core crc limit fl old base s' new' P D" "driver_ok fl s' new'"
    "concat new' = concat new" "dr_current_file (sy_driver s') \<noteq> None" "sy_buffer s' = sy_buffer s"
    "dr_pending_lsn (sy_driver s') = dr_pending_lsn (sy_driver s)"
proof (cases "dr_current_file (sy_driver s)")
  case (Some path)
  then have "ensure_segment_open s = (s, Inr ())" by (simp add: ensure_segment_open_def Let_def)
  with that core ok Some show ?thesis by auto
next
  case None
  let ?i = "dr_current_index (sy_driver s)" and ?d = "sy_dir s"
  let ?d' = "create_file (segment_path ?i) ?d"
  let ?s = "s\<lparr>sy_dir := ?d', sy_driver := (sy_driver s)\<lparr>dr_current_file := Some (segment_path ?i), dr_current_size := 0\<rparr>\<rparr>"
  have i: "\<And>j. j \<in> seg_set ?d \<Longrightarrow> j < ?i" "fl_segment_index fl \<le> ?i" and full: "\<forall>j \<in> set (live ?d fl). seg_full ?d j"
    and un: "dr_unflushed_bytes (sy_driver s) = 0"
    using ok None by (auto simp: driver_ok_def Let_def)
  have ni: "?i \<notin> set (live ?d fl)" using i(1) by (auto simp: set_live)
  have live: "live ?d' fl = live ?d fl @ [?i]" by (rule live_create) (use i in auto)
  have "map_of ?d (segment_path ?i) = None" using i(1) seg_set_map_of by blast
  then have op: "ensure_segment_open s = (?s, Inr ())"
    using None by (simp add: ensure_segment_open_def open_segment_file_def Let_def map_of_ops)
  have full': "\<forall>j \<in> set (live ?d fl). seg_full ?d' j" using full ni by (auto simp: seg_full_def)
  have len: "length (log_image D) \<le> length (log_image (concat new))"
    using core by (auto simp: core_def Let_def prefix_def)
  have "core crc limit fl old base ?s (new @ [[]]) P D"
    using core ni full' len dir_ok_create by (auto simp: core_def Let_def live)
  moreover have "driver_ok fl ?s (new @ [[]])"
    using i un by (auto simp: driver_ok_def Let_def less_imp_le)
  ultimately show ?thesis using that [of ?s "new @ [[]]"] op by simp
qed

lemma flush_core:
  assumes core: "core crc limit fl old base s new P D" and ok: "driver_ok fl s new"
  shows "core crc limit fl old base (flush_current s) new P P" "driver_ok fl (flush_current s) new"
    "dr_unflushed_bytes (sy_driver (flush_current s)) = 0"
proof -
  let ?i = "dr_current_index (sy_driver s)" and ?d = "sy_dir s"
  have pre: "prefix P (concat new)" using core by (simp add: core_def Let_def)
  then have len: "length (log_image P) \<le> length (log_image (concat new))" by (auto simp: prefix_def)
  show "dr_unflushed_bytes (sy_driver (flush_current s)) = 0"
    by (simp add: flush_current_def publish_durable_lsn_def Let_def split: option.split)
  have "core crc limit fl old base (flush_current s) new P P \<and> driver_ok fl (flush_current s) new"
  proof (cases "dr_current_file (sy_driver s)")
    case None
    have "new \<noteq> [] \<Longrightarrow> seg_full ?d (last (live ?d fl)) \<and> seg_bytes ?d (last (live ?d fl)) = log_image (last new)"
      using ok None core_last [OF core] by (auto simp: driver_ok_def Let_def)
    then have "new \<noteq> [] \<Longrightarrow> length (log_image (concat new)) = length (log_image (concat (butlast new))) + seg_synced ?d (last (live ?d fl))"
      by (cases new rule: rev_cases) (auto simp: seg_full_def)
    with None core ok len pre show ?thesis
      by (auto simp: flush_current_def publish_durable_lsn_def buffer_publish_durable_lsn_def core_def driver_ok_def Let_def)
  next
    case (Some path)
    from driver_ok_Some [OF core ok Some] obtain ix where ix: "live ?d fl = ix @ [?i]" "?i \<notin> set ix"
      "map (seg_bytes ?d) ix = map log_image (old @ butlast new)" "seg_bytes ?d ?i = log_image (last new)" "new \<noteq> []"
      "path = segment_path ?i" by metis
    have "length (log_image (concat new)) = length (log_image (concat (butlast new))) + length (log_image (last new))"
      using ix(5) by (cases new rule: rev_cases) auto
    with Some ix core ok len pre show ?thesis
      by (auto simp: flush_current_def publish_durable_lsn_def buffer_publish_durable_lsn_def core_def driver_ok_def Let_def seg_full_def)
  qed
  then show "core crc limit fl old base (flush_current s) new P P" "driver_ok fl (flush_current s) new" by simp_all
qed

lemma flush_buffer [simp]:
  "wb_bytes (sy_buffer (flush_current s)) = wb_bytes (sy_buffer s)"
  "wb_next_lsn (sy_buffer (flush_current s)) = wb_next_lsn (sy_buffer s)"
  "wb_closed (sy_buffer (flush_current s)) = wb_closed (sy_buffer s)"
  "dr_pending_lsn (sy_driver (flush_current s)) = dr_pending_lsn (sy_driver s)"
  "dr_durable_lsn (sy_driver (flush_current s)) = dr_pending_lsn (sy_driver s)"
  "dr_current_index (sy_driver (flush_current s)) = dr_current_index (sy_driver s)"
  "dr_current_file (sy_driver (flush_current s)) = dr_current_file (sy_driver s)"
  by (simp_all add: flush_current_def publish_durable_lsn_def buffer_publish_durable_lsn_def Let_def split: option.split)

lemma rotate_core:
  assumes core: "core crc limit fl old base s new P D" and ok: "driver_ok fl s new" and opened: "dr_current_file (sy_driver s) \<noteq> None"
    and rot: "rotate_segment s = (s', r)"
  shows "\<exists>D'. prefix D D' \<and> core crc limit fl old base s' new P D'" "r = Inr u \<Longrightarrow> driver_ok fl s' new"
    "wb_bytes (sy_buffer s') = wb_bytes (sy_buffer s)" "wb_next_lsn (sy_buffer s') = wb_next_lsn (sy_buffer s)"
    "dr_pending_lsn (sy_driver s') = dr_pending_lsn (sy_driver s)"
proof -
  define s1 where "s1 = (if 0 < dr_unflushed_bytes (sy_driver s) then flush_current s else s)"
  have DP: "prefix D P" using core by (simp add: core_def Let_def)
  obtain D' where s1: "prefix D D'" "core crc limit fl old base s1 new P D'" "driver_ok fl s1 new" "dr_unflushed_bytes (sy_driver s1) = 0"
    "dr_current_file (sy_driver s1) = dr_current_file (sy_driver s)"
    using core ok DP flush_core [OF core ok] by (cases "0 < dr_unflushed_bytes (sy_driver s)") (auto simp: s1_def)
  have same: "wb_bytes (sy_buffer s1) = wb_bytes (sy_buffer s)" "wb_next_lsn (sy_buffer s1) = wb_next_lsn (sy_buffer s)"
    "dr_pending_lsn (sy_driver s1) = dr_pending_lsn (sy_driver s)" by (simp_all add: s1_def)
  let ?i = "dr_current_index (sy_driver s1)"
  have eq: "s' = s1\<lparr>sy_driver := (sy_driver s1)\<lparr>dr_current_file := None\<rparr>\<rparr> \<and> r = Inl WSegmentIndexExhausted
    \<or> unat ?i + 1 < 2 ^ 32 \<and> s' = s1\<lparr>sy_driver := (sy_driver s1)\<lparr>dr_current_file := None, dr_current_index := ?i + 1, dr_current_size := 0\<rparr>\<rparr>"
    using rot by (auto simp: rotate_segment_def Let_def checked_add_def simp flip: s1_def split: option.splits if_splits)
  have "core crc limit fl old base s' new P D'" using s1(2) eq by (auto simp: core_def Let_def)
  with s1(1) show "\<exists>D'. prefix D D' \<and> core crc limit fl old base s' new P D'" by blast
  show "wb_bytes (sy_buffer s') = wb_bytes (sy_buffer s)" "wb_next_lsn (sy_buffer s') = wb_next_lsn (sy_buffer s)"
    "dr_pending_lsn (sy_driver s') = dr_pending_lsn (sy_driver s)" using eq same by auto
  assume "r = Inr u"
  with eq have i: "unat ?i + 1 < 2 ^ 32" "s' = s1\<lparr>sy_driver := (sy_driver s1)\<lparr>dr_current_file := None, dr_current_index := ?i + 1, dr_current_size := 0\<rparr>\<rparr>" by auto
  then have lt: "j \<le> ?i \<Longrightarrow> j < ?i + 1" for j using less_plus_one_iff [of ?i j] unat_not_max [of ?i] by simp
  obtain path where path: "dr_current_file (sy_driver s1) = Some path" using opened s1(5) by auto
  from driver_ok_Some [OF s1(2,3) path] obtain ix where ix: "live (sy_dir s1) fl = ix @ [?i]" by metis
  have "seg_full (sy_dir s1) ?i" using s1(3,4) path by (auto simp: driver_ok_def Let_def seg_full_def)
  moreover have "\<forall>j \<in> set ix. seg_full (sy_dir s1) j" using s1(2) by (auto simp: core_def Let_def ix)
  ultimately show "driver_ok fl s' new"
    using s1(3,4) path lt by (auto simp: driver_ok_def Let_def i(2) ix less_imp_le dest: order_trans)
qed

lemma chunk_core:
  assumes core: "core crc limit fl old base s new P D" and ok: "driver_ok fl s new" and opened: "dr_current_file (sy_driver s) \<noteq> None"
    and chunk: "write_chunk bytes cursor n s = (s', Inr cursor')"
    and bytes: "drop cursor bytes = record_bytes r @ rest" "unat n = length (record_bytes r)"
    and fits: "length (log_image (last new)) + length (record_bytes r) \<le> limit"
  shows "\<exists>new'. concat new' = concat new @ [r] \<and> core crc limit fl old base s' new' P D \<and> driver_ok fl s' new'"
    "sy_buffer s' = sy_buffer s" "dr_pending_lsn (sy_driver s') = dr_pending_lsn (sy_driver s)"
    "cursor' = cursor + length (record_bytes r)" "drop cursor' bytes = rest"
proof -
  let ?i = "dr_current_index (sy_driver s)" and ?d = "sy_dir s" and ?dr = "sy_driver s"
  obtain path where path: "dr_current_file (sy_driver s) = Some path" using opened by auto
  from driver_ok_Some [OF core ok path] obtain ix where ix: "live ?d fl = ix @ [?i]" "?i \<notin> set ix"
    "map (seg_bytes ?d) ix = map log_image (old @ butlast new)" "seg_bytes ?d ?i = log_image (last new)" "new \<noteq> []"
    "path = segment_path ?i" by metis
  have c: "cursor' = cursor + length (record_bytes r)" using write_chunk_cursor [OF chunk] bytes(2) by simp
  have "slice cursor cursor' bytes = record_bytes r" by (simp add: slice_def bytes c)
  with chunk path have bound: "unat (dr_current_size ?dr) + unat n < 2 ^ 64"
    and s': "s' = s\<lparr>sy_dir := append_file path (record_bytes r) ?d,
      sy_driver := ?dr\<lparr>dr_current_size := dr_current_size ?dr + n, dr_unflushed_bytes := dr_unflushed_bytes ?dr + length (record_bytes r)\<rparr>\<rparr>"
    by (auto simp: write_chunk_def checked_writer_usize_add_def checked_writer_u64_add_def checked_add_def bytes(2)
        Let_def split: sum.splits if_splits option.splits)
  have size: "unat (dr_current_size ?dr + n) = unat (dr_current_size ?dr) + length (record_bytes r)"
    using bound bytes(2) by (simp add: unat_word_ariths)
  define new' where "new' = butlast new @ [last new @ [r]]"
  have new': "concat new' = concat new @ [r]" using ix(5) by (cases new rule: rev_cases) (auto simp: new'_def)
  have i: "?i \<in> seg_set ?d" using ok path by (auto simp: driver_ok_def Let_def)
  have small: "list_all (\<lambda>rs. length (log_image rs) \<le> limit) (old @ new')"
    using core fits ix(5) by (auto simp: core_def Let_def new'_def list_all_iff dest: in_set_butlastD)
  have full: "\<forall>j \<in> set ix. seg_full ?d j" using core by (auto simp: core_def Let_def ix(1))
  have "core crc limit fl old base s' new' P D"
    using core small full ix i unfolding core_def Let_def s' new'
    by (auto simp: new'_def seg_full_def prefix_append)
  moreover have "driver_ok fl s' new'"
    using ok path i ix size by (auto simp: driver_ok_def Let_def s' new'_def)
  ultimately show "\<exists>new'. concat new' = concat new @ [r] \<and> core crc limit fl old base s' new' P D \<and> driver_ok fl s' new'"
    using new' by blast
  show "sy_buffer s' = sy_buffer s" "dr_pending_lsn (sy_driver s') = dr_pending_lsn (sy_driver s)" by (simp_all add: s')
  show "cursor' = cursor + length (record_bytes r)" by (rule c)
  have "drop cursor' bytes = drop (length (record_bytes r)) (drop cursor bytes)" by (simp add: c add.commute)
  then show "drop cursor' bytes = rest" by (simp add: bytes(1))
qed

lemma peek_record:
  assumes "well_formed crc r"
  obtains n where "peek_record_length (record_bytes r @ rest) = Inr n" "unat n = length (record_bytes r)"
proof
  let ?t = "wh_total_length (wr_header r)"
  have "take 4 (record_bytes r @ rest) = word_to_le ?t" by (simp add: record_bytes_def header_bytes_def)
  moreover have "unat ?t = 28 + length (wr_payload r)" using assms by (simp add: well_formed_def)
  ultimately show "peek_record_length (record_bytes r @ rest) = Inr (ucast ?t)"
    by (simp add: peek_record_length_def length_record_bytes)
  show "unat (ucast ?t :: u64) = length (record_bytes r)"
    using assms by (simp add: unat_ucast_32_64 total_length_bytes)
qed

lemma write_chunk_error: "write_chunk bytes cursor n s = (s', Inl e) \<Longrightarrow> s' = s"
  by (auto simp: write_chunk_def Let_def split: sum.splits if_splits option.splits)

lemma fits_segment:
  assumes "\<not> (saturating_sub (wc_segment_size_bytes cfg) sz < n \<and> 0 < sz)" "unat n \<le> MAX_RECORD_BYTES" "0 < unat n"
    and "unat (wc_segment_size_bytes cfg) \<le> limit" "MAX_RECORD_BYTES \<le> limit"
  shows "unat sz + unat n \<le> limit"
proof (cases "sz = 0")
  case False
  then have "n \<le> saturating_sub (wc_segment_size_bytes cfg) sz" using assms(1) by (auto simp: word_neq_0_conv not_less)
  then have "sz \<le> wc_segment_size_bytes cfg \<and> unat sz + unat n \<le> unat (wc_segment_size_bytes cfg)"
    using assms(3) by (auto simp: saturating_sub_def word_le_nat_alt unat_sub_if' split: if_splits)
  with assms(4) show ?thesis by simp
qed (use assms in simp)

lemma write_step_core:
  assumes core: "core crc limit fl old base s new P D" and ok: "driver_ok fl s new" and wf: "well_formed crc r"
    and bytes: "drop cursor bytes = record_bytes r @ rest" and wr: "write_step cfg bytes cursor s = (s', res)"
    and lim: "unat (wc_segment_size_bytes cfg) \<le> limit" "MAX_RECORD_BYTES \<le> limit"
  obtains new' D' where "prefix D D'" "core crc limit fl old base s' new' P D'"
    "wb_bytes (sy_buffer s') = wb_bytes (sy_buffer s)" "wb_next_lsn (sy_buffer s') = wb_next_lsn (sy_buffer s)"
    "case res of Inl e \<Rightarrow> concat new' = concat new
     | Inr cursor' \<Rightarrow> driver_ok fl s' new' \<and> (cursor' = cursor \<and> concat new' = concat new
         \<or> cursor' \<le> length bytes \<and> drop cursor' bytes = rest \<and> concat new' = concat new @ [r])"
proof -
  obtain n where n: "peek_record_length (drop cursor bytes) = Inr n" "unat n = length (record_bytes r)"
    using peek_record [OF wf, of rest] by (auto simp: bytes)
  from core ok obtain new1 s1 where s1: "ensure_segment_open s = (s1, Inr ())" "core crc limit fl old base s1 new1 P D" "driver_ok fl s1 new1"
    "concat new1 = concat new" "dr_current_file (sy_driver s1) \<noteq> None" "sy_buffer s1 = sy_buffer s"
    by (rule ensure_open_core)
  let ?rot = "saturating_sub (wc_segment_size_bytes cfg) (dr_current_size (sy_driver s1)) < n \<and> 0 < dr_current_size (sy_driver s1)"
  show ?thesis
  proof (cases ?rot)
    case True
    obtain s2 r2 where rot: "rotate_segment s1 = (s2, r2)" by fastforce
    have s': "s' = s2" "res = map_sum id (\<lambda>_. cursor) r2"
      using wr True by (auto simp: write_step_def n s1(1) rot Let_def split: sum.splits)
    note rc = rotate_core [OF s1(2,3,5) rot]
    from rc(1) obtain D' where D': "prefix D D'" "core crc limit fl old base s2 new1 P D'" by blast
    show ?thesis
      using that [OF D'(1), of new1] D' rc(2-4) s1(4,6) by (cases r2) (auto simp: s')
  next
    case False
    have ch: "write_chunk bytes cursor n s1 = (s', res)" using wr False by (simp add: write_step_def n s1(1) Let_def)
    have size: "unat (dr_current_size (sy_driver s1)) = length (log_image (last new1))"
      using s1(3,5) by (auto simp: driver_ok_def Let_def)
    have "length (record_bytes r) \<le> MAX_RECORD_BYTES" using wf by (simp add: well_formed_def length_record_bytes)
    then have fits: "length (log_image (last new1)) + length (record_bytes r) \<le> limit"
      using fits_segment [OF False _ _ lim] n(2) by (simp add: size length_record_bytes)
    show ?thesis
    proof (cases res)
      case (Inl e)
      then have "s' = s1" using write_chunk_error ch by simp
      then show ?thesis using that [of D new1] s1 Inl by simp
    next
      case (Inr c)
      note cc = chunk_core [OF s1(2,3,5) ch [unfolded Inr] bytes n(2) fits]
      from cc(1) obtain new' where "concat new' = concat new1 @ [r]" "core crc limit fl old base s' new' P D" "driver_ok fl s' new'" by blast
      with that [of D new'] cc s1(4,6) write_chunk_cursor [OF ch [unfolded Inr]] show ?thesis by (simp add: Inr)
    qed
  qed
qed

section \<open>The whole system\<close>

definition phase_ok :: "nat \<Rightarrow> phase \<Rightarrow> wal_record list list \<Rightarrow> wal_record list \<Rightarrow> wal_record list \<Rightarrow> bool" where
  "phase_ok base p new F P \<longleftrightarrow>
     (case p of
        Idle \<Rightarrow> F = [] \<and> P = concat new
      | Writing bytes c end_lsn \<Rightarrow> c \<le> length bytes \<and> drop c bytes = log_image F
          \<and> unat end_lsn = base + length (log_image (concat new @ F))
      | Stopped \<Rightarrow> True)"

text \<open>
  The records appended so far, in order: written to the segments (\<open>new\<close>), drained and still to be
  written (\<open>F\<close>), buffered (\<open>B\<close>).
\<close>

definition spread ::
  "crc_append \<Rightarrow> nat \<Rightarrow> wal_floor \<Rightarrow> wal_record list list \<Rightarrow> nat \<Rightarrow> wal_system \<Rightarrow> phase \<Rightarrow> wal_record list
     \<Rightarrow> wal_record list list \<Rightarrow> wal_record list \<Rightarrow> wal_record list \<Rightarrow> wal_record list \<Rightarrow> wal_record list \<Rightarrow> bool" where
  "spread crc limit fl old base s p log new F B P D \<longleftrightarrow>
     core crc limit fl old base s new P D \<and> (p \<noteq> Stopped \<longrightarrow> driver_ok fl s new) \<and> phase_ok base p new F P
     \<and> log = concat new @ F @ B \<and> list_all (well_formed crc) log \<and> wb_bytes (sy_buffer s) = log_image B
     \<and> unat (wb_next_lsn (sy_buffer s)) = base + length (log_image log)"

definition wal_inv ::
  "crc_append \<Rightarrow> nat \<Rightarrow> wal_floor \<Rightarrow> wal_record list list \<Rightarrow> nat \<Rightarrow> wal_system \<times> phase \<times> wal_record list \<Rightarrow> bool" where
  "wal_inv crc limit fl old base st \<longleftrightarrow>
     (case st of (s, p, log) \<Rightarrow> \<exists>new F B P D. spread crc limit fl old base s p log new F B P D)"

lemma wal_invI: "spread crc limit fl old base s p log new F B P D \<Longrightarrow> wal_inv crc limit fl old base (s, p, log)"
  by (simp add: wal_inv_def) blast

lemma log_image_Nil [simp]: "log_image rs = [] \<longleftrightarrow> rs = []" "[] = log_image rs \<longleftrightarrow> rs = []"
  by (cases rs; simp)+

lemma core_wake [simp]:
  "core crc limit fl old base (s\<lparr>sy_wake := w\<rparr>) new P D = core crc limit fl old base s new P D"
  "driver_ok fl (s\<lparr>sy_wake := w\<rparr>) new = driver_ok fl s new"
  "driver_ok fl (s\<lparr>sy_buffer := b\<rparr>) new = driver_ok fl s new"
  "driver_ok fl (s\<lparr>sy_driver := (sy_driver s)\<lparr>dr_pending_lsn := l\<rparr>\<rparr>) new = driver_ok fl s new"
  by (simp_all add: core_def driver_ok_def Let_def cong: option.case_cong)

lemma core_buffer:
  "core crc limit fl old base s new P D \<Longrightarrow> wb_durable_lsn b = wb_durable_lsn (sy_buffer s) \<Longrightarrow>
     core crc limit fl old base (s\<lparr>sy_buffer := b\<rparr>) new P D"
  by (simp add: core_def Let_def)

lemma core_fatal: "core crc limit fl old base s new P D \<Longrightarrow> core crc limit fl old base (thread_failed s) new P D"
  by (simp add: core_def thread_failed_def publish_fatal_def close_appends_def Let_def)

lemma core_pending:
  "core crc limit fl old base s new P D \<Longrightarrow> unat l = base + length (log_image (concat new)) \<Longrightarrow>
     core crc limit fl old base (s\<lparr>sy_driver := (sy_driver s)\<lparr>dr_pending_lsn := l\<rparr>\<rparr>) new (concat new) D"
  by (auto simp: core_def Let_def intro: prefix_order.trans)

lemma append_spread:
  assumes "spread crc limit fl old base s p log new F B P D" "well_formed crc r" "buffer_append (sy_buffer s) r = AppendDone b (Inr l)"
  shows "spread crc limit fl old base (s\<lparr>sy_buffer := b\<rparr>) p (log @ [r]) new F (B @ [r]) P D"
  using assms buffer_append_Done [OF assms(2,3)] core_buffer by (auto simp: spread_def)

lemma drain_spread:
  assumes "spread crc limit fl old base s Idle log new F B P D" "drain_into (sy_buffer s) = (b, bytes, Inr (st, en))"
  shows "spread crc limit fl old base (s\<lparr>sy_buffer := b\<rparr>) (if bytes = [] then Idle else Writing bytes 0 en) log new B [] P D"
proof -
  have "b = (sy_buffer s)\<lparr>wb_bytes := []\<rparr>" "bytes = wb_bytes (sy_buffer s)" "en = wb_next_lsn (sy_buffer s)"
    using assms(2) by (auto simp: drain_into_def Let_def split: if_splits)
  then show ?thesis using assms(1) core_buffer by (auto simp: spread_def phase_ok_def)
qed

lemma write_spread:
  assumes sp: "spread crc limit fl old base s (Writing bytes cursor en) log new F B P D" and cur: "cursor < length bytes"
    and wr: "write_step cfg bytes cursor s = (s', res)"
    and lim: "unat (wc_segment_size_bytes cfg) \<le> limit" "MAX_RECORD_BYTES \<le> limit"
  shows "case res of
      Inl e \<Rightarrow> wal_inv crc limit fl old base (thread_failed s', Stopped, log)
    | Inr cursor' \<Rightarrow> wal_inv crc limit fl old base (s', Writing bytes cursor' en, log)"
proof -
  have "drop cursor bytes = log_image F" "drop cursor bytes \<noteq> []" using sp cur by (auto simp: spread_def phase_ok_def)
  then obtain r F' where F: "F = r # F'" "drop cursor bytes = record_bytes r @ log_image F'" by (cases F) auto
  have I: "core crc limit fl old base s new P D" "driver_ok fl s new" "well_formed crc r"
    using sp F by (auto simp: spread_def)
  from I F(2) wr lim obtain new' D' where n: "core crc limit fl old base s' new' P D'"
    "wb_bytes (sy_buffer s') = wb_bytes (sy_buffer s)" "wb_next_lsn (sy_buffer s') = wb_next_lsn (sy_buffer s)"
    "case res of Inl e \<Rightarrow> concat new' = concat new
     | Inr cursor' \<Rightarrow> driver_ok fl s' new' \<and> (cursor' = cursor \<and> concat new' = concat new
         \<or> cursor' \<le> length bytes \<and> drop cursor' bytes = log_image F' \<and> concat new' = concat new @ [r])"
    by (rule write_step_core)
  show ?thesis
  proof (cases res)
    case (Inl e)
    then have "spread crc limit fl old base (thread_failed s') Stopped log new' F B P D'"
      using n sp core_fatal by (auto simp: spread_def phase_ok_def thread_failed_def publish_fatal_def close_appends_def)
    with Inl wal_invI show ?thesis by auto
  next
    case (Inr c)
    with n(4) have "driver_ok fl s' new'" "c = cursor \<and> concat new' = concat new
        \<or> c \<le> length bytes \<and> drop c bytes = log_image F' \<and> concat new' = concat new @ [r]" by auto
    then have "spread crc limit fl old base s' (Writing bytes c en) log new' (if c = cursor \<and> concat new' = concat new then F else F') B P D'"
      using n(1-3) sp F by (auto simp: spread_def phase_ok_def)
    with Inr wal_invI show ?thesis by auto
  qed
qed

lemma written_spread:
  assumes "spread crc limit fl old base s (Writing bytes cursor en) log new F B P D" "\<not> cursor < length bytes"
  shows "spread crc limit fl old base (s\<lparr>sy_driver := (sy_driver s)\<lparr>dr_pending_lsn := en\<rparr>\<rparr>) Idle log new [] B (concat new) D"
  using assms core_pending by (auto simp: spread_def phase_ok_def)

lemma flush_spread:
  assumes "spread crc limit fl old base s p log new F B P D" "p \<noteq> Stopped"
  shows "spread crc limit fl old base (flush_current s) p log new F B P P"
  using assms flush_core [of crc limit fl old base s new P D] by (auto simp: spread_def)

lemma close_spread:
  assumes "spread crc limit fl old base s p log new F B P D"
  shows "spread crc limit fl old base (s\<lparr>sy_buffer := close_appends (sy_buffer s)\<rparr>) p log new F B P D"
  using assms core_buffer by (auto simp: spread_def close_appends_def)

lemma wal_step_inv:
  assumes "wal_step crc cfg st st'" "wal_inv crc limit fl old base st"
    and lim: "unat (wc_segment_size_bytes cfg) \<le> limit" "MAX_RECORD_BYTES \<le> limit"
  shows "wal_inv crc limit fl old base st'"
proof -
  obtain s p log where st: "st = (s, p, log)" by (cases st)
  with assms(2) obtain new F B P D where sp: "spread crc limit fl old base s p log new F B P D" by (auto simp: wal_inv_def)
  from assms(1) show ?thesis
    unfolding st
  proof cases
    case (step_append r b l)
    then show ?thesis using append_spread [OF sp] wal_invI by blast
  next
    case (step_drain b bytes start_lsn end_lsn)
    then show ?thesis using drain_spread [of crc limit fl old base s log new F B P D b bytes] sp wal_invI by blast
  next
    case (step_write cursor bytes s' cursor' end_lsn)
    with write_spread [of crc limit fl old base s bytes cursor end_lsn] sp lim show ?thesis by fastforce
  next
    case (step_write_failed cursor bytes s' e end_lsn)
    with write_spread [of crc limit fl old base s bytes cursor end_lsn] sp lim show ?thesis by fastforce
  next
    case (step_written cursor bytes end_lsn)
    then show ?thesis using written_spread [of crc limit fl old base s bytes cursor end_lsn] sp wal_invI by blast
  next
    case step_flush
    then show ?thesis using flush_spread [OF sp] wal_invI by blast
  next
    case (step_wake w)
    have "spread crc limit fl old base (s\<lparr>sy_wake := w\<rparr>) p log new F B P D" using sp by (auto simp: spread_def)
    then show ?thesis unfolding step_wake by (rule wal_invI)
  next
    case step_close
    then show ?thesis using close_spread [OF sp] wal_invI by blast
  qed
qed

section \<open>A crash\<close>

lemma cut_records:
  "list_all (well_formed crc) rs \<Longrightarrow>
     \<exists>m tail. m \<le> length rs \<and> take k (log_image rs) = log_image (take m rs) @ tail \<and> torn crc tail
       \<and> (\<forall>j \<le> length rs. length (log_image (take j rs)) \<le> k \<longrightarrow> j \<le> m)"
proof (induction rs arbitrary: k)
  case (Cons r rs)
  let ?n = "length (record_bytes r)"
  show ?case
  proof (cases "k < ?n")
    case True
    have "j = 0" if "length (log_image (take j (r # rs))) \<le> k" for j using True that by (cases j) simp_all
    with True torn_prefix Cons.prems show ?thesis by (intro exI [of _ 0] exI [of _ "take k (record_bytes r)"]) auto
  next
    case False
    from Cons.prems have "list_all (well_formed crc) rs" by simp
    from Cons.IH [OF this, of "k - ?n"] obtain m tail where m: "m \<le> length rs" "take (k - ?n) (log_image rs) = log_image (take m rs) @ tail" "torn crc tail"
      "\<forall>j \<le> length rs. length (log_image (take j rs)) \<le> k - ?n \<longrightarrow> j \<le> m" by blast
    have "j \<le> Suc m" if "j \<le> Suc (length rs)" "length (log_image (take j (r # rs))) \<le> k" for j
      using m(4) that False by (cases j) auto
    with m False show ?thesis by (intro exI [of _ "Suc m"] exI [of _ tail]) auto
  qed
qed simp

lemma log_bytes_clean: "log_bytes rss [] = map log_image rss"
  by (cases rss rule: rev_cases) (simp_all add: log_bytes_snoc)

lemma crash_live:
  assumes "crash_dir d d'"
  shows "live d' fl = live d fl"
  by (simp add: live_def crash_dir_seg [OF assms])

lemma crash_floor:
  assumes "crash_dir d d'" "manifest_synced d"
  shows "read_floor crc d' = read_floor crc d"
  using crash_dir_map_of [OF assms(1), of MANIFEST_FILE] assms(2)
  by (auto simp: manifest_synced_def crash_file_def read_floor_def Let_def elim!: option.rel_cases)

lemma crash_map_full: "crash_dir d d' \<Longrightarrow> \<forall>i \<in> set ix. seg_full d i \<Longrightarrow> map (seg_bytes d') ix = map (seg_bytes d) ix"
  using crash_full by auto

lemma prefix_synced:
  assumes D: "prefix D (concat new)" and new: "new \<noteq> []" and len: "length (log_image D) \<le> length (log_image (concat (butlast new))) + k"
    and m: "\<forall>j \<le> length (last new). length (log_image (take j (last new))) \<le> k \<longrightarrow> j \<le> m"
  shows "length D \<le> length (concat (butlast new)) + m"
proof (cases "length D \<le> length (concat (butlast new))")
  case False
  let ?B = "concat (butlast new)" and ?j = "length D - length (concat (butlast new))"
  have c: "concat new = ?B @ last new" using new by (cases new rule: rev_cases) auto
  have "D = take (length D) (?B @ last new)" using D unfolding c by (metis append_eq_conv_conj prefixE)
  then have D': "D = ?B @ take ?j (last new)" using False by simp
  have "length D \<le> length (?B @ last new)" using D unfolding c by (rule prefix_length_le)
  then have "?j \<le> length (last new)" by simp
  moreover have "length (log_image D) = length (log_image ?B) + length (log_image (take ?j (last new)))"
    by (subst D') simp
  ultimately have "?j \<le> m" using m len by simp
  then show ?thesis using False by simp
qed simp

lemma crash_core:
  assumes core: "core crc limit fl old base s new P D" and crash: "crash_dir (sy_dir s) d'"
    and wf: "list_all (well_formed crc) (concat new)" "list_all (list_all (well_formed crc)) old"
    and base: "base = unat (fl_floor_lsn fl) + length (log_image (concat old))" "base + length (log_image (concat new)) < 2 ^ 64"
  obtains m new' tail where "holds_log crc limit d' fl (old @ new') tail" "concat new' = take m (concat new)"
    "m \<le> length (concat new)" "length D \<le> m"
proof (cases "new = []")
  case True
  have "map (seg_bytes d') (live d' fl) = map log_image old"
    using core True crash_map_full [OF crash, of "live (sy_dir s) fl"] by (simp add: core_def Let_def crash_live [OF crash])
  then have "holds_log crc limit d' fl (old @ []) []"
    using core wf base True crash_dir_seg [OF crash] crash_floor [OF crash]
    by (auto simp: core_def Let_def holds_log_def log_bytes_clean list_all_iff)
  moreover have "D = []" using core True by (simp add: core_def Let_def prefix_def)
  ultimately show ?thesis using that [of "[]" "[]" 0] by simp
next
  case False
  let ?d = "sy_dir s"
  let ?i = "last (live ?d fl)" and ?B = "butlast new"
  have m: "map (seg_bytes ?d) (live ?d fl) = map log_image (old @ new)" and full: "\<forall>i \<in> set (butlast (live ?d fl)). seg_full ?d i"
    and D: "length (log_image D) \<le> length (log_image (concat ?B)) + seg_synced ?d ?i" "prefix D (concat new)"
    using core False by (auto simp: core_def Let_def intro: prefix_order.trans)
  obtain k where k: "seg_synced ?d ?i \<le> k" "seg_bytes d' ?i = take k (seg_bytes ?d ?i)" using crash_seg [OF crash] .
  have "list_all (well_formed crc) (last new)" using wf(1) False by (auto simp: list_all_iff)
  from cut_records [OF this, of k] obtain n tail where n: "n \<le> length (last new)"
    "take k (log_image (last new)) = log_image (take n (last new)) @ tail" "torn crc tail"
    "\<forall>j \<le> length (last new). length (log_image (take j (last new))) \<le> k \<longrightarrow> j \<le> n" by blast
  have ne: "live ?d fl \<noteq> []" using core_last(1) [OF core False] by auto
  have "map (seg_bytes ?d) (butlast (live ?d fl)) = map log_image (old @ ?B)"
    using m False by (simp add: map_butlast butlast_append)
  moreover have "map (seg_bytes d') (butlast (live ?d fl) @ [?i]) = map (seg_bytes ?d) (butlast (live ?d fl)) @ [log_image (take n (last new)) @ tail]"
    using k(2) n(2) core_last(2) [OF core False] crash_map_full [OF crash full] by simp
  ultimately have segs: "map (seg_bytes d') (live d' fl) = log_bytes ((old @ ?B) @ [take n (last new)]) tail"
    unfolding log_bytes_snoc using append_butlast_last_id [OF ne] by (simp add: crash_live [OF crash])
  define new' where "new' = ?B @ [take n (last new)]"
  have c: "concat new = concat ?B @ last new" using False by (cases new rule: rev_cases) auto
  have new': "concat new' = take (length (concat ?B) + n) (concat new)" by (simp add: new'_def c)
  have len: "length (log_image (take n (last new)) @ tail) \<le> length (log_image (last new))" by (simp flip: n(2))
  have lim: "length (log_image rs) \<le> limit" if "rs \<in> set old \<or> rs \<in> set new" for rs
    using core that by (auto simp: core_def Let_def list_all_iff)
  have "length (log_image (take n (last new)) @ tail) \<le> limit" using len lim [of "last new"] False by simp
  then have small: "list_all (\<lambda>b. length b \<le> limit) (log_bytes ((old @ ?B) @ [take n (last new)]) tail)"
    unfolding log_bytes_snoc by (auto simp: list_all_iff intro: lim dest: in_set_butlastD)
  have wf': "list_all (list_all (well_formed crc)) new'"
    using wf(1) False by (auto simp: new'_def list_all_iff dest!: in_set_butlastD in_set_takeD)
  have "holds_log crc limit d' fl (old @ new') tail"
    using core wf(2) wf' segs small n(3) base len crash_dir_seg [OF crash] crash_floor [OF crash]
    by (auto simp: holds_log_def core_def Let_def c new'_def)
  moreover have "length D \<le> length (concat ?B) + n"
    using prefix_synced [OF D(2) False _ n(4)] D(1) k(1) by linarith
  moreover have "length (concat ?B) + n \<le> length (concat new)" using n(1) by (simp add: c)
  ultimately show ?thesis using that new' by blast
qed

section \<open>Opening\<close>

lemma settled_trim: "settled d \<Longrightarrow> settled (sync_file n (set_len_file n k d))"
  unfolding settled_def sync_file_def set_len_file_def by (induction d) auto

lemma advance_new [simp]:
  "wb_bytes (advance_to_lsn (wal_buffer_new cap 0) l) = []"
  "wb_next_lsn (advance_to_lsn (wal_buffer_new cap 0) l) = l"
  "wb_durable_lsn (advance_to_lsn (wal_buffer_new cap 0) l) = l"
  by (simp_all add: advance_to_lsn_def wal_buffer_new_def Let_def word_neq_0_conv [symmetric])

lemma next_segment_index_Inr:
  assumes "dir_ok d" "next_segment_index d = Inr i"
  shows "(seg_set d = {} \<and> i = 0) \<or> (\<exists>m \<in> seg_set d. m < i) \<and> (\<forall>j \<in> seg_set d. j < i)"
proof (cases "seg_set d = {}")
  case True
  with assms show ?thesis by (simp add: next_segment_index_def list_segments_eq)
next
  case False
  let ?l = "sorted_list_of_set (seg_set d)"
  have ne: "?l \<noteq> []" using False by simp
  then have last: "fst (last (list_segments d)) = last ?l" by (simp add: list_segments_eq [OF assms(1)] last_map)
  with assms ne have i: "unat (last ?l) + 1 < 2 ^ 32" "i = last ?l + 1"
    by (auto simp: next_segment_index_def list_segments_eq Let_def checked_add_def split: if_splits)
  have le: "j \<le> last ?l" if "j \<in> seg_set d" for j by (rule sorted_le_last) (use that in simp_all)
  have "j < i" if "j \<in> seg_set d" for j
    using le [OF that] i less_plus_one_iff [of "last ?l" j] unat_not_max [of "last ?l"] by simp
  moreover have "last ?l \<in> seg_set d" using last_in_set [OF ne] by simp
  ultimately show ?thesis by blast
qed

lemma open_inv:
  assumes log: "holds_log crc limit d fl rss tail" "settled d" "rss \<noteq> [] \<or> fl_segment_index fl = 0"
    and b: "wb_bytes b = []" "wb_durable_lsn b = wb_next_lsn b" "unat (wb_next_lsn b) = base"
    and op: "writer_open crc limit d b = Inr s"
  shows "wal_inv crc limit fl rss base (s, Idle, [])"
proof -
  from repair_log [OF log(1)] obtain d' where rep: "repair_final_segment_tail crc limit d = Inr (d', if tail = [] then None else Some (length tail))"
    and log': "holds_log crc limit d' fl rss []"
    and d': "d' = d \<or> (\<exists>i k. d' = sync_file (segment_path i) (set_len_file (segment_path i) k d))" by blast
  have settled: "settled d'" using d' log(2) settled_trim by auto
  have ok: "dir_ok d'" "read_floor crc d' = Inr fl" "map (seg_bytes d') (live d' fl) = map log_image rss"
    "list_all (\<lambda>b. length b \<le> limit) (map log_image rss)"
    using log' by (simp_all add: holds_log_def log_bytes_clean)
  from op rep obtain i where i: "next_segment_index d' = Inr i"
    and s: "s = \<lparr>sy_dir = d', sy_buffer = set_drainer b, sy_driver = driver_new b i,
               sy_wake = \<lparr>wk_stopping = False, wk_force_fsync = False, wk_epoch = 0\<rparr>,
               sy_durable_lsn = wb_durable_lsn b, sy_fatal = False\<rparr>"
    by (auto simp: writer_open_def)
  have bound: "\<forall>j \<in> seg_set d'. j < i" using next_segment_index_Inr [OF ok(1) i] by auto
  have "fl_segment_index fl \<le> i"
  proof (cases "rss = []")
    case False
    then have "live d' fl \<noteq> []" using ok(3) by auto
    then obtain j where "j \<in> set (live d' fl)" using hd_in_set by blast
    then show ?thesis using bound by (auto simp: set_live intro: order.trans less_imp_le)
  qed (use log(3) in simp)
  then have "driver_ok fl s []"
    using bound settled_full [OF settled] by (simp add: driver_ok_def s driver_new_def)
  moreover have "core crc limit fl rss base s [] [] []"
    using ok settled_full [OF settled] settled_manifest [OF settled] b
    by (simp add: core_def Let_def s driver_new_def set_drainer_def list_all_iff)
  ultimately have "spread crc limit fl rss base s Idle [] [] [] [] [] []"
    using b by (simp add: spread_def phase_ok_def s set_drainer_def)
  then show ?thesis by (rule wal_invI)
qed

lemma wal_reachable_inv:
  assumes "(wal_step crc cfg)\<^sup>*\<^sup>* st st'" "wal_inv crc limit fl old base st"
    and "unat (wc_segment_size_bytes cfg) \<le> limit" "MAX_RECORD_BYTES \<le> limit"
  shows "wal_inv crc limit fl old base st'"
  using assms(1,2) by (induction rule: rtranclp_induct) (auto intro: wal_step_inv [OF _ _ assms(3,4)])

section \<open>Recovery after the crash\<close>

definition collect :: "wal_record list applier" where
  "collect r acc = (acc @ [r], Inr ())"

lemma redo_collect: "redo collect rs acc = (acc @ rs, Inr ())"
  by (induction rs arbitrary: acc) (simp_all add: collect_def)

lemma recover_collect:
  assumes "holds_log crc limit d fl rss tail"
  shows "recover crc limit d collect [] = (concat rss, Inr (of_nat (unat (fl_floor_lsn fl) + length (log_image (concat rss)))))"
  using recover_with_target_plan [OF assms, of target_none collect "[]"]
  by (simp add: recover_def run_plan_def redo_collect plan_outcome_def finish_recovery_at_def) (simp add: target_none_def)

lemma opened:
  assumes log: "holds_log crc limit d fl rss tail" "settled d" "rss \<noteq> [] \<or> fl_segment_index fl = 0"
    and rec: "recover crc limit d collect [] = (old, Inr l)" and op: "writer_open crc limit d (advance_to_lsn (wal_buffer_new cap 0) l) = Inr s0"
  shows "old = concat rss" "unat l = unat (fl_floor_lsn fl) + length (log_image (concat rss))" "wal_inv crc limit fl rss (unat l) (s0, Idle, [])"
proof -
  let ?base = "unat (fl_floor_lsn fl) + length (log_image (concat rss))"
  have "?base < 2 ^ 64" using log(1) by (simp add: holds_log_def)
  then show "old = concat rss" "unat l = ?base" using rec recover_collect [OF log(1)] unat_of_nat_small [of ?base, where 'a = 64] by auto
  show "wal_inv crc limit fl rss (unat l) (s0, Idle, [])" by (rule open_inv [OF log _ _ _ op]) simp_all
qed

lemma prefix_image_less:
  assumes "prefix D log" "length (log_image (take k log)) < length (log_image D)"
  shows "k < length D"
proof (rule ccontr)
  assume "\<not> k < length D"
  then have "prefix D (take k log)" using assms(1) by (auto simp: prefix_def)
  then have "length (log_image D) \<le> length (log_image (take k log))" by (auto simp: prefix_def)
  with assms(2) show False by simp
qed

section \<open>The loop of the writer thread\<close>

lemma write_loop_steps:
  "write_loop cfg bytes c s = (s', Inr u) \<Longrightarrow>
     \<exists>c'. \<not> c' < length bytes \<and> (wal_step crc cfg)\<^sup>*\<^sup>* (s, Writing bytes c en, log) (s', Writing bytes c' en, log)"
proof (induction cfg bytes c s rule: write_loop.induct)
  case (1 cfg bytes c s)
  show ?case
  proof (cases "c < length bytes")
    case True
    then obtain s1 c1 where w: "write_step cfg bytes c s = (s1, Inr c1)" "write_loop cfg bytes c1 s1 = (s', Inr u)"
      using "1.prems" by (auto simp: write_loop.simps [of cfg bytes c s] split: prod.splits sum.splits)
    from "1.IH" [OF True w(1) [symmetric] refl w(2)] obtain c' where "\<not> c' < length bytes"
      "(wal_step crc cfg)\<^sup>*\<^sup>* (s1, Writing bytes c1 en, log) (s', Writing bytes c' en, log)" by blast
    moreover have "wal_step crc cfg (s, Writing bytes c en, log) (s1, Writing bytes c1 en, log)" by (rule step_write [OF True w(1)])
    ultimately show ?thesis by (blast intro: converse_rtranclp_into_rtranclp)
  next
    case False
    then show ?thesis using "1.prems" by (auto simp: write_loop.simps [of cfg bytes c s])
  qed
qed

lemma drain_and_write_steps:
  assumes "drain_and_write cfg s = (s', Inr u)"
  shows "(wal_step crc cfg)\<^sup>*\<^sup>* (s, Idle, log) (s', Idle, log)"
proof -
  from assms obtain b bytes st en where dr: "drain_into (sy_buffer s) = (b, bytes, Inr (st, en))"
    by (auto simp: drain_and_write_def split: prod.splits sum.splits)
  have step: "wal_step crc cfg (s, Idle, log) (s\<lparr>sy_buffer := b\<rparr>, if bytes = [] then Idle else Writing bytes 0 en, log)"
    by (rule step_drain [OF dr])
  show ?thesis
  proof (cases "bytes = []")
    case True
    with assms dr step show ?thesis by (auto simp: drain_and_write_def)
  next
    case False
    from assms dr False obtain s1 where s1: "write_loop cfg bytes 0 (s\<lparr>sy_buffer := b\<rparr>) = (s1, Inr ())"
      "s' = s1\<lparr>sy_driver := (sy_driver s1)\<lparr>dr_pending_lsn := en\<rparr>\<rparr>"
      by (auto simp: drain_and_write_def write_drained_def split: prod.splits sum.splits)
    from write_loop_steps [OF s1(1)] obtain c where c: "\<not> c < length bytes"
      "(wal_step crc cfg)\<^sup>*\<^sup>* (s\<lparr>sy_buffer := b\<rparr>, Writing bytes 0 en, log) (s1, Writing bytes c en, log)" by blast
    from step False have "wal_step crc cfg (s, Idle, log) (s\<lparr>sy_buffer := b\<rparr>, Writing bytes 0 en, log)" by simp
    from converse_rtranclp_into_rtranclp [OF this c(2)] step_written [OF c(1), of crc cfg s1 en log]
    show ?thesis unfolding s1(2) by (rule rtranclp.rtrancl_into_rtrancl)
  qed
qed

text \<open>What is not synced at rest is pending; what is not pending at rest is still in the buffer.\<close>

definition flush_inv :: "wal_system \<times> phase \<times> wal_record list \<Rightarrow> bool" where
  "flush_inv st \<longleftrightarrow>
     (case st of (s, p, log) \<Rightarrow>
        case p of
          Idle \<Rightarrow> dr_unflushed_bytes (sy_driver s) = 0 \<longrightarrow> dr_durable_lsn (sy_driver s) = dr_pending_lsn (sy_driver s)
        | Writing bytes c _ \<Rightarrow> length bytes \<le> c \<longrightarrow> 0 < dr_unflushed_bytes (sy_driver s)
        | Stopped \<Rightarrow> True)"

lemma write_chunk_unflushed:
  "write_chunk bytes c n s = (s', Inr c') \<Longrightarrow> 0 < unat n \<Longrightarrow> 0 < dr_unflushed_bytes (sy_driver s')"
  by (auto simp: write_chunk_def checked_writer_usize_add_def Let_def split: sum.splits if_splits option.splits)

lemma write_step_unflushed:
  assumes "write_step cfg bytes c s = (s', Inr c')" "c' \<noteq> c"
  shows "0 < dr_unflushed_bytes (sy_driver s')"
  using assms peek_record_length_pos write_chunk_unflushed
  by (auto simp: write_step_def Let_def split: sum.splits prod.splits if_splits)

lemma flush_inv_step: "wal_step crc cfg st st' \<Longrightarrow> flush_inv st \<Longrightarrow> flush_inv st'"
proof (induction rule: wal_step.induct)
  case (step_write cursor bytes s s' cursor' end_lsn log)
  then show ?case using write_step_unflushed by (fastforce simp: flush_inv_def)
qed (auto simp: flush_inv_def split: phase.splits)

lemma flush_inv_steps: "(wal_step crc cfg)\<^sup>*\<^sup>* st st' \<Longrightarrow> flush_inv st \<Longrightarrow> flush_inv st'"
  by (induction rule: rtranclp_induct) (auto intro: flush_inv_step)

lemma open_flush_inv: "writer_open crc limit d b = Inr s \<Longrightarrow> flush_inv (s, Idle, [])"
  by (auto simp: writer_open_def flush_inv_def driver_new_def split: sum.splits)

lemma write_step_buffer:
  assumes "write_step cfg bytes c s = (s', r)"
  shows "wb_bytes (sy_buffer s') = wb_bytes (sy_buffer s) \<and> wb_next_lsn (sy_buffer s') = wb_next_lsn (sy_buffer s)
    \<and> wb_closed (sy_buffer s') = wb_closed (sy_buffer s) \<and> sy_wake s' = sy_wake s"
proof -
  have e: "sy_buffer s1 = sy_buffer s \<and> sy_wake s1 = sy_wake s" if "ensure_segment_open s = (s1, u)" for s1 u
    using that by (auto simp: ensure_segment_open_def Let_def split: sum.splits if_splits)
  have w: "sy_wake (flush_current t) = sy_wake t" for t
    by (simp add: flush_current_def publish_durable_lsn_def Let_def split: option.split)
  have ro: "wb_bytes (sy_buffer s2) = wb_bytes (sy_buffer s1) \<and> wb_next_lsn (sy_buffer s2) = wb_next_lsn (sy_buffer s1)
      \<and> wb_closed (sy_buffer s2) = wb_closed (sy_buffer s1) \<and> sy_wake s2 = sy_wake s1" if "rotate_segment s1 = (s2, u)" for s1 s2 u
    using that by (auto simp: rotate_segment_def Let_def w split: option.splits if_splits)
  have ch: "sy_buffer s2 = sy_buffer s1 \<and> sy_wake s2 = sy_wake s1" if "write_chunk bytes c n s1 = (s2, u)" for n s1 s2 u
    using that by (auto simp: write_chunk_def Let_def split: sum.splits if_splits option.splits)
  obtain s1 u where s1: "ensure_segment_open s = (s1, u)" by fastforce
  obtain s2 u2 where s2: "rotate_segment s1 = (s2, u2)" by fastforce
  show ?thesis
    using assms e [OF s1] ro [OF s2] ch [of _ s1]
    by (auto simp: write_step_def s1 s2 Let_def split: sum.splits if_splits)
qed

lemma write_loop_buffer:
  "write_loop cfg bytes c s = (s', r) \<Longrightarrow>
     wb_bytes (sy_buffer s') = wb_bytes (sy_buffer s) \<and> wb_next_lsn (sy_buffer s') = wb_next_lsn (sy_buffer s)
     \<and> wb_closed (sy_buffer s') = wb_closed (sy_buffer s) \<and> sy_wake s' = sy_wake s"
proof (induction cfg bytes c s rule: write_loop.induct)
  case (1 cfg bytes c s)
  obtain s1 u where s1: "write_step cfg bytes c s = (s1, u)" by fastforce
  show ?case
    using "1.prems" "1.IH" [OF _ s1 [symmetric]] write_step_buffer [OF s1]
    by (auto simp: write_loop.simps [of cfg bytes c s] s1 split: if_splits sum.splits)
qed

lemma drain_and_write_buffer:
  assumes "drain_and_write cfg s = (s', r)"
  shows "wb_bytes (sy_buffer s') = [] \<and> wb_next_lsn (sy_buffer s') = wb_next_lsn (sy_buffer s)
    \<and> wb_closed (sy_buffer s') = wb_closed (sy_buffer s) \<and> sy_wake s' = sy_wake s"
proof -
  obtain bytes u where dr: "drain_into (sy_buffer s) = ((sy_buffer s)\<lparr>wb_bytes := []\<rparr>, bytes, u)"
    by (simp add: drain_into_def Let_def)
  obtain s1 v where s1: "write_loop cfg bytes 0 (s\<lparr>sy_buffer := (sy_buffer s)\<lparr>wb_bytes := []\<rparr>\<rparr>) = (s1, v)" by fastforce
  show ?thesis
    using assms write_loop_buffer [OF s1]
    by (auto simp: drain_and_write_def dr write_drained_def s1 split: sum.splits prod.splits if_splits)
qed

lemma chunk_succeeds:
  assumes core: "core crc limit fl old base s new P D" and ok: "driver_ok fl s new" and opened: "dr_current_file (sy_driver s) \<noteq> None"
    and bytes: "drop cursor bytes = record_bytes r @ rest" "unat n = length (record_bytes r)"
    and fits: "length (log_image (last new)) + length (record_bytes r) \<le> limit" and lim: "limit < 2 ^ 64" "length bytes < 2 ^ 64"
  shows "\<exists>s' c. write_chunk bytes cursor n s = (s', Inr c)"
proof -
  let ?dr = "sy_driver s"
  obtain path where path: "dr_current_file ?dr = Some path" using opened by auto
  from driver_ok_Some [OF core ok path] have seg: "seg_bytes (sy_dir s) (dr_current_index ?dr) = log_image (last new)" by metis
  have dr: "unat (dr_current_size ?dr) = length (log_image (last new))" "dr_unflushed_bytes ?dr \<le> length (log_image (last new))"
    using ok path seg by (auto simp: driver_ok_def Let_def)
  have cur: "cursor + length (record_bytes r) \<le> length bytes"
    using arg_cong [OF bytes(1), of length] length_record_bytes [of r] by simp
  show ?thesis
    using cur dr fits lim path
    by (simp add: write_chunk_def checked_writer_usize_add_def checked_writer_u64_add_def checked_add_def bytes(2) Let_def)
qed

lemma write_step_only_error:
  assumes sp: "spread crc limit fl old base s (Writing bytes cursor en) log new F B P D" and cur: "cursor < length bytes"
    and wr: "write_step cfg bytes cursor s = (s', Inl e)"
    and lim: "unat (wc_segment_size_bytes cfg) \<le> limit" "MAX_RECORD_BYTES \<le> limit" "limit < 2 ^ 64" "length bytes < 2 ^ 64"
  shows "e = WSegmentIndexExhausted"
proof -
  have "drop cursor bytes = log_image F" "drop cursor bytes \<noteq> []" using sp cur by (auto simp: spread_def phase_ok_def)
  then obtain r F' where F: "F = r # F'" "drop cursor bytes = record_bytes r @ log_image F'" by (cases F) auto
  have I: "core crc limit fl old base s new P D" "driver_ok fl s new" "well_formed crc r" using sp F by (auto simp: spread_def)
  obtain n where n: "peek_record_length (drop cursor bytes) = Inr n" "unat n = length (record_bytes r)"
    using peek_record [OF I(3), of "log_image F'"] by (auto simp: F(2))
  from I(1,2) obtain new1 s1 where s1: "ensure_segment_open s = (s1, Inr ())" "core crc limit fl old base s1 new1 P D" "driver_ok fl s1 new1"
    "dr_current_file (sy_driver s1) \<noteq> None"
    by (rule ensure_open_core)
  let ?rot = "saturating_sub (wc_segment_size_bytes cfg) (dr_current_size (sy_driver s1)) < n \<and> 0 < dr_current_size (sy_driver s1)"
  show ?thesis
  proof (cases ?rot)
    case True
    then show ?thesis
      using wr by (auto simp: write_step_def n s1(1) rotate_segment_def Let_def split: sum.splits option.splits)
  next
    case False
    have "unat (dr_current_size (sy_driver s1)) = length (log_image (last new1))"
      using s1(3,4) by (auto simp: driver_ok_def Let_def)
    moreover have "length (record_bytes r) \<le> MAX_RECORD_BYTES" using I(3) by (simp add: well_formed_def length_record_bytes)
    ultimately have "length (log_image (last new1)) + length (record_bytes r) \<le> limit"
      using fits_segment [OF False _ _ lim(1,2)] n(2) by (simp add: length_record_bytes)
    from chunk_succeeds [OF s1(2-4) F(2) n(2) this lim(3,4)] False wr show ?thesis
      by (auto simp: write_step_def n s1(1) Let_def)
  qed
qed

lemma write_loop_only_error:
  "wal_inv crc limit fl old base (s, Writing bytes c en, log) \<Longrightarrow> write_loop cfg bytes c s = (s', Inl e) \<Longrightarrow>
   unat (wc_segment_size_bytes cfg) \<le> limit \<Longrightarrow> MAX_RECORD_BYTES \<le> limit \<Longrightarrow> limit < 2 ^ 64 \<Longrightarrow> length bytes < 2 ^ 64 \<Longrightarrow>
   e = WSegmentIndexExhausted"
proof (induction cfg bytes c s rule: write_loop.induct)
  case (1 cfg bytes c s)
  then have cur: "c < length bytes" by (auto simp: write_loop.simps [of cfg bytes c s] split: if_splits)
  obtain s1 u where s1: "write_step cfg bytes c s = (s1, u)" by fastforce
  from "1.prems"(1) obtain new F B P D where sp: "spread crc limit fl old base s (Writing bytes c en) log new F B P D"
    by (auto simp: wal_inv_def)
  show ?case
  proof (cases u)
    case (Inl e')
    then have "e' = e" using "1.prems"(2) cur s1 by (simp add: write_loop.simps [of cfg bytes c s])
    with write_step_only_error [OF sp cur s1 [unfolded Inl] "1.prems"(3-6)] show ?thesis by simp
  next
    case (Inr c')
    have "wal_inv crc limit fl old base (s1, Writing bytes c' en, log)"
      using wal_step_inv [OF step_write [OF cur s1 [unfolded Inr]] "1.prems"(1,3,4)] .
    with "1.IH" [OF cur s1 [symmetric] Inr] "1.prems"(2-6) cur s1 Inr show ?thesis
      by (simp add: write_loop.simps [of cfg bytes c s])
  qed
qed

lemma drain_and_write_result:
  assumes inv: "wal_inv crc limit fl old base (s, Idle, log)" and dw: "drain_and_write cfg s = (s', r)"
    and lim: "unat (wc_segment_size_bytes cfg) \<le> limit" "MAX_RECORD_BYTES \<le> limit" "limit < 2 ^ 64"
  shows "r = Inl WSegmentIndexExhausted \<or>
    r = Inr () \<and> wal_inv crc limit fl old base (s', Idle, log) \<and> dr_pending_lsn (sy_driver s') = wb_next_lsn (sy_buffer s)"
proof -
  from inv obtain new F B P D where sp: "spread crc limit fl old base s Idle log new F B P D" by (auto simp: wal_inv_def)
  have len: "length (wb_bytes (sy_buffer s)) \<le> unat (wb_next_lsn (sy_buffer s))" using sp by (simp add: spread_def)
  let ?b = "(sy_buffer s)\<lparr>wb_bytes := []\<rparr>" and ?bytes = "wb_bytes (sy_buffer s)" and ?en = "wb_next_lsn (sy_buffer s)"
  obtain st where dr: "drain_into (sy_buffer s) = (?b, ?bytes, Inr (st, ?en))" using drain_into_ok [OF len] by blast
  show ?thesis
  proof (cases r)
    case (Inl e)
    with dw dr obtain s1 where ne: "?bytes \<noteq> []" and w: "write_loop cfg ?bytes 0 (s\<lparr>sy_buffer := ?b\<rparr>) = (s1, Inl e)"
      by (auto simp: drain_and_write_def write_drained_def split: prod.splits sum.splits if_splits)
    have "wal_inv crc limit fl old base (s\<lparr>sy_buffer := ?b\<rparr>, Writing ?bytes 0 ?en, log)"
      using drain_spread [OF sp dr] ne wal_invI by auto
    moreover have "length ?bytes < 2 ^ 64" using len unat_less_pow [of ?en] by simp
    ultimately have "e = WSegmentIndexExhausted" using write_loop_only_error [OF _ w lim] by blast
    with Inl show ?thesis by simp
  next
    case (Inr u)
    have inv': "wal_inv crc limit fl old base (s', Idle, log)"
      using wal_reachable_inv [OF drain_and_write_steps [OF dw [unfolded Inr]] inv lim(1,2)] .
    then obtain new' F' B' P' D' where sp': "spread crc limit fl old base s' Idle log new' F' B' P' D'" by (auto simp: wal_inv_def)
    note buf = drain_and_write_buffer [OF dw]
    have "B' = []" using sp' buf by (simp add: spread_def)
    with sp' have "unat (dr_pending_lsn (sy_driver s')) = unat (wb_next_lsn (sy_buffer s'))"
      by (auto simp: spread_def phase_ok_def core_def Let_def)
    with buf inv' Inr show ?thesis by (simp add: word_unat_eq_iff)
  qed
qed

lemma drain_and_write_empty: "wb_bytes (sy_buffer s) = [] \<Longrightarrow> drain_and_write cfg s = (s, Inr ())"
  by (simp add: drain_and_write_def drain_into_def Let_def)

lemma flush_unflushed: "dr_unflushed_bytes (sy_driver (flush_current s)) = 0"
  by (simp add: flush_current_def publish_durable_lsn_def Let_def split: option.split)

lemma flush_published: "sy_durable_lsn (flush_current s) = dr_pending_lsn (sy_driver s)"
  by (simp add: flush_current_def publish_durable_lsn_def Let_def split: option.split)

lemma iteration_durable:
  assumes inv: "wal_inv crc limit fl old base (s, Idle, log)" "flush_inv (s, Idle, log)"
    and lim: "unat (wc_segment_size_bytes cfg) \<le> limit" "MAX_RECORD_BYTES \<le> limit" "limit < 2 ^ 64"
    and req: "wk_force_fsync (sy_wake s) \<or> wk_stopping (sy_wake s)"
    and it: "run_iteration cfg w s = (s', r)"
  shows "r = Inl WSegmentIndexExhausted \<or>
    r = Inr (wk_stopping (sy_wake s)) \<and> sy_durable_lsn s' = wb_next_lsn (sy_buffer s)
    \<and> (wk_stopping (sy_wake s) \<longrightarrow> wb_bytes (sy_buffer s') = [] \<and> wb_closed (sy_buffer s') \<and> wb_next_lsn (sy_buffer s') = wb_next_lsn (sy_buffer s))"
  proof -
  obtain s1 r1 where s1: "drain_and_write cfg s = (s1, r1)" by fastforce
  note buf = drain_and_write_buffer [OF s1]
  from drain_and_write_result [OF inv(1) s1 lim] show ?thesis
  proof (elim disjE conjE)
    assume "r1 = Inl WSegmentIndexExhausted"
    with it s1 show ?thesis by (simp add: run_iteration_def)
  next
    assume r1: "r1 = Inr ()" and inv1: "wal_inv crc limit fl old base (s1, Idle, log)"
      and pend: "dr_pending_lsn (sy_driver s1) = wb_next_lsn (sy_buffer s)"
    have "flush_inv (s1, Idle, log)"
      using flush_inv_steps [OF drain_and_write_steps [OF s1 [unfolded r1]] inv(2)] .
    then have rest: "dr_unflushed_bytes (sy_driver s1) = 0 \<Longrightarrow> sy_durable_lsn s1 = wb_next_lsn (sy_buffer s)"
      using inv1 pend by (auto simp: flush_inv_def wal_inv_def spread_def core_def Let_def)
    let ?w = "fst (take_force_fsync_if_work_pending (sy_wake s1) (0 < dr_unflushed_bytes (sy_driver s1)))"
    define s3 where "s3 = (if 0 < dr_unflushed_bytes (sy_driver s1) then flush_current (s1\<lparr>sy_wake := ?w\<rparr>) else s1\<lparr>sy_wake := ?w\<rparr>)"
    have s3: "sy_durable_lsn s3 = wb_next_lsn (sy_buffer s)" "wb_bytes (sy_buffer s3) = []"
      "wb_next_lsn (sy_buffer s3) = wb_next_lsn (sy_buffer s)" "dr_unflushed_bytes (sy_driver s3) = 0"
      using rest pend buf by (auto simp: s3_def flush_unflushed flush_published)
    let ?s4 = "s3\<lparr>sy_buffer := close_appends (sy_buffer s3)\<rparr>"
    have "drain_and_write cfg ?s4 = (?s4, Inr ())" by (rule drain_and_write_empty) (simp add: close_appends_def s3)
    then have "run_iteration cfg w s = (if wk_stopping (sy_wake s) then (?s4, Inr True) else (s3, Inr False))"
      using req s3(4) buf unfolding run_iteration_def s1 r1 take_force_fsync_if_work_pending_def s3_def Let_def
      by (auto simp: take_force_fsync_if_work_pending_def)
    with it s3 show ?thesis by (auto simp: close_appends_def split: if_splits)
  qed
qed

end
