(* ===== verification/Wal_Truncate.thy ===== *)
theory Wal_Truncate
  imports Wal_Durability
begin

text \<open>
  Recycling of log segments (\<^verbatim>\<open>crates/ultrasql-wal/src/truncate.rs\<close>). \<open>truncate_below\<close> plans a new
  floor, makes it durable and then unlinks the segments below it; the same work is also given as the
  list of its file operations. The lemmas say which floors the planner can choose and which log a
  directory holds from such a floor on.
\<close>

section \<open>The planner\<close>

record truncation_outcome =
  to_floor :: wal_floor
  to_removed_segments :: "u32 list"
  to_reclaimed_bytes :: u64

definition truncation_noop :: "wal_floor \<Rightarrow> truncation_outcome" where
  "truncation_noop floor = \<lparr>to_floor = floor, to_removed_segments = [], to_reclaimed_bytes = 0\<rparr>"

definition is_noop :: "truncation_outcome \<Rightarrow> bool" where
  "is_noop out \<longleftrightarrow> to_removed_segments out = []"

fun contiguous_from :: "u32 \<Rightarrow> nat \<Rightarrow> (u32 \<times> u64) list \<Rightarrow> bool" where
  "contiguous_from base offset [] \<longleftrightarrow> True"
| "contiguous_from base offset ((index, _) # segments) \<longleftrightarrow>
     offset < 2 ^ 32 \<and> checked_add base (of_nat offset) = Some index \<and> contiguous_from base (Suc offset) segments"

fun choose_floor :: "u64 \<Rightarrow> u64 \<Rightarrow> (u32 \<times> u64) list \<Rightarrow> wal_floor \<Rightarrow> wal_floor" where
  "choose_floor target start [] chosen = chosen"
| "choose_floor target start ((index, len) # segments) chosen =
     (let end_pos = saturating_add start len in
      if target < end_pos \<or> segments = [] then \<lparr>fl_segment_index = index, fl_floor_lsn = start\<rparr>
      else choose_floor target end_pos segments chosen)"

definition plan_floor :: "wal_floor \<Rightarrow> lsn \<Rightarrow> (u32 \<times> u64) list \<Rightarrow> wal_floor" where
  "plan_floor current target segments =
     (case segments of
        [] \<Rightarrow> current
      | (first_index, _) # _ \<Rightarrow>
          if first_index \<noteq> fl_segment_index current then current
          else if \<not> contiguous_from (fl_segment_index current) 0 segments then current
          else choose_floor target (fl_floor_lsn current) segments current)"

section \<open>Truncation\<close>

definition file_len :: "wal_dir \<Rightarrow> string \<Rightarrow> u64" where
  "file_len d path = (case map_of d path of None \<Rightarrow> 0 | Some f \<Rightarrow> of_nat (length (df_content f)))"

text \<open>The current floor, and the floor to move to unless there is nothing to do.\<close>

definition truncation_plan :: "crc_append \<Rightarrow> wal_dir \<Rightarrow> lsn \<Rightarrow> recovery_error + wal_floor \<times> wal_floor option" where
  "truncation_plan crc d target =
     rbind (read_floor crc d) (\<lambda>current.
       let planning = map (\<lambda>(index, path). (index, file_len d path))
             (filter (\<lambda>(index, path). fl_segment_index current \<le> index) (list_segments d));
           new_floor = plan_floor current target planning in
       Inr (current,
         if fl_segment_index new_floor = fl_segment_index current then None
         else if target < fl_floor_lsn new_floor then None
         else Some new_floor))"

text \<open>\<open>removable\<close> are the files the operating system lets go; a file it keeps is only reported.\<close>

fun unlink_below ::
  "(string \<Rightarrow> bool) \<Rightarrow> u32 \<Rightarrow> (u32 \<times> string) list \<Rightarrow> wal_dir \<Rightarrow> u32 list \<Rightarrow> u64 \<Rightarrow> wal_dir \<times> u32 list \<times> u64" where
  "unlink_below removable floor_index [] d removed reclaimed = (d, removed, reclaimed)"
| "unlink_below removable floor_index ((index, path) # segments) d removed reclaimed =
     (if index < floor_index \<and> removable path \<and> map_of d path \<noteq> None
      then unlink_below removable floor_index segments (remove_file path d) (removed @ [index])
             (saturating_add reclaimed (file_len d path))
      else unlink_below removable floor_index segments d removed reclaimed)"

definition truncate_below ::
  "crc_append \<Rightarrow> (string \<Rightarrow> bool) \<Rightarrow> wal_dir \<Rightarrow> lsn \<Rightarrow> recovery_error + wal_dir \<times> truncation_outcome" where
  "truncate_below crc removable d target =
     rbind (truncation_plan crc d target) (\<lambda>(current, plan).
       case plan of
         None \<Rightarrow> Inr (d, truncation_noop current)
       | Some new_floor \<Rightarrow>
           (case unlink_below removable (fl_segment_index new_floor) (list_segments d) (write_floor crc d new_floor) [] 0 of
              (d', removed, reclaimed) \<Rightarrow>
                Inr (d', \<lparr>to_floor = new_floor, to_removed_segments = removed, to_reclaimed_bytes = reclaimed\<rparr>)))"

subsection \<open>Its file operations\<close>

datatype fs_op = CreateOp string | AppendOp string bytes | SyncOp string | RenameOp string string | RemoveOp string

primrec run_op :: "fs_op \<Rightarrow> wal_dir \<Rightarrow> wal_dir" where
  "run_op (CreateOp n) d = create_file n d"
| "run_op (AppendOp n bs) d = append_file n bs d"
| "run_op (SyncOp n) d = sync_file n d"
| "run_op (RenameOp n n') d = rename_file n n' d"
| "run_op (RemoveOp n) d = remove_file n d"

definition unlink_ops :: "(string \<Rightarrow> bool) \<Rightarrow> u32 \<Rightarrow> (u32 \<times> string) list \<Rightarrow> fs_op list" where
  "unlink_ops removable floor_index segments =
     map (\<lambda>(index, path). RemoveOp path) (filter (\<lambda>(index, path). index < floor_index \<and> removable path) segments)"

definition truncate_ops :: "crc_append \<Rightarrow> (string \<Rightarrow> bool) \<Rightarrow> wal_floor \<Rightarrow> (u32 \<times> string) list \<Rightarrow> fs_op list" where
  "truncate_ops crc removable new_floor segments =
     [CreateOp MANIFEST_TMP_FILE, AppendOp MANIFEST_TMP_FILE (manifest_image crc new_floor), SyncOp MANIFEST_TMP_FILE,
      RenameOp MANIFEST_TMP_FILE MANIFEST_FILE] @ unlink_ops removable (fl_segment_index new_floor) segments"

lemma remove_absent: "map_of d n = None \<Longrightarrow> remove_file n d = d"
  by (simp add: remove_file_def map_of_eq_None_iff)

lemma unlink_below_ops: "fst (unlink_below removable i segs d rem rec) = fold run_op (unlink_ops removable i segs) d"
  by (induction removable i segs d rem rec rule: unlink_below.induct) (auto simp: unlink_ops_def remove_absent)

lemma truncate_below_ops:
  "truncation_plan crc d target = Inr (current, Some new) \<Longrightarrow> truncate_below crc removable d target = Inr (d', out) \<Longrightarrow>
     d' = fold run_op (truncate_ops crc removable new (list_segments d)) d"
  using unlink_below_ops [of removable "fl_segment_index new" "list_segments d" "write_floor crc d new" "[]" 0]
  by (auto simp: truncate_below_def truncate_ops_def write_floor_def write_floor_tmp_def split: prod.splits)

section \<open>The planned floor\<close>

lemma saturating_add_small: "unat a + unat b < 2 ^ LENGTH('a) \<Longrightarrow> saturating_add a b = (a + b :: 'a::len word)"
  by (simp add: saturating_add_def)

lemma choose_floor_position:
  "segs \<noteq> [] \<Longrightarrow> unat start + sum_list (map (\<lambda>x. unat (snd x)) segs) < 2 ^ 64 \<Longrightarrow>
   \<exists>k < length segs. fl_segment_index (choose_floor target start segs chosen) = fst (segs ! k)
     \<and> unat (fl_floor_lsn (choose_floor target start segs chosen)) = unat start + sum_list (map (\<lambda>x. unat (snd x)) (take k segs))
     \<and> (0 < k \<longrightarrow> fl_floor_lsn (choose_floor target start segs chosen) \<le> target)"
proof (induction target start segs chosen rule: choose_floor.induct)
  case (2 target start index len segs chosen)
  have sat: "saturating_add start len = start + len" using "2.prems"(2) by (intro saturating_add_small) simp
  have add: "unat (start + len) = unat start + unat len" using "2.prems"(2) by (intro unat_add_lem [THEN iffD1]) simp
  show ?case
  proof (cases "target < start + len \<or> segs = []")
    case False
    then have "segs \<noteq> []" "unat (start + len) + sum_list (map (\<lambda>x. unat (snd x)) segs) < 2 ^ 64"
      using "2.prems"(2) by (simp_all add: add)
    from "2.IH" [OF refl] False this obtain k where k: "k < length segs"
      "fl_segment_index (choose_floor target (start + len) segs chosen) = fst (segs ! k)"
      "unat (fl_floor_lsn (choose_floor target (start + len) segs chosen)) = unat (start + len) + sum_list (map (\<lambda>x. unat (snd x)) (take k segs))"
      "0 < k \<longrightarrow> fl_floor_lsn (choose_floor target (start + len) segs chosen) \<le> target"
      by (auto simp: sat)
    have "fl_floor_lsn (choose_floor target (start + len) segs chosen) \<le> target"
      using k(3,4) False by (cases "k = 0") (simp_all add: word_le_nat_alt word_less_nat_alt)
    with k False show ?thesis by (intro exI [of _ "Suc k"]) (simp add: sat add)
  qed (auto simp: sat intro: exI [of _ 0])
qed simp

text \<open>
  The floors a directory may have: the one it started with, or the start of a later segment, at the
  position the bytes before it add up to, and not above the target.
\<close>

definition good_floor :: "lsn \<Rightarrow> wal_floor \<Rightarrow> wal_dir \<Rightarrow> wal_floor \<Rightarrow> bool" where
  "good_floor T fl0 d fl \<longleftrightarrow> fl = fl0 \<or>
     (\<exists>k < length (live d fl0). fl_segment_index fl = live d fl0 ! k \<and> fl_floor_lsn fl \<le> T
        \<and> unat (fl_floor_lsn fl) = unat (fl_floor_lsn fl0) + length (concat (map (seg_bytes d) (take k (live d fl0)))))"

lemma good_floor_ge: "good_floor T fl0 d fl \<Longrightarrow> fl_segment_index fl0 \<le> fl_segment_index fl"
  using nth_mem [of _ "live d fl0"] by (auto simp: good_floor_def set_live)

lemma filter_ge_nth:
  assumes "sorted xs" "distinct xs" "k < length xs"
  shows "filter (\<lambda>x. xs ! k \<le> (x :: 'a::linorder)) xs = drop k xs"
proof -
  have lt: "x < xs ! k" if "x \<in> set (take k xs)" for x
  proof -
    from that obtain j where "j < k" "x = xs ! j" using assms(3) by (auto simp: in_set_conv_nth)
    with assms show ?thesis by (metis less_imp_le less_le nth_eq_iff_index_eq order.strict_trans sorted_nth_mono)
  qed
  have ge: "xs ! k \<le> x" if "x \<in> set (drop k xs)" for x
  proof -
    from that obtain j where "j < length xs - k" "x = xs ! (k + j)" using assms(3) by (auto simp: in_set_conv_nth)
    with assms show ?thesis by (auto intro: sorted_nth_mono)
  qed
  have "filter (\<lambda>x. xs ! k \<le> x) (take k xs @ drop k xs) = drop k xs"
    unfolding filter_append using lt ge by (auto simp: filter_empty_conv intro!: filter_True dest: leD)
  then show ?thesis by simp
qed

text \<open>What is left of a directory \<open>d0\<close> when the floor has moved to \<open>fl\<close>.\<close>

definition agrees_from :: "u32 \<Rightarrow> wal_dir \<Rightarrow> wal_dir \<Rightarrow> bool" where
  "agrees_from i d0 d \<longleftrightarrow> (\<forall>j \<ge> i. map_of d (segment_path j) = map_of d0 (segment_path j))"

lemma agrees_live:
  assumes "agrees_from (fl_segment_index fl) d0 d"
  shows "live d fl = live d0 fl" "i \<in> set (live d fl) \<Longrightarrow> seg_bytes d i = seg_bytes d0 i"
proof -
  have "set (live d fl) = set (live d0 fl)" using assms by (auto simp: agrees_from_def seg_set_map_of set_live)
  then show "live d fl = live d0 fl" by (intro sorted_distinct_set_unique sorted_live distinct_live)
  show "i \<in> set (live d fl) \<Longrightarrow> seg_bytes d i = seg_bytes d0 i"
    using assms by (auto simp: agrees_from_def seg_bytes_def set_live)
qed

lemma live_from:
  assumes "agrees_from (fl_segment_index fl) d0 d" "good_floor T fl0 d0 fl"
  obtains k where "live d fl = drop k (live d0 fl0)" "k < length (live d0 fl0) \<or> k = 0" "0 < k \<longrightarrow> fl_floor_lsn fl \<le> T"
    "unat (fl_floor_lsn fl) = unat (fl_floor_lsn fl0) + length (concat (map (seg_bytes d0) (take k (live d0 fl0))))"
proof (cases "fl = fl0")
  case True
  then have "live d fl = drop 0 (live d0 fl0)" using agrees_live(1) [OF assms(1)] by simp
  with True show ?thesis using that [of 0] by simp
next
  case False
  with assms(2) obtain k where k: "k < length (live d0 fl0)" "fl_segment_index fl = live d0 fl0 ! k" "fl_floor_lsn fl \<le> T"
    "unat (fl_floor_lsn fl) = unat (fl_floor_lsn fl0) + length (concat (map (seg_bytes d0) (take k (live d0 fl0))))"
    by (auto simp: good_floor_def)
  have "live d fl = filter (\<lambda>i. live d0 fl0 ! k \<le> i) (live d0 fl0)"
    using good_floor_ge [OF assms(2)] agrees_live(1) [OF assms(1)] k(2)
    by (auto simp: live_def intro!: filter_cong)
  also have "\<dots> = drop k (live d0 fl0)" by (rule filter_ge_nth [OF sorted_live distinct_live k(1)])
  finally show ?thesis using k that by blast
qed

lemma log_image_concat: "concat (map log_image rss) = log_image (concat rss)"
  by (induction rss) simp_all

lemma file_len_seg: "file_len d (segment_path i) = of_nat (length (seg_bytes d i))"
  by (simp add: file_len_def seg_bytes_def split: option.splits)

lemma planning_eq:
  assumes "dir_ok d"
  shows "map (\<lambda>(index, path). (index, file_len d path)) (filter (\<lambda>(index, path). fl_segment_index fl \<le> index) (list_segments d))
    = map (\<lambda>i. (i, of_nat (length (seg_bytes d i)))) (live d fl)"
  by (simp add: live_segments [OF assms] file_len_seg comp_def)

lemma plan_floor_cases:
  "plan_floor current target segs = current \<or>
     segs \<noteq> [] \<and> plan_floor current target segs = choose_floor target (fl_floor_lsn current) segs current"
  by (cases segs) (auto simp: plan_floor_def)

lemma sum_lengths:
  assumes "length (concat (map f xs)) < 2 ^ 64"
  shows "sum_list (map (\<lambda>x. unat (snd x)) (map (\<lambda>i. (i, of_nat (length (f i)) :: u64)) xs)) = length (concat (map f xs))"
  using assms by (induction xs) (simp_all add: unat_of_nat_small)

lemma plan_good:
  assumes d: "dir_ok d" "read_floor crc d = Inr fl" "agrees_from (fl_segment_index fl) d0 d" "good_floor T fl0 d0 fl"
    and total: "unat (fl_floor_lsn fl0) + length (concat (map (seg_bytes d0) (live d0 fl0))) < 2 ^ 64"
    and plan: "truncation_plan crc d target = Inr (current, Some new)" "target \<le> T"
  shows "good_floor T fl0 d0 new" "fl_segment_index fl \<le> fl_segment_index new"
proof -
  obtain k where k: "live d fl = drop k (live d0 fl0)" "k < length (live d0 fl0) \<or> k = 0" "0 < k \<longrightarrow> fl_floor_lsn fl \<le> T"
    "unat (fl_floor_lsn fl) = unat (fl_floor_lsn fl0) + length (concat (map (seg_bytes d0) (take k (live d0 fl0))))"
    by (rule live_from [OF d(3,4)])
  let ?L = "live d fl" and ?ps = "map (\<lambda>i. (i, of_nat (length (seg_bytes d i)) :: u64)) (live d fl)"
  have same: "map (seg_bytes d) ?L = map (seg_bytes d0) ?L" using agrees_live(2) [OF d(3)] by simp
  have split: "concat (map (seg_bytes d0) (live d0 fl0)) = concat (map (seg_bytes d0) (take k (live d0 fl0))) @ concat (map (seg_bytes d) ?L)"
    unfolding same unfolding k(1) by (simp flip: concat_append map_append)
  have small: "unat (fl_floor_lsn fl) + length (concat (map (seg_bytes d) ?L)) < 2 ^ 64" using total k(4) by (simp add: split)
  have part: "sum_list (map (\<lambda>x. unat (snd x)) (take j ?ps)) = length (concat (map (seg_bytes d) (take j ?L)))" for j
  proof -
    have "length (concat (map (seg_bytes d) (take j ?L))) \<le> length (concat (map (seg_bytes d) ?L))"
      by (subst (2) append_take_drop_id [of j "?L", symmetric]) (simp del: append_take_drop_id)
    then show ?thesis unfolding take_map using small by (intro sum_lengths) simp
  qed
  from plan d(1,2) have new: "new = plan_floor fl target ?ps" "fl_segment_index new \<noteq> fl_segment_index fl" "fl_floor_lsn new \<le> target"
    by (auto simp: truncation_plan_def planning_eq Let_def split: if_splits)
  then have ne: "?ps \<noteq> []" and ch: "new = choose_floor target (fl_floor_lsn fl) ?ps fl"
    using plan_floor_cases [of fl target ?ps] by auto
  have "unat (fl_floor_lsn fl) + sum_list (map (\<lambda>x. unat (snd x)) ?ps) < 2 ^ 64" using small part [of "length ?ps"] by simp
  from choose_floor_position [OF ne this, of target fl, folded ch, unfolded part] obtain j where "j < length ?ps"
    "fl_segment_index new = fst (?ps ! j)"
    and pos: "unat (fl_floor_lsn new) = unat (fl_floor_lsn fl) + length (concat (map (seg_bytes d) (take j ?L)))"
    by blast
  then have j: "j < length ?L" "fl_segment_index new = ?L ! j" by simp_all
  have bytes: "map (seg_bytes d) (take j ?L) = map (seg_bytes d0) (take j ?L)" using same by (auto dest: in_set_takeD)
  have "unat (fl_floor_lsn new) = unat (fl_floor_lsn fl0) + length (concat (map (seg_bytes d0) (take (k + j) (live d0 fl0))))"
    using pos [unfolded bytes] k(4) by (simp add: take_add k(1))
  moreover have "k + j < length (live d0 fl0)" "?L ! j = live d0 fl0 ! (k + j)" using j(1) by (simp_all add: k(1))
  moreover have "fl_floor_lsn new \<le> T" using new(3) plan(2) by (rule order.trans)
  ultimately show "good_floor T fl0 d0 new"
    unfolding good_floor_def using j(2) by (intro disjI2 exI [of _ "k + j"]) simp
  show "fl_segment_index fl \<le> fl_segment_index new" using j(1,2) nth_mem [OF j(1)] by (simp add: set_live)
qed

lemma log_bytes_drop: "k < length rss \<Longrightarrow> drop k (log_bytes rss tail) = log_bytes (drop k rss) tail"
  by (cases rss rule: rev_cases) (simp_all add: log_bytes_snoc drop_map)

lemma holds_log_floor:
  assumes log: "holds_log crc limit d0 fl0 rss tail"
    and d: "dir_ok d" "read_floor crc d = Inr fl" "agrees_from (fl_segment_index fl) d0 d" "good_floor T fl0 d0 fl"
  obtains k where "holds_log crc limit d fl (drop k rss) tail" "drop k rss \<noteq> [] \<or> k = 0" "0 < k \<longrightarrow> fl_floor_lsn fl \<le> T"
    "unat (fl_floor_lsn fl) = unat (fl_floor_lsn fl0) + length (log_image (concat (take k rss)))"
proof -
  obtain k where k: "live d fl = drop k (live d0 fl0)" "k < length (live d0 fl0) \<or> k = 0" "0 < k \<longrightarrow> fl_floor_lsn fl \<le> T"
    "unat (fl_floor_lsn fl) = unat (fl_floor_lsn fl0) + length (concat (map (seg_bytes d0) (take k (live d0 fl0))))"
    by (rule live_from [OF d(3,4)])
  have m: "map (seg_bytes d0) (live d0 fl0) = log_bytes rss tail" using log by (simp add: holds_log_def)
  have len: "length (log_bytes rss tail) = length rss" by (cases rss rule: rev_cases) (simp_all add: log_bytes_snoc)
  then have kr: "k < length rss \<or> k = 0" using k(2) m by (metis length_map)
  have tk: "map (seg_bytes d0) (take k (live d0 fl0)) = map log_image (take k rss)"
    using kr by (cases rss rule: rev_cases) (auto simp: take_map [symmetric] m log_bytes_snoc)
  have drop: "map (seg_bytes d) (live d fl) = log_bytes (drop k rss) tail"
    using kr log_bytes_drop [of k rss tail] agrees_live(2) [OF d(3)] m by (auto simp: k(1) drop_map [symmetric] cong: map_cong)
  have floor: "unat (fl_floor_lsn fl) = unat (fl_floor_lsn fl0) + length (log_image (concat (take k rss)))"
    using k(4) by (simp add: tk log_image_concat)
  have sub: "set (log_bytes (drop k rss) tail) \<subseteq> set (log_bytes rss tail)"
    using kr log_bytes_drop [of k rss tail] set_drop_subset [of k "log_bytes rss tail"] by auto
  have "log_image (concat rss) = log_image (concat (take k rss)) @ log_image (concat (drop k rss))"
    by (simp flip: concat_append log_image_simps(3))
  then have "holds_log crc limit d fl (drop k rss) tail"
    using log d(1,2) drop floor sub kr
    by (auto simp: holds_log_def list_all_iff dest: in_set_dropD)
  then show ?thesis using that [of k] kr k(3) floor by auto
qed

end
