(* ===== verification/Wal_Recycle.thy ===== *)
theory Wal_Recycle
  imports Wal_Truncate
begin

text \<open>
  Truncation beside the writer. \<open>sys_step\<close> runs the file operations of a truncation interleaved with
  appenders and the writer, so that a step of the writer or a crash can fall between any two of them.
  The truncated directory is related to the one the writer would have without truncation, and through
  that relation the invariant of \<open>Wal_Durability\<close> carries over.
\<close>

section \<open>Truncation beside the writer\<close>

inductive sys_step ::
  "crc_append \<Rightarrow> wal_writer_config \<Rightarrow> (string \<Rightarrow> bool) \<Rightarrow> lsn \<Rightarrow> (wal_system \<times> phase \<times> wal_record list) \<times> fs_op list
     \<Rightarrow> (wal_system \<times> phase \<times> wal_record list) \<times> fs_op list \<Rightarrow> bool"
  for crc cfg removable T where
  sys_log: "wal_step crc cfg st st' \<Longrightarrow> sys_step crc cfg removable T (st, ops) (st', ops)"
| sys_truncate: "target \<le> T \<Longrightarrow> truncation_plan crc (sy_dir s) target = Inr (current, Some new) \<Longrightarrow>
    sys_step crc cfg removable T ((s, p, log), [])
      ((s, p, log), truncate_ops crc removable new (list_segments (sy_dir s)))"
| sys_op: "sys_step crc cfg removable T ((s, p, log), op # ops) ((s\<lparr>sy_dir := run_op op (sy_dir s)\<rparr>, p, log), ops)"

lemma sys_ops_run:
  "(sys_step crc cfg removable T)\<^sup>*\<^sup>* ((s, p, log), ops) ((s\<lparr>sy_dir := fold run_op ops (sy_dir s)\<rparr>, p, log), [])"
proof (induction ops arbitrary: s)
  case (Cons op ops)
  from converse_rtranclp_into_rtranclp [OF sys_op [of crc cfg removable T s p log op ops] Cons.IH] show ?case by simp
qed simp

subsection \<open>The truncated directory\<close>

definition truncated :: "crc_append \<Rightarrow> lsn \<Rightarrow> wal_floor \<Rightarrow> wal_dir \<Rightarrow> wal_dir \<Rightarrow> wal_floor \<Rightarrow> bool" where
  "truncated crc T fl0 d0 d fl \<longleftrightarrow>
     dir_ok d \<and> manifest_synced d \<and> read_floor crc d = Inr fl \<and> good_floor T fl0 d0 fl
     \<and> agrees_from (fl_segment_index fl) d0 d \<and> seg_set d \<subseteq> seg_set d0"

text \<open>
  The operations a truncation has still to do: unlink segments below the floor, or these after the
  steps that move the floor.
\<close>

definition removes :: "u32 list \<Rightarrow> fs_op list" where
  "removes is = map (\<lambda>i. RemoveOp (segment_path i)) is"

definition floor_ops :: "crc_append \<Rightarrow> wal_floor \<Rightarrow> fs_op list" where
  "floor_ops crc new =
     [CreateOp MANIFEST_TMP_FILE, AppendOp MANIFEST_TMP_FILE (manifest_image crc new), SyncOp MANIFEST_TMP_FILE,
      RenameOp MANIFEST_TMP_FILE MANIFEST_FILE]"

text \<open>The temporary manifest after the first \<open>n\<close> operations.\<close>

definition tmp_after :: "crc_append \<Rightarrow> wal_floor \<Rightarrow> nat \<Rightarrow> wal_dir \<Rightarrow> bool" where
  "tmp_after crc new n d \<longleftrightarrow> n < 4 \<and>
     (n = 1 \<longrightarrow> map_of d MANIFEST_TMP_FILE = Some \<lparr>df_content = [], df_synced = 0\<rparr>)
     \<and> (n = 2 \<longrightarrow> map_of d MANIFEST_TMP_FILE = Some \<lparr>df_content = manifest_image crc new, df_synced = 0\<rparr>)
     \<and> (n = 3 \<longrightarrow> map_of d MANIFEST_TMP_FILE = Some \<lparr>df_content = manifest_image crc new, df_synced = 28\<rparr>)"

definition ops_ok :: "crc_append \<Rightarrow> lsn \<Rightarrow> wal_floor \<Rightarrow> wal_dir \<Rightarrow> wal_dir \<Rightarrow> wal_floor \<Rightarrow> fs_op list \<Rightarrow> bool" where
  "ops_ok crc T fl0 d0 d fl ops \<longleftrightarrow>
     (\<exists>is. (ops = removes is \<and> (\<forall>i \<in> set is. i < fl_segment_index fl))
       \<or> (\<exists>new n. ops = drop n (floor_ops crc new) @ removes is \<and> tmp_after crc new n d \<and> good_floor T fl0 d0 new
            \<and> fl_segment_index fl \<le> fl_segment_index new \<and> (\<forall>i \<in> set is. i < fl_segment_index new)))"

lemma truncate_ops_ok:
  assumes "dir_ok d" "good_floor T fl0 d0 new" "fl_segment_index fl \<le> fl_segment_index new"
  shows "ops_ok crc T fl0 d0 d fl (truncate_ops crc removable new (list_segments d))"
proof -
  let ?is = "filter (\<lambda>i. i < fl_segment_index new \<and> removable (segment_path i)) (sorted_list_of_set (seg_set d))"
  have "truncate_ops crc removable new (list_segments d) = drop 0 (floor_ops crc new) @ removes ?is"
    by (simp add: truncate_ops_def floor_ops_def unlink_ops_def removes_def list_segments_eq [OF assms(1)] filter_map comp_def)
  moreover have "tmp_after crc new 0 d" "\<forall>i \<in> set ?is. i < fl_segment_index new" by (simp_all add: tmp_after_def)
  ultimately show ?thesis unfolding ops_ok_def using assms(2,3) by blast
qed

lemma manifest_synced_other [simp]:
  "manifest_synced (create_file MANIFEST_TMP_FILE d) = manifest_synced d"
  "manifest_synced (append_file MANIFEST_TMP_FILE bs d) = manifest_synced d"
  "manifest_synced (sync_file MANIFEST_TMP_FILE d) = manifest_synced d"
  "manifest_synced (remove_file (segment_path i) d) = manifest_synced d"
  by (simp_all add: manifest_synced_def map_of_ops)

lemma read_floor_tmp [simp]:
  "read_floor crc (create_file MANIFEST_TMP_FILE d) = read_floor crc d"
  "read_floor crc (append_file MANIFEST_TMP_FILE bs d) = read_floor crc d"
  "read_floor crc (sync_file MANIFEST_TMP_FILE d) = read_floor crc d"
  by (rule read_floor_cong; simp add: map_of_ops)+

lemma agrees_tmp [simp]:
  "agrees_from i d0 (create_file MANIFEST_TMP_FILE d) = agrees_from i d0 d"
  "agrees_from i d0 (append_file MANIFEST_TMP_FILE bs d) = agrees_from i d0 d"
  "agrees_from i d0 (sync_file MANIFEST_TMP_FILE d) = agrees_from i d0 d"
  "j < i \<Longrightarrow> agrees_from i d0 (remove_file (segment_path j) d) = agrees_from i d0 d"
  by (auto simp: agrees_from_def map_of_ops)

lemma seg_set_tmp [simp]: "seg_set (create_file MANIFEST_TMP_FILE d) = seg_set d"
  by (auto simp: seg_set_map_of map_of_ops)

lemma agrees_mono: "agrees_from i d0 d \<Longrightarrow> i \<le> j \<Longrightarrow> agrees_from j d0 d"
  by (auto simp: agrees_from_def intro: order.trans)

lemma truncated_tmp:
  assumes "truncated crc T fl0 d0 d fl"
  shows "truncated crc T fl0 d0 (create_file MANIFEST_TMP_FILE d) fl"
    "truncated crc T fl0 d0 (append_file MANIFEST_TMP_FILE bs d) fl"
    "truncated crc T fl0 d0 (sync_file MANIFEST_TMP_FILE d) fl"
    "i < fl_segment_index fl \<Longrightarrow> truncated crc T fl0 d0 (remove_file (segment_path i) d) fl"
  using assms dir_ok_create_tmp dir_ok_remove by (auto simp: truncated_def)

lemma truncated_rename:
  assumes t: "truncated crc T fl0 d0 d fl" and new: "good_floor T fl0 d0 new" "fl_segment_index fl \<le> fl_segment_index new"
    and tmp: "map_of d MANIFEST_TMP_FILE = Some \<lparr>df_content = manifest_image crc new, df_synced = 28\<rparr>"
  shows "truncated crc T fl0 d0 (rename_file MANIFEST_TMP_FILE MANIFEST_FILE d) new"
proof -
  let ?d = "rename_file MANIFEST_TMP_FILE MANIFEST_FILE d"
  have m: "map_of ?d n = (if n = MANIFEST_FILE then map_of d MANIFEST_TMP_FILE
      else if n = MANIFEST_TMP_FILE then None else map_of d n)" for n
    using tmp by (simp add: rename_file_def update_conv' delete_conv')
  have "dir_ok ?d"
    using t dir_ok_remove [of d MANIFEST_TMP_FILE] tmp
    by (auto simp: truncated_def rename_file_def dir_ok_def remove_file_def update_keys distinct_update)
  moreover have "read_floor crc ?d = Inr new"
    using m [of MANIFEST_FILE] tmp by (intro read_manifest_image [where f = "the (map_of d MANIFEST_TMP_FILE)"]) simp_all
  moreover have "agrees_from (fl_segment_index new) d0 d" using agrees_mono [OF _ new(2)] t by (simp add: truncated_def)
  then have "agrees_from (fl_segment_index new) d0 ?d" by (simp add: agrees_from_def m)
  moreover have "manifest_synced ?d" by (simp add: manifest_synced_def m tmp)
  moreover have "seg_set ?d \<subseteq> seg_set d0" using t by (auto simp: truncated_def seg_set_map_of m)
  ultimately show ?thesis using new(1) by (simp add: truncated_def)
qed

lemma op_step:
  assumes t: "truncated crc T fl0 d0 d fl" and ops: "ops_ok crc T fl0 d0 d fl (op # ops)"
  shows "\<exists>fl'. truncated crc T fl0 d0 (run_op op d) fl' \<and> ops_ok crc T fl0 d0 (run_op op d) fl' ops"
proof -
  from ops consider (remove) i "is" where "op = RemoveOp (segment_path i)" "ops = removes is" "i < fl_segment_index fl"
      "\<forall>i \<in> set is. i < fl_segment_index fl"
    | (floor) new n "is" where "op # ops = drop n (floor_ops crc new) @ removes is" "tmp_after crc new n d"
      "good_floor T fl0 d0 new" "fl_segment_index fl \<le> fl_segment_index new" "\<forall>i \<in> set is. i < fl_segment_index new"
    by (auto simp: ops_ok_def removes_def)
  then show ?thesis
  proof cases
    case remove
    then show ?thesis using truncated_tmp(4) [OF t] by (auto simp: ops_ok_def)
  next
    case floor
    show ?thesis
    proof (cases "n = 3")
      case True
      then have "op = RenameOp MANIFEST_TMP_FILE MANIFEST_FILE" "ops = removes is"
        using floor(1) by (simp_all add: floor_ops_def)
      then show ?thesis using truncated_rename [OF t floor(3,4)] floor(2,5) True by (auto simp: tmp_after_def ops_ok_def)
    next
      case False
      then have "n = 0 \<or> n = 1 \<or> n = 2" using floor(2) by (auto simp: tmp_after_def)
      then have "truncated crc T fl0 d0 (run_op op d) fl \<and> tmp_after crc new (Suc n) (run_op op d)
          \<and> ops = drop (Suc n) (floor_ops crc new) @ removes is"
        using floor(1,2) by (elim disjE) (simp_all add: floor_ops_def tmp_after_def map_of_ops truncated_tmp [OF t])
      then show ?thesis unfolding ops_ok_def using floor(3-5) by blast
    qed
  qed
qed

subsection \<open>Steps of the writer\<close>

text \<open>The writer changes the newest segment only, in the truncated directory as in the other one.\<close>

lemma good_floor_top:
  assumes top: "\<forall>j \<in> set (live d0 fl0). j \<le> i" and segs: "live d0' fl0 = live d0 fl0 \<or> live d0' fl0 = live d0 fl0 @ [i]"
    and same: "\<And>j. j \<in> set (live d0 fl0) \<Longrightarrow> j \<noteq> i \<Longrightarrow> seg_bytes d0' j = seg_bytes d0 j"
    and fl: "good_floor T fl0 d0 fl"
  shows "good_floor T fl0 d0' fl"
proof (cases "fl = fl0")
  case False
  with fl obtain k where k: "k < length (live d0 fl0)" "fl_segment_index fl = live d0 fl0 ! k" "fl_floor_lsn fl \<le> T"
    "unat (fl_floor_lsn fl) = unat (fl_floor_lsn fl0) + length (concat (map (seg_bytes d0) (take k (live d0 fl0))))"
    by (auto simp: good_floor_def)
  have "seg_bytes d0' j = seg_bytes d0 j" if "j \<in> set (take k (live d0 fl0))" for j
  proof -
    from that k(1) obtain m where m: "m < k" "j = live d0 fl0 ! m" by (auto simp: in_set_conv_nth)
    then have "j \<le> live d0 fl0 ! k" "j \<noteq> live d0 fl0 ! k"
      using k(1) sorted_nth_mono [OF sorted_live, of m k d0 fl0] nth_eq_iff_index_eq [OF distinct_live, of m d0 fl0 k] by auto
    moreover have "live d0 fl0 ! k \<le> i" using top nth_mem [OF k(1)] by simp
    ultimately show ?thesis using same [of j] nth_mem [of m "live d0 fl0"] m k(1) by auto
  qed
  then have "map (seg_bytes d0') (take k (live d0 fl0)) = map (seg_bytes d0) (take k (live d0 fl0))" by simp
  moreover have "take k (live d0' fl0) = take k (live d0 fl0)" "live d0' fl0 ! k = live d0 fl0 ! k" "k < length (live d0' fl0)"
    using segs k(1) by (auto simp: nth_append)
  ultimately show ?thesis unfolding good_floor_def using k by metis
qed (simp add: good_floor_def)

lemma good_floor_index: "good_floor T fl0 d0 fl \<Longrightarrow> fl_segment_index fl0 \<le> i \<Longrightarrow> \<forall>j \<in> seg_set d0. j \<le> i \<Longrightarrow> fl_segment_index fl \<le> i"
  using nth_mem [of _ "live d0 fl0"] by (auto simp: good_floor_def set_live)

definition beside :: "crc_append \<Rightarrow> lsn \<Rightarrow> wal_floor \<Rightarrow> fs_op list \<Rightarrow> wal_floor \<Rightarrow> wal_dir \<Rightarrow> wal_dir \<Rightarrow> bool" where
  "beside crc T fl0 ops fl d0 d \<longleftrightarrow> truncated crc T fl0 d0 d fl \<and> ops_ok crc T fl0 d0 d fl ops"

lemma beside_change:
  assumes b: "beside crc T fl0 ops fl d0 d" and i: "fl_segment_index fl0 \<le> i" "\<forall>j \<in> seg_set d0. j \<le> i"
    and d0': "map_of d0' = (map_of d0)(segment_path i \<mapsto> f)" and d': "map_of d' = (map_of d)(segment_path i \<mapsto> f)" "dir_ok d'"
  shows "beside crc T fl0 ops fl d0' d'"
proof -
  have sets: "seg_set d0' = insert i (seg_set d0)" "seg_set d' = insert i (seg_set d)"
    by (auto simp: seg_set_map_of d0' d'(1) split: if_splits)
  have "live d0' fl0 = (if i \<in> seg_set d0 then live d0 fl0 else live d0 fl0 @ [i])"
  proof (cases "i \<in> seg_set d0")
    case False
    then have "\<And>j. j \<in> seg_set d0 \<Longrightarrow> j < i" using i(2) le_neq_trans by blast
    then have "live (create_file (segment_path i) d0) fl0 = live d0 fl0 @ [i]" using i(1) by (rule live_create)
    moreover have "live d0' fl0 = live (create_file (segment_path i) d0) fl0" by (simp only: live_def sets seg_set_create)
    ultimately show ?thesis using False by simp
  qed (simp add: live_def sets insert_absorb)
  moreover have "seg_bytes d0' j = seg_bytes d0 j" if "j \<noteq> i" for j using that by (simp add: seg_bytes_def d0')
  ultimately have good: "good_floor T fl0 d0' new" if "good_floor T fl0 d0 new" for new
    using i(2) good_floor_top [OF _ _ _ that, of i d0'] by (simp add: set_live)
  have "read_floor crc d' = read_floor crc d" by (rule read_floor_cong) (simp add: d'(1))
  moreover have "manifest_synced d' = manifest_synced d" by (simp add: manifest_synced_def d'(1))
  moreover have "tmp_after crc new n d' = tmp_after crc new n d" for new n by (simp add: tmp_after_def d'(1))
  moreover have "agrees_from k d0' d'" if "agrees_from k d0 d" for k using that by (simp add: agrees_from_def d0' d'(1))
  ultimately show ?thesis
    using b good d'(2) sets unfolding beside_def truncated_def ops_ok_def by (metis insert_mono)
qed

lemma beside_file:
  assumes "beside crc T fl0 ops fl d0 d" "fl_segment_index fl0 \<le> i" "\<forall>j \<in> seg_set d0. j \<le> i"
  shows "map_of d (segment_path i) = map_of d0 (segment_path i)"
  using assms good_floor_index [of T fl0 d0 fl i] by (simp add: beside_def truncated_def agrees_from_def)

lemma beside_ops:
  assumes b: "beside crc T fl0 ops fl d0 d" and i: "fl_segment_index fl0 \<le> i" "\<forall>j \<in> seg_set d0. j \<le> i"
  shows "beside crc T fl0 ops fl (create_file (segment_path i) d0) (create_file (segment_path i) d)"
    "i \<in> seg_set d0 \<Longrightarrow> beside crc T fl0 ops fl (append_file (segment_path i) bs d0) (append_file (segment_path i) bs d)"
    "i \<in> seg_set d0 \<Longrightarrow> beside crc T fl0 ops fl (sync_file (segment_path i) d0) (sync_file (segment_path i) d)"
proof -
  have ok: "dir_ok d" using b by (simp add: beside_def truncated_def)
  note change = beside_change [OF b i] and same = beside_file [OF b i]
  show "beside crc T fl0 ops fl (create_file (segment_path i) d0) (create_file (segment_path i) d)"
    by (rule change) (simp_all add: map_of_ops dir_ok_create ok)
  assume "i \<in> seg_set d0"
  then obtain f where f: "map_of d0 (segment_path i) = Some f" by (auto simp: seg_set_map_of)
  with same have f': "map_of d (segment_path i) = Some f" by simp
  show "beside crc T fl0 ops fl (append_file (segment_path i) bs d0) (append_file (segment_path i) bs d)"
    by (rule change) (simp_all add: map_of_ops f f' ok)
  show "beside crc T fl0 ops fl (sync_file (segment_path i) d0) (sync_file (segment_path i) d)"
    by (rule change) (simp_all add: map_of_ops f f' ok)
qed

text \<open>The writer's place: behind every segment, or in the newest one.\<close>

definition writer_top :: "wal_floor \<Rightarrow> wal_dir \<Rightarrow> writer_driver \<Rightarrow> bool" where
  "writer_top fl0 d0 dr \<longleftrightarrow> fl_segment_index fl0 \<le> dr_current_index dr \<and>
     (case dr_current_file dr of
        None \<Rightarrow> \<forall>j \<in> seg_set d0. j < dr_current_index dr
      | Some path \<Rightarrow> path = segment_path (dr_current_index dr) \<and> dr_current_index dr \<in> seg_set d0
          \<and> (\<forall>j \<in> seg_set d0. j \<le> dr_current_index dr))"

lemma driver_top: "driver_ok fl0 s new \<Longrightarrow> writer_top fl0 (sy_dir s) (sy_driver s)"
  by (auto simp: driver_ok_def writer_top_def Let_def split: option.splits)

lemma writer_top_le: "writer_top fl0 d0 dr \<Longrightarrow> fl_segment_index fl0 \<le> dr_current_index dr \<and> (\<forall>j \<in> seg_set d0. j \<le> dr_current_index dr)"
  by (auto simp: writer_top_def less_imp_le split: option.splits)

definition tracks :: "crc_append \<Rightarrow> lsn \<Rightarrow> wal_floor \<Rightarrow> fs_op list \<Rightarrow> wal_floor \<Rightarrow> wal_system \<Rightarrow> wal_system \<Rightarrow> bool" where
  "tracks crc T fl0 ops fl s0 s \<longleftrightarrow> (\<exists>d0. s0 = s\<lparr>sy_dir := d0\<rparr> \<and> beside crc T fl0 ops fl d0 (sy_dir s))"

lemma tracksI: "beside crc T fl0 ops fl d0 (sy_dir s) \<Longrightarrow> tracks crc T fl0 ops fl (s\<lparr>sy_dir := d0\<rparr>) s"
  by (auto simp: tracks_def)

lemma ensure_open_tracks:
  assumes t: "tracks crc T fl0 ops fl s0 s" "writer_top fl0 (sy_dir s0) (sy_driver s)" and e: "ensure_segment_open s = (s', r)"
  obtains s0' where "ensure_segment_open s0 = (s0', r)" "tracks crc T fl0 ops fl s0' s'" "writer_top fl0 (sy_dir s0') (sy_driver s')"
proof -
  obtain d0 where s0: "s0 = s\<lparr>sy_dir := d0\<rparr>" and b: "beside crc T fl0 ops fl d0 (sy_dir s)"
    using t(1) by (auto simp: tracks_def)
  let ?i = "dr_current_index (sy_driver s)"
  have top: "fl_segment_index fl0 \<le> ?i" "\<forall>j \<in> seg_set d0. j \<le> ?i" using writer_top_le [OF t(2)] by (simp_all add: s0)
  note same = beside_file [OF b top]
  show ?thesis
  proof (cases "dr_current_file (sy_driver s) = None \<and> map_of d0 (segment_path ?i) = None")
    case True
    let ?dr = "(sy_driver s)\<lparr>dr_current_file := Some (segment_path ?i), dr_current_size := 0\<rparr>"
    have "s' = s\<lparr>sy_dir := create_file (segment_path ?i) (sy_dir s), sy_driver := ?dr\<rparr>" "r = Inr ()"
      using e True same by (auto simp: ensure_segment_open_def open_segment_file_def Let_def map_of_ops)
    then show ?thesis
      using that [of "s'\<lparr>sy_dir := create_file (segment_path ?i) d0\<rparr>"] True beside_ops(1) [OF b top] top
        tracksI [of crc T fl0 ops fl "create_file (segment_path ?i) d0" s']
      by (simp add: s0 ensure_segment_open_def open_segment_file_def Let_def map_of_ops writer_top_def)
  next
    case False
    then have "s' = s" "ensure_segment_open s0 = (s0, r)"
      using e same by (auto simp: s0 ensure_segment_open_def open_segment_file_def Let_def split: if_splits)
    then show ?thesis using that t by simp
  qed
qed

lemma flush_tracks:
  assumes t: "tracks crc T fl0 ops fl s0 s" "writer_top fl0 (sy_dir s0) (sy_driver s)"
  shows "tracks crc T fl0 ops fl (flush_current s0) (flush_current s)" "writer_top fl0 (sy_dir (flush_current s0)) (sy_driver (flush_current s))"
proof -
  obtain d0 where s0: "s0 = s\<lparr>sy_dir := d0\<rparr>" and b: "beside crc T fl0 ops fl d0 (sy_dir s)"
    using t(1) by (auto simp: tracks_def)
  let ?d0 = "case dr_current_file (sy_driver s) of None \<Rightarrow> d0 | Some path \<Rightarrow> sync_file path d0"
  have f: "flush_current s0 = (flush_current s)\<lparr>sy_dir := ?d0\<rparr>" "sy_driver (flush_current s) = (sy_driver s)\<lparr>dr_unflushed_bytes := 0, dr_durable_lsn := dr_pending_lsn (sy_driver s)\<rparr>"
    by (simp_all add: s0 flush_current_def publish_durable_lsn_def Let_def split: option.splits)
  have "beside crc T fl0 ops fl ?d0 (sy_dir (flush_current s))"
    using t(2) b beside_ops(3) [OF b]
    by (auto simp: s0 flush_current_def publish_durable_lsn_def Let_def writer_top_def split: option.splits)
  then show "tracks crc T fl0 ops fl (flush_current s0) (flush_current s)" unfolding f(1) by (rule tracksI)
  show "writer_top fl0 (sy_dir (flush_current s0)) (sy_driver (flush_current s))"
    using t(2) unfolding f by (auto simp: s0 writer_top_def split: option.splits)
qed

lemma rotate_tracks:
  assumes t: "tracks crc T fl0 ops fl s0 s" "writer_top fl0 (sy_dir s0) (sy_driver s)" and e: "rotate_segment s = (s', r)"
  obtains s0' where "rotate_segment s0 = (s0', r)" "tracks crc T fl0 ops fl s0' s'"
proof -
  let ?f = "\<lambda>s. if 0 < dr_unflushed_bytes (sy_driver s) then flush_current s else s"
  have dr: "sy_driver s0 = sy_driver s" using t(1) by (auto simp: tracks_def)
  have f: "tracks crc T fl0 ops fl (?f s0) (?f s)" "writer_top fl0 (sy_dir (?f s0)) (sy_driver (?f s))"
    using t flush_tracks [OF t] by (simp_all add: dr)
  obtain d0 where s0: "?f s0 = (?f s)\<lparr>sy_dir := d0\<rparr>" and b: "beside crc T fl0 ops fl d0 (sy_dir (?f s))"
    using f(1) by (auto simp: tracks_def)
  have "rotate_segment s0 = (s'\<lparr>sy_dir := d0\<rparr>, r)" "sy_dir s' = sy_dir (?f s)"
    using e unfolding rotate_segment_def Let_def s0 by (auto split: option.splits)
  moreover from this have "tracks crc T fl0 ops fl (s'\<lparr>sy_dir := d0\<rparr>) s'" using b by (intro tracksI) simp
  ultimately show ?thesis using that by simp
qed

lemma chunk_tracks:
  assumes t: "tracks crc T fl0 ops fl s0 s" "writer_top fl0 (sy_dir s0) (sy_driver s)" and e: "write_chunk bytes c n s = (s', r)"
  obtains s0' where "write_chunk bytes c n s0 = (s0', r)" "tracks crc T fl0 ops fl s0' s'"
proof -
  obtain d0 where s0: "s0 = s\<lparr>sy_dir := d0\<rparr>" and b: "beside crc T fl0 ops fl d0 (sy_dir s)"
    using t(1) by (auto simp: tracks_def)
  show ?thesis
  proof (cases r)
    case (Inl err)
    then have "s' = s" "write_chunk bytes c n s0 = (s0, r)"
      using e by (auto simp: s0 write_chunk_def Let_def split: sum.splits option.splits if_splits)
    then show ?thesis using that t by simp
  next
    case (Inr c')
    then obtain path dr bs where w: "dr_current_file (sy_driver s) = Some path" "s' = s\<lparr>sy_dir := append_file path bs (sy_dir s), sy_driver := dr\<rparr>"
      "dr_current_file dr = Some path" "dr_current_index dr = dr_current_index (sy_driver s)"
      "write_chunk bytes c n s0 = (s\<lparr>sy_dir := append_file path bs d0, sy_driver := dr\<rparr>, r)"
      using e by (auto simp: s0 write_chunk_def Let_def split: sum.splits option.splits if_splits)
    then show ?thesis
      using that [of "s'\<lparr>sy_dir := append_file path bs d0\<rparr>"] beside_ops(2) [OF b] t(2)
        tracksI [of crc T fl0 ops fl "append_file path bs d0" s']
      by (auto simp: writer_top_def s0)
  qed
qed

lemma write_step_tracks:
  assumes t: "tracks crc T fl0 ops fl s0 s" "writer_top fl0 (sy_dir s0) (sy_driver s)" and w: "write_step cfg bytes c s = (s', r)"
  obtains s0' where "write_step cfg bytes c s0 = (s0', r)" "tracks crc T fl0 ops fl s0' s'"
proof (cases "peek_record_length (drop c bytes)")
  case (Inl e)
  with w that t show ?thesis by (simp add: write_step_def)
next
  case n: (Inr n)
  obtain s1 r1 where e: "ensure_segment_open s = (s1, r1)" by fastforce
  from ensure_open_tracks [OF t e] obtain s01 where s01: "ensure_segment_open s0 = (s01, r1)" "tracks crc T fl0 ops fl s01 s1"
    "writer_top fl0 (sy_dir s01) (sy_driver s1)" .
  have dr: "sy_driver s01 = sy_driver s1" using s01(2) by (auto simp: tracks_def)
  show ?thesis
  proof (cases r1)
    case (Inl x)
    with w n e that s01 show ?thesis by (simp add: write_step_def)
  next
    case (Inr u)
    show ?thesis
    proof (cases "saturating_sub (wc_segment_size_bytes cfg) (dr_current_size (sy_driver s1)) < n \<and> 0 < dr_current_size (sy_driver s1)")
      case True
      obtain s2 r2 where ro: "rotate_segment s1 = (s2, r2)" by fastforce
      from rotate_tracks [OF s01(2,3) ro] obtain s02 where s02: "rotate_segment s01 = (s02, r2)" "tracks crc T fl0 ops fl s02 s2" .
      from w n e Inr True ro have "s' = s2" by (auto simp: write_step_def split: sum.splits)
      with w n e Inr True ro s01(1) s02 dr show ?thesis
        by (intro that [of s02]) (auto simp: write_step_def split: sum.splits)
    next
      case False
      with w n e Inr have "write_chunk bytes c n s1 = (s', r)" by (auto simp: write_step_def Let_def)
      from chunk_tracks [OF s01(2,3) this] obtain s02 where "write_chunk bytes c n s01 = (s02, r)" "tracks crc T fl0 ops fl s02 s'" .
      with n s01(1) Inr False dr that show ?thesis by (auto simp: write_step_def Let_def)
    qed
  qed
qed

lemma sy_dir_commute:
  "s\<lparr>sy_dir := d, sy_buffer := b\<rparr> = s\<lparr>sy_buffer := b, sy_dir := d\<rparr>"
  "s\<lparr>sy_dir := d, sy_driver := dr\<rparr> = s\<lparr>sy_driver := dr, sy_dir := d\<rparr>"
  "s\<lparr>sy_dir := d, sy_wake := w\<rparr> = s\<lparr>sy_wake := w, sy_dir := d\<rparr>"
  by simp_all

lemma wal_step_tracks:
  assumes "wal_step crc cfg (s, p, log) (s', p', log')" and t: "tracks crc T fl0 ops fl s0 s"
    and top: "p \<noteq> Stopped \<longrightarrow> writer_top fl0 (sy_dir s0) (sy_driver s)"
  obtains s0' where "wal_step crc cfg (s0, p, log) (s0', p', log')" "tracks crc T fl0 ops fl s0' s'"
proof -
  obtain d0 where s0: "s0 = s\<lparr>sy_dir := d0\<rparr>" and b: "beside crc T fl0 ops fl d0 (sy_dir s)"
    using t by (auto simp: tracks_def)
  have same: "tracks crc T fl0 ops fl (s'\<lparr>sy_dir := d0\<rparr>) s'" if "sy_dir s' = sy_dir s"
    using b that by (intro tracksI) simp
  from assms(1) show ?thesis
  proof cases
    case (step_append r b' l)
    then have "wal_step crc cfg (s0, p, log) (s'\<lparr>sy_dir := d0\<rparr>, p', log')"
      using wal_step.step_append [of crc r s0 b' l cfg p log] by (simp add: s0 sy_dir_commute)
    then show ?thesis using that same step_append by simp
  next
    case (step_drain b' bytes st en)
    then have "wal_step crc cfg (s0, p, log) (s'\<lparr>sy_dir := d0\<rparr>, p', log')"
      using wal_step.step_drain [of s0 b' bytes st en crc cfg log] by (simp add: s0 sy_dir_commute)
    then show ?thesis using that same step_drain by simp
  next
    case (step_write c bytes c' en)
    from write_step_tracks [OF t _ step_write(5)] top step_write(1) obtain s0' where
      "write_step cfg bytes c s0 = (s0', Inr c')" "tracks crc T fl0 ops fl s0' s'" by blast
    with step_write show ?thesis using that [of s0'] by (auto intro: wal_step.step_write)
  next
    case (step_write_failed c bytes s2 e en)
    from write_step_tracks [OF t _ step_write_failed(6)] top step_write_failed(1) obtain s0' where s0':
      "write_step cfg bytes c s0 = (s0', Inl e)" "tracks crc T fl0 ops fl s0' s2" by blast
    then obtain d0' where d0': "s0' = s2\<lparr>sy_dir := d0'\<rparr>" "beside crc T fl0 ops fl d0' (sy_dir s2)" by (auto simp: tracks_def)
    have "thread_failed s0' = (thread_failed s2)\<lparr>sy_dir := d0'\<rparr>" "sy_dir (thread_failed s2) = sy_dir s2"
      by (simp_all add: d0' thread_failed_def publish_fatal_def)
    with d0'(2) have "tracks crc T fl0 ops fl (thread_failed s0') s'" using tracksI step_write_failed(2) by simp
    moreover have "wal_step crc cfg (s0, p, log) (thread_failed s0', p', log')"
      using step_write_failed wal_step.step_write_failed [OF _ s0'(1), of crc en log] by simp
    ultimately show ?thesis using that by blast
  next
    case (step_written c bytes en)
    then have "wal_step crc cfg (s0, p, log) (s'\<lparr>sy_dir := d0\<rparr>, p', log')"
      using wal_step.step_written [of c bytes crc cfg s0 en log] by (simp add: s0 sy_dir_commute)
    then show ?thesis using that same step_written by simp
  next
    case step_flush
    then have "wal_step crc cfg (s0, p, log) (flush_current s0, p', log')"
      using wal_step.step_flush [of s0 crc cfg log] by (simp add: s0)
    moreover have "tracks crc T fl0 ops fl (flush_current s0) s'" using flush_tracks [OF t] top step_flush by simp
    ultimately show ?thesis using that by blast
  next
    case (step_wake w)
    then have "wal_step crc cfg (s0, p, log) (s'\<lparr>sy_dir := d0\<rparr>, p', log')"
      using wal_step.step_wake [of crc cfg s0 p log w] by (simp add: s0 sy_dir_commute)
    then show ?thesis using that same step_wake by simp
  next
    case step_close
    then have "wal_step crc cfg (s0, p, log) (s'\<lparr>sy_dir := d0\<rparr>, p', log')"
      using wal_step.step_close [of crc cfg s0 p log] by (simp add: s0 sy_dir_commute)
    then show ?thesis using that same step_close by simp
  qed
qed

section \<open>The invariant of the whole system\<close>

definition sys_inv ::
  "crc_append \<Rightarrow> nat \<Rightarrow> lsn \<Rightarrow> wal_floor \<Rightarrow> wal_record list list \<Rightarrow> nat \<Rightarrow> (wal_system \<times> phase \<times> wal_record list) \<times> fs_op list \<Rightarrow> bool" where
  "sys_inv crc limit T fl0 old base st \<longleftrightarrow>
     (case st of ((s, p, log), ops) \<Rightarrow>
        \<exists>s0 fl. wal_inv crc limit fl0 old base (s0, p, log) \<and> tracks crc T fl0 ops fl s0 s)"

lemma wal_inv_total:
  assumes "wal_inv crc limit fl0 old base (s, p, log)" "base = unat (fl_floor_lsn fl0) + length (log_image (concat old))"
  shows "unat (fl_floor_lsn fl0) + length (concat (map (seg_bytes (sy_dir s)) (live (sy_dir s) fl0))) < 2 ^ 64"
proof -
  from assms(1) obtain new F B P D where "spread crc limit fl0 old base s p log new F B P D" by (auto simp: wal_inv_def)
  then have "map (seg_bytes (sy_dir s)) (live (sy_dir s) fl0) = map log_image (old @ new)"
    "unat (wb_next_lsn (sy_buffer s)) = base + length (log_image log)" "log = concat new @ F @ B"
    by (simp_all add: spread_def core_def Let_def)
  then show ?thesis using assms(2) unat_less_pow [of "wb_next_lsn (sy_buffer s)"] by (simp add: log_image_concat)
qed

lemma wal_inv_top: "wal_inv crc limit fl0 old base (s, p, log) \<Longrightarrow> p \<noteq> Stopped \<Longrightarrow> writer_top fl0 (sy_dir s) (sy_driver s)"
  by (auto simp: wal_inv_def spread_def intro: driver_top)

lemma sys_step_inv:
  assumes "sys_step crc cfg removable T st st'" "sys_inv crc limit T fl0 old base st"
    and lim: "unat (wc_segment_size_bytes cfg) \<le> limit" "MAX_RECORD_BYTES \<le> limit"
    and base: "base = unat (fl_floor_lsn fl0) + length (log_image (concat old))"
  shows "sys_inv crc limit T fl0 old base st'"
  using assms(1,2)
proof (induction rule: sys_step.induct)
  case (sys_log st st' ops)
  obtain s p log s' p' log' where st: "st = (s, p, log)" "st' = (s', p', log')" by (cases st, cases st') auto
  from sys_log(2) obtain s0 fl where s0: "wal_inv crc limit fl0 old base (s0, p, log)" "tracks crc T fl0 ops fl s0 s"
    by (auto simp: sys_inv_def st)
  have "sy_driver s0 = sy_driver s" using s0(2) by (auto simp: tracks_def)
  then have "p \<noteq> Stopped \<longrightarrow> writer_top fl0 (sy_dir s0) (sy_driver s)" using wal_inv_top [OF s0(1)] by simp
  from wal_step_tracks [OF sys_log(1) [unfolded st] s0(2) this] obtain s0' where s0':
    "wal_step crc cfg (s0, p, log) (s0', p', log')" "tracks crc T fl0 ops fl s0' s'" .
  from wal_step_inv [OF s0'(1) s0(1) lim] s0'(2) show ?case by (auto simp: sys_inv_def st)
next
  case (sys_truncate target s current new p log)
  from sys_truncate(3) obtain d0 fl where d0: "wal_inv crc limit fl0 old base (s\<lparr>sy_dir := d0\<rparr>, p, log)"
    "truncated crc T fl0 d0 (sy_dir s) fl" by (auto simp: sys_inv_def tracks_def beside_def)
  then have t: "dir_ok (sy_dir s)" "read_floor crc (sy_dir s) = Inr fl" "agrees_from (fl_segment_index fl) d0 (sy_dir s)" "good_floor T fl0 d0 fl"
    by (simp_all add: truncated_def)
  have "unat (fl_floor_lsn fl0) + length (concat (map (seg_bytes d0) (live d0 fl0))) < 2 ^ 64" using wal_inv_total [OF d0(1) base] by simp
  from plan_good [OF t this sys_truncate(2,1)] have "ops_ok crc T fl0 d0 (sy_dir s) fl (truncate_ops crc removable new (list_segments (sy_dir s)))"
    using truncate_ops_ok [OF t(1)] by blast
  with d0(2) have "tracks crc T fl0 (truncate_ops crc removable new (list_segments (sy_dir s))) fl (s\<lparr>sy_dir := d0\<rparr>) s"
    by (intro tracksI) (simp add: beside_def)
  with d0(1) show ?case by (auto simp: sys_inv_def)
next
  case (sys_op s p log op ops)
  then obtain d0 fl where d0: "wal_inv crc limit fl0 old base (s\<lparr>sy_dir := d0\<rparr>, p, log)"
    "truncated crc T fl0 d0 (sy_dir s) fl" "ops_ok crc T fl0 d0 (sy_dir s) fl (op # ops)" by (auto simp: sys_inv_def tracks_def beside_def)
  from op_step [OF d0(2,3)] obtain fl' where "beside crc T fl0 ops fl' d0 (run_op op (sy_dir s))" by (auto simp: beside_def)
  then have "tracks crc T fl0 ops fl' ((s\<lparr>sy_dir := run_op op (sy_dir s)\<rparr>)\<lparr>sy_dir := d0\<rparr>) (s\<lparr>sy_dir := run_op op (sy_dir s)\<rparr>)"
    by (intro tracksI) simp
  with d0(1) show ?case by (auto simp: sys_inv_def)
qed

lemma sys_reachable_inv:
  assumes "(sys_step crc cfg removable T)\<^sup>*\<^sup>* st st'" "sys_inv crc limit T fl0 old base st"
    and "unat (wc_segment_size_bytes cfg) \<le> limit" "MAX_RECORD_BYTES \<le> limit"
    and "base = unat (fl_floor_lsn fl0) + length (log_image (concat old))"
  shows "sys_inv crc limit T fl0 old base st'"
  using assms(1,2) by (induction rule: rtranclp_induct) (auto intro: sys_step_inv [OF _ _ assms(3-5)])

lemma open_sys_inv:
  assumes "wal_inv crc limit fl old base (s, p, log)"
  shows "sys_inv crc limit T fl old base ((s, p, log), [])"
proof -
  from assms have "truncated crc T fl (sy_dir s) (sy_dir s) fl"
    by (auto simp: wal_inv_def spread_def core_def Let_def truncated_def good_floor_def agrees_from_def)
  then have "tracks crc T fl [] fl (s\<lparr>sy_dir := sy_dir s\<rparr>) s" by (intro tracksI) (auto simp: beside_def ops_ok_def removes_def)
  with assms show ?thesis by (auto simp: sys_inv_def)
qed

section \<open>Crashes\<close>

text \<open>A crash of the truncated directory is a crash of the other one, as far as the log goes.\<close>

lemma crash_whole_file: "crash_file f (f\<lparr>df_synced := length (df_content f)\<rparr>)"
  unfolding crash_file_def by (auto intro!: exI [of _ "max (df_synced f) (length (df_content f))"])

lemma crash_whole: "crash_dir d (map (\<lambda>(n, f). (n, f\<lparr>df_synced := length (df_content f)\<rparr>)) d)"
  by (auto simp: crash_dir_def list_all2_map2 list_all2_same crash_whole_file)

lemma map_of_map_key: "map_of (map (\<lambda>(n, f). (n, g n f)) xs) n = map_option (g n) (map_of xs n)"
  by (induction xs) auto

lemma crash_lift:
  assumes "dir_ok d0" "agrees_from i d0 d" "crash_dir d d'"
  obtains d0' where "crash_dir d0 d0'" "agrees_from i d0' d'"
proof -
  define kept where "kept n \<longleftrightarrow> (\<exists>j \<ge> i. n = segment_path j)" for n
  define g where "g n f = (if kept n then the (map_of d' n) else f\<lparr>df_synced := length (df_content f)\<rparr>)" for n f
  define d0' where "d0' = map (\<lambda>(n, f). (n, g n f)) d0"
  have rel: "rel_option crash_file (map_of d0 n) (map_of d' n)" if "kept n" for n
    using crash_dir_map_of [OF assms(3), of n] that assms(2) by (auto simp: agrees_from_def kept_def)
  have "crash_file f (g n f)" if "(n, f) \<in> set d0" for n f
    using rel [of n] assms(1) that by (cases "map_of d' n") (auto simp: g_def dir_ok_def crash_whole_file)
  then have "crash_dir d0 d0'" by (auto simp: crash_dir_def d0'_def list_all2_map2 list_all2_same)
  moreover have "map_of d0' n = map_of d' n" if "kept n" for n
    using rel [OF that] that by (cases "map_of d' n") (auto simp: d0'_def map_of_map_key g_def elim: option.rel_cases)
  then have "agrees_from i d0' d'" by (auto simp: agrees_from_def kept_def)
  ultimately show ?thesis using that by blast
qed

lemma crash_truncated:
  assumes t: "truncated crc T fl0 d0 d fl" and ok: "dir_ok d0" and crash: "crash_dir d d'"
    and full: "\<forall>i \<in> set (butlast (live d0 fl0)). seg_full d0 i"
  obtains d0' where "crash_dir d0 d0'" "truncated crc T fl0 d0' d' fl"
proof -
  have "agrees_from (fl_segment_index fl) d0 d" using t by (simp add: truncated_def)
  from crash_lift [OF ok this crash] obtain d0' where d0': "crash_dir d0 d0'" "agrees_from (fl_segment_index fl) d0' d'" .
  have live: "live d0' fl0 = live d0 fl0" by (rule crash_live [OF d0'(1)])
  have "good_floor T fl0 d0' fl"
  proof (rule good_floor_top [where i = "last (live d0 fl0)"])
    show "\<forall>j \<in> set (live d0 fl0). j \<le> last (live d0 fl0)" using sorted_le_last [OF sorted_live] by blast
    fix j assume "j \<in> set (live d0 fl0)" "j \<noteq> last (live d0 fl0)"
    then have "j \<in> set (butlast (live d0 fl0))" by (metis append_butlast_last_id empty_iff list.set(1) rotate1.simps(2) set_ConsD set_rotate1)
    then show "seg_bytes d0' j = seg_bytes d0 j" using full crash_full [OF d0'(1)] by blast
  qed (use live t in \<open>simp_all add: truncated_def\<close>)
  moreover have "manifest_synced d'" by (rule settled_manifest [OF crash_settled [OF crash]])
  ultimately have "truncated crc T fl0 d0' d' fl"
    using t d0'(2) crash_dir_seg [OF crash] crash_dir_seg [OF d0'(1)] crash_floor [OF crash] by (simp add: truncated_def)
  with d0'(1) that show ?thesis by blast
qed

lemma crash_sys:
  assumes inv: "sys_inv crc limit T fl0 old base ((s, p, log), ops)" and crash: "crash_dir (sy_dir s) d'"
    and old: "list_all (list_all (well_formed crc)) old"
    and base: "base = unat (fl_floor_lsn fl0) + length (log_image (concat old))"
  obtains n k fl rss tail where "holds_log crc limit d' fl rss tail" "concat rss = drop k (concat old @ take n log)" "n \<le> length log"
    "unat (fl_floor_lsn fl) = unat (fl_floor_lsn fl0) + length (log_image (take k (concat old @ take n log)))"
    "k \<le> length (concat old @ take n log)" "rss \<noteq> [] \<or> fl = fl0 \<and> k = 0 \<and> old = []" "0 < k \<longrightarrow> fl_floor_lsn fl \<le> T"
    "\<forall>j < length log. base + length (log_image (take j log)) < unat (sy_durable_lsn s) \<longrightarrow> j < n"
proof -
  from inv obtain d0 fl where d0: "wal_inv crc limit fl0 old base (s\<lparr>sy_dir := d0\<rparr>, p, log)" "truncated crc T fl0 d0 (sy_dir s) fl"
    by (auto simp: sys_inv_def tracks_def beside_def)
  from d0(1) obtain new F B P D where sp: "spread crc limit fl0 old base (s\<lparr>sy_dir := d0\<rparr>) p log new F B P D"
    by (auto simp: wal_inv_def)
  then have core: "core crc limit fl0 old base (s\<lparr>sy_dir := d0\<rparr>) new P D" and log: "log = concat new @ F @ B"
    and wf: "list_all (well_formed crc) (concat new)" and nxt: "unat (wb_next_lsn (sy_buffer s)) = base + length (log_image log)"
    by (auto simp: spread_def)
  from core have ok: "dir_ok d0" "\<forall>i \<in> set (butlast (live d0 fl0)). seg_full d0 i"
    and dur: "unat (sy_durable_lsn s) = base + length (log_image D)" "prefix D log"
    using log by (auto simp: core_def Let_def intro: prefix_order.trans)
  from crash_truncated [OF d0(2) ok(1) crash ok(2)] obtain d0' where d0': "crash_dir d0 d0'" "truncated crc T fl0 d0' d' fl" .
  have "base + length (log_image (concat new)) < 2 ^ 64"
    using nxt unat_less_pow [of "wb_next_lsn (sy_buffer s)"] by (simp add: log)
  moreover have "crash_dir (sy_dir (s\<lparr>sy_dir := d0\<rparr>)) d0'" using d0'(1) by simp
  ultimately obtain n new' tail where n: "holds_log crc limit d0' fl0 (old @ new') tail"
    "concat new' = take n (concat new)" "n \<le> length (concat new)" "length D \<le> n"
    using crash_core [OF core _ wf old base] by metis
  have t: "dir_ok d'" "read_floor crc d' = Inr fl" "agrees_from (fl_segment_index fl) d0' d'" "good_floor T fl0 d0' fl"
    using d0'(2) by (simp_all add: truncated_def)
  from holds_log_floor [OF n(1) t] obtain k where k: "holds_log crc limit d' fl (drop k (old @ new')) tail"
    "drop k (old @ new') \<noteq> [] \<or> k = 0" "0 < k \<longrightarrow> fl_floor_lsn fl \<le> T"
    "unat (fl_floor_lsn fl) = unat (fl_floor_lsn fl0) + length (log_image (concat (take k (old @ new'))))" .
  let ?all = "concat old @ take n log" and ?m = "length (concat (take k (old @ new')))"
  have all: "?all = concat (take k (old @ new')) @ concat (drop k (old @ new'))"
    unfolding concat_append [symmetric] append_take_drop_id using n(2,3) by (simp add: log)
  have cut: "concat (drop k (old @ new')) = drop ?m ?all" "concat (take k (old @ new')) = take ?m ?all" "?m \<le> length ?all"
    unfolding all by simp_all
  have durable: "\<forall>j < length log. base + length (log_image (take j log)) < unat (sy_durable_lsn s) \<longrightarrow> j < n"
    using prefix_image_less [OF dur(2)] dur(1) n(4) by fastforce
  have len: "n \<le> length log" using n(3) by (simp add: log)
  have rest: "drop k (old @ new') \<noteq> [] \<or> fl = fl0 \<and> ?m = 0 \<and> old = []"
  proof (cases "drop k (old @ new') = []")
    case True
    then have "old @ new' = []" using k(2) by auto
    moreover from this have "live d0' fl0 = []" using n(1) by (simp add: holds_log_def)
    ultimately show ?thesis using t(4) by (simp add: good_floor_def)
  qed simp
  have low: "0 < ?m \<longrightarrow> fl_floor_lsn fl \<le> T" using k(3) by (cases "k = 0") auto
  have floor: "unat (fl_floor_lsn fl) = unat (fl_floor_lsn fl0) + length (log_image (take ?m ?all))"
    unfolding cut(2) [symmetric] by (rule k(4))
  show ?thesis by (rule that [OF k(1) cut(1) len floor cut(3) rest low durable])
qed

text \<open>What recovery finds after the crash.\<close>

lemma crash_recovers:
  assumes log: "holds_log crc limit d fl rss tail" "rss \<noteq> [] \<or> fl_segment_index fl = 0"
    and inv: "sys_inv crc limit T fl rss base ((s, p, appended), ops)" and crash: "crash_dir (sy_dir s) d'"
    and base: "base = unat (fl_floor_lsn fl) + length (log_image (concat rss))"
  obtains n k where "n \<le> length appended" "k \<le> length (concat rss @ take n appended)"
    "recover crc limit d' collect [] = (drop k (concat rss @ take n appended), Inr (of_nat (base + length (log_image (take n appended)))))"
    "0 < k \<longrightarrow> unat (fl_floor_lsn fl) + length (log_image (take k (concat rss @ take n appended))) \<le> unat T"
    "\<forall>j < length appended. base + length (log_image (take j appended)) < unat (sy_durable_lsn s) \<longrightarrow> j < n"
    "\<exists>fl' rss' tail'. holds_log crc limit d' fl' rss' tail' \<and> settled d' \<and> (rss' \<noteq> [] \<or> fl_segment_index fl' = 0)"
proof -
  have "list_all (list_all (well_formed crc)) rss" using log(1) by (simp add: holds_log_def)
  from crash_sys [OF inv crash this base] obtain n k fl' rss' tail' where
    m: "holds_log crc limit d' fl' rss' tail'" "concat rss' = drop k (concat rss @ take n appended)" "n \<le> length appended"
    "unat (fl_floor_lsn fl') = unat (fl_floor_lsn fl) + length (log_image (take k (concat rss @ take n appended)))"
    "k \<le> length (concat rss @ take n appended)" "rss' \<noteq> [] \<or> fl' = fl \<and> k = 0 \<and> rss = []" "0 < k \<longrightarrow> fl_floor_lsn fl' \<le> T"
    "\<forall>j < length appended. base + length (log_image (take j appended)) < unat (sy_durable_lsn s) \<longrightarrow> j < n" .
  let ?all = "concat rss @ take n appended"
  have "log_image ?all = log_image (take k ?all) @ log_image (drop k ?all)"
    unfolding log_image_simps(3) [symmetric] append_take_drop_id ..
  then have "length (log_image (take k ?all)) + length (log_image (concat rss')) = length (log_image (concat rss)) + length (log_image (take n appended))"
    unfolding m(2) by (metis length_append log_image_simps(3))
  then have "unat (fl_floor_lsn fl') + length (log_image (concat rss')) = base + length (log_image (take n appended))"
    unfolding m(4) base by linarith
  then have rec: "recover crc limit d' collect [] = (drop k ?all, Inr (of_nat (base + length (log_image (take n appended)))))"
    using recover_collect [OF m(1)] unfolding m(2) by metis
  have low: "0 < k \<longrightarrow> unat (fl_floor_lsn fl) + length (log_image (take k ?all)) \<le> unat T"
    using m(4,7) by (simp add: word_le_nat_alt)
  have "rss' \<noteq> [] \<or> fl_segment_index fl' = 0" using m(6) log(2) by auto
  then have fit: "\<exists>fl' rss' tail'. holds_log crc limit d' fl' rss' tail' \<and> settled d' \<and> (rss' \<noteq> [] \<or> fl_segment_index fl' = 0)"
    using m(1) crash_settled [OF crash] by blast
  show ?thesis by (rule that [OF m(3,5) rec low m(8) fit])
qed

end
