(* ===== verification/Buffer_Pool.thy ===== *)
theory Buffer_Pool
  imports Page "HOL-Library.AList"
begin

text \<open>
  The buffer pool (\<^verbatim>\<open>crates/ultrasql-storage/src/buffer_pool.rs\<close>) and the cycle of the checkpointer
  that drives it (\<^verbatim>\<open>checkpointer.rs\<close>). An operation is one step: the latches that make it so are not
  modelled. What the pool calls is a parameter: the page loader, the flush writer with its state, the
  position and the zero flag a log sink reports, and the call that forces the log to disk. The
  eviction-relief hook is the one the server installs (\<^verbatim>\<open>server_lifecycle.rs\<close>). A panic is \<open>None\<close>. Frame
  indices come from the page table, whose entries the invariant of \<open>Buffer_Pool_Spec\<close> keeps in range.
\<close>

section \<open>State\<close>

datatype 'e buffer_pool_error = Exhausted | Loader 'e | WriteContention page_id | Poisoned

record frame =
  fr_page :: "bytes option"
  fr_page_id :: "page_id option"
  fr_pin_count :: nat
  fr_clock_ref :: bool
  fr_dirty :: bool

definition frame_empty :: frame where
  "frame_empty = \<lparr>fr_page = None, fr_page_id = None, fr_pin_count = 0, fr_clock_ref = False, fr_dirty = False\<rparr>"

record pool_counters =
  ct_gets :: u64
  ct_hits :: u64
  ct_misses :: u64
  ct_evictions :: u64
  ct_dirty :: nat

record relation_counters =
  rc_reads :: u64
  rc_hits :: u64

record buffer_pool =
  bp_frames :: "frame list"
  bp_page_table :: "(page_id \<times> nat) list"
  bp_max_resident_blocks :: "(relation_id \<times> block_number) list"
  bp_clock_hand :: u64
  bp_counters :: pool_counters
  bp_relation_counters :: "(relation_id \<times> relation_counters) list"
  bp_btree_block_allocators :: "(relation_id \<times> u32) list"
  bp_poisoned :: bool

definition pool_new :: "nat \<Rightarrow> buffer_pool option" where
  "pool_new capacity =
     (if capacity = 0 then None
      else Some \<lparr>bp_frames = replicate capacity frame_empty, bp_page_table = [], bp_max_resident_blocks = [],
        bp_clock_hand = 0, bp_counters = \<lparr>ct_gets = 0, ct_hits = 0, ct_misses = 0, ct_evictions = 0, ct_dirty = 0\<rparr>,
        bp_relation_counters = [], bp_btree_block_allocators = [], bp_poisoned = False\<rparr>)"

definition poison_after_wal_error :: "buffer_pool \<Rightarrow> buffer_pool" where
  "poison_after_wal_error bp = bp\<lparr>bp_poisoned := True\<rparr>"

definition pool_capacity :: "buffer_pool \<Rightarrow> nat" where
  "pool_capacity bp = length (bp_frames bp)"

definition dirty_pages :: "buffer_pool \<Rightarrow> nat" where
  "dirty_pages bp = ct_dirty (bp_counters bp)"

definition resident_pages :: "buffer_pool \<Rightarrow> nat" where
  "resident_pages bp = length (bp_page_table bp)"

definition max_resident_block :: "buffer_pool \<Rightarrow> relation_id \<Rightarrow> block_number option" where
  "max_resident_block bp rel = map_of (bp_max_resident_blocks bp) rel"

text \<open>\<^verbatim>\<open>raise_atomic_floor\<close> run without interference.\<close>

definition raise_atomic_floor :: "u32 \<Rightarrow> u32 \<Rightarrow> u32" where
  "raise_atomic_floor value floor = (if value < floor then floor else value)"

definition btree_block_allocator :: "buffer_pool \<Rightarrow> relation_id \<Rightarrow> u32 \<Rightarrow> buffer_pool \<times> u32" where
  "btree_block_allocator bp rel next_floor =
     (let current = (case map_of (bp_btree_block_allocators bp) rel of None \<Rightarrow> next_floor | Some v \<Rightarrow> v);
          raised = raise_atomic_floor current next_floor in
      (bp\<lparr>bp_btree_block_allocators := AList.update rel raised (bp_btree_block_allocators bp)\<rparr>, raised))"

definition upd_frame :: "nat \<Rightarrow> (frame \<Rightarrow> frame) \<Rightarrow> buffer_pool \<Rightarrow> buffer_pool" where
  "upd_frame i f bp = bp\<lparr>bp_frames := (bp_frames bp)[i := f (bp_frames bp ! i)]\<rparr>"

definition upd_counters :: "(pool_counters \<Rightarrow> pool_counters) \<Rightarrow> buffer_pool \<Rightarrow> buffer_pool" where
  "upd_counters f bp = bp\<lparr>bp_counters := f (bp_counters bp)\<rparr>"

definition pool_lookup :: "buffer_pool \<Rightarrow> page_id \<Rightarrow> nat option" where
  "pool_lookup bp pid = map_of (bp_page_table bp) pid"

definition relation_entry :: "buffer_pool \<Rightarrow> relation_id \<Rightarrow> relation_counters" where
  "relation_entry bp rel =
     (case map_of (bp_relation_counters bp) rel of None \<Rightarrow> \<lparr>rc_reads = 0, rc_hits = 0\<rparr> | Some c \<Rightarrow> c)"

definition record_relation_hit :: "relation_id \<Rightarrow> buffer_pool \<Rightarrow> buffer_pool" where
  "record_relation_hit rel bp =
     bp\<lparr>bp_relation_counters := AList.update rel ((relation_entry bp rel)\<lparr>rc_hits := rc_hits (relation_entry bp rel) + 1\<rparr>)
          (bp_relation_counters bp)\<rparr>"

definition record_relation_read :: "relation_id \<Rightarrow> buffer_pool \<Rightarrow> buffer_pool" where
  "record_relation_read rel bp =
     bp\<lparr>bp_relation_counters := AList.update rel ((relation_entry bp rel)\<lparr>rc_reads := rc_reads (relation_entry bp rel) + 1\<rparr>)
          (bp_relation_counters bp)\<rparr>"

definition relation_stats :: "buffer_pool \<Rightarrow> relation_id \<Rightarrow> relation_id \<times> u64 \<times> u64" where
  "relation_stats bp rel = (rel, rc_reads (relation_entry bp rel), rc_hits (relation_entry bp rel))"

section \<open>Acquiring a frame\<close>

primrec free_frame :: "nat \<Rightarrow> frame list \<Rightarrow> nat option" where
  "free_frame idx [] = None"
| "free_frame idx (f # fs) =
     (if fr_pin_count f = 0 \<and> fr_page_id f = None then Some idx else free_frame (Suc idx) fs)"

definition evict_frame :: "page_id \<Rightarrow> nat \<Rightarrow> buffer_pool \<Rightarrow> buffer_pool" where
  "evict_frame new_page_id hand bp =
     (let bp = (case fr_page_id (bp_frames bp ! hand) of
                  None \<Rightarrow> bp
                | Some old_id \<Rightarrow> upd_counters (\<lambda>c. c\<lparr>ct_evictions := ct_evictions c + 1\<rparr>)
                    (bp\<lparr>bp_page_table := AList.delete old_id (bp_page_table bp)\<rparr>))
      in upd_frame hand (\<lambda>f. f\<lparr>fr_page_id := Some new_page_id, fr_page := None\<rparr>) bp)"

primrec clock_sweep :: "nat \<Rightarrow> page_id \<Rightarrow> buffer_pool \<Rightarrow> buffer_pool \<times> nat option" where
  "clock_sweep 0 new_page_id bp = (bp, None)"
| "clock_sweep (Suc attempts) new_page_id bp =
     (let hand = unat (bp_clock_hand bp) mod length (bp_frames bp);
          bp = bp\<lparr>bp_clock_hand := bp_clock_hand bp + 1\<rparr>;
          frame = bp_frames bp ! hand in
      if fr_pin_count frame \<noteq> 0 then clock_sweep attempts new_page_id bp
      else if fr_clock_ref frame then clock_sweep attempts new_page_id (upd_frame hand (\<lambda>f. f\<lparr>fr_clock_ref := False\<rparr>) bp)
      else if fr_page_id frame \<noteq> None \<and> fr_dirty frame then clock_sweep attempts new_page_id bp
      else (evict_frame new_page_id hand bp, Some hand))"

definition acquire_frame_for :: "page_id \<Rightarrow> buffer_pool \<Rightarrow> buffer_pool \<times> nat option" where
  "acquire_frame_for new_page_id bp =
     (case free_frame 0 (bp_frames bp) of
        Some idx \<Rightarrow> (upd_frame idx (\<lambda>f. f\<lparr>fr_page_id := Some new_page_id\<rparr>) bp, Some idx)
      | None \<Rightarrow> clock_sweep (length (bp_frames bp) * 4) new_page_id bp)"

section \<open>Getting a page\<close>

definition clear_dirty :: "nat \<Rightarrow> buffer_pool \<Rightarrow> buffer_pool" where
  "clear_dirty i bp =
     (if fr_dirty (bp_frames bp ! i)
      then upd_counters (\<lambda>c. c\<lparr>ct_dirty := ct_dirty c - 1\<rparr>) (upd_frame i (\<lambda>f. f\<lparr>fr_dirty := False\<rparr>) bp)
      else bp)"

definition set_dirty :: "nat \<Rightarrow> buffer_pool \<Rightarrow> buffer_pool" where
  "set_dirty i bp =
     (if fr_dirty (bp_frames bp ! i) then bp
      else upd_counters (\<lambda>c. c\<lparr>ct_dirty := ct_dirty c + 1\<rparr>) (upd_frame i (\<lambda>f. f\<lparr>fr_dirty := True\<rparr>) bp))"

definition pin_hit :: "page_id \<Rightarrow> nat \<Rightarrow> buffer_pool \<Rightarrow> buffer_pool" where
  "pin_hit pid i bp =
     record_relation_hit (pg_relation pid)
       (upd_counters (\<lambda>c. c\<lparr>ct_hits := ct_hits c + 1\<rparr>) (upd_frame i (\<lambda>f. f\<lparr>fr_clock_ref := True\<rparr>) bp))"

definition install_page :: "page_id \<Rightarrow> nat \<Rightarrow> bytes \<Rightarrow> buffer_pool \<Rightarrow> buffer_pool" where
  "install_page pid i page bp =
     (let bp = upd_frame i (\<lambda>f. f\<lparr>fr_page := Some page, fr_page_id := Some pid, fr_clock_ref := True\<rparr>) bp;
          bp = clear_dirty i bp;
          bp = upd_frame i (\<lambda>f. f\<lparr>fr_pin_count := fr_pin_count f + 1\<rparr>) bp;
          bp = bp\<lparr>bp_page_table := AList.update pid i (bp_page_table bp)\<rparr>;
          block = (case map_of (bp_max_resident_blocks bp) (pg_relation pid) of None \<Rightarrow> pg_block pid | Some m \<Rightarrow> max m (pg_block pid))
      in bp\<lparr>bp_max_resident_blocks := AList.update (pg_relation pid) block (bp_max_resident_blocks bp)\<rparr>)"

definition miss_page :: "(page_id \<Rightarrow> 'e + bytes) \<Rightarrow> page_id \<Rightarrow> buffer_pool \<Rightarrow> buffer_pool \<times> ('e buffer_pool_error + nat)" where
  "miss_page loader pid bp =
     (case pool_lookup bp pid of
        Some i \<Rightarrow> (pin_hit pid i (upd_frame i (\<lambda>f. f\<lparr>fr_pin_count := fr_pin_count f + 1\<rparr>) bp), Inr i)
      | None \<Rightarrow>
          let bp = record_relation_read (pg_relation pid) (upd_counters (\<lambda>c. c\<lparr>ct_misses := ct_misses c + 1\<rparr>) bp) in
          (case acquire_frame_for pid bp of
             (bp, None) \<Rightarrow> (bp, Inl Exhausted)
           | (bp, Some i) \<Rightarrow>
               (case loader pid of
                  Inl e \<Rightarrow> (upd_frame i (\<lambda>f. f\<lparr>fr_page := None, fr_page_id := None\<rparr>) bp, Inl (Loader e))
                | Inr page \<Rightarrow> (install_page pid i page bp, Inr i))))"

text \<open>The hit path pins first and then checks the tag; on a mismatch it takes the pin back.\<close>

definition get_page :: "(page_id \<Rightarrow> 'e + bytes) \<Rightarrow> page_id \<Rightarrow> buffer_pool \<Rightarrow> buffer_pool \<times> ('e buffer_pool_error + nat)" where
  "get_page loader pid bp =
     (if bp_poisoned bp then (bp, Inl Poisoned)
      else
        let bp = upd_counters (\<lambda>c. c\<lparr>ct_gets := ct_gets c + 1\<rparr>) bp in
        (case pool_lookup bp pid of
           Some i \<Rightarrow>
             let pinned = upd_frame i (\<lambda>f. f\<lparr>fr_pin_count := fr_pin_count f + 1\<rparr>) bp in
             if fr_page_id (bp_frames pinned ! i) = Some pid then (pin_hit pid i pinned, Inr i)
             else miss_page loader pid (upd_frame i (\<lambda>f. f\<lparr>fr_pin_count := fr_pin_count f - 1\<rparr>) pinned)
         | None \<Rightarrow> miss_page loader pid bp))"

section \<open>Guards\<close>

definition unpin :: "nat \<Rightarrow> bool \<Rightarrow> buffer_pool \<Rightarrow> buffer_pool" where
  "unpin i dirty bp =
     upd_frame i (\<lambda>f. f\<lparr>fr_pin_count := fr_pin_count f - 1\<rparr>) (if dirty then set_dirty i bp else bp)"

definition guard_read :: "nat \<Rightarrow> buffer_pool \<Rightarrow> bytes option" where
  "guard_read i bp = fr_page (bp_frames bp ! i)"

definition guard_write :: "nat \<Rightarrow> (bytes \<Rightarrow> bytes) \<Rightarrow> buffer_pool \<Rightarrow> buffer_pool option" where
  "guard_write i mutate bp =
     (case fr_page (bp_frames bp ! i) of
        None \<Rightarrow> None
      | Some page \<Rightarrow> Some (set_dirty i (upd_frame i (\<lambda>f. f\<lparr>fr_page := Some (mutate page)\<rparr>) bp)))"

definition guard_drop :: "nat \<Rightarrow> buffer_pool \<Rightarrow> buffer_pool" where
  "guard_drop i bp = unpin i False bp"

section \<open>Flushing\<close>

text \<open>A sink reports the durable position and whether zero is free of dependencies.\<close>

type_synonym sink_view = "(lsn \<times> bool) option"

type_synonym ('w, 'e) page_writer = "page_id \<Rightarrow> bytes \<Rightarrow> 'w \<Rightarrow> 'w \<times> ('e + unit)"

definition held_back :: "sink_view \<Rightarrow> u64 \<Rightarrow> bool" where
  "held_back sink page_lsn =
     (case sink of None \<Rightarrow> False | Some (boundary, zero_free) \<Rightarrow> boundary \<le> page_lsn \<and> \<not> (page_lsn = 0 \<and> zero_free))"

datatype 'e flush_error = FlushPoisoned | FlushWriter 'e

primrec flush_frames ::
  "sink_view \<Rightarrow> ('w, 'e) page_writer \<Rightarrow> nat list \<Rightarrow> nat \<Rightarrow> buffer_pool \<times> 'w \<Rightarrow> ((buffer_pool \<times> 'w) \<times> ('e flush_error + nat)) option" where
  "flush_frames sink writer [] flushed st = Some (st, Inr flushed)"
| "flush_frames sink writer (i # is) flushed st =
     (let bp = fst st; frame = bp_frames bp ! i in
      if \<not> fr_dirty frame \<or> fr_pin_count frame \<noteq> 0 then flush_frames sink writer is flushed st
      else case (fr_page_id frame, fr_page frame) of
        (Some pid, Some page) \<Rightarrow>
          (case page_header_of page of
             None \<Rightarrow> None
           | Some h \<Rightarrow>
               if held_back sink (ph_lsn h) then flush_frames sink writer is flushed st
               else (case writer pid page (snd st) of
                   (w, Inl e) \<Rightarrow> Some ((bp, w), Inl (FlushWriter e))
                 | (w, Inr _) \<Rightarrow> flush_frames sink writer is (flushed + 1) (clear_dirty i bp, w)))
      | _ \<Rightarrow> flush_frames sink writer is flushed st)"

definition try_flush_dirty ::
  "sink_view \<Rightarrow> ('w, 'e) page_writer \<Rightarrow> buffer_pool \<times> 'w \<Rightarrow> ((buffer_pool \<times> 'w) \<times> ('e flush_error + nat)) option" where
  "try_flush_dirty sink writer st =
     (if bp_poisoned (fst st) then Some (st, Inl FlushPoisoned)
      else flush_frames sink writer [0..<length (bp_frames (fst st))] 0 st)"

definition min_lsn :: "u64 option \<Rightarrow> u64 \<Rightarrow> u64 option" where
  "min_lsn oldest l = Some (case oldest of Some current \<Rightarrow> if current \<le> l then current else l | None \<Rightarrow> l)"

primrec scan_lsns :: "(frame \<Rightarrow> bool) \<Rightarrow> (u64 \<Rightarrow> bool) \<Rightarrow> frame list \<Rightarrow> u64 option \<Rightarrow> u64 option option" where
  "scan_lsns wanted counts [] oldest = Some oldest"
| "scan_lsns wanted counts (f # fs) oldest =
     (case fr_page f of
        Some page \<Rightarrow>
          if wanted f \<and> fr_page_id f \<noteq> None then
            (case page_header_of page of
               None \<Rightarrow> None
             | Some h \<Rightarrow> scan_lsns wanted counts fs (if counts (ph_lsn h) then min_lsn oldest (ph_lsn h) else oldest))
          else scan_lsns wanted counts fs oldest
      | None \<Rightarrow> scan_lsns wanted counts fs oldest)"

definition oldest_dirty_lsn :: "buffer_pool \<Rightarrow> lsn option option" where
  "oldest_dirty_lsn bp = scan_lsns fr_dirty (\<lambda>_. True) (bp_frames bp) None"

definition oldest_unflushable_dirty_lsn :: "sink_view \<Rightarrow> buffer_pool \<Rightarrow> lsn option option" where
  "oldest_unflushable_dirty_lsn sink bp =
     (case sink of
        None \<Rightarrow> Some None
      | Some (durable, zero_free) \<Rightarrow>
          scan_lsns (\<lambda>f. fr_dirty f \<and> fr_pin_count f = 0) (\<lambda>l. \<not> (l < durable \<or> l = 0 \<and> zero_free)) (bp_frames bp) None)"

section \<open>Eviction relief\<close>

text \<open>
  The hook and the loader see the world behind the pool: the disk, the log and its durable position.
\<close>

definition EVICTION_RELIEF_ROUNDS :: nat where "EVICTION_RELIEF_ROUNDS = 3"

type_synonym ('w, 'e) relief_hook = "buffer_pool \<times> 'w \<Rightarrow> ((buffer_pool \<times> 'w) \<times> ('e buffer_pool_error + unit)) option"

primrec relieved_rounds ::
  "nat \<Rightarrow> ('w, 'e) relief_hook \<Rightarrow> ('w \<Rightarrow> page_id \<Rightarrow> 'e + bytes) \<Rightarrow> page_id \<Rightarrow> buffer_pool \<times> 'w
     \<Rightarrow> ((buffer_pool \<times> 'w) \<times> ('e buffer_pool_error + nat)) option" where
  "relieved_rounds 0 relief loader pid st =
     (case get_page (loader (snd st)) pid (fst st) of (bp, r) \<Rightarrow> Some ((bp, snd st), r))"
| "relieved_rounds (Suc left) relief loader pid st =
     (case get_page (loader (snd st)) pid (fst st) of
        (bp, Inl Exhausted) \<Rightarrow>
          (case relief (bp, snd st) of
             None \<Rightarrow> None
           | Some (st, Inl e) \<Rightarrow> Some (st, Inl e)
           | Some (st, Inr _) \<Rightarrow> relieved_rounds left relief loader pid st)
      | (bp, r) \<Rightarrow> Some ((bp, snd st), r))"

definition get_page_relieved ::
  "('w, 'e) relief_hook option \<Rightarrow> ('w \<Rightarrow> page_id \<Rightarrow> 'e + bytes) \<Rightarrow> page_id \<Rightarrow> buffer_pool \<times> 'w
     \<Rightarrow> ((buffer_pool \<times> 'w) \<times> ('e buffer_pool_error + nat)) option" where
  "get_page_relieved relief loader pid st =
     (case relief of
        None \<Rightarrow> (case get_page (loader (snd st)) pid (fst st) of (bp, r) \<Rightarrow> Some ((bp, snd st), r))
      | Some hook \<Rightarrow> relieved_rounds EVICTION_RELIEF_ROUNDS hook loader pid st)"

text \<open>The hook the server installs. \<open>sink_of\<close> reads what the sink reports; \<open>force\<close> waits for the log.\<close>

definition flush_durable ::
  "('w \<Rightarrow> sink_view) \<Rightarrow> ('w, 'e) page_writer \<Rightarrow> buffer_pool \<times> 'w
     \<Rightarrow> ((buffer_pool \<times> 'w) \<times> ('e flush_error buffer_pool_error + nat)) option" where
  "flush_durable sink_of writer st =
     (case try_flush_dirty (sink_of (snd st)) writer st of
        None \<Rightarrow> None
      | Some (st, Inl e) \<Rightarrow> Some (st, Inl (Loader e))
      | Some (st, Inr n) \<Rightarrow> Some (st, Inr n))"

definition relieve ::
  "('w \<Rightarrow> sink_view) \<Rightarrow> (lsn \<Rightarrow> 'w \<Rightarrow> 'w \<times> ('e + unit)) option \<Rightarrow> ('w, 'e) page_writer \<Rightarrow> ('w, 'e flush_error) relief_hook" where
  "relieve sink_of force_wal_durable writer st =
     (if bp_poisoned (fst st) then Some (st, Inl Poisoned)
      else case flush_durable sink_of writer st of
        None \<Rightarrow> None
      | Some (st, Inl e) \<Rightarrow> Some (st, Inl e)
      | Some (st, Inr flushed) \<Rightarrow>
          if 0 < flushed then Some (st, Inr ())
          else (case oldest_unflushable_dirty_lsn (sink_of (snd st)) (fst st) of
              None \<Rightarrow> None
            | Some None \<Rightarrow> Some (st, Inr ())
            | Some (Some target) \<Rightarrow>
                (case force_wal_durable of
                   None \<Rightarrow> Some (st, Inr ())
                 | Some force \<Rightarrow>
                     (case force target (snd st) of
                        (w, Inl e) \<Rightarrow> Some ((fst st, w), Inl (Loader (FlushWriter e)))
                      | (w, Inr _) \<Rightarrow>
                          (case flush_durable sink_of writer (fst st, w) of
                             None \<Rightarrow> None
                           | Some (st, Inl e) \<Rightarrow> Some (st, Inl e)
                           | Some (st, Inr _) \<Rightarrow> Some (st, Inr ()))))))"

section \<open>The checkpointer\<close>

definition checked_checkpoint_flush_count_add :: "u64 \<Rightarrow> nat \<Rightarrow> string + u64" where
  "checked_checkpoint_flush_count_add current delta =
     (if 2 ^ 64 \<le> delta then Inl ''checkpointer flushed page count overflow''
      else ok_or (checked_add current (of_nat delta)) ''checkpointer flushed page count overflow'')"

text \<open>
  One turn of \<^verbatim>\<open>Checkpointer::run\<close> after its sleep: the flush, the count and the published position.
  \<open>durable_now\<close> is what the sink reports after the flush.
\<close>

definition checkpoint_cycle ::
  "sink_view \<Rightarrow> lsn \<Rightarrow> ('w, 'e) page_writer \<Rightarrow> u64 \<Rightarrow> lsn option \<Rightarrow> buffer_pool \<times> 'w
     \<Rightarrow> ((buffer_pool \<times> 'w) \<times> (string + u64 \<times> lsn option)) option" where
  "checkpoint_cycle sink durable_now writer total_flushed last_checkpoint_lsn st =
     (case try_flush_dirty sink writer st of
        None \<Rightarrow> None
      | Some (st, Inl e) \<Rightarrow> Some (st, Inr (total_flushed, last_checkpoint_lsn))
      | Some (st, Inr n) \<Rightarrow>
          (case checked_checkpoint_flush_count_add total_flushed n of
             Inl e \<Rightarrow> Some (st, Inl e)
           | Inr flushed \<Rightarrow>
               Some (st, Inr (flushed,
                 if 0 < n \<and> sink \<noteq> None \<and> 0 < durable_now then map_option (max durable_now) last_checkpoint_lsn
                 else last_checkpoint_lsn))))"

end
