(* ===== verification/Wal_Sink.thy ===== *)
theory Wal_Sink
  imports Wal_Recycle Buffer_Pool
begin

text \<open>
  The sink between storage and the log (\<^verbatim>\<open>crates/ultrasql-server/src/wal_sink.rs\<close>) and what a
  checkpoint derives from it and from the buffer pool: the redo point and the floor below which
  segments are recycled (\<^verbatim>\<open>server_lifecycle.rs\<close>). \<open>sink_append_ref\<close> and its siblings are the whole call of
  one thread; \<open>Wal_Checkpoint\<close> takes it apart into the append to the buffer and the bookkeeping after
  it, between which other threads run. The sink's tables are empty when a log is opened, also where
  start-up has restored prepared transactions. The snapshots of the vector indexes and the replication slots are the positions they report.
\<close>

section \<open>The sink\<close>

datatype wal_sink_error = RejectedBuffer wal_buffer_error | RejectedMessage string

record wal_buffer_sink =
  sk_zero_lsn_reserved :: bool
  sk_last_lsn :: "(u64 \<times> u64) list"
  sk_first_lsn :: "(u64 \<times> u64) list"
  sk_cache_xid :: u64
  sk_cache_lsn :: u64
  sk_wal_records :: u64
  sk_wal_fpi :: u64
  sk_wal_bytes :: u64

definition sink_new :: wal_buffer_sink where
  "sink_new = \<lparr>sk_zero_lsn_reserved = False, sk_last_lsn = [], sk_first_lsn = [], sk_cache_xid = 0, sk_cache_lsn = 0,
     sk_wal_records = 0, sk_wal_fpi = 0, sk_wal_bytes = 0\<rparr>"

definition mark_zero_lsn_reserved :: "wal_buffer_sink \<Rightarrow> wal_buffer_sink" where
  "mark_zero_lsn_reserved sk = sk\<lparr>sk_zero_lsn_reserved := True\<rparr>"

definition record_first_lsn :: "xid \<Rightarrow> lsn \<Rightarrow> wal_buffer_sink \<Rightarrow> wal_buffer_sink" where
  "record_first_lsn xid l sk =
     (if \<not> xid_is_normal xid then sk
      else sk\<lparr>sk_first_lsn := AList.update xid
             (case map_of (sk_first_lsn sk) xid of None \<Rightarrow> l | Some first \<Rightarrow> min first l) (sk_first_lsn sk)\<rparr>)"

definition prune_terminal_and_oldest_active_first_lsn ::
  "(xid \<Rightarrow> bool) \<Rightarrow> wal_buffer_sink \<Rightarrow> wal_buffer_sink \<times> lsn option" where
  "prune_terminal_and_oldest_active_first_lsn is_active sk =
     (let kept = filter (\<lambda>(xid_raw, _). is_active xid_raw) (sk_first_lsn sk) in
      (sk\<lparr>sk_first_lsn := kept\<rparr>,
       fold (\<lambda>(_, value) oldest. Some (case oldest of None \<Rightarrow> value | Some current \<Rightarrow> min current value)) kept None))"

definition publish_last_lsn :: "xid \<Rightarrow> lsn \<Rightarrow> wal_buffer_sink \<Rightarrow> wal_buffer_sink" where
  "publish_last_lsn xid l sk =
     (if sk_cache_xid sk = xid then sk\<lparr>sk_cache_lsn := max (sk_cache_lsn sk) l\<rparr>
      else
        let current = sk_cache_xid sk;
            sk = (if current \<noteq> 0
                  then sk\<lparr>sk_last_lsn := AList.update current
                         (case map_of (sk_last_lsn sk) current of None \<Rightarrow> max 0 (sk_cache_lsn sk) | Some v \<Rightarrow> max v (sk_cache_lsn sk))
                         (sk_last_lsn sk)\<rparr>
                  else sk);
            prior = (case map_of (sk_last_lsn sk) xid of None \<Rightarrow> 0 | Some v \<Rightarrow> v)
        in sk\<lparr>sk_cache_lsn := max prior l, sk_cache_xid := xid\<rparr>)"

definition last_lsn_for :: "wal_buffer_sink \<Rightarrow> xid \<Rightarrow> lsn" where
  "last_lsn_for sk xid =
     (if sk_cache_xid sk = xid then sk_cache_lsn sk
      else case map_of (sk_last_lsn sk) xid of None \<Rightarrow> Lsn_ZERO | Some v \<Rightarrow> v)"

text \<open>What the three append paths share once the buffer has accepted the record.\<close>

definition sink_accept :: "xid \<Rightarrow> record_type \<Rightarrow> u64 \<Rightarrow> lsn \<Rightarrow> wal_buffer_sink \<Rightarrow> wal_buffer_sink" where
  "sink_accept xid record_type total_length l sk =
     (let sk = record_first_lsn xid l (publish_last_lsn xid l sk)
      in sk\<lparr>sk_wal_records := sk_wal_records sk + 1, sk_wal_bytes := sk_wal_bytes sk + total_length,
           sk_wal_fpi := sk_wal_fpi sk + (if record_type = FullPageWrite then 1 else 0)\<rparr>)"

datatype sink_outcome = SinkParked | SinkDone wal_buffer_sink wal_buffer "wal_sink_error + lsn"

definition sink_finish :: "xid \<Rightarrow> record_type \<Rightarrow> u64 \<Rightarrow> wal_buffer_sink \<Rightarrow> append_outcome \<Rightarrow> sink_outcome" where
  "sink_finish xid record_type total_length sk out =
     (case out of
        AppendParked \<Rightarrow> SinkParked
      | AppendDone b (Inl e) \<Rightarrow> SinkDone sk b (Inl (RejectedBuffer e))
      | AppendDone b (Inr l) \<Rightarrow> SinkDone (sink_accept xid record_type total_length l sk) b (Inr l))"

definition sink_append_ref :: "wal_buffer_sink \<Rightarrow> wal_buffer \<Rightarrow> wal_record \<Rightarrow> sink_outcome" where
  "sink_append_ref sk b record =
     (let h = wr_header record in
      sink_finish (wh_xid h) (wh_record_type h) (ucast (wh_total_length h)) sk (buffer_append b record))"

definition borrowed_length :: "bytes \<Rightarrow> wal_sink_error + u64" where
  "borrowed_length payload =
     (if 2 ^ 64 \<le> length payload then Inl (RejectedMessage ''borrowed WAL payload length overflow'')
      else ok_or (checked_add (of_nat RECORD_HEADER_SIZE) (of_nat (length payload))) (RejectedMessage ''borrowed WAL length overflow''))"

definition sink_append_borrowed ::
  "crc_append \<Rightarrow> wal_buffer_sink \<Rightarrow> wal_buffer \<Rightarrow> record_type \<Rightarrow> xid \<Rightarrow> lsn \<Rightarrow> u8 \<Rightarrow> bytes \<Rightarrow> sink_outcome" where
  "sink_append_borrowed crc sk b record_type xid prev_lsn flags payload =
     (case borrowed_length payload of
        Inl e \<Rightarrow> SinkDone sk b (Inl e)
      | Inr total_length \<Rightarrow>
          sink_finish xid record_type total_length sk (append_borrowed crc b record_type xid prev_lsn flags payload))"

definition sink_append_borrowed_linked ::
  "crc_append \<Rightarrow> wal_buffer_sink \<Rightarrow> wal_buffer \<Rightarrow> record_type \<Rightarrow> xid \<Rightarrow> u8 \<Rightarrow> bytes \<Rightarrow> u64 \<Rightarrow> sink_outcome \<times> u64" where
  "sink_append_borrowed_linked crc sk b record_type xid flags payload link =
     (case borrowed_length payload of
        Inl e \<Rightarrow> (SinkDone sk b (Inl e), link)
      | Inr total_length \<Rightarrow>
          (let (out, link) = append_borrowed_linked crc b record_type xid flags payload link
           in (sink_finish xid record_type total_length sk out, link)))"

definition sink_durable_lsn :: "wal_buffer \<Rightarrow> lsn" where
  "sink_durable_lsn b = wb_durable_lsn b"

definition zero_lsn_has_no_pending_record :: "wal_buffer_sink \<Rightarrow> bool" where
  "zero_lsn_has_no_pending_record sk = sk_zero_lsn_reserved sk"

text \<open>Records, full-page images, bytes and writes.\<close>

definition sink_stats :: "wal_buffer_sink \<Rightarrow> u64 \<times> u64 \<times> u64 \<times> u64" where
  "sink_stats sk = (sk_wal_records sk, sk_wal_fpi sk, sk_wal_bytes sk, sk_wal_records sk)"

section \<open>Checkpoints\<close>

text \<open>The redo point of a checkpoint whose barrier record starts at \<open>barrier_lsn\<close>.\<close>

definition checkpoint_redo_from :: "buffer_pool \<Rightarrow> lsn \<Rightarrow> lsn option" where
  "checkpoint_redo_from bp barrier_lsn =
     map_option (\<lambda>oldest. case oldest of Some l \<Rightarrow> if l < barrier_lsn then l else barrier_lsn | None \<Rightarrow> barrier_lsn) (oldest_dirty_lsn bp)"

definition fold_min_nonzero_lsn :: "lsn option \<Rightarrow> lsn \<Rightarrow> lsn option" where
  "fold_min_nonzero_lsn acc candidate =
     (if candidate = Lsn_ZERO then acc
      else Some (case acc of None \<Rightarrow> candidate | Some current \<Rightarrow> if current \<le> candidate then current else candidate))"

definition floor_min :: "lsn option \<Rightarrow> lsn \<Rightarrow> lsn" where
  "floor_min bound floor = (case bound of None \<Rightarrow> floor | Some l \<Rightarrow> min floor l)"

definition recycle_floor :: "lsn \<Rightarrow> lsn option \<Rightarrow> lsn option \<Rightarrow> lsn option \<Rightarrow> lsn option \<Rightarrow> lsn" where
  "recycle_floor redo_from oldest_active min_hnsw min_ivfflat slot_floor =
     floor_min slot_floor (floor_min min_ivfflat (floor_min min_hnsw (floor_min oldest_active redo_from)))"

text \<open>
  \<^verbatim>\<open>maybe_recycle_wal\<close> up to the call of \<^verbatim>\<open>truncate_below\<close>: the pruned sink and the target of the
  truncation, none when a snapshot failed.
\<close>

definition maybe_recycle_wal ::
  "(xid \<Rightarrow> bool) \<Rightarrow> lsn \<Rightarrow> lsn option \<Rightarrow> lsn option \<Rightarrow> lsn option \<Rightarrow> bool \<Rightarrow> wal_buffer_sink \<Rightarrow> wal_buffer_sink \<times> lsn option" where
  "maybe_recycle_wal is_in_progress redo_from min_hnsw min_ivfflat slot_floor snapshots_ok sk =
     (let (sk, oldest_active) = prune_terminal_and_oldest_active_first_lsn is_in_progress sk in
      (sk, if \<not> snapshots_ok then None
           else Some (recycle_floor redo_from oldest_active min_hnsw min_ivfflat slot_floor)))"

end
