(* ===== verification/Wal_Reader.thy ===== *)
theory Wal_Reader
  imports Wal_Recovery
begin

text \<open>
  The reader of a range of the log (\<^verbatim>\<open>crates/ultrasql-wal/src/reader.rs\<close>), which replication and
  catch-up use beside a running writer. \<open>read_wal_range\<close> scans the segments from the floor; its
  result is compared with the records of the log stamped with their positions.
\<close>

section \<open>The reader\<close>

record wal_stream_record =
  ws_lsn :: lsn
  ws_end_lsn :: lsn
  ws_record_type :: record_type
  ws_bytes :: bytes

record wal_stream =
  st_records :: "wal_stream_record list"
  st_next_lsn :: lsn

record range_cursor =
  rg_stream_pos :: u64
  rg_next_lsn :: u64
  rg_records :: "wal_stream_record list"

definition range_result :: "range_cursor \<Rightarrow> wal_stream" where
  "range_result c = \<lparr>st_records = rg_records c, st_next_lsn = rg_next_lsn c\<rparr>"

text \<open>One decoded record; on the left what the function returns at once.\<close>

definition range_record ::
  "lsn \<Rightarrow> lsn \<Rightarrow> wal_record \<Rightarrow> nat \<Rightarrow> bytes \<Rightarrow> range_cursor \<Rightarrow> (recovery_error + wal_stream) + range_cursor" where
  "range_record from_lsn to_lsn record used raw c =
     (case checked_add (rg_stream_pos c) (of_nat used) of
        None \<Rightarrow> Inl (Inl (RApplier (AppText ''WAL stream lsn overflow'')))
      | Some record_end \<Rightarrow>
          if to_lsn < record_end then Inl (Inr (range_result c))
          else Inr (if from_lsn \<le> rg_stream_pos c
            then c\<lparr>rg_records := rg_records c @ [\<lparr>ws_lsn = rg_stream_pos c, ws_end_lsn = record_end,
                     ws_record_type = wh_record_type (wr_header record), ws_bytes = raw\<rparr>],
                   rg_next_lsn := record_end, rg_stream_pos := record_end\<rparr>
            else c\<lparr>rg_stream_pos := record_end\<rparr>))"

function range_segment ::
  "crc_append \<Rightarrow> lsn \<Rightarrow> lsn \<Rightarrow> bytes \<Rightarrow> nat \<Rightarrow> range_cursor \<Rightarrow> (recovery_error + wal_stream) + range_cursor" where
  "range_segment crc from_lsn to_lsn buf offset c =
     (if offset < length buf then
        (case wal_decode crc (drop offset buf) of
           Inl e \<Rightarrow> Inl (Inl (RRecord e))
         | Inr (record, used) \<Rightarrow>
             (case range_record from_lsn to_lsn record used (slice offset (offset + used) buf) c of
                Inl res \<Rightarrow> Inl res
              | Inr c' \<Rightarrow> range_segment crc from_lsn to_lsn buf (offset + used) c'))
      else Inr c)"
  by pat_completeness auto
termination
  by (relation "measure (\<lambda>(crc, from_lsn, to_lsn, buf, offset, c). length buf - offset)")
    (auto dest!: wal_decode_used_pos)

declare range_segment.simps [simp del]

primrec range_segments ::
  "crc_append \<Rightarrow> lsn \<Rightarrow> lsn \<Rightarrow> wal_dir \<Rightarrow> (u32 \<times> string) list \<Rightarrow> range_cursor \<Rightarrow> recovery_error + wal_stream" where
  "range_segments crc from_lsn to_lsn d [] c = Inr (range_result c)"
| "range_segments crc from_lsn to_lsn d (seg # segs) c =
     (case map_of d (snd seg) of
        None \<Rightarrow> Inl (RIo (snd seg))
      | Some f \<Rightarrow>
          (case range_segment crc from_lsn to_lsn (df_content f) 0 c of
             Inl res \<Rightarrow> res
           | Inr c' \<Rightarrow> range_segments crc from_lsn to_lsn d segs c'))"

definition read_wal_range :: "crc_append \<Rightarrow> wal_dir \<Rightarrow> lsn \<Rightarrow> lsn \<Rightarrow> recovery_error + wal_stream" where
  "read_wal_range crc d from_lsn to_lsn =
     (if to_lsn \<le> from_lsn then Inr \<lparr>st_records = [], st_next_lsn = from_lsn\<rparr>
      else rbind (read_floor crc d) (\<lambda>floor.
        if from_lsn < fl_floor_lsn floor then Inl (RApplier (AppBelowFloor from_lsn (fl_floor_lsn floor)))
        else
          let segments = filter (\<lambda>(index, _). fl_segment_index floor \<le> index) (list_segments d) in
          range_segments crc from_lsn to_lsn d segments
            \<lparr>rg_stream_pos = fl_floor_lsn floor, rg_next_lsn = from_lsn, rg_records = []\<rparr>))"

section \<open>The stamped log\<close>

primrec stamped :: "nat \<Rightarrow> wal_record list \<Rightarrow> wal_stream_record list" where
  "stamped pos [] = []"
| "stamped pos (r # rs) =
     \<lparr>ws_lsn = of_nat pos, ws_end_lsn = of_nat (pos + length (record_bytes r)),
      ws_record_type = wh_record_type (wr_header r), ws_bytes = record_bytes r\<rparr>
     # stamped (pos + length (record_bytes r)) rs"

definition in_range :: "lsn \<Rightarrow> lsn \<Rightarrow> wal_stream_record \<Rightarrow> bool" where
  "in_range from_lsn to_lsn w \<longleftrightarrow> from_lsn \<le> ws_lsn w \<and> ws_end_lsn w \<le> to_lsn"

definition resume_lsn :: "lsn \<Rightarrow> wal_stream_record list \<Rightarrow> lsn" where
  "resume_lsn from_lsn ws = (if ws = [] then from_lsn else ws_end_lsn (last ws))"

text \<open>The cursor after the records \<open>rs\<close>, all of which end by the bound.\<close>

definition cursor_after :: "lsn \<Rightarrow> lsn \<Rightarrow> nat \<Rightarrow> wal_record list \<Rightarrow> range_cursor" where
  "cursor_after from_lsn to_lsn pos rs =
     (let ws = filter (in_range from_lsn to_lsn) (stamped pos rs) in
      \<lparr>rg_stream_pos = of_nat (pos + length (log_image rs)), rg_next_lsn = resume_lsn from_lsn ws, rg_records = ws\<rparr>)"

lemma stamped_append: "stamped pos (rs @ rs') = stamped pos rs @ stamped (pos + length (log_image rs)) rs'"
  by (induction rs arbitrary: pos) (simp_all add: add.assoc)

lemma stamped_ge:
  "w \<in> set (stamped pos rs) \<Longrightarrow> pos + length (log_image rs) < 2 ^ 64 \<Longrightarrow>
     pos \<le> unat (ws_lsn w) \<and> unat (ws_lsn w) < unat (ws_end_lsn w)"
proof (induction rs arbitrary: pos)
  case (Cons r rs)
  have "unat (of_nat pos :: lsn) = pos" "unat (of_nat (pos + length (record_bytes r)) :: lsn) = pos + length (record_bytes r)"
    using Cons.prems(2) by (intro unat_of_nat_small; simp)+
  with Cons show ?case by (force simp: length_record_bytes)
qed simp

lemma range_record_step:
  assumes "pos + length (log_image (rs @ [r])) < 2 ^ 64"
  shows "range_record from_lsn to_lsn r (length (record_bytes r)) (record_bytes r) (cursor_after from_lsn to_lsn pos rs) =
    (if unat to_lsn < pos + length (log_image (rs @ [r])) then Inl (Inr (range_result (cursor_after from_lsn to_lsn pos rs)))
     else Inr (cursor_after from_lsn to_lsn pos (rs @ [r])))"
proof -
  let ?p = "pos + length (log_image rs)" and ?n = "length (record_bytes r)"
  have u: "unat (of_nat ?p :: lsn) = ?p" "unat (of_nat (?p + ?n) :: lsn) = ?p + ?n" "unat (of_nat ?n :: lsn) = ?n"
    using assms by (intro unat_of_nat_small; simp)+
  have add: "checked_add (of_nat ?p :: lsn) (of_nat ?n) = Some (of_nat (?p + ?n))"
    using assms u by (simp add: checked_add_def)
  have lt: "to_lsn < of_nat (?p + ?n) \<longleftrightarrow> unat to_lsn < ?p + ?n" by (simp only: word_less_nat_alt u)
  show ?thesis
    using add lt by (auto simp: range_record_def cursor_after_def Let_def stamped_append in_range_def resume_lsn_def
        word_le_nat_alt word_less_nat_alt add.assoc)
qed

lemma range_cut:
  assumes "unat to_lsn < pos + length (log_image rs)" "pos + length (log_image (rs @ rs')) < 2 ^ 64"
  shows "range_result (cursor_after from_lsn to_lsn pos (rs @ rs')) = range_result (cursor_after from_lsn to_lsn pos rs)"
proof -
  have "\<not> in_range from_lsn to_lsn w" if "w \<in> set (stamped (pos + length (log_image rs)) rs')" for w
    using stamped_ge [OF that] assms by (simp add: in_range_def word_le_nat_alt)
  then show ?thesis by (simp add: range_result_def cursor_after_def Let_def stamped_append filter_empty_conv)
qed

lemma range_stop:
  assumes "unat to_lsn < pos + length (log_image (rs @ [r]))" "pos + length (log_image (rs @ r # rs')) < 2 ^ 64"
  shows "range_result (cursor_after from_lsn to_lsn pos (rs @ r # rs')) = range_result (cursor_after from_lsn to_lsn pos rs)"
proof -
  have "unat (of_nat (pos + length (log_image rs) + length (record_bytes r)) :: lsn) = pos + length (log_image rs) + length (record_bytes r)"
    using assms(2) by (intro unat_of_nat_small) simp
  then have "\<not> of_nat (pos + length (log_image rs) + length (record_bytes r)) \<le> to_lsn"
    using assms(1) by (simp only: word_le_nat_alt) simp
  then have "range_result (cursor_after from_lsn to_lsn pos (rs @ [r])) = range_result (cursor_after from_lsn to_lsn pos rs)"
    by (simp add: range_result_def cursor_after_def Let_def stamped_append in_range_def)
  moreover have "range_result (cursor_after from_lsn to_lsn pos ((rs @ [r]) @ rs')) = range_result (cursor_after from_lsn to_lsn pos (rs @ [r]))"
    using assms by (intro range_cut) simp_all
  ultimately show ?thesis by simp
qed

lemma range_segment_records:
  "list_all (well_formed crc) rs \<Longrightarrow> pos + length (log_image (past @ rs)) < 2 ^ 64 \<Longrightarrow>
   pos + length (log_image past) \<le> unat to_lsn \<Longrightarrow>
   range_segment crc from_lsn to_lsn (pre @ log_image rs @ tail) (length pre) (cursor_after from_lsn to_lsn pos past) =
     (if unat to_lsn < pos + length (log_image (past @ rs))
      then Inl (Inr (range_result (cursor_after from_lsn to_lsn pos (past @ rs))))
      else range_segment crc from_lsn to_lsn (pre @ log_image rs @ tail) (length pre + length (log_image rs))
             (cursor_after from_lsn to_lsn pos (past @ rs)))"
proof (induction rs arbitrary: pre past)
  case (Cons r rs)
  let ?buf = "pre @ record_bytes r @ log_image rs @ tail" and ?n = "length (record_bytes r)"
  let ?c = "cursor_after from_lsn to_lsn pos"
  have lt: "length pre < length ?buf" by (simp add: length_record_bytes)
  have dec: "wal_decode crc (drop (length pre) ?buf) = Inr (r, ?n)" using Cons.prems wal_decode_record by simp
  have raw: "slice (length pre) (length pre + ?n) ?buf = record_bytes r" by (simp add: slice_def)
  have small: "pos + length (log_image (past @ [r])) < 2 ^ 64" "pos + length (log_image ((past @ [r]) @ rs)) < 2 ^ 64"
    using Cons.prems(2) by simp_all
  note unfold = range_segment.simps [of crc from_lsn to_lsn ?buf "length pre" "?c past"]
  show ?case
  proof (cases "unat to_lsn < pos + length (log_image (past @ [r]))")
    case True
    then have "range_segment crc from_lsn to_lsn ?buf (length pre) (?c past) = Inl (Inr (range_result (?c past)))"
      using lt dec raw range_record_step [OF small(1)] by (simp add: unfold)
    moreover have "range_result (?c (past @ r # rs)) = range_result (?c past)"
      using True Cons.prems(2) by (rule range_stop)
    ultimately show ?thesis using True by simp
  next
    case False
    then have "range_segment crc from_lsn to_lsn ?buf (length pre) (?c past)
        = range_segment crc from_lsn to_lsn ?buf (length pre + ?n) (?c (past @ [r]))"
      using lt dec raw range_record_step [OF small(1)] by (simp add: unfold)
    also have "\<dots> = (if unat to_lsn < pos + length (log_image (past @ r # rs))
        then Inl (Inr (range_result (?c (past @ r # rs))))
        else range_segment crc from_lsn to_lsn ?buf (length pre + (?n + length (log_image rs))) (?c (past @ r # rs)))"
      using Cons.IH [of "past @ [r]" "pre @ record_bytes r"] Cons.prems False by (simp add: add.assoc)
    finally show ?thesis using False by auto
  qed
qed simp

lemma range_segment_tail:
  "range_segment crc from_lsn to_lsn (pre @ tail) (length pre) c =
     (if tail = [] then Inr c
      else case wal_decode crc tail of Inl e \<Rightarrow> Inl (Inl (RRecord e)) | Inr _ \<Rightarrow> range_segment crc from_lsn to_lsn (pre @ tail) (length pre) c)"
  by (auto simp: range_segment.simps [of crc from_lsn to_lsn "pre @ tail" "length pre" c] split: sum.splits)

lemma torn_fails: "torn crc tail \<Longrightarrow> tail \<noteq> [] \<Longrightarrow> \<exists>e. wal_decode crc tail = Inl e"
  by (auto simp: torn_def split: sum.splits)

lemma range_segments_log:
  "list_all (list_all (well_formed crc)) rss \<Longrightarrow> torn crc tail \<Longrightarrow> (rss = [] \<longrightarrow> tail = []) \<Longrightarrow>
   list_all2 (\<lambda>seg b. \<exists>f. map_of d (snd seg) = Some f \<and> df_content f = b) segs (log_bytes rss tail) \<Longrightarrow>
   pos + length (log_image (past @ concat rss)) < 2 ^ 64 \<Longrightarrow> pos + length (log_image past) \<le> unat to_lsn \<Longrightarrow>
   range_segments crc from_lsn to_lsn d segs (cursor_after from_lsn to_lsn pos past) =
     (if tail = [] \<or> unat to_lsn < pos + length (log_image (past @ concat rss))
      then Inr (range_result (cursor_after from_lsn to_lsn pos (past @ concat rss)))
      else Inl (RRecord (projl (wal_decode crc tail))))"
proof (induction rss tail arbitrary: segs past rule: log_bytes.induct)
  case (2 rs tail)
  then obtain seg f where seg: "segs = [seg]" "map_of d (snd seg) = Some f" "df_content f = [] @ log_image rs @ tail"
    by (auto simp: list_all2_Cons2)
  have "list_all (well_formed crc) rs" "pos + length (log_image (past @ rs)) < 2 ^ 64" using "2.prems" by simp_all
  note scan = range_segment_records [OF this "2.prems"(6), of from_lsn "[]" tail, folded seg(3)]
  show ?case
  proof (cases "unat to_lsn < pos + length (log_image (past @ rs))")
    case True
    then show ?thesis using scan seg by simp
  next
    case False
    then show ?thesis
      using scan seg range_segment_tail [of crc from_lsn to_lsn "log_image rs" tail "cursor_after from_lsn to_lsn pos (past @ rs)"]
        torn_fails [OF "2.prems"(2)] by auto
  qed
next
  case (3 rs rs' rss tail)
  then obtain seg segs' f where seg: "segs = seg # segs'" "map_of d (snd seg) = Some f" "df_content f = [] @ log_image rs @ []"
    "list_all2 (\<lambda>seg b. \<exists>f. map_of d (snd seg) = Some f \<and> df_content f = b) segs' (log_bytes (rs' # rss) tail)"
    by (auto simp: list_all2_Cons2)
  have wf: "list_all (well_formed crc) rs" "pos + length (log_image (past @ rs)) < 2 ^ 64" using "3.prems" by simp_all
  note scan = range_segment_records [OF wf "3.prems"(6), of from_lsn "[]" "[]", folded seg(3)]
  show ?case
  proof (cases "unat to_lsn < pos + length (log_image (past @ rs))")
    case True
    have "range_result (cursor_after from_lsn to_lsn pos ((past @ rs) @ concat (rs' # rss)))
        = range_result (cursor_after from_lsn to_lsn pos (past @ rs))"
      using "3.prems"(5) by (intro range_cut [OF True]) simp
    then show ?thesis using True scan seg by simp
  next
    case False
    have "range_segment crc from_lsn to_lsn (df_content f) 0 (cursor_after from_lsn to_lsn pos past)
        = Inr (cursor_after from_lsn to_lsn pos (past @ rs))"
      using scan False range_segment_tail [of crc from_lsn to_lsn "log_image rs" "[]"] seg(3) by simp
    then show ?thesis
      using "3.IH" [of segs' "past @ rs"] "3.prems" seg False by simp
  qed
qed simp

end
