(* ===== verification/Wal_Properties.thy ===== *)
theory Wal_Properties
  imports Wal_Recycle Wal_Reader
begin

text \<open>
  The properties of the write-ahead log that span its parts: what recovery replays, what a crash can
  lose, what a durability request gets, and what repair changes. Each is followed by an instance on a
  concrete log; the instances use a checksum that adds up the bytes.
\<close>

section \<open>A concrete log\<close>

definition sum_crc :: crc_append where
  "sum_crc c bs = foldl (\<lambda>a b. a + ucast b) c bs"

definition demo_record :: "record_type \<Rightarrow> xid \<Rightarrow> bytes \<Rightarrow> wal_record" where
  "demo_record t x payload = projr (wal_record_new sum_crc t x 0 0 payload)"

lemma demo_record:
  assumes "length payload \<le> 64"
  shows "well_formed sum_crc (demo_record t x payload)" "wr_payload (demo_record t x payload) = payload"
    "wh_record_type (wr_header (demo_record t x payload)) = t" "wh_xid (wr_header (demo_record t x payload)) = x"
proof -
  from assms obtain r where r: "wal_record_new sum_crc t x 0 0 payload = Inr r"
    by (simp add: wal_record_new_def build_header_def Let_def)
  then have "demo_record t x payload = r" by (simp add: demo_record_def)
  with r show "well_formed sum_crc (demo_record t x payload)" "wr_payload (demo_record t x payload) = payload"
    "wh_record_type (wr_header (demo_record t x payload)) = t" "wh_xid (wr_header (demo_record t x payload)) = x"
    by (auto simp: wal_record_new_Inr)
qed

definition demo_insert :: wal_record where "demo_insert = demo_record HeapInsert 7 [1, 2, 3]"
definition demo_commit :: wal_record where
  "demo_commit = demo_record Commit 7 (commit_bytes \<lparr>cp_commit_lsn = 0, cp_commit_timestamp_micros = 5, cp_committed_subxids = []\<rparr>)"

lemma demo_facts [simp]:
  "well_formed sum_crc demo_insert" "well_formed sum_crc demo_commit" "length (record_bytes demo_insert) = 31"
  "length (record_bytes demo_commit) = 48" "commit_of 7 demo_commit" "\<not> commit_of x demo_insert"
  by (simp_all add: demo_insert_def demo_commit_def demo_record commit_bytes_def subxids_bytes_def length_record_bytes commit_of_def)

text \<open>A directory with one segment: an insert, its commit, and the first 30 bytes of a third record.\<close>

definition demo_segment :: bytes where
  "demo_segment = log_image [demo_insert, demo_commit] @ take 30 (record_bytes demo_insert)"

definition demo_dir :: wal_dir where
  "demo_dir = [(segment_path 0, \<lparr>df_content = demo_segment, df_synced = length demo_segment\<rparr>)]"

lemma demo_length [simp]: "length demo_segment = 109"
  by (simp add: demo_segment_def)

lemma demo_seg [simp]: "seg_set demo_dir = {0}" "seg_bytes demo_dir 0 = demo_segment"
  by (auto simp: seg_set_def seg_bytes_def demo_dir_def)

lemma demo_live [simp]: "live demo_dir WalFloor_ORIGIN = [0]"
  by (simp add: live_def WalFloor_ORIGIN_def)

lemma demo_holds_log:
  "holds_log sum_crc (2 ^ 27) demo_dir WalFloor_ORIGIN [[demo_insert, demo_commit]] (take 30 (record_bytes demo_insert))"
proof -
  have "dir_ok demo_dir" by (simp add: demo_dir_def dir_ok_def)
  moreover have "read_floor sum_crc demo_dir = Inr WalFloor_ORIGIN" by (simp add: read_floor_def demo_dir_def)
  moreover have "torn sum_crc (take 30 (record_bytes demo_insert))" by (rule torn_prefix) simp_all
  ultimately show ?thesis
    by (simp add: holds_log_def WalFloor_ORIGIN_def Lsn_ZERO_def) (simp add: demo_segment_def live_def)
qed

lemma demo_settled: "settled demo_dir"
  by (simp add: settled_def demo_dir_def)

section \<open>Records and payloads\<close>

lemma accepted_iff: "(\<exists>t x prev flags payload. wal_record_new crc t x prev flags payload = Inr r) \<longleftrightarrow> well_formed crc r"
  by (simp add: wal_record_new_Inr)

lemma wal_decode_iff:
  "wal_decode crc b = Inr (r, n) \<longleftrightarrow> well_formed crc r \<and> n \<le> length b \<and> wal_encode r = Some (take n b)"
proof
  assume "wal_decode crc b = Inr (r, n)"
  note s = wal_decode_sound [OF this]
  have "take n b = record_bytes r" using s(2,3) by (metis append_eq_conv_conj)
  then show "well_formed crc r \<and> n \<le> length b \<and> wal_encode r = Some (take n b)"
    using s(1,4) wal_encode_eq [OF s(1)] by simp
next
  assume a: "well_formed crc r \<and> n \<le> length b \<and> wal_encode r = Some (take n b)"
  then have t: "record_bytes r = take n b" using wal_encode_eq [of crc r] by simp
  then have "b = record_bytes r @ drop n b" "length (record_bytes r) = n" using a by simp_all
  then show "wal_decode crc b = Inr (r, n)" using wal_decode_record [of crc r "drop n b"] a by simp
qed

text \<open>
  C38. The record codec is exact. The decoder gets a record and a length from a buffer if and only if
  the constructor accepts the record and the buffer starts with what the encoder writes for it, of
  that length: so a wrong checksum, a reserved flag or a length above the ceiling is never accepted.
  For an accepted record the two encoders write the same bytes, the decoder reads it back from the
  front of any buffer and consumes exactly it, and every strict prefix of it is reported as truncated
  with the number of bytes present. This holds for every checksum function.
\<close>

theorem wal_codec_exact:
  assumes "wal_record_new crc t x prev flags payload = Inr r"
  shows "(\<forall>r' b n. wal_decode crc b = Inr (r', n) \<longleftrightarrow>
        (\<exists>t x prev flags payload. wal_record_new crc t x prev flags payload = Inr r')
        \<and> n \<le> length b \<and> wal_encode r' = Some (take n b))
    \<and> (\<exists>img. wal_encode r = Some img \<and> append_encoded_to r out = out @ img
      \<and> wal_decode crc (img @ rest) = Inr (r, length img)
      \<and> (\<forall>k < length img. \<exists>needed. wal_decode crc (take k img) = Inl (Truncated needed k)))"
proof
  show "\<forall>r' b n. wal_decode crc b = Inr (r', n) \<longleftrightarrow>
        (\<exists>t x prev flags payload. wal_record_new crc t x prev flags payload = Inr r')
        \<and> n \<le> length b \<and> wal_encode r' = Some (take n b)"
    by (simp add: wal_decode_iff accepted_iff)
next
  have wf: "well_formed crc r" using assms by (simp add: wal_record_new_Inr)
  have cut: "\<exists>needed. wal_decode crc (take k (record_bytes r)) = Inl (Truncated needed k)" if "k < length (record_bytes r)" for k
    using wal_decode_prefix [OF wf that] by blast
  show "\<exists>img. wal_encode r = Some img \<and> append_encoded_to r out = out @ img
      \<and> wal_decode crc (img @ rest) = Inr (r, length img)
      \<and> (\<forall>k < length img. \<exists>needed. wal_decode crc (take k img) = Inl (Truncated needed k))"
    by (rule exI [of _ "record_bytes r"])
      (use cut wal_encode_eq [OF wf] wal_decode_record [OF wf, of rest] append_encoded_to_eq in blast)
qed

theorem wal_codec_exact_witness:
  "\<exists>r img. wal_record_new sum_crc Nop 1 0 0 [1, 2, 3] = Inr r \<and> wal_encode r = Some img
    \<and> append_encoded_to r [9] = [9] @ img \<and> wal_decode sum_crc (img @ [8]) = Inr (r, length img)
    \<and> (\<forall>b n. wal_decode sum_crc b = Inr (r, n) \<longleftrightarrow> n \<le> length b \<and> img = take n b)"
proof -
  obtain r where r: "wal_record_new sum_crc Nop 1 0 0 [1, 2, 3] = Inr r"
    by (simp add: wal_record_new_def build_header_def)
  with wal_codec_exact [OF this, of "[9]" "[8]"] show ?thesis by auto
qed

text \<open>
  C39. The payload codecs of commits, aborts, checkpoints, page images and heap inserts are exact: a
  byte string is what the encoder writes for a payload if and only if the decoder reads that payload
  from it. The exceptions are the old commit format of 16 bytes, which is still read, and inserts
  beyond the payload ceiling.
\<close>

theorem payload_codecs_exact:
  "(length b1 \<noteq> 16 \<longrightarrow> (commit_encode c = Inr b1 \<longleftrightarrow> commit_decode b1 = Inr c))
   \<and> (abort_encode a = b2 \<longleftrightarrow> abort_decode b2 = Inr a)
   \<and> (checkpoint_encode k = b3 \<longleftrightarrow> checkpoint_decode b3 = Inr k)
   \<and> (full_page_write_encode f = Inr b4 \<longleftrightarrow> full_page_write_decode b4 = Inr f)
   \<and> (length (hi_tuple_bytes i) \<le> MAX_VARIABLE_PAYLOAD_BYTES \<longrightarrow> (heap_insert_encode i = Inr b5 \<longleftrightarrow> heap_insert_decode b5 = Inr i))
   \<and> (length b6 \<le> MAX_VARIABLE_PAYLOAD_BYTES \<longrightarrow> (heap_insert_batch_encode e = Inr b6 \<longleftrightarrow> heap_insert_batch_decode b6 = Inr e))"
  using commit_codec.exact abort_codec.exact checkpoint_codec.exact fpw_codec.exact insert_codec.exact batch_codec.exact
  by auto

theorem payload_codecs_exact_witness:
  "commit_decode (commit_bytes \<lparr>cp_commit_lsn = 8, cp_commit_timestamp_micros = 5, cp_committed_subxids = [4]\<rparr>)
     = Inr \<lparr>cp_commit_lsn = 8, cp_commit_timestamp_micros = 5, cp_committed_subxids = [4]\<rparr>
   \<and> heap_insert_decode (heap_insert_bytes \<lparr>hi_tid = TupleId (PageId 1 2) 3, hi_tuple_bytes = [1, 2]\<rparr>)
     = Inr \<lparr>hi_tid = TupleId (PageId 1 2) 3, hi_tuple_bytes = [1, 2]\<rparr>
   \<and> heap_insert_batch_decode (batch_bytes \<lparr>bp_page = PageId 1 2, bp_entries = [\<lparr>be_slot = 0, be_tuple_bytes = [9]\<rparr>]\<rparr>)
     = Inr \<lparr>bp_page = PageId 1 2, bp_entries = [\<lparr>be_slot = 0, be_tuple_bytes = [9]\<rparr>]\<rparr>"
  using payload_codecs_exact
    [of "commit_bytes \<lparr>cp_commit_lsn = 8, cp_commit_timestamp_micros = 5, cp_committed_subxids = [4]\<rparr>"
       "\<lparr>cp_commit_lsn = 8, cp_commit_timestamp_micros = 5, cp_committed_subxids = [4]\<rparr>" _ _ _ _ _ _
       "\<lparr>hi_tid = TupleId (PageId 1 2) 3, hi_tuple_bytes = [1, 2]\<rparr>"
       "heap_insert_bytes \<lparr>hi_tid = TupleId (PageId 1 2) 3, hi_tuple_bytes = [1, 2]\<rparr>"
       "batch_bytes \<lparr>bp_page = PageId 1 2, bp_entries = [\<lparr>be_slot = 0, be_tuple_bytes = [9]\<rparr>]\<rparr>"
       "\<lparr>bp_page = PageId 1 2, bp_entries = [\<lparr>be_slot = 0, be_tuple_bytes = [9]\<rparr>]\<rparr>"]
  by (simp add: commit_encode_Inr heap_insert_encode_Inr heap_insert_batch_encode_Inr batch_ok_def)
    (simp add: commit_bytes_def subxids_bytes_def batch_bytes_def)

section \<open>Recovery\<close>

text \<open>
  C29. Recovery does what its plan says. For every target and every closure that applies records, also
  one that fails, the scan over the segment files gives the same state and the same result as
  computing from the list of complete records which of them to apply and applying those in order; a
  torn record at the end of the last segment changes nothing. A target before the floor is refused
  with nothing applied.
\<close>

theorem recovery_exact:
  assumes "holds_log crc limit d fl rss tail"
  shows "recover_with_target crc limit d t apply st =
    (case rt_target_lsn t of
       Some l \<Rightarrow> if l < fl_floor_lsn fl then (st, Inl (TargetBeforeFloor l (fl_floor_lsn fl)))
                 else run_plan t apply (unat (fl_floor_lsn fl)) (concat rss) st
     | None \<Rightarrow> run_plan t apply (unat (fl_floor_lsn fl)) (concat rss) st)"
proof (cases "case rt_target_lsn t of Some l \<Rightarrow> fl_floor_lsn fl \<le> l | None \<Rightarrow> True")
  case True
  with recover_with_target_plan [OF assms, of t "apply" st] show ?thesis by (auto split: option.splits)
next
  case False
  with assms show ?thesis by (auto simp: recover_with_target_def holds_log_def split: option.splits)
qed

theorem recovery_exact_witness:
  "recover_with_target sum_crc (2 ^ 27) demo_dir (up_to_lsn 40) collect [] = ([demo_insert], Inr 31)"
  using recovery_exact [OF demo_holds_log, of "up_to_lsn 40" collect "[]"]
  by (simp add: up_to_lsn_def WalFloor_ORIGIN_def Lsn_ZERO_def run_plan_def replay_decision_def plan_outcome_def
      finish_recovery_at_def collect_def)

text \<open>
  C36. Point-in-time recovery. Without a target every complete record is replayed and the end of the
  log returned. An LSN target replays exactly the records that end at or below it and returns where
  the last of them ends. A transaction target replays up to and including that transaction's first
  commit record and returns where it ends, and is an error when there is no such record. A time target
  replays exactly the records before the first commit with a later timestamp, where the commit records
  of the log decode.
\<close>

theorem point_in_time:
  assumes log: "holds_log crc limit d fl rss tail" and rs: "rs = concat rss" and base: "base = unat (fl_floor_lsn fl)"
  shows "recover crc limit d collect [] = (rs, Inr (of_nat (base + length (log_image rs))))
    \<and> (fl_floor_lsn fl \<le> l \<longrightarrow> (\<exists>n \<le> length rs.
         recover_with_target crc limit d (up_to_lsn l) collect [] = (take n rs, Inr (of_nat (base + length (log_image (take n rs)))))
         \<and> (\<forall>k \<le> length rs. k \<le> n \<longleftrightarrow> base + length (log_image (take k rs)) \<le> unat l)))
    \<and> (list_all (\<lambda>r. \<not> commit_of x r) rs \<longrightarrow>
         recover_with_target crc limit d (up_to_xid x) collect [] = (rs, Inl (TargetXidNotFound x)))
    \<and> (rs = pre @ r # post \<and> list_all (\<lambda>r. \<not> commit_of x r) pre \<and> commit_of x r \<longrightarrow>
         recover_with_target crc limit d (up_to_xid x) collect [] = (pre @ [r], Inr (of_nat (base + length (log_image (pre @ [r]))))))
    \<and> (commits_decode rs \<longrightarrow> (let before = takeWhile (\<lambda>r. \<not> newer_commit t r) rs in
         recover_with_target crc limit d (up_to_time_micros t) collect [] = (before, Inr (of_nat (base + length (log_image before))))))"
proof (intro conjI impI)
  show "recover crc limit d collect [] = (rs, Inr (of_nat (base + length (log_image rs))))"
    using recover_collect [OF log] by (simp add: rs base)
next
  assume l: "fl_floor_lsn fl \<le> l"
  obtain n where n: "n \<le> length rs" "ends_by (unat l) base rs = take n rs"
    "\<forall>k \<le> length rs. base \<le> unat l \<longrightarrow> (k \<le> n \<longleftrightarrow> base + length (log_image (take k rs)) \<le> unat l)"
    using ends_by_prefix [of rs "unat l" base] by blast
  have "rt_target_lsn (up_to_lsn l) = Some l" "rt_target_xid (up_to_lsn l) = None" by (simp_all add: up_to_lsn_def)
  then show "\<exists>n \<le> length rs.
      recover_with_target crc limit d (up_to_lsn l) collect [] = (take n rs, Inr (of_nat (base + length (log_image (take n rs)))))
      \<and> (\<forall>k \<le> length rs. k \<le> n \<longleftrightarrow> base + length (log_image (take k rs)) \<le> unat l)"
    using recover_with_target_plan [OF log, of "up_to_lsn l" collect "[]"] n l
    by (intro exI [of _ n]) (simp add: run_plan_def redo_collect plan_outcome_def finish_recovery_at_def rs base word_le_nat_alt)
next
  have x: "rt_target_lsn (up_to_xid x) = None" "rt_target_xid (up_to_xid x) = Some x" by (simp_all add: up_to_xid_def)
  {
    assume "list_all (\<lambda>r. \<not> commit_of x r) rs"
    then have "\<not> list_ex (commit_of x) rs" by (auto simp: list_all_iff list_ex_iff)
    with recover_with_target_plan [OF log, of "up_to_xid x" collect "[]"] x
    show "recover_with_target crc limit d (up_to_xid x) collect [] = (rs, Inl (TargetXidNotFound x))"
      by (simp add: run_plan_def plan_up_to_xid redo_collect plan_outcome_def finish_recovery_at_def rs)
  }
  assume a: "rs = pre @ r # post \<and> list_all (\<lambda>r. \<not> commit_of x r) pre \<and> commit_of x r"
  then have "takeWhile (\<lambda>r. \<not> commit_of x r) rs = pre" "hd (dropWhile (\<lambda>r. \<not> commit_of x r) rs) = r" "list_ex (commit_of x) rs"
    by (auto simp: list_all_iff dropWhile_append2 takeWhile_append2)
  with recover_with_target_plan [OF log, of "up_to_xid x" collect "[]"] x
  show "recover_with_target crc limit d (up_to_xid x) collect [] = (pre @ [r], Inr (of_nat (base + length (log_image (pre @ [r])))))"
    by (simp add: run_plan_def plan_up_to_xid redo_collect plan_outcome_def base flip: rs)
next
  assume c: "commits_decode rs"
  have "rt_target_lsn (up_to_time_micros t) = None" "rt_target_xid (up_to_time_micros t) = None" by (simp_all add: up_to_time_micros_def)
  then show "let before = takeWhile (\<lambda>r. \<not> newer_commit t r) rs in
      recover_with_target crc limit d (up_to_time_micros t) collect [] = (before, Inr (of_nat (base + length (log_image before))))"
    using recover_with_target_plan [OF log, of "up_to_time_micros t" collect "[]"] plan_up_to_time [OF c, of t base]
    by (simp add: run_plan_def redo_collect plan_outcome_def finish_recovery_at_def base Let_def flip: rs)
qed

theorem point_in_time_witness:
  "recover sum_crc (2 ^ 27) demo_dir collect [] = ([demo_insert, demo_commit], Inr 79)
   \<and> recover_with_target sum_crc (2 ^ 27) demo_dir (up_to_xid 7) collect [] = ([demo_insert, demo_commit], Inr 79)
   \<and> recover_with_target sum_crc (2 ^ 27) demo_dir (up_to_xid 8) collect [] = ([demo_insert, demo_commit], Inl (TargetXidNotFound 8))"
proof -
  have "\<not> commit_of 8 demo_commit" by (simp add: commit_of_def demo_commit_def demo_record commit_bytes_def subxids_bytes_def)
  then show ?thesis
    using point_in_time [OF demo_holds_log refl refl, where x = 7 and pre = "[demo_insert]" and r = demo_commit and post = "[]"]
      point_in_time [OF demo_holds_log refl refl, where x = 8]
    by (simp add: WalFloor_ORIGIN_def Lsn_ZERO_def)
qed

text \<open>
  C37. Repairing the final segment removes exactly the torn bytes behind its last complete record,
  reports their number, and changes nothing on a clean log. Recovery replays the same records with the
  same result before and after, whatever the target, and a second repair has nothing to do.
\<close>

theorem repair_exact:
  assumes "holds_log crc limit d fl rss tail"
  shows "\<exists>d'. repair_final_segment_tail crc limit d = Inr (d', if tail = [] then None else Some (length tail))
    \<and> (tail = [] \<longrightarrow> d' = d) \<and> map (seg_bytes d') (live d' fl) = map log_image rss
    \<and> recover_with_target crc limit d' t apply st = recover_with_target crc limit d t apply st
    \<and> repair_final_segment_tail crc limit d' = Inr (d', None)"
proof -
  from repair_log [OF assms] obtain d' where d': "repair_final_segment_tail crc limit d = Inr (d', if tail = [] then None else Some (length tail))"
    "holds_log crc limit d' fl rss []" "tail = [] \<longrightarrow> d' = d" by blast
  have "recover_with_target crc limit d' t apply st = recover_with_target crc limit d t apply st"
  proof (cases "case rt_target_lsn t of Some l \<Rightarrow> fl_floor_lsn fl \<le> l | None \<Rightarrow> True")
    case True
    then show ?thesis by (simp add: recover_with_target_plan [OF assms True] recover_with_target_plan [OF d'(2) True])
  next
    case False
    with assms d'(2) show ?thesis by (auto simp: recover_with_target_def holds_log_def split: option.splits)
  qed
  moreover have "repair_final_segment_tail crc limit d' = Inr (d', None)" using repair_log [OF d'(2)] by simp
  moreover have "map (seg_bytes d') (live d' fl) = map log_image rss"
    using d'(2) by (simp add: holds_log_def log_bytes_clean)
  ultimately show ?thesis using d' by blast
qed

theorem repair_exact_witness:
  "\<exists>d'. repair_final_segment_tail sum_crc (2 ^ 27) demo_dir = Inr (d', Some 30)
    \<and> map (seg_bytes d') (live d' WalFloor_ORIGIN) = [log_image [demo_insert, demo_commit]]
    \<and> recover_with_target sum_crc (2 ^ 27) d' target_none collect [] = recover_with_target sum_crc (2 ^ 27) demo_dir target_none collect []"
  using repair_exact [OF demo_holds_log, of target_none collect "[]"] by auto

section \<open>Durability\<close>

text \<open>
  C28. No durable record is lost. A log directory is recovered, the buffer set to the recovered
  position and the writer opened; appenders and the writer thread run in any interleaving; the system
  crashes at any point, between two writes or inside one. Then recovery finds all the records that
  were there before and a prefix of those appended since, in order, and that prefix has every record
  that starts below the durable position the writer had published. The directory is again fit for the
  same to be done with it.
\<close>

theorem crash_recovery_durable:
  assumes log: "holds_log crc limit d fl rss tail" "settled d" "rss \<noteq> [] \<or> fl_segment_index fl = 0"
    and rec: "recover crc limit d collect [] = (old, Inr l)"
    and op: "writer_open crc limit d (advance_to_lsn (wal_buffer_new cap 0) l) = Inr s0"
    and run: "(wal_step crc cfg)\<^sup>*\<^sup>* (s0, Idle, []) (s, p, appended)"
    and crash: "crash_dir (sy_dir s) d'"
    and lim: "unat (wc_segment_size_bytes cfg) \<le> limit" "MAX_RECORD_BYTES \<le> limit"
  shows "\<exists>n \<le> length appended.
    recover crc limit d' collect [] = (old @ take n appended, Inr (of_nat (unat l + length (log_image (take n appended)))))
    \<and> (\<forall>k < length appended. unat l + length (log_image (take k appended)) < unat (sy_durable_lsn s) \<longrightarrow> k < n)
    \<and> (\<exists>rss' tail'. holds_log crc limit d' fl rss' tail' \<and> settled d' \<and> (rss' \<noteq> [] \<or> fl_segment_index fl = 0))"
proof -
  define base where "base = unat l"
  note o = opened [OF log rec op]
  have old: "old = concat rss" and l: "unat l = base" and base: "base = unat (fl_floor_lsn fl) + length (log_image (concat rss))"
    and "wal_inv crc limit fl rss base (s0, Idle, [])" using o by (simp_all add: base_def)
  from wal_reachable_inv [OF run this(4) lim] obtain new F B P D where sp: "spread crc limit fl rss base s p appended new F B P D"
    by (auto simp: wal_inv_def)
  then have core: "core crc limit fl rss base s new P D" and app: "appended = concat new @ F @ B"
    and wf: "list_all (well_formed crc) (concat new)" and next_lsn: "unat (wb_next_lsn (sy_buffer s)) = base + length (log_image appended)"
    by (auto simp: spread_def)
  have "base + length (log_image (concat new)) < 2 ^ 64"
    using next_lsn unat_less_pow [of "wb_next_lsn (sy_buffer s)"] by (simp add: app)
  moreover have "list_all (list_all (well_formed crc)) rss" using log(1) by (simp add: holds_log_def)
  ultimately obtain m new' tail' where m: "holds_log crc limit d' fl (rss @ new') tail'" "concat new' = take m (concat new)"
    "m \<le> length (concat new)" "length D \<le> m"
    using crash_core [OF core crash wf _ base] by blast
  have t: "take m appended = take m (concat new)" using m(3) by (simp add: app)
  have "unat (sy_durable_lsn s) = base + length (log_image D)" "prefix D appended"
    using core by (auto simp: core_def Let_def app intro: prefix_order.trans)
  then have "\<forall>k < length appended. unat l + length (log_image (take k appended)) < unat (sy_durable_lsn s) \<longrightarrow> k < m"
    using prefix_image_less [of D appended] m(4) l by (auto intro: order.strict_trans2)
  moreover have "recover crc limit d' collect [] = (old @ take m appended, Inr (of_nat (unat l + length (log_image (take m appended)))))"
    using recover_collect [OF m(1)] m(2) by (simp add: old l base t add.assoc)
  moreover have "m \<le> length appended" using m(3) by (simp add: app)
  moreover have "settled d'" using crash by (rule crash_settled)
  ultimately show ?thesis using m(1) log(3) by blast
qed

text \<open>
  C30. A durability request is served by the writer's next iteration. From any state the open writer
  can reach at rest, an iteration that finds the force flag or the stop flag set fails only when the
  segment indices run out; otherwise every record appended before it is below the durable position it
  publishes. An iteration that finds the stop flag ends the loop with the buffer closed and empty and
  everything durable.
\<close>

theorem durability_request_served:
  assumes log: "holds_log crc limit d fl rss tail" "settled d" "rss \<noteq> [] \<or> fl_segment_index fl = 0"
    and rec: "recover crc limit d collect [] = (old, Inr l)"
    and op: "writer_open crc limit d (advance_to_lsn (wal_buffer_new cap 0) l) = Inr s0"
    and run: "(wal_step crc cfg)\<^sup>*\<^sup>* (s0, Idle, []) (s, Idle, appended)"
    and lim: "unat (wc_segment_size_bytes cfg) \<le> limit" "MAX_RECORD_BYTES \<le> limit" "limit < 2 ^ 64"
    and req: "wk_force_fsync (sy_wake s) \<or> wk_stopping (sy_wake s)"
    and it: "run_iteration cfg window_elapsed s = (s', r)"
  shows "r = Inl WSegmentIndexExhausted \<or>
    r = Inr (wk_stopping (sy_wake s)) \<and> sy_durable_lsn s' = wb_next_lsn (sy_buffer s)
    \<and> unat (sy_durable_lsn s') = unat l + length (log_image appended)
    \<and> (wk_stopping (sy_wake s) \<longrightarrow> wb_bytes (sy_buffer s') = [] \<and> wb_closed (sy_buffer s')
         \<and> wb_next_lsn (sy_buffer s') = wb_next_lsn (sy_buffer s))"
proof -
  have inv: "wal_inv crc limit fl rss (unat l) (s, Idle, appended)" using wal_reachable_inv [OF run opened(3) [OF log rec op] lim(1,2)] .
  have "flush_inv (s, Idle, appended)" using flush_inv_steps [OF run open_flush_inv [OF op]] .
  from iteration_durable [OF inv this lim req it] inv show ?thesis
    by (auto simp: wal_inv_def spread_def)
qed

subsection \<open>A concrete run\<close>

definition demo_cfg :: wal_writer_config where
  "demo_cfg = \<lparr>wc_segment_size_bytes = 0x1000000, wc_fsync_batch_bytes = 0x40000\<rparr>"

definition demo_open :: wal_system where
  "demo_open =
     \<lparr>sy_dir = [], sy_buffer = set_drainer (advance_to_lsn (wal_buffer_new 1000 0) 0),
      sy_driver = driver_new (advance_to_lsn (wal_buffer_new 1000 0) 0) 0,
      sy_wake = \<lparr>wk_stopping = False, wk_force_fsync = False, wk_epoch = 0\<rparr>, sy_durable_lsn = 0, sy_fatal = False\<rparr>"

lemma demo_opens: "writer_open sum_crc (2 ^ 27) [] (advance_to_lsn (wal_buffer_new 1000 0) 0) = Inr demo_open"
  by (simp add: writer_open_def repair_final_segment_tail_def read_floor_def list_segments_def map_filter_simps
      next_segment_index_def demo_open_def)

lemma demo_empty_log: "holds_log sum_crc (2 ^ 27) [] WalFloor_ORIGIN [] []" "settled []" "fl_segment_index WalFloor_ORIGIN = 0"
  by (simp_all add: holds_log_def dir_ok_def read_floor_def live_def seg_set_def settled_def WalFloor_ORIGIN_def Lsn_ZERO_def)

lemma demo_recovers: "recover sum_crc (2 ^ 27) [] collect [] = ([], Inr 0)"
  using recover_collect [OF demo_empty_log(1)] by (simp add: WalFloor_ORIGIN_def Lsn_ZERO_def)

lemma demo_appended:
  obtains s where "wal_step sum_crc demo_cfg (demo_open, Idle, []) (s, Idle, [demo_insert])"
    "wb_bytes (sy_buffer s) = record_bytes demo_insert" "wb_next_lsn (sy_buffer s) = 31" "sy_dir s = []"
    "sy_driver s = sy_driver demo_open"
proof -
  let ?b = "sy_buffer demo_open"
  have t: "unat (wh_total_length (wr_header demo_insert)) = 31"
    using total_length_bytes [OF demo_facts(1)] by simp
  then have u: "unat (ucast (wh_total_length (wr_header demo_insert)) :: u64) = 31" by (simp add: unat_ucast_32_64)
  obtain b l where b: "buffer_append ?b demo_insert = AppendDone b (Inr l)"
    by (simp add: buffer_append_def append_bytes_def reserve_def demo_open_def set_drainer_def advance_to_lsn_def wal_buffer_new_def
        t Let_def checked_add_def u)
  note d = buffer_append_Done [OF demo_facts(1) b]
  have z: "wb_bytes ?b = []" "wb_next_lsn ?b = 0" by (simp_all add: demo_open_def set_drainer_def)
  have "wb_next_lsn b = 31" using d(3) z by (simp add: word_unat_eq_iff)
  moreover have "wal_step sum_crc demo_cfg (demo_open, Idle, []) (demo_open\<lparr>sy_buffer := b\<rparr>, Idle, [demo_insert])"
    using step_append [OF demo_facts(1) b, of demo_cfg Idle "[]"] by simp
  ultimately show ?thesis
    using that [of "demo_open\<lparr>sy_buffer := b\<rparr>"] d(2) z by (simp add: demo_open_def)
qed

lemma write_loop_single:
  assumes "write_step cfg bytes 0 s = (s', Inr (length bytes))" "bytes \<noteq> []"
  shows "write_loop cfg bytes 0 s = (s', Inr ())"
proof -
  have "write_loop cfg bytes (length bytes) s' = (s', Inr ())" by (subst write_loop.simps) simp
  with assms show ?thesis by (subst write_loop.simps) simp
qed

lemma demo_flushed:
  assumes s1: "wb_bytes (sy_buffer s1) = record_bytes demo_insert" "wb_next_lsn (sy_buffer s1) = 31" "sy_dir s1 = []"
    "sy_driver s1 = sy_driver demo_open"
  obtains s where "(wal_step sum_crc demo_cfg)\<^sup>*\<^sup>* (s1, Idle, [demo_insert]) (s, Idle, [demo_insert])"
    "sy_durable_lsn s = 31" "wb_durable_lsn (sy_buffer s) = 31" "sy_dir s = [(segment_path 0, \<lparr>df_content = record_bytes demo_insert, df_synced = 31\<rparr>)]"
proof -
  let ?r = "record_bytes demo_insert"
  have ne: "?r \<noteq> []" using demo_facts(3) by (auto simp del: demo_facts)
  obtain n where n: "peek_record_length ?r = Inr n" "unat n = 31"
    using peek_record [OF demo_facts(1), of "[]"] by auto
  have dr: "dr_current_index (sy_driver s1) = 0" "dr_current_file (sy_driver s1) = None" "dr_current_size (sy_driver s1) = 0"
    "dr_unflushed_bytes (sy_driver s1) = 0"
    by (simp_all add: s1(4) demo_open_def driver_new_def)
  let ?s = "s1\<lparr>sy_buffer := (sy_buffer s1)\<lparr>wb_bytes := []\<rparr>\<rparr>"
  let ?d = "[(segment_path 0, \<lparr>df_content = ?r, df_synced = 0\<rparr>)]"
  let ?s2 = "?s\<lparr>sy_dir := ?d, sy_driver := (sy_driver s1)\<lparr>dr_current_file := Some (segment_path 0), dr_current_size := n, dr_unflushed_bytes := 31\<rparr>\<rparr>"
  have "write_step demo_cfg ?r 0 ?s = (?s2, Inr (length ?r))"
    using n dr s1(3) by (simp add: write_step_def ensure_segment_open_def open_segment_file_def write_chunk_def
        checked_writer_usize_add_def checked_writer_u64_add_def checked_add_def Let_def create_file_def append_file_def)
  note loop = write_loop_single [OF this ne]
  have "drain_and_write demo_cfg s1 = (?s2\<lparr>sy_driver := (sy_driver ?s2)\<lparr>dr_pending_lsn := 31\<rparr>\<rparr>, Inr ())" (is "_ = (?s3, _)")
    using s1(1,2) ne loop by (simp add: drain_and_write_def drain_into_def Let_def write_drained_def)
  from drain_and_write_steps [OF this, of sum_crc "[demo_insert]"]
  have "(wal_step sum_crc demo_cfg)\<^sup>*\<^sup>* (s1, Idle, [demo_insert]) (?s3, Idle, [demo_insert])" .
  moreover have "wal_step sum_crc demo_cfg (?s3, Idle, [demo_insert]) (flush_current ?s3, Idle, [demo_insert])"
    by (rule step_flush) simp
  ultimately have "(wal_step sum_crc demo_cfg)\<^sup>*\<^sup>* (s1, Idle, [demo_insert]) (flush_current ?s3, Idle, [demo_insert])" by simp
  then show ?thesis
    by (rule that) (simp_all add: flush_published flush_current_def publish_durable_lsn_def buffer_publish_durable_lsn_def sync_file_def Let_def)
qed

lemma demo_written:
  obtains s where "(wal_step sum_crc demo_cfg)\<^sup>*\<^sup>* (demo_open, Idle, []) (s, Idle, [demo_insert])"
    "sy_durable_lsn s = 31" "sy_dir s = [(segment_path 0, \<lparr>df_content = record_bytes demo_insert, df_synced = 31\<rparr>)]"
proof -
  obtain s1 where s1: "wal_step sum_crc demo_cfg (demo_open, Idle, []) (s1, Idle, [demo_insert])"
    "wb_bytes (sy_buffer s1) = record_bytes demo_insert" "wb_next_lsn (sy_buffer s1) = 31" "sy_dir s1 = []"
    "sy_driver s1 = sy_driver demo_open" by (rule demo_appended)
  obtain s where "(wal_step sum_crc demo_cfg)\<^sup>*\<^sup>* (s1, Idle, [demo_insert]) (s, Idle, [demo_insert])"
    "sy_durable_lsn s = 31" "sy_dir s = [(segment_path 0, \<lparr>df_content = record_bytes demo_insert, df_synced = 31\<rparr>)]"
    by (rule demo_flushed [OF s1(2-5)])
  then show ?thesis using that s1(1) by (meson converse_rtranclp_into_rtranclp)
qed

theorem crash_recovery_durable_witness:
  "\<exists>s d'. (wal_step sum_crc demo_cfg)\<^sup>*\<^sup>* (demo_open, Idle, []) (s, Idle, [demo_insert]) \<and> sy_durable_lsn s = 31
    \<and> crash_dir (sy_dir s) d' \<and> recover sum_crc (2 ^ 27) d' collect [] = ([demo_insert], Inr 31)"
proof -
  obtain s where s: "(wal_step sum_crc demo_cfg)\<^sup>*\<^sup>* (demo_open, Idle, []) (s, Idle, [demo_insert])"
    "sy_durable_lsn s = 31" "sy_dir s = [(segment_path 0, \<lparr>df_content = record_bytes demo_insert, df_synced = 31\<rparr>)]"
    by (rule demo_written)
  have crash: "crash_dir (sy_dir s) (sy_dir s)" by (auto simp: s(3) crash_dir_def crash_file_def intro: exI [of _ 31])
  have lim: "unat (wc_segment_size_bytes demo_cfg) \<le> 2 ^ 27" "MAX_RECORD_BYTES \<le> 2 ^ 27" by (simp_all add: demo_cfg_def)
  from crash_recovery_durable [OF demo_empty_log(1,2) disjI2 [OF demo_empty_log(3)] demo_recovers demo_opens s(1) crash lim] s(2)
  obtain n where n: "n \<le> 1" "0 < n"
    "recover sum_crc (2 ^ 27) (sy_dir s) collect [] = (take n [demo_insert], Inr (of_nat (length (log_image (take n [demo_insert])))))"
    by auto
  then have "recover sum_crc (2 ^ 27) (sy_dir s) collect [] = ([demo_insert], Inr 31)" by (cases "n = 1") auto
  with s(1,2) crash show ?thesis by blast
qed

theorem durability_request_served_witness:
  "\<exists>s s' r. wk_stopping (sy_wake s) \<and> run_iteration demo_cfg False s = (s', r) \<and>
    (r = Inl WSegmentIndexExhausted \<or> r = Inr True \<and> unat (sy_durable_lsn s') = 31)"
proof -
  obtain s where s: "(wal_step sum_crc demo_cfg)\<^sup>*\<^sup>* (demo_open, Idle, []) (s, Idle, [demo_insert])" by (rule demo_written)
  have "wal_step sum_crc demo_cfg (s, Idle, [demo_insert]) (signal_stop s, Idle, [demo_insert])"
    unfolding signal_stop_def by (rule step_wake)
  with s have run: "(wal_step sum_crc demo_cfg)\<^sup>*\<^sup>* (demo_open, Idle, []) (signal_stop s, Idle, [demo_insert])" by simp
  have stop: "wk_stopping (sy_wake (signal_stop s))" by (simp add: signal_stop_def)
  obtain s' r where it: "run_iteration demo_cfg False (signal_stop s) = (s', r)" by fastforce
  have lim: "unat (wc_segment_size_bytes demo_cfg) \<le> 2 ^ 27" "MAX_RECORD_BYTES \<le> 2 ^ 27" "(2 :: nat) ^ 27 < 2 ^ 64" by (simp_all add: demo_cfg_def)
  from durability_request_served [OF demo_empty_log(1,2) disjI2 [OF demo_empty_log(3)] demo_recovers demo_opens run lim disjI2 [OF stop] it] stop it
  show ?thesis by auto
qed

section \<open>Truncation\<close>

text \<open>
  C31. Recycling segments never loses a record that is needed. Truncations to targets at or below
  \<open>T\<close> run beside the appenders and the writer, file operation by file operation; the operating
  system may refuse to unlink any file; the system crashes at any point. Then recovery finds the log
  of the untruncated system without a prefix: every record left out ends at or below \<open>T\<close>, every
  record below the published durable position that starts at or above \<open>T\<close> is recovered, and the
  position recovery ends at is the same as without truncation. The directory is again fit for the
  same to be done with it.
\<close>

theorem truncation_safe:
  assumes log: "holds_log crc limit d fl rss tail" "settled d" "rss \<noteq> [] \<or> fl_segment_index fl = 0"
    and rec: "recover crc limit d collect [] = (old, Inr l)"
    and op: "writer_open crc limit d (advance_to_lsn (wal_buffer_new cap 0) l) = Inr s0"
    and run: "(sys_step crc cfg removable T)\<^sup>*\<^sup>* ((s0, Idle, []), []) ((s, p, appended), ops)"
    and crash: "crash_dir (sy_dir s) d'"
    and lim: "unat (wc_segment_size_bytes cfg) \<le> limit" "MAX_RECORD_BYTES \<le> limit"
  shows "\<exists>n \<le> length appended. \<exists>k \<le> length (old @ take n appended).
    recover crc limit d' collect []
      = (drop k (old @ take n appended), Inr (of_nat (unat l + length (log_image (take n appended)))))
    \<and> (0 < k \<longrightarrow> unat (fl_floor_lsn fl) + length (log_image (take k (old @ take n appended))) \<le> unat T)
    \<and> (\<forall>j < length appended. unat l + length (log_image (take j appended)) < unat (sy_durable_lsn s) \<longrightarrow> j < n)
    \<and> (\<exists>fl' rss' tail'. holds_log crc limit d' fl' rss' tail' \<and> settled d' \<and> (rss' \<noteq> [] \<or> fl_segment_index fl' = 0))"
proof -
  note o = opened [OF log rec op]
  from sys_reachable_inv [OF run open_sys_inv [OF o(3)] lim o(2)] have inv: "sys_inv crc limit T fl rss (unat l) ((s, p, appended), ops)" .
  show ?thesis using crash_recovers [OF log(1,3) inv crash o(2)] unfolding o(1) by metis
qed

definition demo_two :: wal_dir where
  "demo_two = [(segment_path 0, \<lparr>df_content = record_bytes demo_insert, df_synced = 31\<rparr>),
     (segment_path 1, \<lparr>df_content = record_bytes demo_commit, df_synced = 48\<rparr>)]"

lemma demo_two_seg: "seg_set demo_two = {0, 1}" "seg_bytes demo_two 0 = record_bytes demo_insert" "seg_bytes demo_two 1 = record_bytes demo_commit"
  by (auto simp: seg_set_def seg_bytes_def demo_two_def)

lemma demo_two_live: "live demo_two WalFloor_ORIGIN = [0, 1]"
  by (simp add: live_def WalFloor_ORIGIN_def demo_two_seg)

lemma demo_two_log:
  "holds_log sum_crc (2 ^ 27) demo_two WalFloor_ORIGIN [[demo_insert], [demo_commit]] []" "settled demo_two"
proof -
  have "dir_ok demo_two" by (simp add: demo_two_def dir_ok_def)
  moreover have "read_floor sum_crc demo_two = Inr WalFloor_ORIGIN" by (simp add: read_floor_def demo_two_def)
  ultimately show "holds_log sum_crc (2 ^ 27) demo_two WalFloor_ORIGIN [[demo_insert], [demo_commit]] []"
    by (simp add: holds_log_def demo_two_live demo_two_seg) (simp add: WalFloor_ORIGIN_def Lsn_ZERO_def)
  show "settled demo_two" by (simp add: settled_def demo_two_def)
qed

lemma demo_two_opens:
  obtains s where "writer_open sum_crc (2 ^ 27) demo_two (advance_to_lsn (wal_buffer_new 1000 0) 79) = Inr s" "sy_dir s = demo_two"
proof -
  have "repair_final_segment_tail sum_crc (2 ^ 27) demo_two = Inr (demo_two, None)" using repair_log [OF demo_two_log(1)] by auto
  moreover have "dir_ok demo_two" using demo_two_log(1) by (simp add: holds_log_def)
  then have "next_segment_index demo_two = Inr 2"
    by (simp add: next_segment_index_def list_segments_eq demo_two_seg checked_add_def)
  ultimately show ?thesis using that by (simp add: writer_open_def)
qed

lemma demo_two_plan:
  "truncation_plan sum_crc demo_two 31 = Inr (WalFloor_ORIGIN, Some \<lparr>fl_segment_index = 1, fl_floor_lsn = 31\<rparr>)"
proof -
  have "dir_ok demo_two" "read_floor sum_crc demo_two = Inr WalFloor_ORIGIN" using demo_two_log(1) by (simp_all add: holds_log_def)
  moreover have "plan_floor WalFloor_ORIGIN 31 [(0, 31), (1, 48)] = \<lparr>fl_segment_index = 1, fl_floor_lsn = 31\<rparr>"
    by (simp add: plan_floor_def WalFloor_ORIGIN_def Lsn_ZERO_def checked_add_def saturating_add_def)
  ultimately show ?thesis
    by (simp add: truncation_plan_def planning_eq demo_two_live demo_two_seg Let_def) (simp add: WalFloor_ORIGIN_def)
qed

theorem truncation_safe_witness:
  "\<exists>s d' k. (sys_step sum_crc demo_cfg (\<lambda>_. True) 31)\<^sup>*\<^sup>* ((s, Idle, []), [])
      ((s\<lparr>sy_dir := fold run_op (truncate_ops sum_crc (\<lambda>_. True) \<lparr>fl_segment_index = 1, fl_floor_lsn = 31\<rparr> (list_segments demo_two)) demo_two\<rparr>, Idle, []), [])
    \<and> sy_dir s = demo_two \<and> k \<le> 2 \<and> recover sum_crc (2 ^ 27) d' collect [] = (drop k [demo_insert, demo_commit], Inr 79)
    \<and> (0 < k \<longrightarrow> length (log_image (take k [demo_insert, demo_commit])) \<le> 31)"
proof -
  obtain s where s: "writer_open sum_crc (2 ^ 27) demo_two (advance_to_lsn (wal_buffer_new 1000 0) 79) = Inr s" "sy_dir s = demo_two"
    by (rule demo_two_opens)
  let ?ops = "truncate_ops sum_crc (\<lambda>_. True) \<lparr>fl_segment_index = 1, fl_floor_lsn = 31\<rparr> (list_segments demo_two)"
  let ?s = "s\<lparr>sy_dir := fold run_op ?ops demo_two\<rparr>"
  have "sys_step sum_crc demo_cfg (\<lambda>_. True) 31 ((s, Idle, []), []) ((s, Idle, []), ?ops)"
    using sys_truncate [of 31 31 sum_crc s] demo_two_plan s(2) by simp
  with sys_ops_run [of sum_crc demo_cfg "\<lambda>_. True" 31 s Idle "[]" ?ops] s(2)
  have run: "(sys_step sum_crc demo_cfg (\<lambda>_. True) 31)\<^sup>*\<^sup>* ((s, Idle, []), []) ((?s, Idle, []), [])"
    by (simp add: converse_rtranclp_into_rtranclp)
  have rec: "recover sum_crc (2 ^ 27) demo_two collect [] = ([demo_insert, demo_commit], Inr 79)"
    using recover_collect [OF demo_two_log(1)] by (simp add: WalFloor_ORIGIN_def Lsn_ZERO_def)
  have lim: "unat (wc_segment_size_bytes demo_cfg) \<le> 2 ^ 27" "MAX_RECORD_BYTES \<le> 2 ^ 27" by (simp_all add: demo_cfg_def)
  have "[[demo_insert], [demo_commit]] \<noteq> [] \<or> fl_segment_index WalFloor_ORIGIN = 0" by simp
  from truncation_safe [OF demo_two_log this rec s(1) run crash_whole lim]
  obtain n k where "k \<le> length ([demo_insert, demo_commit] @ take n [])"
    "recover sum_crc (2 ^ 27) (map (\<lambda>(n, f). (n, f\<lparr>df_synced := length (df_content f)\<rparr>)) (sy_dir ?s)) collect []
      = (drop k ([demo_insert, demo_commit] @ take n []), Inr (of_nat (unat (79 :: lsn) + length (log_image (take n [])))))"
    "0 < k \<longrightarrow> unat (fl_floor_lsn WalFloor_ORIGIN) + length (log_image (take k ([demo_insert, demo_commit] @ take n []))) \<le> unat (31 :: lsn)"
    by blast
  then have "k \<le> 2" "recover sum_crc (2 ^ 27) (map (\<lambda>(n, f). (n, f\<lparr>df_synced := length (df_content f)\<rparr>)) (sy_dir ?s)) collect []
      = (drop k [demo_insert, demo_commit], Inr 79)" "0 < k \<longrightarrow> length (log_image (take k [demo_insert, demo_commit])) \<le> 31"
    by (simp_all add: WalFloor_ORIGIN_def Lsn_ZERO_def)
  with run s(2) show ?thesis by blast
qed

section \<open>Reading a range\<close>

text \<open>
  C35. The range reader is exact on a directory that holds a log. An empty range is empty; a start
  below the floor is refused; otherwise the result is the list of all records of the log that start
  at or after the start and end by the bound, stamped with their positions and their raw bytes, and
  the position to resume at is the end of the last of them. The one exception: when every complete
  record ends by the bound and the final segment ends in a partly written record, the reader decodes
  those bytes although they lie beyond the bound, and fails.
\<close>

theorem read_range_exact:
  assumes log: "holds_log crc limit d fl rss tail"
  shows "read_wal_range crc d from_lsn to_lsn =
    (if to_lsn \<le> from_lsn then Inr \<lparr>st_records = [], st_next_lsn = from_lsn\<rparr>
     else if from_lsn < fl_floor_lsn fl then Inl (RApplier (AppBelowFloor from_lsn (fl_floor_lsn fl)))
     else if tail \<noteq> [] \<and> unat (fl_floor_lsn fl) + length (log_image (concat rss)) \<le> unat to_lsn
     then Inl (RRecord (projl (wal_decode crc tail)))
     else let ws = filter (in_range from_lsn to_lsn) (stamped (unat (fl_floor_lsn fl)) (concat rss)) in
       Inr \<lparr>st_records = ws, st_next_lsn = resume_lsn from_lsn ws\<rparr>)"
proof (cases "to_lsn \<le> from_lsn \<or> from_lsn < fl_floor_lsn fl")
  case True
  then show ?thesis using log by (auto simp: read_wal_range_def holds_log_def)
next
  case False
  let ?pos = "unat (fl_floor_lsn fl)"
  have ok: "dir_ok d" "read_floor crc d = Inr fl" "map (seg_bytes d) (live d fl) = log_bytes rss tail"
    and wf: "list_all (list_all (well_formed crc)) rss" "torn crc tail" "rss = [] \<longrightarrow> tail = []"
    and small: "?pos + length (log_image ([] @ concat rss)) < 2 ^ 64"
    using log by (simp_all add: holds_log_def)
  have "list_all2 (\<lambda>seg b. \<exists>f. map_of d (snd seg) = Some f \<and> df_content f = b)
      (map (\<lambda>i. (i, segment_path i)) (live d fl)) (log_bytes rss tail)"
    unfolding ok(3) [symmetric] by (auto simp: list_all2_map1 list_all2_map2 list_all2_same set_live seg_set_map_of seg_bytes_def)
  moreover have "?pos + length (log_image []) \<le> unat to_lsn" using False by (simp add: word_le_nat_alt word_less_nat_alt)
  ultimately have "range_segments crc from_lsn to_lsn d (map (\<lambda>i. (i, segment_path i)) (live d fl)) (cursor_after from_lsn to_lsn ?pos []) =
     (if tail = [] \<or> unat to_lsn < ?pos + length (log_image ([] @ concat rss))
      then Inr (range_result (cursor_after from_lsn to_lsn ?pos ([] @ concat rss)))
      else Inl (RRecord (projl (wal_decode crc tail))))"
    by (intro range_segments_log [OF wf _ small])
  then show ?thesis
    using False ok by (auto simp: read_wal_range_def live_segments cursor_after_def range_result_def resume_lsn_def Let_def)
qed

theorem read_range_exact_witness:
  "read_wal_range sum_crc demo_dir 0 40
     = Inr \<lparr>st_records = [\<lparr>ws_lsn = 0, ws_end_lsn = 31, ws_record_type = wh_record_type (wr_header demo_insert),
              ws_bytes = record_bytes demo_insert\<rparr>], st_next_lsn = 31\<rparr>
   \<and> (\<exists>e. read_wal_range sum_crc demo_dir 0 79 = Inl (RRecord e))"
proof
  show "read_wal_range sum_crc demo_dir 0 40
     = Inr \<lparr>st_records = [\<lparr>ws_lsn = 0, ws_end_lsn = 31, ws_record_type = wh_record_type (wr_header demo_insert),
              ws_bytes = record_bytes demo_insert\<rparr>], st_next_lsn = 31\<rparr>"
    using read_range_exact [OF demo_holds_log, of 0 40] demo_facts(3)
    by (simp add: WalFloor_ORIGIN_def Lsn_ZERO_def in_range_def resume_lsn_def Let_def)
  have "take 30 (record_bytes demo_insert) \<noteq> []" using demo_facts(3) by (auto simp del: demo_facts)
  then show "\<exists>e. read_wal_range sum_crc demo_dir 0 79 = Inl (RRecord e)"
    using read_range_exact [OF demo_holds_log, of 0 79] by (simp add: WalFloor_ORIGIN_def Lsn_ZERO_def)
qed

end
