(* ===== verification/Wal_Checkpoint.thy ===== *)
theory Wal_Checkpoint
  imports Wal_Sink Wal_Properties
begin

text \<open>
  The sink's bookkeeping and checkpoints beside the log. \<open>ckpt_step\<close> lets appends to the buffer, their
  registration in the sink's tables, the writer, and the recycling of a checkpoint with the floor it
  computes interleave at the grain of single file operations. The floor never passes a record that a
  transaction still running appended since the log was opened, and so recycling never drops one.

  Two gaps of the bookkeeping bound what holds. A record is in the log before it is registered, and a
  checkpoint that falls in between does not know of it; \<open>unregistered_not_held\<close>. And the table of first
  positions starts out empty when the log is opened, so the records that a prepared transaction
  recovered at start-up has in the old log are not held back either; \<open>recovered_not_held\<close>.
\<close>

section \<open>The first record of a transaction\<close>

lemma publish_first [simp]: "sk_first_lsn (publish_last_lsn x l sk) = sk_first_lsn sk"
  by (simp add: publish_last_lsn_def Let_def)

lemma accept_first:
  "map_of (sk_first_lsn (sink_accept x t n l sk)) y =
     (if xid_is_normal x \<and> y = x
      then Some (case map_of (sk_first_lsn sk) x of None \<Rightarrow> l | Some first \<Rightarrow> min first l)
      else map_of (sk_first_lsn sk) y)"
  by (simp add: sink_accept_def Let_def record_first_lsn_def update_conv)

lemma map_of_restrict_keys: "map_of (filter (\<lambda>(k, _). P k) xs) x = (if P x then map_of xs x else None)"
  by (induction xs) auto

lemma fold_min_le:
  fixes xs :: "('a \<times> u64) list"
  defines "f \<equiv> \<lambda>(_ :: 'a, value) oldest. Some (case oldest of None \<Rightarrow> value | Some current \<Rightarrow> min current value)"
  shows "(\<exists>w. acc = Some w \<and> w \<le> v) \<or> v \<in> snd ` set xs \<Longrightarrow> \<exists>m. fold f xs acc = Some m \<and> m \<le> v"
proof (induction xs arbitrary: acc)
  case (Cons x xs)
  have "(\<exists>w. f x acc = Some w \<and> w \<le> v) \<or> v \<in> snd ` set xs"
    using Cons.prems by (cases x; cases acc) (auto simp: f_def min_le_iff_disj)
  from Cons.IH [OF this] show ?case by simp
qed auto

lemma prune_oldest:
  assumes "prune_terminal_and_oldest_active_first_lsn is_active sk = (sk', oldest)"
  shows "map_of (sk_first_lsn sk') y = (if is_active y then map_of (sk_first_lsn sk) y else None)"
    and "is_active x \<Longrightarrow> map_of (sk_first_lsn sk) x = Some v \<Longrightarrow> \<exists>m. oldest = Some m \<and> m \<le> v"
proof -
  let ?kept = "filter (\<lambda>(k, _). is_active k) (sk_first_lsn sk)"
  have sk': "sk_first_lsn sk' = ?kept"
    and old: "oldest = fold (\<lambda>(_, value) oldest. Some (case oldest of None \<Rightarrow> value | Some current \<Rightarrow> min current value)) ?kept None"
    using assms by (auto simp: prune_terminal_and_oldest_active_first_lsn_def Let_def)
  show "map_of (sk_first_lsn sk') y = (if is_active y then map_of (sk_first_lsn sk) y else None)" by (simp add: sk' map_of_restrict_keys)
  assume "is_active x" "map_of (sk_first_lsn sk) x = Some v"
  then have "(x, v) \<in> set ?kept" by (simp add: map_of_SomeD)
  then have "v \<in> snd ` set ?kept" by force
  from fold_min_le [OF disjI2 [OF this], of None] show "\<exists>m. oldest = Some m \<and> m \<le> v" by (simp add: old)
qed

lemma recycle_floor_le: "recycle_floor redo_from active h i s \<le> redo_from" "active = Some m \<Longrightarrow> recycle_floor redo_from active h i s \<le> m"
  by (auto simp: recycle_floor_def floor_min_def min_le_iff_disj split: option.split)

lemma maybe_recycle_target:
  assumes "maybe_recycle_wal is_active redo_from h i slot ok sk = (sk', Some target)"
  shows "target \<le> redo_from" "is_active x \<Longrightarrow> map_of (sk_first_lsn sk) x = Some v \<Longrightarrow> target \<le> v"
proof -
  obtain oldest where p: "prune_terminal_and_oldest_active_first_lsn is_active sk = (sk', oldest)" and t: "target = recycle_floor redo_from oldest h i slot"
    using assms by (auto simp: maybe_recycle_wal_def split: prod.splits if_splits)
  show "target \<le> redo_from" by (simp add: t recycle_floor_le)
  assume "is_active x" "map_of (sk_first_lsn sk) x = Some v"
  from prune_oldest(2) [OF p this] obtain m where m: "oldest = Some m" "m \<le> v" by blast
  show "target \<le> v" unfolding t using order_trans [OF recycle_floor_le(2) [OF m(1)] m(2)] .
qed

lemma maybe_recycle_first:
  assumes "maybe_recycle_wal is_active redo_from h i slot ok sk = (sk', target)"
  shows "map_of (sk_first_lsn sk') y = (if is_active y then map_of (sk_first_lsn sk) y else None)"
proof -
  obtain oldest where "prune_terminal_and_oldest_active_first_lsn is_active sk = (sk', oldest)"
    using assms by (auto simp: maybe_recycle_wal_def split: prod.splits)
  then show ?thesis by (rule prune_oldest(1))
qed

section \<open>Steps\<close>

text \<open>The log, the file operations to come, the sink, and the appends the sink has not registered yet.\<close>

type_synonym ckpt_state =
  "((wal_system \<times> phase \<times> wal_record list) \<times> fs_op list) \<times> wal_buffer_sink \<times> (wal_record \<times> lsn) list"

abbreviation xid_of :: "wal_record \<Rightarrow> xid" where "xid_of r \<equiv> wh_xid (wr_header r)"

definition sink_register :: "wal_record \<Rightarrow> lsn \<Rightarrow> wal_buffer_sink \<Rightarrow> wal_buffer_sink" where
  "sink_register r l = sink_accept (xid_of r) (wh_record_type (wr_header r)) (ucast (wh_total_length (wr_header r))) l"

text \<open>
  \<open>running\<close> are transactions that run until the crash: each is in progress at every checkpoint after its
  first record. A checkpoint finds their appends registered, except those at or after its redo point.
\<close>

inductive ckpt_step ::
  "crc_append \<Rightarrow> wal_writer_config \<Rightarrow> (string \<Rightarrow> bool) \<Rightarrow> xid set \<Rightarrow> ckpt_state \<Rightarrow> ckpt_state \<Rightarrow> bool"
  for crc cfg removable running where
  ck_append: "well_formed crc r \<Longrightarrow> buffer_append (sy_buffer s) r = AppendDone b (Inr l) \<Longrightarrow>
    ckpt_step crc cfg removable running (((s, p, log), ops), sk, pend)
      (((s\<lparr>sy_buffer := b\<rparr>, p, log @ [r]), ops), sk, pend @ [(r, l)])"
| ck_register: "ckpt_step crc cfg removable running (st, sk, ps @ (r, l) # qs) (st, sink_register r l sk, ps @ qs)"
| ck_writer: "wal_step crc cfg (s, p, log) (s', p', log) \<Longrightarrow>
    ckpt_step crc cfg removable running (((s, p, log), ops), sk, pend) (((s', p', log), ops), sk, pend)"
| ck_recycle: "maybe_recycle_wal is_in_progress redo_from h i slot ok sk = (sk', target) \<Longrightarrow>
    (\<forall>r \<in> set log. xid_of r \<in> running \<longrightarrow> is_in_progress (xid_of r)) \<Longrightarrow> redo_from \<le> wb_next_lsn (sy_buffer s) \<Longrightarrow>
    (\<forall>(r, l) \<in> set pend. xid_of r \<in> running \<longrightarrow> redo_from \<le> l) \<Longrightarrow>
    ckpt_step crc cfg removable running (((s, p, log), []), sk, pend)
      (((s, p, log),
        case target of
          None \<Rightarrow> []
        | Some t \<Rightarrow> (case truncation_plan crc (sy_dir s) t of
            Inr (_, Some new) \<Rightarrow> truncate_ops crc removable new (list_segments (sy_dir s))
          | _ \<Rightarrow> [])), sk', pend)"
| ck_op: "ckpt_step crc cfg removable running (((s, p, log), op # ops), sk, pend)
    (((s\<lparr>sy_dir := run_op op (sy_dir s)\<rparr>, p, log), ops), sk, pend)"
| ck_reserve: "ckpt_step crc cfg removable running (st, sk, pend) (st, mark_zero_lsn_reserved sk, pend)"

text \<open>An append through the sink is the append to the buffer and then the registration.\<close>

lemma sink_append_run:
  assumes "well_formed crc r" "sink_append_ref sk (sy_buffer s) r = SinkDone sk' b (Inr l)"
  shows "(ckpt_step crc cfg removable running)\<^sup>*\<^sup>* (((s, p, log), ops), sk, pend) (((s\<lparr>sy_buffer := b\<rparr>, p, log @ [r]), ops), sk', pend)"
proof -
  have a: "buffer_append (sy_buffer s) r = AppendDone b (Inr l)" "sk' = sink_register r l sk"
    using assms(2) by (auto simp: sink_append_ref_def sink_finish_def sink_register_def Let_def split: append_outcome.splits sum.splits)
  note ck_append [OF assms(1) a(1), of cfg removable running p log ops sk pend]
  moreover note ck_register [of crc cfg removable running "((s\<lparr>sy_buffer := b\<rparr>, p, log @ [r]), ops)" sk pend r l "[]"]
  ultimately show ?thesis using a(2) by simp
qed

text \<open>The bytes of the log before the first record of a running transaction.\<close>

definition before_running :: "xid set \<Rightarrow> nat \<Rightarrow> wal_record list \<Rightarrow> nat" where
  "before_running running base log = base + length (log_image (takeWhile (\<lambda>r. xid_of r \<notin> running) log))"

definition held :: "nat \<Rightarrow> wal_buffer_sink \<Rightarrow> (wal_record \<times> lsn) list \<Rightarrow> wal_record \<Rightarrow> bool" where
  "held pos sk pend r \<longleftrightarrow>
     (\<exists>v. map_of (sk_first_lsn sk) (xid_of r) = Some v \<and> unat v \<le> pos) \<or> (\<exists>l. (r, l) \<in> set pend \<and> unat l = pos)"

definition registered :: "xid set \<Rightarrow> nat \<Rightarrow> wal_record list \<Rightarrow> wal_buffer_sink \<Rightarrow> (wal_record \<times> lsn) list \<Rightarrow> bool" where
  "registered running base log sk pend \<longleftrightarrow>
     (\<forall>j < length log. xid_of (log ! j) \<in> running \<longrightarrow> held (base + length (log_image (take j log))) sk pend (log ! j))"

lemma before_running_snoc: "before_running running base log \<le> before_running running base (log @ [r])"
proof (cases "\<exists>x \<in> set log. xid_of x \<in> running")
  case False
  then have eq: "takeWhile (\<lambda>r. xid_of r \<notin> running) log = log" by (auto simp: takeWhile_eq_all_conv)
  have "takeWhile (\<lambda>r. xid_of r \<notin> running) (log @ [r]) = log @ takeWhile (\<lambda>r. xid_of r \<notin> running) [r]"
    using False by (intro takeWhile_append2) auto
  then show ?thesis by (simp add: before_running_def eq)
qed (auto simp: before_running_def takeWhile_append1)

lemma before_running_whole:
  assumes "\<And>r. r \<in> set log \<Longrightarrow> xid_of r \<notin> running"
  shows "before_running running base log = base + length (log_image log)"
  using assms by (simp add: before_running_def takeWhile_eq_all_conv [THEN iffD2])

lemma before_running_first:
  assumes "\<exists>r \<in> set log. xid_of r \<in> running"
  obtains j where "j < length log" "xid_of (log ! j) \<in> running" "before_running running base log = base + length (log_image (take j log))"
proof
  let ?j = "length (takeWhile (\<lambda>r. xid_of r \<notin> running) log)"
  show j: "?j < length log" using assms by (induction log) auto
  show "xid_of (log ! ?j) \<in> running" using nth_length_takeWhile [OF j] by simp
  show "before_running running base log = base + length (log_image (take ?j log))" by (simp add: before_running_def takeWhile_eq_take [symmetric])
qed

section \<open>The invariant\<close>

definition ckpt_inv :: "crc_append \<Rightarrow> nat \<Rightarrow> xid set \<Rightarrow> wal_floor \<Rightarrow> wal_record list list \<Rightarrow> nat \<Rightarrow> ckpt_state \<Rightarrow> bool" where
  "ckpt_inv crc limit running fl old base st \<longleftrightarrow>
     (case st of (((s, p, log), ops), sk, pend) \<Rightarrow>
        registered running base log sk pend
        \<and> unat (wb_next_lsn (sy_buffer s)) = base + length (log_image log)
        \<and> (\<forall>T. before_running running base log \<le> unat T \<longrightarrow> sys_inv crc limit T fl old base ((s, p, log), ops)))"

lemma sys_inv_next: "sys_inv crc limit T fl old base ((s, p, log), ops) \<Longrightarrow> unat (wb_next_lsn (sy_buffer s)) = base + length (log_image log)"
  by (auto simp: sys_inv_def wal_inv_def spread_def tracks_def)

lemma registered_floor:
  assumes reg: "registered running base log sk pend" and nxt: "unat (wb_next_lsn b) = base + length (log_image log)"
    and m: "maybe_recycle_wal is_active redo_from h i slot ok sk = (sk', Some target)"
    and act: "\<forall>r \<in> set log. xid_of r \<in> running \<longrightarrow> is_active (xid_of r)" and low: "redo_from \<le> wb_next_lsn b"
    and pend: "\<forall>(r, l) \<in> set pend. xid_of r \<in> running \<longrightarrow> redo_from \<le> l"
  shows "unat target \<le> before_running running base log"
proof (cases "\<exists>r \<in> set log. xid_of r \<in> running")
  case True
  then obtain j where j: "j < length log" "xid_of (log ! j) \<in> running" "before_running running base log = base + length (log_image (take j log))"
    by (rule before_running_first)
  then have "held (base + length (log_image (take j log))) sk pend (log ! j)" using reg by (simp add: registered_def)
  then consider v where "map_of (sk_first_lsn sk) (xid_of (log ! j)) = Some v" "unat v \<le> base + length (log_image (take j log))"
    | l where "(log ! j, l) \<in> set pend" "unat l = base + length (log_image (take j log))" unfolding held_def by blast
  then show ?thesis
  proof cases
    case (1 v)
    have "target \<le> v" using maybe_recycle_target(2) [OF m _ 1(1)] act j(1,2) by simp
    then show ?thesis using 1(2) j(3) by (simp add: word_le_nat_alt)
  next
    case (2 l)
    have "target \<le> l" using maybe_recycle_target(1) [OF m] pend 2(1) j(2) by fastforce
    then show ?thesis using 2(2) j(3) by (simp add: word_le_nat_alt)
  qed
next
  case False
  have "target \<le> wb_next_lsn b" using maybe_recycle_target(1) [OF m] low by simp
  then show ?thesis using nxt before_running_whole [of log running base] False by (auto simp: word_le_nat_alt)
qed

lemma registered_append:
  assumes "registered running base log sk pend" "unat l = base + length (log_image log)"
  shows "registered running base (log @ [r]) sk (pend @ [(r, l)])"
  using assms by (auto simp: registered_def held_def less_Suc_eq nth_append)

lemma held_register:
  assumes "held pos sk (ps @ (r, l) # qs) r'" "xid_is_normal (xid_of r')"
  shows "held pos (sink_register r l sk) (ps @ qs) r'"
proof -
  have low: "min v w \<le> v" "min v w \<le> w" for v w :: u64 by simp_all
  consider v where "map_of (sk_first_lsn sk) (xid_of r') = Some v" "unat v \<le> pos"
    | "r' = r" "unat l = pos" | l' where "(r', l') \<in> set (ps @ qs)" "unat l' = pos"
    using assms(1) unfolding held_def by auto
  then show ?thesis
  proof cases
    case (1 v)
    then show ?thesis using low(1) [of v l] by (auto simp: held_def sink_register_def accept_first word_le_nat_alt)
  next
    case 2
    then show ?thesis using assms(2) low(2) [of _ l]
      by (auto simp: held_def sink_register_def accept_first word_le_nat_alt split: option.split)
  qed (auto simp: held_def)
qed

lemma registered_register:
  assumes "registered running base log sk (ps @ (r, l) # qs)" "\<forall>x \<in> running. xid_is_normal x"
  shows "registered running base log (sink_register r l sk) (ps @ qs)"
  using assms by (auto simp: registered_def intro: held_register)

lemma registered_prune:
  assumes "registered running base log sk pend" "maybe_recycle_wal is_active redo_from h i slot ok sk = (sk', target)"
    and "\<forall>r \<in> set log. xid_of r \<in> running \<longrightarrow> is_active (xid_of r)"
  shows "registered running base log sk' pend"
  using assms(1,3) maybe_recycle_first [OF assms(2)] by (auto simp: registered_def held_def)

lemma before_running_le: "before_running running base log \<le> base + length (log_image log)"
  unfolding before_running_def by (induction log) auto

lemma ckpt_invD:
  assumes "ckpt_inv crc limit running fl old base (((s, p, log), ops), sk, pend)"
  shows "registered running base log sk pend" "unat (wb_next_lsn (sy_buffer s)) = base + length (log_image log)"
    "before_running running base log \<le> unat T \<Longrightarrow> sys_inv crc limit T fl old base ((s, p, log), ops)"
  using assms by (simp_all add: ckpt_inv_def)

lemma ckpt_invI:
  assumes "registered running base log sk pend" "unat (l :: u64) = base + length (log_image log)"
    and "\<And>T. before_running running base log \<le> unat T \<Longrightarrow> sys_inv crc limit T fl old base ((s, p, log), ops)"
  shows "ckpt_inv crc limit running fl old base (((s, p, log), ops), sk, pend)"
  using assms sys_inv_next [OF assms(3) [of l]] before_running_le [of running base log] by (simp add: ckpt_inv_def)

lemma ckpt_step_inv:
  assumes "ckpt_step crc cfg removable running st st'" "ckpt_inv crc limit running fl old base st"
    and lim: "unat (wc_segment_size_bytes cfg) \<le> limit" "MAX_RECORD_BYTES \<le> limit"
    and base: "base = unat (fl_floor_lsn fl) + length (log_image (concat old))" and normal: "\<forall>x \<in> running. xid_is_normal x"
  shows "ckpt_inv crc limit running fl old base st'"
  using assms(1,2)
proof (induction rule: ckpt_step.induct)
  case (ck_append r s b l p log ops sk pend)
  note inv = ckpt_invD [OF ck_append(3)] and b = buffer_append_Done [OF ck_append(1,2)]
  show ?case
  proof (rule ckpt_invI)
    show "registered running base (log @ [r]) sk (pend @ [(r, l)])" using registered_append [OF inv(1)] inv(2) b(1) by auto
    show "unat (wb_next_lsn b) = base + length (log_image (log @ [r]))" using b(3) inv(2) by simp
    show "sys_inv crc limit T fl old base ((s\<lparr>sy_buffer := b\<rparr>, p, log @ [r]), ops)" if "before_running running base (log @ [r]) \<le> unat T" for T
      by (rule sys_step_inv [OF sys_log [OF step_append [OF ck_append(1,2)]] inv(3) lim base])
        (use that before_running_snoc [of running base log r] in simp)
  qed
next
  case (ck_register st sk ps r l qs)
  then show ?case using registered_register [OF _ normal] by (auto simp: ckpt_inv_def)
next
  case (ck_writer s p log s' p' ops sk pend)
  note inv = ckpt_invD [OF ck_writer(2)]
  show ?case by (rule ckpt_invI [OF inv(1,2)]) (rule sys_step_inv [OF sys_log [OF ck_writer(1)] inv(3) lim base])
next
  case (ck_recycle is_in_progress redo_from h i slot ok sk sk' target log s pend p)
  note inv = ckpt_invD [OF ck_recycle(5)]
  show ?case
  proof (rule ckpt_invI [OF registered_prune [OF inv(1) ck_recycle(1,2)] inv(2)])
    fix T :: u64 assume T: "before_running running base log \<le> unat T"
    have low: "t \<le> T" if "target = Some t" for t
      using registered_floor [OF inv(1,2) ck_recycle(1) [unfolded that] ck_recycle(2,3,4)] T by (simp add: word_le_nat_alt)
    show "sys_inv crc limit T fl old base ((s, p, log), case target of None \<Rightarrow> [] | Some t \<Rightarrow>
        (case truncation_plan crc (sy_dir s) t of Inr (_, Some new) \<Rightarrow> truncate_ops crc removable new (list_segments (sy_dir s)) | _ \<Rightarrow> []))"
      using inv(3) [OF T] sys_step_inv [OF sys_truncate [OF low] inv(3) [OF T] lim base, where removable = removable]
      by (auto split: option.split sum.split)
  qed
next
  case (ck_op s p log op ops sk pend)
  note inv = ckpt_invD [OF ck_op(1)]
  show ?case by (rule ckpt_invI [OF inv(1,2)]) (rule sys_step_inv [OF sys_op inv(3) lim base])
next
  case (ck_reserve st sk pend)
  then show ?case by (auto simp: ckpt_inv_def registered_def held_def mark_zero_lsn_reserved_def)
qed

lemma ckpt_reachable_inv:
  assumes "(ckpt_step crc cfg removable running)\<^sup>*\<^sup>* st st'" "ckpt_inv crc limit running fl old base st"
    and "unat (wc_segment_size_bytes cfg) \<le> limit" "MAX_RECORD_BYTES \<le> limit"
    and "base = unat (fl_floor_lsn fl) + length (log_image (concat old))" "\<forall>x \<in> running. xid_is_normal x"
  shows "ckpt_inv crc limit running fl old base st'"
  using assms(1,2) by (induction rule: rtranclp_induct) (auto intro: ckpt_step_inv [OF _ _ assms(3-6)])

lemma open_ckpt_inv:
  assumes "wal_inv crc limit fl old (unat (l :: u64)) (s, Idle, [])"
  shows "ckpt_inv crc limit running fl old (unat l) (((s, Idle, []), []), sk, [])"
  by (rule ckpt_invI [of _ _ _ _ _ l]) (simp_all add: registered_def open_sys_inv [OF assms])

lemma take_prefix_image: "i \<le> j \<Longrightarrow> length (log_image (take i xs)) \<le> length (log_image (take j xs))"
proof -
  assume "i \<le> j"
  then have "take j xs = take i xs @ take (j - i) (drop i xs)" by (metis le_add_diff_inverse take_add)
  then show ?thesis by simp
qed

lemma kept_running:
  assumes j: "j < length appended" "xid_of (appended ! j) \<in> running" and k: "k \<le> length old + min n (length appended)"
    and low: "0 < k \<longrightarrow> floor + length (log_image (take k (old @ take n appended))) \<le> before_running running (floor + length (log_image old)) appended"
  shows "k \<le> length old + j"
proof (rule ccontr)
  assume "\<not> k \<le> length old + j"
  then have kj: "length old + Suc j \<le> k" by simp
  let ?i = "length (takeWhile (\<lambda>r. xid_of r \<notin> running) appended)"
  have i: "?i \<le> j"
  proof (rule ccontr)
    assume "\<not> ?i \<le> j"
    then have "appended ! j \<in> set (takeWhile (\<lambda>r. xid_of r \<notin> running) appended)" using nth_mem takeWhile_nth by (metis not_le)
    then show False using j(2) by (auto dest: set_takeWhileD)
  qed
  have "take (length old + Suc j) (old @ take n appended) = old @ take (Suc j) appended" using kj k by (simp add: min_def split: if_splits)
  then have "length (log_image (old @ take (Suc j) appended)) \<le> length (log_image (take k (old @ take n appended)))"
    using take_prefix_image [OF kj, of "old @ take n appended"] by simp
  moreover have "length (log_image (take ?i appended)) < length (log_image (take (Suc ?i) appended))"
    using i j(1) by (simp add: take_Suc_conv_app_nth length_record_bytes)
  moreover have "length (log_image (take (Suc ?i) appended)) \<le> length (log_image (take (Suc j) appended))" using take_prefix_image [of "Suc ?i" "Suc j"] i by simp
  ultimately show False using low kj by (simp add: before_running_def takeWhile_eq_take [symmetric])
qed

lemma ckpt_crash_recovers:
  assumes log: "holds_log crc limit d fl rss tail" "rss \<noteq> [] \<or> fl_segment_index fl = 0"
    and ck: "ckpt_inv crc limit running fl rss base (((s, p, appended), ops), sk, pend)" and crash: "crash_dir (sy_dir s) d'"
    and base: "base = unat (fl_floor_lsn fl) + length (log_image (concat rss))"
  obtains n k where "n \<le> length appended" "k \<le> length (concat rss @ take n appended)"
    "recover crc limit d' collect [] = (drop k (concat rss @ take n appended), Inr (of_nat (base + length (log_image (take n appended)))))"
    "\<forall>j < length appended. base + length (log_image (take j appended)) < unat (sy_durable_lsn s) \<longrightarrow> j < n"
    "\<forall>j < length appended. xid_of (appended ! j) \<in> running \<longrightarrow> k \<le> length (concat rss) + j"
proof -
  note inv = ckpt_invD [OF ck]
  define T :: u64 where "T = of_nat (before_running running base appended)"
  have T: "unat T = before_running running base appended"
    using before_running_le [of running base appended] inv(2) unat_less_pow [of "wb_next_lsn (sy_buffer s)"]
    unfolding T_def by (intro unat_of_nat_small) simp
  from crash_recovers [OF log inv(3) crash base, of T] T obtain n k where nk: "n \<le> length appended" "k \<le> length (concat rss @ take n appended)"
    "recover crc limit d' collect [] = (drop k (concat rss @ take n appended), Inr (of_nat (base + length (log_image (take n appended)))))"
    "0 < k \<longrightarrow> unat (fl_floor_lsn fl) + length (log_image (take k (concat rss @ take n appended))) \<le> unat T"
    "\<forall>j < length appended. base + length (log_image (take j appended)) < unat (sy_durable_lsn s) \<longrightarrow> j < n" by (metis order_refl)
  have "k \<le> length (concat rss) + j" if "j < length appended" "xid_of (appended ! j) \<in> running" for j
    by (rule kept_running [OF that, where n = n and floor = "unat (fl_floor_lsn fl)"]) (use nk(2,4) in \<open>simp_all add: T base min.commute\<close>)
  then show ?thesis using that [OF nk(1,2,3,5)] by blast
qed

text \<open>
  C7. Recycling keeps what running transactions appended since the log was opened. Records go into the
  buffer and are registered in the sink afterwards; checkpoints prune the sink's table of first
  positions against the transactions in progress, compute the recycling floor from the redo point, the
  oldest registered transaction, the index snapshots and the replication slots, and truncate the log to
  it, one file operation at a time beside the writer; the system crashes at any point. Then recovery
  finds the old records and those appended, durable ones included, without a prefix, and no record
  appended by a transaction still running is in that prefix. The run assumes that a checkpoint finds
  the appends of such transactions registered unless they lie at or after its redo point. Records
  that the transactions had in the log before it was opened are not covered.
\<close>

theorem recycling_keeps_running:
  assumes log: "holds_log crc limit d fl rss tail" "settled d" "rss \<noteq> [] \<or> fl_segment_index fl = 0"
    and rec: "recover crc limit d collect [] = (old, Inr l)"
    and op: "writer_open crc limit d (advance_to_lsn (wal_buffer_new cap 0) l) = Inr s0"
    and run: "(ckpt_step crc cfg removable running)\<^sup>*\<^sup>* (((s0, Idle, []), []), sink_new, []) (((s, p, appended), ops), sk, pend)"
    and normal: "\<forall>x \<in> running. xid_is_normal x" and crash: "crash_dir (sy_dir s) d'"
    and lim: "unat (wc_segment_size_bytes cfg) \<le> limit" "MAX_RECORD_BYTES \<le> limit"
  shows "\<exists>n \<le> length appended. \<exists>k \<le> length (old @ take n appended).
    recover crc limit d' collect []
      = (drop k (old @ take n appended), Inr (of_nat (unat l + length (log_image (take n appended)))))
    \<and> (\<forall>j < length appended. unat l + length (log_image (take j appended)) < unat (sy_durable_lsn s) \<longrightarrow> j < n)
    \<and> (\<forall>j < length appended. xid_of (appended ! j) \<in> running \<longrightarrow> k \<le> length old + j)"
proof -
  note o = opened [OF log rec op]
  from ckpt_crash_recovers [OF log(1,3) ckpt_reachable_inv [OF run open_ckpt_inv [OF o(3)] lim o(2) normal] crash o(2)]
  show ?thesis unfolding o(1) by metis
qed

lemma writer_open_buffer: "writer_open crc limit d b = Inr s \<Longrightarrow> sy_buffer s = set_drainer b"
  by (auto simp: writer_open_def split: sum.splits prod.splits)

lemma demo_sink_appended:
  assumes s: "sy_buffer s = set_drainer (advance_to_lsn (wal_buffer_new 1000 0) l)" and l: "unat l \<le> 1000"
  obtains b where "sink_append_ref sink_new (sy_buffer s) demo_insert = SinkDone (sink_accept 7 HeapInsert 31 l sink_new) b (Inr l)"
    "wb_next_lsn b = l + 31" "wb_bytes b = record_bytes demo_insert"
proof -
  let ?h = "wr_header demo_insert"
  have h: "wh_xid ?h = 7" "wh_record_type ?h = HeapInsert" by (simp_all add: demo_insert_def demo_record)
  have t: "unat (wh_total_length ?h) = 31" using total_length_bytes [OF demo_facts(1)] by simp
  then have w: "(ucast (wh_total_length ?h) :: u64) = 31" by (simp add: word_unat_eq_iff unat_ucast_32_64)
  have b0: "wb_bytes (sy_buffer s) = []" "wb_next_lsn (sy_buffer s) = l" "\<not> wb_closed (sy_buffer s)" "wb_capacity (sy_buffer s) = 1000"
    by (simp_all add: s set_drainer_def) (simp_all add: advance_to_lsn_def wal_buffer_new_def)
  let ?b = "(sy_buffer s)\<lparr>wb_next_lsn := l + 31, wb_bytes := append_encoded_to demo_insert []\<rparr>"
  have a: "buffer_append (sy_buffer s) demo_insert = AppendDone ?b (Inr l)"
    using l by (simp add: buffer_append_def append_bytes_def reserve_def b0 t w Let_def checked_add_def)
  then have "sink_append_ref sink_new (sy_buffer s) demo_insert = SinkDone (sink_accept 7 HeapInsert 31 l sink_new) ?b (Inr l)"
    by (simp add: sink_append_ref_def sink_finish_def h w Let_def)
  moreover have "wb_bytes ?b = record_bytes demo_insert" using buffer_append_Done(2) [OF demo_facts(1) a] b0 by simp
  ultimately show ?thesis using that by simp
qed

theorem recycling_keeps_running_witness:
  "\<exists>s s' b sk ops d' n k. (ckpt_step sum_crc demo_cfg (\<lambda>_. True) {7})\<^sup>*\<^sup>* (((s, Idle, []), []), sink_new, []) (((s', Idle, [demo_insert]), ops), sk, [])
    \<and> ops = truncate_ops sum_crc (\<lambda>_. True) \<lparr>fl_segment_index = 1, fl_floor_lsn = 31\<rparr> (list_segments demo_two)
    \<and> crash_dir (sy_dir s') d' \<and> recover sum_crc (2 ^ 27) d' collect [] = (drop k ([demo_insert, demo_commit] @ take n [demo_insert]), b) \<and> k \<le> 2"
proof -
  obtain s where s: "writer_open sum_crc (2 ^ 27) demo_two (advance_to_lsn (wal_buffer_new 1000 0) 79) = Inr s" "sy_dir s = demo_two"
    by (rule demo_two_opens)
  let ?sk = "sink_accept 7 HeapInsert 31 79 sink_new"
  obtain b where b: "sink_append_ref sink_new (sy_buffer s) demo_insert = SinkDone ?sk b (Inr 79)" "wb_next_lsn b = 79 + 31"
    by (rule demo_sink_appended [OF writer_open_buffer [OF s(1)]]) simp
  let ?s = "s\<lparr>sy_buffer := b\<rparr>" and ?ops = "truncate_ops sum_crc (\<lambda>_. True) \<lparr>fl_segment_index = 1, fl_floor_lsn = 31\<rparr> (list_segments demo_two)"
  have "(ckpt_step sum_crc demo_cfg (\<lambda>_. True) {7})\<^sup>*\<^sup>* (((s, Idle, []), []), sink_new, []) (((?s, Idle, [] @ [demo_insert]), []), ?sk, [])"
    by (rule sink_append_run [OF demo_facts(1) b(1)])
  moreover have "maybe_recycle_wal (\<lambda>_. True) 31 None None None True ?sk = (?sk, Some 31)"
    by (simp add: maybe_recycle_wal_def prune_terminal_and_oldest_active_first_lsn_def sink_accept_def record_first_lsn_def publish_last_lsn_def
        sink_new_def Let_def recycle_floor_def floor_min_def xid_is_normal_def Xid_FIRST_USER_def)
  then have "ckpt_step sum_crc demo_cfg (\<lambda>_. True) {7} (((?s, Idle, [demo_insert]), []), ?sk, []) (((?s, Idle, [demo_insert]), ?ops), ?sk, [])"
    using ck_recycle [of "\<lambda>_. True" 31 None None None True ?sk ?sk "Some 31" "[demo_insert]" "{7}" ?s "[]" sum_crc demo_cfg "\<lambda>_. True" Idle] b(2) s(2) demo_two_plan
    by simp
  ultimately have run: "(ckpt_step sum_crc demo_cfg (\<lambda>_. True) {7})\<^sup>*\<^sup>* (((s, Idle, []), []), sink_new, []) (((?s, Idle, [demo_insert]), ?ops), ?sk, [])" by simp
  have rec: "recover sum_crc (2 ^ 27) demo_two collect [] = ([demo_insert, demo_commit], Inr 79)"
    using recover_collect [OF demo_two_log(1)] by (simp add: WalFloor_ORIGIN_def Lsn_ZERO_def)
  have lim: "unat (wc_segment_size_bytes demo_cfg) \<le> 2 ^ 27" "MAX_RECORD_BYTES \<le> 2 ^ 27" by (simp_all add: demo_cfg_def)
  have ne: "[[demo_insert], [demo_commit]] \<noteq> [] \<or> fl_segment_index WalFloor_ORIGIN = 0" by simp
  have normal: "\<forall>x \<in> {7}. xid_is_normal x" by (simp add: xid_is_normal_def Xid_FIRST_USER_def)
  have x: "xid_of demo_insert = 7" by (simp add: demo_insert_def demo_record)
  from recycling_keeps_running [OF demo_two_log ne rec s(1) run normal crash_whole lim] obtain n k where
    r: "recover sum_crc (2 ^ 27) (map (\<lambda>(n, f). (n, f\<lparr>df_synced := length (df_content f)\<rparr>)) (sy_dir ?s)) collect []
      = (drop k ([demo_insert, demo_commit] @ take n [demo_insert]), Inr (of_nat (unat (79 :: lsn) + length (log_image (take n [demo_insert])))))"
    and kept: "\<forall>j < length [demo_insert]. xid_of ([demo_insert] ! j) \<in> {7} \<longrightarrow> k \<le> length [demo_insert, demo_commit] + j" by blast
  have "k \<le> 2" using kept x by simp
  with run r crash_whole show ?thesis by blast
qed

section \<open>What the floor does not know\<close>

text \<open>
  Between the append and its registration the record does not count: a checkpoint whose redo point lies
  after it takes the redo point as the floor, past the record of a running transaction. Once the record
  is registered the floor stays at it.
\<close>

lemma unregistered_not_held:
  assumes "well_formed crc r" "sink_append_ref sink_new b r = SinkDone sk b' (Inr l)"
    and "xid_is_normal (xid_of r)" "is_in_progress (xid_of r)"
  shows "l < wb_next_lsn b'"
    "snd (maybe_recycle_wal is_in_progress (wb_next_lsn b') None None None True sink_new) = Some (wb_next_lsn b')"
    "snd (maybe_recycle_wal is_in_progress (wb_next_lsn b') None None None True sk) = Some l"
proof -
  have a: "buffer_append b r = AppendDone b' (Inr l)" and sk: "\<exists>n. sk = sink_accept (xid_of r) (wh_record_type (wr_header r)) n l sink_new"
    using assms(2) by (auto simp: sink_append_ref_def sink_finish_def Let_def split: append_outcome.splits sum.splits)
  note d = buffer_append_Done [OF assms(1) a]
  show low: "l < wb_next_lsn b'" using d(1,3) by (simp add: word_less_nat_alt length_record_bytes)
  show "snd (maybe_recycle_wal is_in_progress (wb_next_lsn b') None None None True sink_new) = Some (wb_next_lsn b')"
    by (simp add: maybe_recycle_wal_def prune_terminal_and_oldest_active_first_lsn_def sink_new_def recycle_floor_def floor_min_def)
  show "snd (maybe_recycle_wal is_in_progress (wb_next_lsn b') None None None True sk) = Some l"
    using sk low assms(3,4)
    by (auto simp: maybe_recycle_wal_def prune_terminal_and_oldest_active_first_lsn_def sink_accept_def record_first_lsn_def
        publish_last_lsn_def sink_new_def recycle_floor_def floor_min_def Let_def)
qed

text \<open>
  A sink that has just been opened holds back nothing for the transactions that recovery restored as
  running: the floor is the redo point. In the directory of the examples a checkpoint with the redo
  point 31 plans to give up the first segment, which holds an insert of transaction 7, although 7 is in
  progress.
\<close>

lemma recovered_not_held:
  "maybe_recycle_wal is_in_progress redo_from None None None True sink_new = (sink_new, Some redo_from)"
  "seg_bytes demo_two 0 = record_bytes demo_insert" "xid_of demo_insert = 7"
  "\<exists>fl. snd (maybe_recycle_wal (\<lambda>x. x = 7) 31 None None None True sink_new) = Some 31
     \<and> truncation_plan sum_crc demo_two 31 = Inr (fl, Some \<lparr>fl_segment_index = 1, fl_floor_lsn = 31\<rparr>)"
  by (simp_all add: maybe_recycle_wal_def prune_terminal_and_oldest_active_first_lsn_def sink_new_def recycle_floor_def
      floor_min_def demo_two_seg demo_two_plan demo_insert_def demo_record)

end
