(* ===== verification/Buffer_Pool_Spec.thy ===== *)
theory Buffer_Pool_Spec
  imports Buffer_Pool
begin

text \<open>
  The buffer pool as a page store. The invariant ties the frames to the page table, the pins to the
  guards that are held and the clean frames to the disk. Through it every run of the pool's
  operations, flushes with failing writes included, acts on the pages as the plain sequence of the
  guarded writes does. The clock sweep is shown to find a victim whenever there is one.
\<close>

section \<open>Frames\<close>

lemma upd_frame_simps [simp]:
  "length (bp_frames (upd_frame i f bp)) = length (bp_frames bp)"
  "bp_page_table (upd_frame i f bp) = bp_page_table bp"
  "bp_clock_hand (upd_frame i f bp) = bp_clock_hand bp"
  "bp_counters (upd_frame i f bp) = bp_counters bp"
  "bp_poisoned (upd_frame i f bp) = bp_poisoned bp"
  "j < length (bp_frames bp) \<Longrightarrow> bp_frames (upd_frame i f bp) ! j = (if i = j then f (bp_frames bp ! j) else bp_frames bp ! j)"
  by (simp_all add: upd_frame_def nth_list_update)

lemma upd_counters_simps [simp]:
  "bp_frames (upd_counters f bp) = bp_frames bp" "bp_page_table (upd_counters f bp) = bp_page_table bp"
  "bp_clock_hand (upd_counters f bp) = bp_clock_hand bp" "bp_counters (upd_counters f bp) = f (bp_counters bp)"
  "bp_poisoned (upd_counters f bp) = bp_poisoned bp"
  by (simp_all add: upd_counters_def)

lemma record_relation_simps [simp]:
  "bp_frames (record_relation_hit rel bp) = bp_frames bp" "bp_page_table (record_relation_hit rel bp) = bp_page_table bp"
  "bp_counters (record_relation_hit rel bp) = bp_counters bp"
  "bp_frames (record_relation_read rel bp) = bp_frames bp" "bp_page_table (record_relation_read rel bp) = bp_page_table bp"
  "bp_counters (record_relation_read rel bp) = bp_counters bp" "bp_clock_hand (record_relation_read rel bp) = bp_clock_hand bp"
  by (simp_all add: record_relation_hit_def record_relation_read_def)

abbreviation dirty_frames :: "buffer_pool \<Rightarrow> nat" where
  "dirty_frames bp \<equiv> length (filter fr_dirty (bp_frames bp))"

definition frame_ok :: "buffer_pool \<Rightarrow> nat \<Rightarrow> bool" where
  "frame_ok bp i \<longleftrightarrow>
     (let f = bp_frames bp ! i in
      case fr_page_id f of
        None \<Rightarrow> fr_pin_count f = 0 \<and> \<not> fr_dirty f
      | Some pid \<Rightarrow> map_of (bp_page_table bp) pid = Some i \<and> fr_page f \<noteq> None)"

definition pool_ok :: "buffer_pool \<Rightarrow> bool" where
  "pool_ok bp \<longleftrightarrow>
     bp_frames bp \<noteq> [] \<and> distinct (map fst (bp_page_table bp))
     \<and> (\<forall>pid i. map_of (bp_page_table bp) pid = Some i \<longrightarrow> i < length (bp_frames bp) \<and> fr_page_id (bp_frames bp ! i) = Some pid)
     \<and> (\<forall>i < length (bp_frames bp). frame_ok bp i)
     \<and> ct_dirty (bp_counters bp) = dirty_frames bp"

lemma pool_okD:
  assumes "pool_ok bp"
  shows "bp_frames bp \<noteq> []"
    "map_of (bp_page_table bp) pid = Some i \<Longrightarrow> i < length (bp_frames bp) \<and> fr_page_id (bp_frames bp ! i) = Some pid"
    "i < length (bp_frames bp) \<Longrightarrow> fr_page_id (bp_frames bp ! i) = Some pid \<Longrightarrow>
       map_of (bp_page_table bp) pid = Some i \<and> (\<exists>p. fr_page (bp_frames bp ! i) = Some p)"
    "i < length (bp_frames bp) \<Longrightarrow> fr_page_id (bp_frames bp ! i) = None \<Longrightarrow> fr_pin_count (bp_frames bp ! i) = 0 \<and> \<not> fr_dirty (bp_frames bp ! i)"
    "ct_dirty (bp_counters bp) = dirty_frames bp" "distinct (map fst (bp_page_table bp))"
proof -
  have f: "frame_ok bp i" if "i < length (bp_frames bp)" for i using assms that by (simp add: pool_ok_def)
  show "i < length (bp_frames bp) \<Longrightarrow> fr_page_id (bp_frames bp ! i) = Some pid \<Longrightarrow>
      map_of (bp_page_table bp) pid = Some i \<and> (\<exists>p. fr_page (bp_frames bp ! i) = Some p)"
    using f [of i] by (simp add: frame_ok_def Let_def)
  show "i < length (bp_frames bp) \<Longrightarrow> fr_page_id (bp_frames bp ! i) = None \<Longrightarrow> fr_pin_count (bp_frames bp ! i) = 0 \<and> \<not> fr_dirty (bp_frames bp ! i)"
    using f [of i] by (simp add: frame_ok_def Let_def)
qed (use assms in \<open>simp_all add: pool_ok_def\<close>)

lemma pool_okI:
  assumes "bp_frames bp \<noteq> []" "distinct (map fst (bp_page_table bp))"
    "\<And>pid i. map_of (bp_page_table bp) pid = Some i \<Longrightarrow> i < length (bp_frames bp) \<and> fr_page_id (bp_frames bp ! i) = Some pid"
    "\<And>i pid. i < length (bp_frames bp) \<Longrightarrow> fr_page_id (bp_frames bp ! i) = Some pid \<Longrightarrow>
       map_of (bp_page_table bp) pid = Some i \<and> (\<exists>p. fr_page (bp_frames bp ! i) = Some p)"
    "\<And>i. i < length (bp_frames bp) \<Longrightarrow> fr_page_id (bp_frames bp ! i) = None \<Longrightarrow> fr_pin_count (bp_frames bp ! i) = 0 \<and> \<not> fr_dirty (bp_frames bp ! i)"
    "ct_dirty (bp_counters bp) = dirty_frames bp"
  shows "pool_ok bp"
proof -
  have "frame_ok bp i" if "i < length (bp_frames bp)" for i
    using assms(4,5) [OF that] by (auto simp: frame_ok_def Let_def split: option.split)
  then show ?thesis using assms(1-3,6) unfolding pool_ok_def by blast
qed

lemma length_filter_update:
  assumes "i < length xs"
  shows "length (filter P (xs[i := x])) + (if P (xs ! i) then 1 else 0) = length (filter P xs) + (if P x then 1 else 0)"
  using assms
proof (induction xs arbitrary: i)
  case (Cons y ys)
  then show ?case by (cases i) auto
qed simp

lemma dirty_upd_frame: "i < length (bp_frames bp) \<Longrightarrow>
    dirty_frames (upd_frame i f bp) + (if fr_dirty (bp_frames bp ! i) then 1 else 0)
      = dirty_frames bp + (if fr_dirty (f (bp_frames bp ! i)) then 1 else 0)"
  by (simp add: upd_frame_def length_filter_update)

section \<open>The sweep\<close>

definition evictable :: "frame \<Rightarrow> bool" where
  "evictable f \<longleftrightarrow> fr_pin_count f = 0 \<and> (fr_page_id f = None \<or> \<not> fr_dirty f)"

lemma free_frame_Some:
  "free_frame k fs = Some i \<Longrightarrow> k \<le> i \<and> i - k < length fs \<and> fr_pin_count (fs ! (i - k)) = 0 \<and> fr_page_id (fs ! (i - k)) = None"
  by (induction fs arbitrary: k) (fastforce simp: nth_Cons' split: if_splits)+

lemma free_frame_None: "free_frame k fs = None \<Longrightarrow> f \<in> set fs \<Longrightarrow> \<not> (fr_pin_count f = 0 \<and> fr_page_id f = None)"
  by (induction fs arbitrary: k) (auto split: if_splits)

definition hand_at :: "buffer_pool \<Rightarrow> nat \<Rightarrow> nat" where
  "hand_at bp t = unat (bp_clock_hand bp + of_nat t) mod length (bp_frames bp)"

lemma sweep_visits:
  "clock_sweep k pid bp = (bp', None) \<Longrightarrow> t < k \<Longrightarrow> hand_at bp t = j \<Longrightarrow> j < length (bp_frames bp) \<Longrightarrow>
     evictable (bp_frames bp ! j) \<Longrightarrow> fr_clock_ref (bp_frames bp ! j)"
proof (induction k arbitrary: bp t)
  case (Suc k)
  let ?h = "unat (bp_clock_hand bp) mod length (bp_frames bp)"
  let ?bp = "bp\<lparr>bp_clock_hand := bp_clock_hand bp + 1\<rparr>"
  show ?case
  proof (cases "?h = j")
    case True
    then show ?thesis using Suc.prems by (auto simp: Let_def evictable_def split: if_splits)
  next
    case False
    then obtain u where u: "t = Suc u" using Suc.prems(3) by (cases t) (auto simp: hand_at_def)
    have "hand_at ?bp u = j" "hand_at (upd_frame ?h (\<lambda>f. f\<lparr>fr_clock_ref := False\<rparr>) ?bp) u = j"
      using Suc.prems(3) by (simp_all add: hand_at_def u algebra_simps)
    then show ?thesis
      using Suc.IH [of ?bp u] Suc.IH [of "upd_frame ?h (\<lambda>f. f\<lparr>fr_clock_ref := False\<rparr>) ?bp" u] Suc.prems u False
      by (auto simp: Let_def split: if_splits)
  qed
qed simp

lemma sweep_twice:
  "clock_sweep k pid bp = (bp', None) \<Longrightarrow> t < u \<Longrightarrow> u < k \<Longrightarrow> hand_at bp t = j \<Longrightarrow> hand_at bp u = j \<Longrightarrow>
     j < length (bp_frames bp) \<Longrightarrow> \<not> evictable (bp_frames bp ! j)"
proof (induction k arbitrary: bp t u)
  case (Suc k)
  let ?h = "unat (bp_clock_hand bp) mod length (bp_frames bp)"
  let ?bp = "bp\<lparr>bp_clock_hand := bp_clock_hand bp + 1\<rparr>"
  let ?bp' = "upd_frame ?h (\<lambda>f. f\<lparr>fr_clock_ref := False\<rparr>) ?bp"
  obtain v where v: "u = Suc v" using Suc.prems(2) by (cases u) auto
  have at: "hand_at ?bp n = hand_at bp (Suc n)" "hand_at ?bp' n = hand_at bp (Suc n)" for n
    by (simp_all add: hand_at_def algebra_simps)
  show ?case
  proof
    assume e: "evictable (bp_frames bp ! j)"
    show False
    proof (cases "?h = j")
      case True
      then have "clock_sweep k pid ?bp' = (bp', None)" using Suc.prems(1) e by (auto simp: Let_def evictable_def split: if_splits)
      from sweep_visits [OF this, of v j] show False using Suc.prems v e True at by (simp add: evictable_def)
    next
      case False
      then obtain w where w: "t = Suc w" using Suc.prems(4) by (cases t) (auto simp: hand_at_def)
      from Suc.prems(1) have "clock_sweep k pid ?bp = (bp', None) \<or> clock_sweep k pid ?bp' = (bp', None)"
        by (auto simp: Let_def split: if_splits)
      then show False
        using Suc.IH [of ?bp w v] Suc.IH [of ?bp' w v] Suc.prems v w at e False by auto
    qed
  qed
qed simp

lemma hand_reaches:
  assumes "j < n" "4 * n < 2 ^ 64" "length (bp_frames bp) = n"
  obtains t where "t + n < 4 * n" "hand_at bp t = j" "hand_at bp (t + n) = j"
proof -
  define w where "w = unat (bp_clock_hand bp)"
  have at: "hand_at bp t = (w + t) mod n" if "w + t < 2 ^ 64" "t < 2 ^ 64" for t
    using that unat_of_nat_small [of t, where 'a = 64] assms(3)
    by (simp add: hand_at_def w_def unat_add_lem [THEN iffD1])
  show ?thesis
  proof (cases "w + 2 * n < 2 ^ 64")
    case True
    define t where "t = (j + n - w mod n) mod n"
    have t: "t < n" using assms(1) by (simp add: t_def)
    have "(w + t) mod n = j"
    proof -
      have "(w + t) mod n = (w mod n + (j + n - w mod n)) mod n" by (simp add: t_def mod_simps)
      also have "w mod n + (j + n - w mod n) = j + n" using assms(1) mod_less_divisor [of n w] by linarith
      also have "(j + n) mod n = j" using assms(1) by simp
      finally show ?thesis .
    qed
    then show ?thesis using that [of t] t at [of t] at [of "t + n"] True assms(2) by (simp flip: add.assoc)
  next
    case False
    define m where "m = 2 ^ 64 - w"
    have m: "m \<le> 2 * n" "w + m = 2 ^ 64" using False unat_less_pow [of "bp_clock_hand bp"] by (simp_all add: m_def w_def)
    have wrap: "hand_at bp (m + x) = x mod n" if "x < 2 ^ 64" for x
    proof -
      have "bp_clock_hand bp = of_nat w" by (simp add: w_def)
      then have "bp_clock_hand bp + of_nat (m + x) = of_nat (w + m) + of_nat x" by simp
      also have "\<dots> = of_nat x" unfolding m(2) by simp
      finally have "hand_at bp (m + x) = unat (of_nat x :: u64) mod n" unfolding hand_at_def assms(3) by (rule arg_cong)
      then show ?thesis using unat_of_nat_small [of x, where 'a = 64] that by simp
    qed
    show ?thesis
      using that [of "m + j"] wrap [of j] wrap [of "j + n"] m assms by (simp add: add.assoc)
  qed
qed

text \<open>What a sweep, a lookup or a counter leaves: the same frames but for their reference bits.\<close>

definition unref :: "frame \<Rightarrow> frame" where
  "unref f = f\<lparr>fr_clock_ref := False\<rparr>"

definition swept :: "buffer_pool \<Rightarrow> buffer_pool \<Rightarrow> bool" where
  "swept bp bp' \<longleftrightarrow> map unref (bp_frames bp') = map unref (bp_frames bp) \<and> bp_page_table bp' = bp_page_table bp
     \<and> ct_dirty (bp_counters bp') = ct_dirty (bp_counters bp)"

lemma unref_fields [simp]:
  "fr_page (unref f) = fr_page f" "fr_page_id (unref f) = fr_page_id f" "fr_pin_count (unref f) = fr_pin_count f"
  "fr_dirty (unref f) = fr_dirty f" "evictable (unref f) = evictable f"
  by (simp_all add: unref_def evictable_def)

lemma sweptD:
  assumes "swept bp bp'"
  shows "length (bp_frames bp') = length (bp_frames bp)" "bp_page_table bp' = bp_page_table bp"
    "ct_dirty (bp_counters bp') = ct_dirty (bp_counters bp)"
    "j < length (bp_frames bp) \<Longrightarrow> unref (bp_frames bp' ! j) = unref (bp_frames bp ! j)"
proof -
  show len: "length (bp_frames bp') = length (bp_frames bp)" using assms unfolding swept_def by (metis length_map)
  show "bp_page_table bp' = bp_page_table bp" "ct_dirty (bp_counters bp') = ct_dirty (bp_counters bp)"
    using assms by (simp_all add: swept_def)
  show "j < length (bp_frames bp) \<Longrightarrow> unref (bp_frames bp' ! j) = unref (bp_frames bp ! j)"
    using assms len unfolding swept_def by (metis nth_map)
qed

lemma swept_frame:
  assumes "swept bp bp'" "j < length (bp_frames bp)"
  shows "fr_page (bp_frames bp' ! j) = fr_page (bp_frames bp ! j)" "fr_page_id (bp_frames bp' ! j) = fr_page_id (bp_frames bp ! j)"
    "fr_pin_count (bp_frames bp' ! j) = fr_pin_count (bp_frames bp ! j)" "fr_dirty (bp_frames bp' ! j) = fr_dirty (bp_frames bp ! j)"
  using sweptD(4) [OF assms] by (metis unref_fields)+

lemma swept_evictable: "swept bp bp' \<Longrightarrow> j < length (bp_frames bp) \<Longrightarrow> evictable (bp_frames bp' ! j) = evictable (bp_frames bp ! j)"
  using sweptD(4) by (metis unref_fields(5))

lemma swept_dirty: "swept bp bp' \<Longrightarrow> dirty_frames bp' = dirty_frames bp"
proof -
  assume "swept bp bp'"
  then have "length (filter fr_dirty (map unref (bp_frames bp'))) = length (filter fr_dirty (map unref (bp_frames bp)))"
    by (simp add: swept_def)
  then show ?thesis by (simp add: filter_map comp_def)
qed

lemma swept_refl: "swept bp bp"
  by (simp add: swept_def)

lemma swept_trans: "swept bp bp' \<Longrightarrow> swept bp' bp'' \<Longrightarrow> swept bp bp''"
  by (simp add: swept_def)

lemma swept_upd: "f (bp_frames bp ! i) = (bp_frames bp ! i)\<lparr>fr_clock_ref := b\<rparr> \<Longrightarrow> swept bp (upd_frame i f bp)"
  by (cases "i < length (bp_frames bp)") (auto simp: swept_def upd_frame_def unref_def map_update list_update_same_conv list_update_beyond)

lemma swept_counters: "ct_dirty (f (bp_counters bp)) = ct_dirty (bp_counters bp) \<Longrightarrow> swept bp (upd_counters f bp)"
  by (simp add: swept_def)

lemma swept_hand: "swept bp (bp\<lparr>bp_clock_hand := h\<rparr>)"
  by (simp add: swept_def)

lemma swept_relation: "swept bp (record_relation_hit rel bp)" "swept bp (record_relation_read rel bp)"
  by (simp_all add: swept_def)

lemma sweep_result:
  "clock_sweep k pid bp = (bp', r) \<Longrightarrow> bp_frames bp \<noteq> [] \<Longrightarrow>
     (case r of
        None \<Rightarrow> swept bp bp'
      | Some i \<Rightarrow> \<exists>bp''. swept bp bp'' \<and> i < length (bp_frames bp) \<and> evictable (bp_frames bp ! i) \<and> bp' = evict_frame pid i bp'')"
proof (induction k arbitrary: bp)
  case (Suc k)
  let ?h = "unat (bp_clock_hand bp) mod length (bp_frames bp)"
  let ?bp = "bp\<lparr>bp_clock_hand := bp_clock_hand bp + 1\<rparr>"
  let ?bp' = "upd_frame ?h (\<lambda>f. f\<lparr>fr_clock_ref := False\<rparr>) ?bp"
  have h: "?h < length (bp_frames bp)" using Suc.prems(2) by simp
  have hand: "swept bp ?bp" by (rule swept_hand)
  have cleared: "swept bp ?bp'" using swept_trans [OF hand] swept_upd [of _ ?bp ?h False] by simp
  have later: "case r of None \<Rightarrow> swept bp bp'
      | Some i \<Rightarrow> \<exists>bp''. swept bp bp'' \<and> i < length (bp_frames bp) \<and> evictable (bp_frames bp ! i) \<and> bp' = evict_frame pid i bp''"
    if "clock_sweep k pid b = (bp', r)" "swept bp b" for b
  proof -
    have "bp_frames b \<noteq> []" using Suc.prems(2) sweptD(1) [OF that(2)] by auto
    note IH = Suc.IH [OF that(1) this]
    show ?thesis
    proof (cases r)
      case None
      then show ?thesis using IH swept_trans [OF that(2)] by simp
    next
      case (Some i)
      then obtain bp'' where "swept b bp''" "i < length (bp_frames b)" "evictable (bp_frames b ! i)" "bp' = evict_frame pid i bp''"
        using IH by auto
      then show ?thesis using Some swept_trans [OF that(2)] sweptD(1) [OF that(2)] swept_evictable [OF that(2)] by auto
    qed
  qed
  show ?case
  proof (cases "fr_pin_count (bp_frames bp ! ?h) = 0 \<and> \<not> fr_clock_ref (bp_frames bp ! ?h)
      \<and> (fr_page_id (bp_frames bp ! ?h) = None \<or> \<not> fr_dirty (bp_frames bp ! ?h))")
    case True
    then have "r = Some ?h" "bp' = evict_frame pid ?h ?bp" using Suc.prems(1) by (auto simp: Let_def)
    then show ?thesis using True h hand by (auto simp: evictable_def)
  next
    case False
    then have "clock_sweep k pid ?bp = (bp', r) \<or> clock_sweep k pid ?bp' = (bp', r)"
      using Suc.prems(1) by (auto simp: Let_def split: if_splits)
    then show ?thesis using later hand cleared by blast
  qed
qed (simp add: swept_refl)

lemma acquire_None:
  assumes "acquire_frame_for pid bp = (bp', None)" "bp_frames bp \<noteq> []"
  shows "swept bp bp'" "4 * length (bp_frames bp) < 2 ^ 64 \<Longrightarrow> f \<in> set (bp_frames bp) \<Longrightarrow> \<not> evictable f"
proof -
  let ?n = "length (bp_frames bp)"
  have sweep: "clock_sweep (?n * 4) pid bp = (bp', None)"
    using assms(1) by (simp add: acquire_frame_for_def split: option.splits)
  show "swept bp bp'" using sweep_result [OF sweep assms(2)] by simp
  assume n: "4 * ?n < 2 ^ 64" and f: "f \<in> set (bp_frames bp)"
  then obtain j where j: "j < ?n" "f = bp_frames bp ! j" by (auto simp: in_set_conv_nth)
  from hand_reaches [OF j(1) n refl] obtain t where "t + ?n < 4 * ?n" "hand_at bp t = j" "hand_at bp (t + ?n) = j" .
  then show "\<not> evictable f" using sweep_twice [OF sweep, of t "t + ?n" j] j assms(2) by simp
qed

lemma dirty_frames_cong:
  assumes "length fs' = length fs" "\<And>j. j < length fs \<Longrightarrow> fr_dirty (fs' ! j) = fr_dirty (fs ! j)"
  shows "length (filter fr_dirty fs') = length (filter fr_dirty fs)"
proof -
  have "map fr_dirty fs' = map fr_dirty fs" using assms by (intro nth_equalityI) simp_all
  then have "length (filter id (map fr_dirty fs')) = length (filter id (map fr_dirty fs))" by simp
  then show ?thesis by (simp add: filter_map comp_def)
qed

text \<open>The table without the entry of the page that frame \<open>i\<close> holds.\<close>

definition table_without :: "buffer_pool \<Rightarrow> nat \<Rightarrow> (page_id \<times> nat) list" where
  "table_without bp i =
     (case fr_page_id (bp_frames bp ! i) of None \<Rightarrow> bp_page_table bp | Some old \<Rightarrow> AList.delete old (bp_page_table bp))"

text \<open>Frame \<open>i\<close> now is \<open>f\<close> and the table \<open>T\<close>; the other frames stay.\<close>

definition replaced :: "nat \<Rightarrow> frame \<Rightarrow> (page_id \<times> nat) list \<Rightarrow> buffer_pool \<Rightarrow> buffer_pool \<Rightarrow> bool" where
  "replaced i f T bp bp' \<longleftrightarrow>
     i < length (bp_frames bp) \<and> length (bp_frames bp') = length (bp_frames bp) \<and> unref (bp_frames bp' ! i) = f
     \<and> (\<forall>j < length (bp_frames bp). j \<noteq> i \<longrightarrow> unref (bp_frames bp' ! j) = unref (bp_frames bp ! j))
     \<and> bp_page_table bp' = T \<and> ct_dirty (bp_counters bp') = ct_dirty (bp_counters bp)"

lemma replaced_frame:
  assumes "replaced i f T bp bp'" "j < length (bp_frames bp)"
  shows "fr_page (bp_frames bp' ! j) = (if j = i then fr_page f else fr_page (bp_frames bp ! j))"
    "fr_page_id (bp_frames bp' ! j) = (if j = i then fr_page_id f else fr_page_id (bp_frames bp ! j))"
    "fr_pin_count (bp_frames bp' ! j) = (if j = i then fr_pin_count f else fr_pin_count (bp_frames bp ! j))"
    "fr_dirty (bp_frames bp' ! j) = (if j = i then fr_dirty f else fr_dirty (bp_frames bp ! j))"
  using assms unfolding replaced_def by (metis unref_fields)+

lemma replaced_upd:
  assumes "replaced i f T bp bp'"
  shows "replaced i (unref (g (bp_frames bp' ! i))) T bp (upd_frame i g bp')"
  using assms by (simp add: replaced_def)

lemma acquire_Some:
  assumes ok: "pool_ok bp" and acq: "acquire_frame_for pid bp = (bp', Some i)"
  obtains f where "replaced i f (table_without bp i) bp bp'" "fr_pin_count f = 0" "\<not> fr_dirty f" "evictable (bp_frames bp ! i)"
proof (cases "free_frame 0 (bp_frames bp)")
  case (Some k)
  with acq have k: "k = i" "bp' = upd_frame i (\<lambda>f. f\<lparr>fr_page_id := Some pid\<rparr>) bp" by (auto simp: acquire_frame_for_def)
  have i: "i < length (bp_frames bp)" "fr_pin_count (bp_frames bp ! i) = 0" "fr_page_id (bp_frames bp ! i) = None"
    using free_frame_Some [OF Some] k by auto
  have "replaced i (unref ((bp_frames bp ! i)\<lparr>fr_page_id := Some pid\<rparr>)) (table_without bp i) bp bp'"
    using i by (simp add: replaced_def k table_without_def)
  then show ?thesis using that i pool_okD(4) [OF ok i(1,3)] by (simp add: evictable_def)
next
  case None
  then have "clock_sweep (length (bp_frames bp) * 4) pid bp = (bp', Some i)" using acq by (simp add: acquire_frame_for_def)
  from sweep_result [OF this pool_okD(1) [OF ok]] obtain b where b: "swept bp b" "i < length (bp_frames bp)"
    "evictable (bp_frames bp ! i)" "bp' = evict_frame pid i b" by auto
  have clean: "\<not> fr_dirty (bp_frames bp ! i)" using b(3) pool_okD(4) [OF ok b(2)] by (auto simp: evictable_def)
  let ?f = "unref ((bp_frames b ! i)\<lparr>fr_page_id := Some pid, fr_page := None\<rparr>)"
  have "replaced i ?f (table_without bp i) bp bp'"
    using sweptD [OF b(1)] swept_frame [OF b(1)] b(2)
    by (auto simp: b(4) evict_frame_def replaced_def table_without_def Let_def split: option.splits)
  then show ?thesis using that b clean swept_frame [OF b(1,2)] by (simp add: evictable_def)
qed

section \<open>Coherence\<close>

definition pool_view :: "buffer_pool \<Rightarrow> (page_id \<Rightarrow> bytes) \<Rightarrow> page_id \<Rightarrow> bytes" where
  "pool_view bp disk pid =
     (case map_of (bp_page_table bp) pid of None \<Rightarrow> disk pid | Some i \<Rightarrow> the (fr_page (bp_frames bp ! i)))"

definition pins_on :: "nat \<Rightarrow> (nat \<times> page_id) list \<Rightarrow> nat" where
  "pins_on i gs = length (filter (\<lambda>g. fst g = i) gs)"

definition coherent :: "buffer_pool \<Rightarrow> (page_id \<Rightarrow> bytes) \<Rightarrow> (nat \<times> page_id) list \<Rightarrow> bool" where
  "coherent bp disk gs \<longleftrightarrow> pool_ok bp
     \<and> (\<forall>i < length (bp_frames bp). \<forall>pid. fr_page_id (bp_frames bp ! i) = Some pid \<and> \<not> fr_dirty (bp_frames bp ! i)
          \<longrightarrow> fr_page (bp_frames bp ! i) = Some (disk pid))
     \<and> (\<forall>i < length (bp_frames bp). fr_pin_count (bp_frames bp ! i) = pins_on i gs)
     \<and> (\<forall>(i, pid) \<in> set gs. i < length (bp_frames bp) \<and> fr_page_id (bp_frames bp ! i) = Some pid)"

lemma coherentD:
  assumes "coherent bp disk gs"
  shows "pool_ok bp"
    "i < length (bp_frames bp) \<Longrightarrow> fr_page_id (bp_frames bp ! i) = Some pid \<Longrightarrow> \<not> fr_dirty (bp_frames bp ! i) \<Longrightarrow> fr_page (bp_frames bp ! i) = Some (disk pid)"
    "i < length (bp_frames bp) \<Longrightarrow> fr_pin_count (bp_frames bp ! i) = pins_on i gs"
    "(i, pid) \<in> set gs \<Longrightarrow> i < length (bp_frames bp) \<and> fr_page_id (bp_frames bp ! i) = Some pid"
  using assms unfolding coherent_def by auto

lemma coherentI:
  assumes "pool_ok bp"
    "\<And>i pid. i < length (bp_frames bp) \<Longrightarrow> fr_page_id (bp_frames bp ! i) = Some pid \<Longrightarrow> \<not> fr_dirty (bp_frames bp ! i) \<Longrightarrow> fr_page (bp_frames bp ! i) = Some (disk pid)"
    "\<And>i. i < length (bp_frames bp) \<Longrightarrow> fr_pin_count (bp_frames bp ! i) = pins_on i gs"
    "\<And>i pid. (i, pid) \<in> set gs \<Longrightarrow> i < length (bp_frames bp) \<and> fr_page_id (bp_frames bp ! i) = Some pid"
  shows "coherent bp disk gs"
  using assms unfolding coherent_def by auto

lemma swept_pool_ok:
  assumes s: "swept bp bp'" and ok: "pool_ok bp"
  shows "pool_ok bp'"
proof (rule pool_okI)
  note f = swept_frame [OF s] and d = sweptD [OF s]
  show "bp_frames bp' \<noteq> []" using pool_okD(1) [OF ok] d(1) by auto
  show "distinct (map fst (bp_page_table bp'))" using pool_okD(6) [OF ok] d(2) by simp
  show "ct_dirty (bp_counters bp') = dirty_frames bp'" using pool_okD(5) [OF ok] d(3) swept_dirty [OF s] by simp
  fix i pid
  show "i < length (bp_frames bp') \<and> fr_page_id (bp_frames bp' ! i) = Some pid" if "map_of (bp_page_table bp') pid = Some i"
    using pool_okD(2) [OF ok, of pid i] that d(1,2) f(2) [of i] by simp
  show "map_of (bp_page_table bp') pid = Some i \<and> (\<exists>p. fr_page (bp_frames bp' ! i) = Some p)"
    if "i < length (bp_frames bp')" "fr_page_id (bp_frames bp' ! i) = Some pid"
    using pool_okD(3) [OF ok, of i pid] that d(1,2) f(1,2) [of i] by simp
  show "fr_pin_count (bp_frames bp' ! i) = 0 \<and> \<not> fr_dirty (bp_frames bp' ! i)"
    if "i < length (bp_frames bp')" "fr_page_id (bp_frames bp' ! i) = None"
    using pool_okD(4) [OF ok, of i] that d(1) f [of i] by simp
qed

lemma swept_coherent:
  assumes s: "swept bp bp'" and c: "coherent bp disk gs"
  shows "coherent bp' disk gs"
proof (rule coherentI)
  note f = swept_frame [OF s] and d = sweptD(1) [OF s]
  show "pool_ok bp'" by (rule swept_pool_ok [OF s coherentD(1) [OF c]])
  fix i pid
  show "fr_page (bp_frames bp' ! i) = Some (disk pid)"
    if "i < length (bp_frames bp')" "fr_page_id (bp_frames bp' ! i) = Some pid" "\<not> fr_dirty (bp_frames bp' ! i)"
    using coherentD(2) [OF c, of i pid] that d f [of i] by simp
  show "fr_pin_count (bp_frames bp' ! i) = pins_on i gs" if "i < length (bp_frames bp')"
    using coherentD(3) [OF c, of i] that d f [of i] by simp
  show "i < length (bp_frames bp') \<and> fr_page_id (bp_frames bp' ! i) = Some pid" if "(i, pid) \<in> set gs"
    using coherentD(4) [OF c that] d f [of i] by simp
qed

lemma swept_view:
  assumes s: "swept bp bp'" and ok: "pool_ok bp"
  shows "pool_view bp' disk = pool_view bp disk"
proof
  fix pid
  show "pool_view bp' disk pid = pool_view bp disk pid"
    using pool_okD(2) [OF ok, of pid] swept_frame(1) [OF s] sweptD(2) [OF s]
    by (cases "map_of (bp_page_table bp) pid") (auto simp: pool_view_def)
qed

lemma table_without_map:
  "map_of (table_without bp i) q = (if fr_page_id (bp_frames bp ! i) = Some q then None else map_of (bp_page_table bp) q)"
  by (auto simp: table_without_def delete_conv split: option.split)

lemma table_without_distinct: "distinct (map fst (bp_page_table bp)) \<Longrightarrow> distinct (map fst (table_without bp i))"
  by (auto simp: table_without_def distinct_delete split: option.split)

lemma replacedD:
  assumes "replaced i f T bp bp'"
  shows "i < length (bp_frames bp)" "length (bp_frames bp') = length (bp_frames bp)" "bp_page_table bp' = T"
    "ct_dirty (bp_counters bp') = ct_dirty (bp_counters bp)"
  using assms by (simp_all add: replaced_def)

lemma replaced_dirty:
  "replaced i f T bp bp' \<Longrightarrow> fr_dirty f = fr_dirty (bp_frames bp ! i) \<Longrightarrow> dirty_frames bp' = dirty_frames bp"
  by (rule dirty_frames_cong) (simp_all add: replacedD replaced_frame)

lemma evictable_clean: "pool_ok bp \<Longrightarrow> i < length (bp_frames bp) \<Longrightarrow> evictable (bp_frames bp ! i) \<Longrightarrow> \<not> fr_dirty (bp_frames bp ! i)"
  using pool_okD(4) [of bp i] by (auto simp: evictable_def)

lemma pins_none: "pins_on i gs = 0 \<Longrightarrow> (i, pid) \<notin> set gs"
  by (auto simp: pins_on_def filter_empty_conv)

lemma vacated_pool_ok:
  assumes r: "replaced i f (table_without bp i) bp bp'" and ok: "pool_ok bp" and ev: "evictable (bp_frames bp ! i)"
    and f: "fr_page_id f = None" "fr_pin_count f = 0" "\<not> fr_dirty f"
  shows "pool_ok bp'"
proof (rule pool_okI)
  note d = replacedD [OF r] and g = replaced_frame [OF r]
  show "bp_frames bp' \<noteq> []" using pool_okD(1) [OF ok] d(2) by auto
  show "distinct (map fst (bp_page_table bp'))" using pool_okD(6) [OF ok] d(3) by (simp add: table_without_distinct)
  show "ct_dirty (bp_counters bp') = dirty_frames bp'"
    using pool_okD(5) [OF ok] d(4) replaced_dirty [OF r] f(3) evictable_clean [OF ok d(1) ev] by simp
  fix j pid
  show "j < length (bp_frames bp') \<and> fr_page_id (bp_frames bp' ! j) = Some pid" if "map_of (bp_page_table bp') pid = Some j"
    using pool_okD(2) [OF ok, of pid j] that d(2,3) g(2) [of j] by (auto simp: table_without_map split: if_splits)
  show "map_of (bp_page_table bp') pid = Some j \<and> (\<exists>p. fr_page (bp_frames bp' ! j) = Some p)"
    if "j < length (bp_frames bp')" "fr_page_id (bp_frames bp' ! j) = Some pid"
    using pool_okD(3) [OF ok, of j pid] pool_okD(3) [OF ok d(1), of pid] that d(2,3) g(1,2) [of j] f(1)
    by (auto simp: table_without_map split: if_splits)
  show "fr_pin_count (bp_frames bp' ! j) = 0 \<and> \<not> fr_dirty (bp_frames bp' ! j)"
    if "j < length (bp_frames bp')" "fr_page_id (bp_frames bp' ! j) = None"
    using pool_okD(4) [OF ok, of j] that d(2) g [of j] f by (auto split: if_splits)
qed

lemma installed_pool_ok:
  assumes r: "replaced i f (AList.update pid i (table_without bp i)) bp bp'" and ok: "pool_ok bp" and ev: "evictable (bp_frames bp ! i)"
    and f: "fr_page f = Some page" "fr_page_id f = Some pid" "\<not> fr_dirty f" and new: "map_of (bp_page_table bp) pid = None"
  shows "pool_ok bp'"
proof (rule pool_okI)
  note d = replacedD [OF r] and g = replaced_frame [OF r]
  show "bp_frames bp' \<noteq> []" using pool_okD(1) [OF ok] d(2) by auto
  show "distinct (map fst (bp_page_table bp'))" using pool_okD(6) [OF ok] d(3) by (simp add: table_without_distinct distinct_update)
  show "ct_dirty (bp_counters bp') = dirty_frames bp'"
    using pool_okD(5) [OF ok] d(4) replaced_dirty [OF r] f(3) evictable_clean [OF ok d(1) ev] by simp
  fix j q
  show "j < length (bp_frames bp') \<and> fr_page_id (bp_frames bp' ! j) = Some q" if "map_of (bp_page_table bp') q = Some j"
    using pool_okD(2) [OF ok, of q j] that d(1-3) g(2) [of j] f(2) by (auto simp: table_without_map update_conv split: if_splits)
  show "map_of (bp_page_table bp') q = Some j \<and> (\<exists>p. fr_page (bp_frames bp' ! j) = Some p)"
    if "j < length (bp_frames bp')" "fr_page_id (bp_frames bp' ! j) = Some q"
    using pool_okD(3) [OF ok, of j q] pool_okD(3) [OF ok d(1), of q] that d(2,3) g(1,2) [of j] f(1,2) new
    by (auto simp: table_without_map update_conv split: if_splits)
  show "fr_pin_count (bp_frames bp' ! j) = 0 \<and> \<not> fr_dirty (bp_frames bp' ! j)"
    if "j < length (bp_frames bp')" "fr_page_id (bp_frames bp' ! j) = None"
    using pool_okD(4) [OF ok, of j] that d(2) g [of j] f by (auto split: if_splits)
qed

lemma vacated_coherent:
  assumes r: "replaced i f (table_without bp i) bp bp'" and c: "coherent bp disk gs" and ev: "evictable (bp_frames bp ! i)"
    and f: "fr_page_id f = None" "fr_pin_count f = 0" "\<not> fr_dirty f"
  shows "coherent bp' disk gs"
proof (rule coherentI)
  note d = replacedD [OF r] and g = replaced_frame [OF r]
  have free: "pins_on i gs = 0" using coherentD(3) [OF c d(1)] ev by (simp add: evictable_def)
  show "pool_ok bp'" by (rule vacated_pool_ok [OF r coherentD(1) [OF c] ev f])
  fix j pid
  show "fr_page (bp_frames bp' ! j) = Some (disk pid)"
    if "j < length (bp_frames bp')" "fr_page_id (bp_frames bp' ! j) = Some pid" "\<not> fr_dirty (bp_frames bp' ! j)"
    using coherentD(2) [OF c, of j pid] that d g [of j] f by (auto split: if_splits)
  show "fr_pin_count (bp_frames bp' ! j) = pins_on j gs" if "j < length (bp_frames bp')"
    using coherentD(3) [OF c, of j] that d g [of j] f free by (auto split: if_splits)
  show "j < length (bp_frames bp') \<and> fr_page_id (bp_frames bp' ! j) = Some pid" if "(j, pid) \<in> set gs"
    using coherentD(4) [OF c that] d g [of j] pins_none [OF free, of pid] that by auto
qed

lemma pins_on_Cons: "pins_on j ((i, pid) # gs) = (if i = j then Suc (pins_on j gs) else pins_on j gs)"
  by (simp add: pins_on_def)

lemma installed_coherent:
  assumes r: "replaced i f (AList.update pid i (table_without bp i)) bp bp'" and c: "coherent bp disk gs" and ev: "evictable (bp_frames bp ! i)"
    and f: "fr_page f = Some (disk pid)" "fr_page_id f = Some pid" "\<not> fr_dirty f" "fr_pin_count f = 1" and new: "map_of (bp_page_table bp) pid = None"
  shows "coherent bp' disk ((i, pid) # gs)"
proof (rule coherentI)
  note d = replacedD [OF r] and g = replaced_frame [OF r]
  have free: "pins_on i gs = 0" using coherentD(3) [OF c d(1)] ev by (simp add: evictable_def)
  show "pool_ok bp'" by (rule installed_pool_ok [OF r coherentD(1) [OF c] ev f(1-3) new])
  fix j q
  show "fr_page (bp_frames bp' ! j) = Some (disk q)"
    if "j < length (bp_frames bp')" "fr_page_id (bp_frames bp' ! j) = Some q" "\<not> fr_dirty (bp_frames bp' ! j)"
    using coherentD(2) [OF c, of j q] that d g [of j] f by (auto split: if_splits)
  show "fr_pin_count (bp_frames bp' ! j) = pins_on j ((i, pid) # gs)" if "j < length (bp_frames bp')"
    using coherentD(3) [OF c, of j] that d g [of j] f free by (auto simp: pins_on_Cons split: if_splits)
  show "j < length (bp_frames bp') \<and> fr_page_id (bp_frames bp' ! j) = Some q" if "(j, q) \<in> set ((i, pid) # gs)"
    using coherentD(4) [OF c, of j q] d g [of j] pins_none [OF free, of q] that f(2) by auto
qed

text \<open>A frame that is given up was clean, so the disk still shows its page.\<close>

lemma replaced_view:
  assumes r: "replaced i f T bp bp'" and c: "coherent bp disk gs" and ev: "evictable (bp_frames bp ! i)"
    and T: "T = table_without bp i \<or> (\<exists>pid. T = AList.update pid i (table_without bp i) \<and> map_of (bp_page_table bp) pid = None \<and> fr_page f = Some (disk pid))"
  shows "pool_view bp' disk = pool_view bp disk"
proof
  fix q
  note d = replacedD [OF r] and g = replaced_frame(1) [OF r] and ok = coherentD(1) [OF c]
  show "pool_view bp' disk q = pool_view bp disk q"
  proof (cases "map_of (bp_page_table bp) q")
    case None
    then show ?thesis using T d g [of i] by (auto simp: pool_view_def table_without_map update_conv)
  next
    case (Some j)
    have j: "j < length (bp_frames bp)" "fr_page_id (bp_frames bp ! j) = Some q" using pool_okD(2) [OF ok Some] by auto
    show ?thesis
    proof (cases "j = i")
      case True
      then show ?thesis using coherentD(2) [OF c, of i q] j evictable_clean [OF ok d(1) ev] Some T d(3)
        by (auto simp: pool_view_def table_without_map update_conv)
    next
      case False
      then have "fr_page_id (bp_frames bp ! i) \<noteq> Some q" using pool_okD(3) [OF ok d(1), of q] Some by auto
      then show ?thesis using Some T d(3) g [OF j(1)] False by (auto simp: pool_view_def table_without_map update_conv)
    qed
  qed
qed

text \<open>An operation on the one frame \<open>i\<close> that keeps its tag.\<close>

definition touched :: "nat \<Rightarrow> frame \<Rightarrow> buffer_pool \<Rightarrow> buffer_pool \<Rightarrow> bool" where
  "touched i f bp bp' \<longleftrightarrow>
     i < length (bp_frames bp) \<and> bp_frames bp' = (bp_frames bp)[i := f] \<and> bp_page_table bp' = bp_page_table bp
     \<and> ct_dirty (bp_counters bp') + (if fr_dirty (bp_frames bp ! i) then 1 else 0) = ct_dirty (bp_counters bp) + (if fr_dirty f then 1 else 0)"

lemma touchedD:
  assumes "touched i f bp bp'"
  shows "i < length (bp_frames bp)" "length (bp_frames bp') = length (bp_frames bp)" "bp_page_table bp' = bp_page_table bp"
    "j < length (bp_frames bp) \<Longrightarrow> bp_frames bp' ! j = (if j = i then f else bp_frames bp ! j)"
  using assms by (auto simp: touched_def nth_list_update)

lemma touched_pool_ok:
  assumes t: "touched i f bp bp'" and ok: "pool_ok bp"
    and f: "fr_page_id (bp_frames bp ! i) = Some pid" "fr_page_id f = Some pid" "fr_page f = Some page"
  shows "pool_ok bp'"
proof (rule pool_okI)
  note d = touchedD(1-3) [OF t] and g = touchedD(4) [OF t]
  show "bp_frames bp' \<noteq> []" using pool_okD(1) [OF ok] d(2) by auto
  show "distinct (map fst (bp_page_table bp'))" using pool_okD(6) [OF ok] d(3) by simp
  show "ct_dirty (bp_counters bp') = dirty_frames bp'"
    using length_filter_update [OF d(1), of fr_dirty f] pool_okD(5) [OF ok] t by (simp add: touched_def split: if_splits)
  fix j q
  show "j < length (bp_frames bp') \<and> fr_page_id (bp_frames bp' ! j) = Some q" if "map_of (bp_page_table bp') q = Some j"
    using pool_okD(2) [OF ok, of q j] that d g [of j] f by auto
  show "map_of (bp_page_table bp') q = Some j \<and> (\<exists>p. fr_page (bp_frames bp' ! j) = Some p)"
    if "j < length (bp_frames bp')" "fr_page_id (bp_frames bp' ! j) = Some q"
    using pool_okD(3) [OF ok, of j q] that d g [of j] f by (auto split: if_splits)
  show "fr_pin_count (bp_frames bp' ! j) = 0 \<and> \<not> fr_dirty (bp_frames bp' ! j)"
    if "j < length (bp_frames bp')" "fr_page_id (bp_frames bp' ! j) = None"
    using pool_okD(4) [OF ok, of j] that d g [of j] f by (auto split: if_splits)
qed

lemma touched_coherent:
  assumes t: "touched i f bp bp'" and c: "coherent bp disk gs"
    and f: "fr_page_id (bp_frames bp ! i) = Some pid" "fr_page_id f = Some pid" "fr_page f = Some page"
    and clean: "\<not> fr_dirty f \<Longrightarrow> page = disk' pid" and disk: "\<And>q. q \<noteq> pid \<Longrightarrow> disk' q = disk q"
    and pins: "fr_pin_count f = pins_on i gs'" "\<And>j. j \<noteq> i \<Longrightarrow> pins_on j gs' = pins_on j gs" "set gs' \<subseteq> insert (i, pid) (set gs)"
  shows "coherent bp' disk' gs'"
proof (rule coherentI)
  note d = touchedD(1-3) [OF t] and g = touchedD(4) [OF t] and ok = coherentD(1) [OF c]
  show "pool_ok bp'" by (rule touched_pool_ok [OF t ok f])
  fix j q
  show "fr_page (bp_frames bp' ! j) = Some (disk' q)"
    if h: "j < length (bp_frames bp')" "fr_page_id (bp_frames bp' ! j) = Some q" "\<not> fr_dirty (bp_frames bp' ! j)"
  proof (cases "j = i")
    case True
    then show ?thesis using h d g f clean by auto
  next
    case False
    then have "q \<noteq> pid" using pool_okD(3) [OF ok, of j q] pool_okD(3) [OF ok d(1) f(1)] h d g [of j] by auto
    then show ?thesis using False coherentD(2) [OF c, of j q] h d g [of j] disk by auto
  qed
  show "fr_pin_count (bp_frames bp' ! j) = pins_on j gs'" if "j < length (bp_frames bp')"
    using coherentD(3) [OF c, of j] that d g [of j] pins by auto
  show "j < length (bp_frames bp') \<and> fr_page_id (bp_frames bp' ! j) = Some q" if "(j, q) \<in> set gs'"
    using coherentD(4) [OF c, of j q] subsetD [OF pins(3) that] d g [of j] f by (auto split: if_splits)
qed

lemma touched_view:
  assumes t: "touched i f bp bp'" and ok: "pool_ok bp" and f: "fr_page_id (bp_frames bp ! i) = Some pid" "fr_page f = Some page"
    and disk: "\<And>q. q \<noteq> pid \<Longrightarrow> disk' q = disk q"
  shows "pool_view bp' disk' = (pool_view bp disk)(pid := page)"
proof
  fix q
  note d = touchedD(1-3) [OF t] and g = touchedD(4) [OF t]
  have i: "map_of (bp_page_table bp) pid = Some i" using pool_okD(3) [OF ok d(1) f(1)] by simp
  show "pool_view bp' disk' q = ((pool_view bp disk)(pid := page)) q"
  proof (cases "q = pid")
    case True
    then show ?thesis using i d g f by (simp add: pool_view_def)
  next
    case False
    show ?thesis
    proof (cases "map_of (bp_page_table bp) q")
      case None
      then show ?thesis using False d disk by (simp add: pool_view_def)
    next
      case (Some j)
      then have "j < length (bp_frames bp)" "j \<noteq> i" using pool_okD(2) [OF ok Some] f False by auto
      then show ?thesis using False Some d g [of j] by (simp add: pool_view_def)
    qed
  qed
qed

lemma resident_view: "pool_ok bp \<Longrightarrow> i < length (bp_frames bp) \<Longrightarrow> fr_page_id (bp_frames bp ! i) = Some pid \<Longrightarrow>
    fr_page (bp_frames bp ! i) = Some (pool_view bp disk pid)"
  using pool_okD(3) [of bp i pid] by (auto simp: pool_view_def)

end
