(* ===== verification/Buffer_Pool_Run.thy ===== *)
theory Buffer_Pool_Run
  imports Buffer_Pool_Spec
begin

text \<open>
  What each operation of the buffer pool does to the pages, and the runs of the pool: gets whose
  loader may fail, guarded writes, dropped guards, flushes whose writer may fail, and the poisoning
  after a log error, in any order, while the world behind the pool changes in all but the disk.
\<close>

section \<open>The operations\<close>

lemma touched_upd:
  "i < length (bp_frames bp) \<Longrightarrow> fr_dirty (g (bp_frames bp ! i)) = fr_dirty (bp_frames bp ! i) \<Longrightarrow>
     touched i (g (bp_frames bp ! i)) bp (upd_frame i g bp)"
  by (simp add: touched_def upd_frame_def)

lemma dirty_same: "fr_dirty f = b \<Longrightarrow> f\<lparr>fr_dirty := b\<rparr> = f"
  by simp

lemma touched_clear:
  assumes ok: "pool_ok bp" and i: "i < length (bp_frames bp)"
  shows "touched i ((bp_frames bp ! i)\<lparr>fr_dirty := False\<rparr>) bp (clear_dirty i bp)"
proof (cases "fr_dirty (bp_frames bp ! i)")
  case True
  then have "filter fr_dirty (bp_frames bp) \<noteq> []" using i by (auto simp: filter_empty_conv)
  then show ?thesis using True i pool_okD(5) [OF ok] by (simp add: touched_def clear_dirty_def upd_frame_def upd_counters_def)
next
  case False
  then show ?thesis using i by (simp add: touched_def clear_dirty_def dirty_same [of _ False])
qed

lemma touched_set:
  assumes "i < length (bp_frames bp)" "fr_dirty (g (bp_frames bp ! i)) = fr_dirty (bp_frames bp ! i)"
  shows "touched i ((g (bp_frames bp ! i))\<lparr>fr_dirty := True\<rparr>) bp (set_dirty i (upd_frame i g bp))"
proof (cases "fr_dirty (bp_frames bp ! i)")
  case True
  then show ?thesis using assms by (simp add: touched_def set_dirty_def upd_frame_def dirty_same [of _ True])
next
  case False
  then show ?thesis using assms by (simp add: touched_def set_dirty_def upd_frame_def upd_counters_def)
qed

lemma pin_coherent:
  assumes c: "coherent bp disk gs" and m: "map_of (bp_page_table bp) pid = Some i"
  shows "coherent (upd_frame i (\<lambda>f. f\<lparr>fr_pin_count := fr_pin_count f + 1\<rparr>) bp) disk ((i, pid) # gs)" (is "coherent ?bp _ _")
    and "pool_view (upd_frame i (\<lambda>f. f\<lparr>fr_pin_count := fr_pin_count f + 1\<rparr>) bp) disk = pool_view bp disk"
proof -
  note ok = coherentD(1) [OF c]
  have i: "i < length (bp_frames bp)" "fr_page_id (bp_frames bp ! i) = Some pid" using pool_okD(2) [OF ok m] by auto
  let ?f = "(bp_frames bp ! i)\<lparr>fr_pin_count := fr_pin_count (bp_frames bp ! i) + 1\<rparr>"
  have t: "touched i ?f bp ?bp" using touched_upd [OF i(1), of "\<lambda>f. f\<lparr>fr_pin_count := fr_pin_count f + 1\<rparr>"] by simp
  have p: "fr_page ?f = Some (pool_view bp disk pid)" using resident_view [OF ok i] by simp
  show "coherent ?bp disk ((i, pid) # gs)"
  proof (rule touched_coherent [OF t c i(2) _ p])
    show "pool_view bp disk pid = disk pid" if "\<not> fr_dirty ?f" using coherentD(2) [OF c i] that p by simp
  qed (use i coherentD(3) [OF c i(1)] in \<open>auto simp: pins_on_Cons\<close>)
  show "pool_view ?bp disk = pool_view bp disk" using touched_view [OF t ok i(2) p, of disk disk] by simp
qed

lemma pin_hit_swept: "swept bp (pin_hit pid i bp)"
  unfolding pin_hit_def by (rule swept_trans [OF swept_trans [OF swept_upd [where b = True] swept_counters] swept_relation(1)]) simp_all

lemma hit_coherent:
  assumes c: "coherent bp disk gs" and m: "map_of (bp_page_table bp) pid = Some i"
  shows "coherent (pin_hit pid i (upd_frame i (\<lambda>f. f\<lparr>fr_pin_count := fr_pin_count f + 1\<rparr>) bp)) disk ((i, pid) # gs)"
    "pool_view (pin_hit pid i (upd_frame i (\<lambda>f. f\<lparr>fr_pin_count := fr_pin_count f + 1\<rparr>) bp)) disk = pool_view bp disk"
  using swept_coherent [OF pin_hit_swept pin_coherent(1) [OF c m]]
    swept_view [OF pin_hit_swept coherentD(1) [OF pin_coherent(1) [OF c m]]] pin_coherent(2) [OF c m] by auto

lemma install_replaced:
  assumes r: "replaced i f T bp b" and f: "fr_pin_count f = 0" "\<not> fr_dirty f"
  obtains f' where "replaced i f' (AList.update pid i T) bp (install_page pid i page b)"
    "fr_page f' = Some page" "fr_page_id f' = Some pid" "\<not> fr_dirty f'" "fr_pin_count f' = 1"
proof
  note d = replacedD [OF r] and g = replaced_frame [OF r]
  let ?f = "unref ((bp_frames b ! i)\<lparr>fr_page := Some page, fr_page_id := Some pid, fr_clock_ref := True, fr_pin_count := 1\<rparr>)"
  have "\<not> fr_dirty (bp_frames b ! i)" "fr_pin_count (bp_frames b ! i) = 0" "i < length (bp_frames b)" using d g f by simp_all
  then show "replaced i ?f (AList.update pid i T) bp (install_page pid i page b)"
    using r by (auto simp: replaced_def install_page_def clear_dirty_def Let_def)
  show "fr_page ?f = Some page" "fr_page_id ?f = Some pid" "\<not> fr_dirty ?f" "fr_pin_count ?f = 1" using d g f by simp_all
qed

definition honest_loader :: "(page_id \<Rightarrow> 'e + bytes) \<Rightarrow> (page_id \<Rightarrow> bytes) \<Rightarrow> bool" where
  "honest_loader loader disk \<longleftrightarrow> (\<forall>pid page. loader pid = Inr page \<longrightarrow> page = disk pid)"

definition guards_after :: "page_id \<Rightarrow> 'e + nat \<Rightarrow> (nat \<times> page_id) list \<Rightarrow> (nat \<times> page_id) list" where
  "guards_after pid r gs = (case r of Inl _ \<Rightarrow> gs | Inr i \<Rightarrow> (i, pid) # gs)"

lemma guards_after_simps [simp]: "guards_after pid (Inl e) gs = gs" "guards_after pid (Inr i) gs = (i, pid) # gs"
  by (simp_all add: guards_after_def)

lemma acquired_coherent:
  assumes c: "coherent bp disk gs" and new: "map_of (bp_page_table bp) pid = None" and l: "honest_loader loader disk"
    and acq: "acquire_frame_for pid bp = (b, Some i)"
  shows "loader pid = Inl e \<Longrightarrow> coherent (upd_frame i (\<lambda>f. f\<lparr>fr_page := None, fr_page_id := None\<rparr>) b) disk gs
      \<and> pool_view (upd_frame i (\<lambda>f. f\<lparr>fr_page := None, fr_page_id := None\<rparr>) b) disk = pool_view bp disk"
    and "loader pid = Inr page \<Longrightarrow> coherent (install_page pid i page b) disk ((i, pid) # gs)
      \<and> pool_view (install_page pid i page b) disk = pool_view bp disk"
proof -
  from acquire_Some [OF coherentD(1) [OF c] acq] obtain f where r: "replaced i f (table_without bp i) bp b"
    and f: "fr_pin_count f = 0" "\<not> fr_dirty f" and ev: "evictable (bp_frames bp ! i)" by metis
  let ?g = "\<lambda>f. f\<lparr>fr_page := None, fr_page_id := None\<rparr>"
  have "fr_pin_count (?g (bp_frames b ! i)) = 0" "\<not> fr_dirty (?g (bp_frames b ! i))"
    using replaced_frame [OF r replacedD(1) [OF r]] f by simp_all
  then show "coherent (upd_frame i ?g b) disk gs \<and> pool_view (upd_frame i ?g b) disk = pool_view bp disk"
    using vacated_coherent [OF replaced_upd [OF r] c ev] replaced_view [OF replaced_upd [OF r, of ?g] c ev] by simp
  show "coherent (install_page pid i page b) disk ((i, pid) # gs) \<and> pool_view (install_page pid i page b) disk = pool_view bp disk"
    if "loader pid = Inr page"
  proof -
    have page: "page = disk pid" using l that by (simp add: honest_loader_def)
    from install_replaced [OF r f] obtain f' where r': "replaced i f' (AList.update pid i (table_without bp i)) bp (install_page pid i page b)"
      and f': "fr_page f' = Some (disk pid)" "fr_page_id f' = Some pid" "\<not> fr_dirty f'" "fr_pin_count f' = 1" unfolding page by blast
    show ?thesis using installed_coherent [OF r' c ev f' new] replaced_view [OF r' c ev] f'(1) new by blast
  qed
qed

lemma miss_coherent:
  assumes c: "coherent bp disk gs" and l: "honest_loader loader disk" and m: "miss_page loader pid bp = (bp', r)"
  shows "coherent bp' disk (guards_after pid r gs) \<and> pool_view bp' disk = pool_view bp disk"
proof (cases "map_of (bp_page_table bp) pid")
  case (Some i)
  then show ?thesis using m hit_coherent [OF c Some] by (auto simp: miss_page_def pool_lookup_def)
next
  case None
  let ?b = "record_relation_read (pg_relation pid) (upd_counters (\<lambda>c. c\<lparr>ct_misses := ct_misses c + 1\<rparr>) bp)"
  have s: "swept bp ?b" by (rule swept_trans [OF swept_counters swept_relation(2)]) simp
  have c': "coherent ?b disk gs" and v: "pool_view ?b disk = pool_view bp disk" and n: "map_of (bp_page_table ?b) pid = None"
    using swept_coherent [OF s c] swept_view [OF s coherentD(1) [OF c]] None by simp_all
  obtain b o' where acq: "acquire_frame_for pid ?b = (b, o')" by fastforce
  show ?thesis
  proof (cases o')
    case None
    then have "swept ?b b" using acquire_None(1) [OF _ pool_okD(1) [OF coherentD(1) [OF c']]] acq by simp
    then show ?thesis using swept_coherent [OF _ c'] swept_view [OF _ coherentD(1) [OF c']] v m acq \<open>map_of (bp_page_table bp) pid = None\<close> None
      by (auto simp: miss_page_def pool_lookup_def)
  next
    case (Some i)
    show ?thesis using acquired_coherent [OF c' n l acq [unfolded Some]] v m acq None Some
      by (cases "loader pid") (auto simp: miss_page_def pool_lookup_def)
  qed
qed

lemma get_coherent:
  assumes c: "coherent bp disk gs" and l: "honest_loader loader disk" and m: "get_page loader pid bp = (bp', r)"
  shows "coherent bp' disk (guards_after pid r gs)" "pool_view bp' disk = pool_view bp disk"
proof -
  let ?b = "upd_counters (\<lambda>c. c\<lparr>ct_gets := ct_gets c + 1\<rparr>) bp"
  have s: "swept bp ?b" by (rule swept_counters) simp
  have c': "coherent ?b disk gs" and v: "pool_view ?b disk = pool_view bp disk"
    using swept_coherent [OF s c] swept_view [OF s coherentD(1) [OF c]] by simp_all
  have "coherent bp' disk (guards_after pid r gs) \<and> pool_view bp' disk = pool_view bp disk"
  proof (cases "bp_poisoned bp")
    case True
    then show ?thesis using m c by (auto simp: get_page_def)
  next
    case False
    show ?thesis
    proof (cases "map_of (bp_page_table ?b) pid")
      case None
      then show ?thesis using m False miss_coherent [OF c' l] v by (simp add: get_page_def pool_lookup_def)
    next
      case (Some i)
      then have "i < length (bp_frames ?b)" "fr_page_id (bp_frames ?b ! i) = Some pid" using pool_okD(2) [OF coherentD(1) [OF c'] Some] by auto
      then show ?thesis using m False Some hit_coherent [OF c' Some] v by (auto simp: get_page_def pool_lookup_def)
    qed
  qed
  then show "coherent bp' disk (guards_after pid r gs)" "pool_view bp' disk = pool_view bp disk" by auto
qed

lemma guard_resident:
  assumes c: "coherent bp disk gs" and g: "(i, pid) \<in> set gs"
  shows "i < length (bp_frames bp)" "fr_page_id (bp_frames bp ! i) = Some pid" "guard_read i bp = Some (pool_view bp disk pid)"
    "fr_page (bp_frames bp ! i) = Some (pool_view bp disk pid)"
  using coherentD(4) [OF c g] resident_view [OF coherentD(1) [OF c], of i pid disk] by (simp_all add: guard_read_def)

lemma write_coherent:
  assumes c: "coherent bp disk gs" and g: "(i, pid) \<in> set gs"
  obtains bp' where "guard_write i f bp = Some bp'" "coherent bp' disk gs"
    "pool_view bp' disk = (pool_view bp disk)(pid := f (pool_view bp disk pid))"
proof
  note i = guard_resident [OF c g] and ok = coherentD(1) [OF c]
  let ?p = "f (pool_view bp disk pid)"
  let ?g = "\<lambda>fr. fr\<lparr>fr_page := Some ?p\<rparr>"
  let ?bp = "set_dirty i (upd_frame i ?g bp)"
  show "guard_write i f bp = Some ?bp" using i by (simp add: guard_write_def)
  have t: "touched i ((?g (bp_frames bp ! i))\<lparr>fr_dirty := True\<rparr>) bp ?bp" by (rule touched_set [OF i(1)]) simp
  show "coherent ?bp disk gs"
    by (rule touched_coherent [OF t c i(2)]) (use i coherentD(3) [OF c i(1)] g in auto)
  show "pool_view ?bp disk = (pool_view bp disk)(pid := ?p)" by (rule touched_view [OF t ok i(2)]) simp_all
qed

lemma pins_on_remove1: "(i, pid) \<in> set gs \<Longrightarrow> pins_on i gs = Suc (pins_on i (remove1 (i, pid) gs))"
  by (induction gs) (auto simp: pins_on_def)

lemma pins_on_remove1_other: "j \<noteq> i \<Longrightarrow> pins_on j (remove1 (i, pid) gs) = pins_on j gs"
  by (induction gs) (auto simp: pins_on_def)

lemma drop_coherent:
  assumes c: "coherent bp disk gs" and g: "(i, pid) \<in> set gs"
  shows "coherent (guard_drop i bp) disk (remove1 (i, pid) gs)" "pool_view (guard_drop i bp) disk = pool_view bp disk"
proof -
  note i = guard_resident [OF c g] and ok = coherentD(1) [OF c]
  let ?g = "\<lambda>f. f\<lparr>fr_pin_count := fr_pin_count f - 1\<rparr>"
  have d: "guard_drop i bp = upd_frame i ?g bp" by (simp add: guard_drop_def unpin_def)
  have t: "touched i (?g (bp_frames bp ! i)) bp (guard_drop i bp)" unfolding d by (rule touched_upd [OF i(1)]) simp
  show "coherent (guard_drop i bp) disk (remove1 (i, pid) gs)"
  proof (rule touched_coherent [OF t c i(2)])
    show "pool_view bp disk pid = disk pid" if "\<not> fr_dirty (?g (bp_frames bp ! i))" using coherentD(2) [OF c i(1,2)] that i by simp
    show "fr_pin_count (?g (bp_frames bp ! i)) = pins_on i (remove1 (i, pid) gs)"
      using coherentD(3) [OF c i(1)] pins_on_remove1 [OF g] by simp
    show "set (remove1 (i, pid) gs) \<subseteq> insert (i, pid) (set gs)" using set_remove1_subset by fast
  qed (use i in \<open>auto simp: pins_on_remove1_other\<close>)
  show "pool_view (guard_drop i bp) disk = pool_view bp disk" using touched_view [OF t ok i(2), of _ disk disk] i by simp
qed

definition honest_writer :: "('w \<Rightarrow> page_id \<Rightarrow> bytes) \<Rightarrow> ('w, 'e) page_writer \<Rightarrow> bool" where
  "honest_writer disk_of writer \<longleftrightarrow>
     (\<forall>pid page w w' r. writer pid page w = (w', r) \<longrightarrow>
        (\<forall>q. q \<noteq> pid \<longrightarrow> disk_of w' q = disk_of w q) \<and> (\<forall>u. r = Inr u \<longrightarrow> disk_of w' pid = page))"

lemma honest_writerD:
  assumes "honest_writer disk_of writer" "writer pid page w = (w', r)"
  shows "q \<noteq> pid \<Longrightarrow> disk_of w' q = disk_of w q" "r = Inr u \<Longrightarrow> disk_of w' pid = page"
  using assms unfolding honest_writer_def by blast+

lemma dirty_written_coherent:
  assumes c: "coherent bp disk gs" and i: "i < length (bp_frames bp)" "fr_page_id (bp_frames bp ! i) = Some pid" "fr_dirty (bp_frames bp ! i)"
    and other: "\<And>q. q \<noteq> pid \<Longrightarrow> disk' q = disk q"
  shows "coherent bp disk' gs" "pool_view bp disk' = pool_view bp disk"
proof -
  note ok = coherentD(1) [OF c]
  have t: "touched i (bp_frames bp ! i) bp bp" using i by (simp add: touched_def)
  have p: "fr_page (bp_frames bp ! i) = Some (pool_view bp disk pid)" by (rule resident_view [OF ok i(1,2)])
  show "coherent bp disk' gs"
    by (rule touched_coherent [OF t c i(2) i(2) p]) (use other i(3) coherentD(3,4) [OF c] i in auto)
  show "pool_view bp disk' = pool_view bp disk" using touched_view [OF t ok i(2) p other] by simp
qed

lemma flushed_coherent:
  assumes c: "coherent bp disk gs" and i: "i < length (bp_frames bp)" "fr_page_id (bp_frames bp ! i) = Some pid" "fr_page (bp_frames bp ! i) = Some page"
    and disk: "disk' pid = page" "\<And>q. q \<noteq> pid \<Longrightarrow> disk' q = disk q"
  shows "coherent (clear_dirty i bp) disk' gs" "pool_view (clear_dirty i bp) disk' = pool_view bp disk"
proof -
  note ok = coherentD(1) [OF c]
  have t: "touched i ((bp_frames bp ! i)\<lparr>fr_dirty := False\<rparr>) bp (clear_dirty i bp)" by (rule touched_clear [OF ok i(1)])
  show "coherent (clear_dirty i bp) disk' gs"
    by (rule touched_coherent [OF t c i(2)]) (use disk coherentD(3) [OF c i(1)] i in auto)
  have "page = pool_view bp disk pid" using resident_view [OF ok i(1,2)] i(3) by simp
  then show "pool_view (clear_dirty i bp) disk' = pool_view bp disk" using touched_view [OF t ok i(2) _ disk(2)] i(3) by simp
qed

text \<open>What the flush keeps if each of its calls of the writer keeps it.\<close>

definition flushes :: "sink_view \<Rightarrow> buffer_pool \<Rightarrow> nat \<Rightarrow> page_id \<Rightarrow> bytes \<Rightarrow> bool" where
  "flushes sink bp i pid page \<longleftrightarrow>
     i < length (bp_frames bp) \<and> fr_dirty (bp_frames bp ! i) \<and> fr_pin_count (bp_frames bp ! i) = 0
     \<and> fr_page_id (bp_frames bp ! i) = Some pid \<and> fr_page (bp_frames bp ! i) = Some page
     \<and> (\<exists>h. page_header_of page = Some h \<and> \<not> held_back sink (ph_lsn h))"

lemma clear_dirty_length [simp]: "length (bp_frames (clear_dirty i bp)) = length (bp_frames bp)"
  by (simp add: clear_dirty_def)

lemma flush_frames_rule:
  assumes "flush_frames sink writer is n (bp, w) = Some ((bp', w'), r)" "P bp w" "\<forall>i \<in> set is. i < length (bp_frames bp)"
    and err: "\<And>bp w i pid page w' e. P bp w \<Longrightarrow> flushes sink bp i pid page \<Longrightarrow> writer pid page w = (w', Inl e) \<Longrightarrow> P bp w'"
    and ok: "\<And>bp w i pid page w' u. P bp w \<Longrightarrow> flushes sink bp i pid page \<Longrightarrow> writer pid page w = (w', Inr u) \<Longrightarrow> P (clear_dirty i bp) w'"
  shows "P bp' w'"
  using assms(1-3)
proof (induction "is" arbitrary: n bp w)
  case (Cons i "is")
  note IH = Cons.IH [OF _ _ ] and run = Cons.prems(1)
  have i: "i < length (bp_frames bp)" and rest: "\<forall>i \<in> set is. i < length (bp_frames bp)" using Cons.prems(3) by auto
  show ?case
  proof (cases "\<exists>pid page. flushes sink bp i pid page")
    case False
    then have "flush_frames sink writer is n (bp, w) = Some ((bp', w'), r)"
      using run i by (auto simp: flushes_def Let_def split: if_splits option.splits)
    then show ?thesis using Cons.IH Cons.prems(2) rest by blast
  next
    case True
    then obtain pid page h where f: "flushes sink bp i pid page" "page_header_of page = Some h" "\<not> held_back sink (ph_lsn h)"
      by (auto simp: flushes_def)
    obtain w1 q where q: "writer pid page w = (w1, q)" by fastforce
    show ?thesis
    proof (cases q)
      case (Inl e)
      then have "bp' = bp" "w' = w1" using run f q by (auto simp: flushes_def Let_def)
      then show ?thesis using err [OF Cons.prems(2) f(1)] q Inl by simp
    next
      case (Inr u)
      then have "flush_frames sink writer is (n + 1) (clear_dirty i bp, w1) = Some ((bp', w'), r)" using run f q by (auto simp: flushes_def Let_def)
      then show ?thesis using Cons.IH ok [OF Cons.prems(2) f(1)] q Inr rest by simp
    qed
  qed
qed simp

lemma try_flush_rule:
  assumes "try_flush_dirty sink writer (bp, w) = Some ((bp', w'), r)" "P bp w"
    and err: "\<And>bp w i pid page w' e. P bp w \<Longrightarrow> flushes sink bp i pid page \<Longrightarrow> writer pid page w = (w', Inl e) \<Longrightarrow> P bp w'"
    and ok: "\<And>bp w i pid page w' u. P bp w \<Longrightarrow> flushes sink bp i pid page \<Longrightarrow> writer pid page w = (w', Inr u) \<Longrightarrow> P (clear_dirty i bp) w'"
  shows "P bp' w'"
proof (cases "bp_poisoned bp")
  case True
  then show ?thesis using assms(1,2) by (auto simp: try_flush_dirty_def)
next
  case False
  then have run: "flush_frames sink writer [0..<length (bp_frames bp)] 0 (bp, w) = Some ((bp', w'), r)" using assms(1) by (simp add: try_flush_dirty_def)
  show ?thesis by (rule flush_frames_rule [of _ _ _ _ _ _ _ _ _ P, OF run assms(2)]) (use err ok in auto)
qed

lemma flush_coherent:
  assumes run: "try_flush_dirty sink writer (bp, w) = Some ((bp', w'), r)" and c: "coherent bp (disk_of w) gs" and hw: "honest_writer disk_of writer"
  shows "coherent bp' (disk_of w') gs" "pool_view bp' (disk_of w') = pool_view bp (disk_of w)"
proof -
  let ?P = "\<lambda>b v. coherent b (disk_of v) gs \<and> pool_view b (disk_of v) = pool_view bp (disk_of w)"
  have "?P bp' w'"
  proof (rule try_flush_rule [of _ _ _ _ _ _ _ ?P, OF run])
    fix b v i pid page v' e assume P: "?P b v" and f: "flushes sink b i pid page" and wr: "writer pid page v = (v', Inl e)"
    show "?P b v'" using dirty_written_coherent [of b "disk_of v" gs i pid "disk_of v'"] P f honest_writerD(1) [OF hw wr] by (simp add: flushes_def)
  next
    fix b v i pid page v' u assume P: "?P b v" and f: "flushes sink b i pid page" and wr: "writer pid page v = (v', Inr u)"
    show "?P (clear_dirty i b) v'"
      using flushed_coherent [of b "disk_of v" gs i pid page "disk_of v'"] P f honest_writerD [OF hw wr] by (simp add: flushes_def)
  qed (use c in simp)
  then show "coherent bp' (disk_of w') gs" "pool_view bp' (disk_of w') = pool_view bp (disk_of w)" by auto
qed

section \<open>Eviction relief\<close>

definition keeps_disk :: "('w \<Rightarrow> page_id \<Rightarrow> bytes) \<Rightarrow> (lsn \<Rightarrow> 'w \<Rightarrow> 'w \<times> ('e + unit)) option \<Rightarrow> bool" where
  "keeps_disk disk_of force \<longleftrightarrow> (\<forall>f target w w' r. force = Some f \<longrightarrow> f target w = (w', r) \<longrightarrow> disk_of w' = disk_of w)"

lemma flush_durable_coherent:
  assumes "flush_durable sink_of writer (bp, w) = Some ((bp', w'), r)" "coherent bp (disk_of w) gs" "honest_writer disk_of writer"
  shows "coherent bp' (disk_of w') gs" "pool_view bp' (disk_of w') = pool_view bp (disk_of w)"
proof -
  obtain q where "try_flush_dirty (sink_of w) writer (bp, w) = Some ((bp', w'), q)"
    using assms(1) by (auto simp: flush_durable_def split: option.splits sum.splits)
  from flush_coherent [OF this assms(2,3)] show "coherent bp' (disk_of w') gs" "pool_view bp' (disk_of w') = pool_view bp (disk_of w)" .
qed

lemma relieve_coherent:
  assumes r: "relieve sink_of force writer (bp, w) = Some ((bp', w'), r)" and c: "coherent bp (disk_of w) gs"
    and hw: "honest_writer disk_of writer" and k: "keeps_disk disk_of force"
  shows "coherent bp' (disk_of w') gs \<and> pool_view bp' (disk_of w') = pool_view bp (disk_of w)"
proof (cases "bp_poisoned bp")
  case True
  then show ?thesis using r c by (auto simp: relieve_def)
next
  case False
  then obtain b v q where q: "flush_durable sink_of writer (bp, w) = Some ((b, v), q)" using r by (auto simp: relieve_def split: option.splits)
  note one = flush_durable_coherent [OF q c hw]
  consider "bp' = b" "w' = v" | f t u where "force = Some f" "f t v = (w', u)" "bp' = b"
    | f t x u where "force = Some f" "f t v = (x, Inr ())" "flush_durable sink_of writer (b, x) = Some ((bp', w'), u)"
    using r False q by (auto simp: relieve_def split: option.splits sum.splits if_splits prod.splits)
  then show ?thesis
  proof cases
    case 2
    then show ?thesis using one k unfolding keeps_disk_def by metis
  next
    case 3
    have d: "disk_of x = disk_of v" using k 3(1,2) unfolding keeps_disk_def by blast
    show ?thesis using flush_durable_coherent [OF 3(3) _ hw, of gs] one d by simp
  qed (use one in simp)
qed

lemma relieved_rounds_coherent:
  assumes "relieved_rounds n (relieve sink_of force writer) loader pid (bp, w) = Some ((bp', w'), r)" "coherent bp (disk_of w) gs"
    "honest_writer disk_of writer" "keeps_disk disk_of force" "\<And>w. honest_loader (loader w) (disk_of w)"
  shows "coherent bp' (disk_of w') (guards_after pid r gs) \<and> pool_view bp' (disk_of w') = pool_view bp (disk_of w)"
  using assms(1,2)
proof (induction n arbitrary: bp w)
  case 0
  then show ?case using get_coherent [OF 0(2) assms(5)] by (auto split: prod.splits)
next
  case (Suc n)
  obtain b q where g: "get_page (loader w) pid bp = (b, q)" by fastforce
  note one = get_coherent [OF Suc.prems(2) assms(5) g]
  show ?case
  proof (cases "q = Inl Exhausted")
    case False
    then have "bp' = b" "w' = w" "r = q" using Suc.prems(1) g by (auto split: sum.splits buffer_pool_error.splits)
    then show ?thesis using one by simp
  next
    case True
    then obtain b' v u where u: "relieve sink_of force writer (b, w) = Some ((b', v), u)" using Suc.prems(1) g by (auto split: option.splits)
    have two: "coherent b' (disk_of v) gs \<and> pool_view b' (disk_of v) = pool_view b (disk_of w)"
      by (rule relieve_coherent [OF u _ assms(3,4)]) (use one True in simp)
    show ?thesis
    proof (cases u)
      case (Inl e)
      then show ?thesis using Suc.prems(1) g True u one two by auto
    next
      case (Inr x)
      then have "relieved_rounds n (relieve sink_of force writer) loader pid (b', v) = Some ((bp', w'), r)" using Suc.prems(1) g True u by simp
      from Suc.IH [OF this] two one(2) show ?thesis by simp
    qed
  qed
qed

section \<open>Runs\<close>

type_synonym 'w pool_state = "buffer_pool \<times> 'w \<times> (nat \<times> page_id) list"

inductive pool_step ::
  "('w \<Rightarrow> page_id \<Rightarrow> bytes) \<Rightarrow> ('w \<Rightarrow> sink_view) \<Rightarrow> ('w \<Rightarrow> page_id \<Rightarrow> 'e flush_error + bytes) \<Rightarrow> ('w, 'e) page_writer \<Rightarrow>
     (lsn \<Rightarrow> 'w \<Rightarrow> 'w \<times> ('e + unit)) option \<Rightarrow> (page_id \<times> (bytes \<Rightarrow> bytes)) list \<Rightarrow> 'w pool_state \<Rightarrow> 'w pool_state \<Rightarrow> bool"
  for disk_of sink_of loader writer force where
  pool_get: "get_page (loader w) pid bp = (bp', r) \<Longrightarrow>
    pool_step disk_of sink_of loader writer force [] (bp, w, gs) (bp', w, guards_after pid r gs)"
| pool_relieved: "get_page_relieved (Some (relieve sink_of force writer)) loader pid (bp, w) = Some ((bp', w'), r) \<Longrightarrow>
    pool_step disk_of sink_of loader writer force [] (bp, w, gs) (bp', w', guards_after pid r gs)"
| pool_write: "(i, pid) \<in> set gs \<Longrightarrow> guard_write i f bp = Some bp' \<Longrightarrow>
    pool_step disk_of sink_of loader writer force [(pid, f)] (bp, w, gs) (bp', w, gs)"
| pool_drop: "(i, pid) \<in> set gs \<Longrightarrow>
    pool_step disk_of sink_of loader writer force [] (bp, w, gs) (guard_drop i bp, w, remove1 (i, pid) gs)"
| pool_flush: "try_flush_dirty (sink_of w) writer (bp, w) = Some ((bp', w'), r) \<Longrightarrow>
    pool_step disk_of sink_of loader writer force [] (bp, w, gs) (bp', w', gs)"
| pool_poison: "pool_step disk_of sink_of loader writer force [] (bp, w, gs) (poison_after_wal_error bp, w, gs)"

inductive pool_run ::
  "('w \<Rightarrow> page_id \<Rightarrow> bytes) \<Rightarrow> ('w \<Rightarrow> sink_view) \<Rightarrow> ('w \<Rightarrow> page_id \<Rightarrow> 'e flush_error + bytes) \<Rightarrow> ('w, 'e) page_writer \<Rightarrow>
     (lsn \<Rightarrow> 'w \<Rightarrow> 'w \<times> ('e + unit)) option \<Rightarrow> (page_id \<times> (bytes \<Rightarrow> bytes)) list \<Rightarrow> 'w pool_state \<Rightarrow> 'w pool_state \<Rightarrow> bool"
  for disk_of sink_of loader writer force where
  run_none: "pool_run disk_of sink_of loader writer force [] st st"
| run_more: "pool_run disk_of sink_of loader writer force ws st st' \<Longrightarrow> pool_step disk_of sink_of loader writer force vs st' st'' \<Longrightarrow>
    pool_run disk_of sink_of loader writer force (ws @ vs) st st''"
| run_world: "pool_run disk_of sink_of loader writer force ws st (bp, w, gs) \<Longrightarrow> disk_of w' = disk_of w \<Longrightarrow>
    pool_run disk_of sink_of loader writer force ws st (bp, w', gs)"

definition apply_writes :: "(page_id \<times> (bytes \<Rightarrow> bytes)) list \<Rightarrow> (page_id \<Rightarrow> bytes) \<Rightarrow> page_id \<Rightarrow> bytes" where
  "apply_writes ws disk = fold (\<lambda>(pid, f) d. d(pid := f (d pid))) ws disk"

lemma pool_step_coherent:
  assumes "pool_step disk_of sink_of loader writer force ws (bp, w, gs) (bp', w', gs')" "coherent bp (disk_of w) gs"
    "honest_writer disk_of writer" "keeps_disk disk_of force" "\<And>w. honest_loader (loader w) (disk_of w)"
  shows "coherent bp' (disk_of w') gs' \<and> pool_view bp' (disk_of w') = apply_writes ws (pool_view bp (disk_of w))"
  using assms(1)
proof cases
  case (pool_get pid r)
  then show ?thesis using get_coherent [OF assms(2,5)] by (simp add: apply_writes_def)
next
  case (pool_relieved pid r)
  then show ?thesis using relieved_rounds_coherent [OF _ assms(2-5)] by (simp add: apply_writes_def get_page_relieved_def)
next
  case (pool_write i pid f)
  from write_coherent [OF assms(2) pool_write(4), of f] obtain b where "guard_write i f bp = Some b" "coherent b (disk_of w) gs"
    "pool_view b (disk_of w) = (pool_view bp (disk_of w))(pid := f (pool_view bp (disk_of w) pid))" by blast
  then show ?thesis using pool_write by (simp add: apply_writes_def)
next
  case (pool_drop i pid)
  then show ?thesis using drop_coherent [OF assms(2)] by (simp add: apply_writes_def)
next
  case (pool_flush r)
  then show ?thesis using flush_coherent [OF _ assms(2,3)] by (simp add: apply_writes_def)
next
  case pool_poison
  have "swept bp bp'" by (simp add: pool_poison poison_after_wal_error_def swept_def)
  from swept_coherent [OF this assms(2)] swept_view [OF this coherentD(1) [OF assms(2)]] show ?thesis using pool_poison by (simp add: apply_writes_def)
qed

lemma new_coherent: "pool_new cap = Some bp \<Longrightarrow> coherent bp disk [] \<and> pool_view bp disk = disk"
  by (auto simp: pool_new_def coherent_def pool_ok_def frame_ok_def frame_empty_def pool_view_def pins_on_def fun_eq_iff filter_empty_conv Let_def
    split: if_splits)

lemma apply_writes_append: "apply_writes (ws @ vs) d = apply_writes vs (apply_writes ws d)"
  by (simp add: apply_writes_def)

lemma pool_run_coherent:
  assumes "pool_run disk_of sink_of loader writer force ws st st'" "st = (bp0, w0, [])" "pool_new cap = Some bp0"
    and h: "honest_writer disk_of writer" "keeps_disk disk_of force" "\<And>w. honest_loader (loader w) (disk_of w)"
  shows "case st' of (bp, w, gs) \<Rightarrow> coherent bp (disk_of w) gs \<and> pool_view bp (disk_of w) = apply_writes ws (disk_of w0)"
  using assms(1-3)
proof (induction rule: pool_run.induct)
  case (run_none st)
  then show ?case using new_coherent [of cap bp0 "disk_of w0"] by (simp add: apply_writes_def)
next
  case (run_more ws st st' vs st'')
  then show ?case using pool_step_coherent [OF _ _ h, of sink_of vs] by (auto simp: apply_writes_append split: prod.splits)
next
  case (run_world ws st bp w gs w')
  then show ?case by simp
qed

end
