(* ===== verification/Buffer_Pool_Properties.thy ===== *)
theory Buffer_Pool_Properties
  imports Buffer_Pool_Run Page_Layout
begin

text \<open>
  The properties of the buffer pool: the pages it shows, when it runs out of frames and how far the
  clock hand moves then, and that eviction relief brings a frame back.
\<close>

section \<open>Running out of frames\<close>

lemma miss_swept: "swept bp (record_relation_read rel (upd_counters (\<lambda>c. c\<lparr>ct_misses := ct_misses c + 1\<rparr>) (upd_counters (\<lambda>c. c\<lparr>ct_gets := ct_gets c + 1\<rparr>) bp)))"
  by (rule swept_trans [OF swept_trans [OF swept_counters swept_counters] swept_relation(2)]) simp_all

lemma get_miss:
  assumes "\<not> bp_poisoned bp" "map_of (bp_page_table bp) pid = None"
  obtains b where "swept bp b" "bp_clock_hand b = bp_clock_hand bp"
    "get_page loader pid bp = (case acquire_frame_for pid b of
       (bp, None) \<Rightarrow> (bp, Inl Exhausted)
     | (bp, Some i) \<Rightarrow> (case loader pid of
          Inl e \<Rightarrow> (upd_frame i (\<lambda>f. f\<lparr>fr_page := None, fr_page_id := None\<rparr>) bp, Inl (Loader e))
        | Inr page \<Rightarrow> (install_page pid i page bp, Inr i)))"
  by (rule that [OF miss_swept]) (use assms in \<open>simp_all add: get_page_def miss_page_def pool_lookup_def\<close>)

lemma get_hit:
  assumes "\<not> bp_poisoned bp" "pool_ok bp" "map_of (bp_page_table bp) pid = Some i"
  shows "\<exists>bp'. get_page loader pid bp = (bp', Inr i)"
  using assms pool_okD(2) [OF assms(2,3)] by (simp add: get_page_def pool_lookup_def)

lemma acquire_iff:
  assumes ok: "pool_ok bp" and small: "4 * length (bp_frames bp) < 2 ^ 64"
  shows "snd (acquire_frame_for pid bp) = None \<longleftrightarrow> (\<forall>i < length (bp_frames bp). \<not> evictable (bp_frames bp ! i))"
proof (cases "acquire_frame_for pid bp")
  case (Pair b r)
  show ?thesis
  proof (cases r)
    case None
    then show ?thesis using acquire_None(2) [of pid bp b, OF _ pool_okD(1) [OF ok] small] Pair by auto
  next
    case (Some i)
    from acquire_Some [OF ok Pair [unfolded Some]] obtain f where "replaced i f (table_without bp i) bp b" "evictable (bp_frames bp ! i)" by metis
    then show ?thesis using replacedD(1) Pair Some by fastforce
  qed
qed

lemma get_exhausted:
  assumes ok: "pool_ok bp" and small: "4 * length (bp_frames bp) < 2 ^ 64" and live: "\<not> bp_poisoned bp"
  shows "snd (get_page loader pid bp) = Inl Exhausted \<longleftrightarrow>
    map_of (bp_page_table bp) pid = None \<and> (\<forall>i < length (bp_frames bp). \<not> evictable (bp_frames bp ! i))"
proof (cases "map_of (bp_page_table bp) pid")
  case None
  obtain b where s: "swept bp b" and "bp_clock_hand b = bp_clock_hand bp"
    and g: "get_page loader pid bp = (case acquire_frame_for pid b of
       (bp, None) \<Rightarrow> (bp, Inl Exhausted)
     | (bp, Some i) \<Rightarrow> (case loader pid of
          Inl e \<Rightarrow> (upd_frame i (\<lambda>f. f\<lparr>fr_page := None, fr_page_id := None\<rparr>) bp, Inl (Loader e))
        | Inr page \<Rightarrow> (install_page pid i page bp, Inr i)))" by (rule get_miss [OF live None])
  have "snd (get_page loader pid bp) = Inl Exhausted \<longleftrightarrow> snd (acquire_frame_for pid b) = None"
    unfolding g by (auto split: prod.splits option.splits sum.splits)
  then show ?thesis using acquire_iff [OF swept_pool_ok [OF s ok], of pid] small sweptD(1) [OF s] swept_evictable [OF s] None by auto
next
  case (Some i)
  then show ?thesis using get_hit [OF live ok Some, of loader] by auto
qed

lemma sweep_hand: "clock_sweep k pid bp = (bp', r) \<Longrightarrow> \<exists>n \<le> k. bp_clock_hand bp' = bp_clock_hand bp + of_nat n"
proof (induction k arbitrary: bp)
  case (Suc k)
  let ?bp = "bp\<lparr>bp_clock_hand := bp_clock_hand bp + 1\<rparr>"
  let ?h = "unat (bp_clock_hand bp) mod length (bp_frames bp)"
  have step: "\<exists>n \<le> Suc k. bp_clock_hand bp' = bp_clock_hand bp + of_nat n"
    if "clock_sweep k pid b = (bp', r)" "bp_clock_hand b = bp_clock_hand bp + 1" for b
  proof -
    from Suc.IH [OF that(1)] obtain n where "n \<le> k" "bp_clock_hand bp' = bp_clock_hand b + of_nat n" by blast
    then show ?thesis using that(2) by (intro exI [of _ "Suc n"]) (simp add: algebra_simps)
  qed
  have "bp_clock_hand (evict_frame pid ?h ?bp) = bp_clock_hand bp + of_nat 1" by (simp add: evict_frame_def Let_def split: option.split)
  then show ?case using Suc.prems step [of ?bp] step [of "upd_frame ?h (\<lambda>f. f\<lparr>fr_clock_ref := False\<rparr>) ?bp"]
    by (auto simp: Let_def split: if_splits intro!: exI [of _ 1])
qed (auto intro: exI [of _ 0])

lemma acquire_hand: "acquire_frame_for pid bp = (bp', r) \<Longrightarrow> \<exists>n \<le> 4 * length (bp_frames bp). bp_clock_hand bp' = bp_clock_hand bp + of_nat n"
  using sweep_hand [of "length (bp_frames bp) * 4" pid bp bp' r]
  by (auto simp: acquire_frame_for_def mult.commute split: option.splits intro: exI [of _ 0])

lemma install_hand [simp]: "bp_clock_hand (install_page pid i page bp) = bp_clock_hand bp"
  by (simp add: install_page_def clear_dirty_def Let_def)

lemma get_hand:
  assumes g: "get_page loader pid bp = (bp', r)" and ok: "pool_ok bp"
  shows "\<exists>n \<le> 4 * length (bp_frames bp). bp_clock_hand bp' = bp_clock_hand bp + of_nat n"
proof (cases "bp_poisoned bp \<or> map_of (bp_page_table bp) pid \<noteq> None")
  case True
  then have "bp_clock_hand bp' = bp_clock_hand bp" using g pool_okD(2) [OF ok, of pid]
    by (auto simp: get_page_def pool_lookup_def pin_hit_def record_relation_hit_def Let_def split: if_splits)
  then show ?thesis by (auto intro: exI [of _ 0])
next
  case False
  obtain b where s: "swept bp b" and h: "bp_clock_hand b = bp_clock_hand bp"
    and m: "get_page loader pid bp = (case acquire_frame_for pid b of
       (bp, None) \<Rightarrow> (bp, Inl Exhausted)
     | (bp, Some i) \<Rightarrow> (case loader pid of
          Inl e \<Rightarrow> (upd_frame i (\<lambda>f. f\<lparr>fr_page := None, fr_page_id := None\<rparr>) bp, Inl (Loader e))
        | Inr page \<Rightarrow> (install_page pid i page bp, Inr i)))" by (rule get_miss [of bp pid]) (use False in simp_all)
  obtain b' q where a: "acquire_frame_for pid b = (b', q)" by fastforce
  have "bp_clock_hand bp' = bp_clock_hand b'" using g m a by (auto split: option.splits sum.splits)
  then show ?thesis using acquire_hand [OF a] sweptD(1) [OF s] h by simp
qed

section \<open>The pages\<close>

lemma pool_clean_view:
  assumes c: "coherent bp disk gs" and d: "dirty_pages bp = 0"
  shows "pool_view bp disk = disk"
proof
  fix pid
  note ok = coherentD(1) [OF c]
  have clean: "\<not> fr_dirty f" if "f \<in> set (bp_frames bp)" for f using d pool_okD(5) [OF ok] that by (auto simp: dirty_pages_def filter_empty_conv)
  show "pool_view bp disk pid = disk pid"
  proof (cases "map_of (bp_page_table bp) pid")
    case (Some i)
    have i: "i < length (bp_frames bp)" "fr_page_id (bp_frames bp ! i) = Some pid" using pool_okD(2) [OF ok Some] by auto
    then show ?thesis using coherentD(2) [OF c i] clean Some by (simp add: pool_view_def)
  qed (simp add: pool_view_def)
qed

lemma resident_bound:
  assumes "pool_ok bp"
  shows "resident_pages bp \<le> pool_capacity bp"
proof -
  have at: "i < length (bp_frames bp) \<and> fr_page_id (bp_frames bp ! i) = Some pid" if "(pid, i) \<in> set (bp_page_table bp)" for pid i
    using pool_okD(2,6) [OF assms] that by (simp add: map_of_is_SomeI)
  have "inj_on snd (set (bp_page_table bp))"
  proof (rule inj_onI, clarsimp)
    show "p = q" if "(p, i) \<in> set (bp_page_table bp)" "(q, i) \<in> set (bp_page_table bp)" for p q i using at [OF that(1)] at [OF that(2)] by simp
  qed
  moreover have "distinct (bp_page_table bp)" using pool_okD(6) [OF assms] by (simp add: distinct_map)
  ultimately have "length (bp_page_table bp) = card (snd ` set (bp_page_table bp))" by (simp add: card_image distinct_card)
  also have "\<dots> \<le> card {..<length (bp_frames bp)}" using at by (intro card_mono) auto
  finally show ?thesis by (simp add: resident_pages_def pool_capacity_def)
qed

text \<open>
  C8. The buffer pool is a page store. Gets with a failing or working loader, relieved gets, guarded
  writes, dropped guards, flushes whose writer may fail and leave the page torn, and the poisoning
  happen in any order on a new pool. Then the pages the pool shows are the pages of the disk it
  started on with the guarded writes applied in order; every guard reads its page so and can write
  it; never are there more resident pages than frames; and when no page is dirty the disk itself
  holds that state.
\<close>

theorem buffer_pool_refines:
  assumes new: "pool_new cap = Some bp0" and run: "pool_run disk_of sink_of loader writer force ws (bp0, w0, []) (bp, w, gs)"
    and h: "honest_writer disk_of writer" "keeps_disk disk_of force" "\<And>w. honest_loader (loader w) (disk_of w)"
  shows "pool_view bp (disk_of w) = apply_writes ws (disk_of w0)
    \<and> (\<forall>i pid f. (i, pid) \<in> set gs \<longrightarrow> guard_read i bp = Some (apply_writes ws (disk_of w0) pid) \<and> guard_write i f bp \<noteq> None)
    \<and> resident_pages bp \<le> pool_capacity bp
    \<and> (dirty_pages bp = 0 \<longrightarrow> disk_of w = apply_writes ws (disk_of w0))"
proof -
  have c: "coherent bp (disk_of w) gs" and v: "pool_view bp (disk_of w) = apply_writes ws (disk_of w0)"
    using pool_run_coherent [OF run refl new h] by auto
  have "guard_read i bp = Some (apply_writes ws (disk_of w0) pid) \<and> guard_write i f bp \<noteq> None" if "(i, pid) \<in> set gs" for i pid f
    using guard_resident(3,4) [OF c that] v by (simp add: guard_write_def)
  then show ?thesis using v resident_bound [OF coherentD(1) [OF c]] pool_clean_view [OF c] by auto
qed

lemma coherent_evictable:
  assumes "coherent bp disk gs" "i < length (bp_frames bp)"
  shows "evictable (bp_frames bp ! i) \<longleftrightarrow> i \<notin> fst ` set gs \<and> \<not> fr_dirty (bp_frames bp ! i)"
proof -
  have "fr_pin_count (bp_frames bp ! i) = 0 \<longleftrightarrow> i \<notin> fst ` set gs"
    using coherentD(3) [OF assms] by (auto simp: pins_on_def filter_empty_conv)
  then show ?thesis using evictable_clean [OF coherentD(1) [OF assms(1)] assms(2)] by (auto simp: evictable_def)
qed

text \<open>
  C33. The clock sweep is complete. In every state a pool of less than \<open>2 ^ 62\<close> frames reaches, a get
  that is not refused by the poisoning fails for want of a frame exactly when the page is not resident
  and every frame is dirty or has a guard on it; and no get turns the hand further than four times the
  number of frames, also when the hand wraps around. A dirty frame is passed over even if no guard is
  on it, which the module documentation does not say.
\<close>

theorem clock_sweep_complete:
  assumes new: "pool_new cap = Some bp0" and run: "pool_run disk_of sink_of loader writer force ws (bp0, w0, []) (bp, w, gs)"
    and h: "honest_writer disk_of writer" "keeps_disk disk_of force" "\<And>w. honest_loader (loader w) (disk_of w)"
    and small: "4 * pool_capacity bp < 2 ^ 64" and live: "\<not> bp_poisoned bp"
  shows "(snd (get_page (loader w) pid bp) = Inl Exhausted \<longleftrightarrow>
      pool_lookup bp pid = None \<and> (\<forall>i < pool_capacity bp. i \<in> fst ` set gs \<or> fr_dirty (bp_frames bp ! i)))
    \<and> (\<exists>n \<le> 4 * pool_capacity bp. bp_clock_hand (fst (get_page (loader w) pid bp)) = bp_clock_hand bp + of_nat n)"
proof
  have c: "coherent bp (disk_of w) gs" using pool_run_coherent [OF run refl new h] by simp
  show "snd (get_page (loader w) pid bp) = Inl Exhausted \<longleftrightarrow>
      pool_lookup bp pid = None \<and> (\<forall>i < pool_capacity bp. i \<in> fst ` set gs \<or> fr_dirty (bp_frames bp ! i))"
    using get_exhausted [OF coherentD(1) [OF c] _ live, of "loader w" pid] small coherent_evictable [OF c]
    by (auto simp: pool_capacity_def pool_lookup_def)
  show "\<exists>n \<le> 4 * pool_capacity bp. bp_clock_hand (fst (get_page (loader w) pid bp)) = bp_clock_hand bp + of_nat n"
    unfolding pool_capacity_def by (rule get_hand [OF _ coherentD(1) [OF c]]) (rule prod.collapse [symmetric])
qed

section \<open>Relief\<close>

definition headed :: "(lsn \<Rightarrow> bool) \<Rightarrow> frame \<Rightarrow> bool" where
  "headed logged f \<longleftrightarrow>
     (\<forall>pid page. fr_page_id f = Some pid \<longrightarrow> fr_page f = Some page \<longrightarrow> (\<exists>h. page_header_of page = Some h \<and> logged (ph_lsn h)))"

definition counted :: "(frame \<Rightarrow> bool) \<Rightarrow> (u64 \<Rightarrow> bool) \<Rightarrow> frame \<Rightarrow> u64 \<Rightarrow> bool" where
  "counted wanted counts f l \<longleftrightarrow> wanted f \<and> fr_page_id f \<noteq> None \<and> counts l
     \<and> (\<exists>page h. fr_page f = Some page \<and> page_header_of page = Some h \<and> ph_lsn h = l)"

lemma scan_lsns_found:
  "\<forall>f \<in> set fs. headed logged f \<Longrightarrow>
     \<exists>r. scan_lsns wanted counts fs old = Some r \<and> (r = old \<or> (\<exists>f \<in> set fs. \<exists>l. counted wanted counts f l \<and> r = Some l))
       \<and> (old \<noteq> None \<or> (\<exists>f \<in> set fs. \<exists>l. counted wanted counts f l) \<longrightarrow> r \<noteq> None)"
proof (induction fs arbitrary: old)
  case (Cons f fs)
  show ?case
  proof (cases "\<exists>l. counted wanted counts f l")
    case False
    then have "scan_lsns wanted counts (f # fs) old = scan_lsns wanted counts fs old"
      using Cons.prems by (auto simp: counted_def headed_def split: option.splits)
    then show ?thesis using Cons.IH [of old] Cons.prems False by auto
  next
    case True
    then obtain l where l: "counted wanted counts f l" by blast
    then have eq: "scan_lsns wanted counts (f # fs) old = scan_lsns wanted counts fs (min_lsn old l)" by (auto simp: counted_def)
    have "min_lsn old l = old \<or> min_lsn old l = Some l" "min_lsn old l \<noteq> None" by (auto simp: min_lsn_def split: option.splits)
    then show ?thesis using Cons.IH [of "min_lsn old l"] Cons.prems l unfolding eq by fastforce
  qed
qed simp

lemma clear_dirty_frame: "j < length (bp_frames bp) \<Longrightarrow>
    bp_frames (clear_dirty i bp) ! j = (if i = j then (bp_frames bp ! j)\<lparr>fr_dirty := False\<rparr> else bp_frames bp ! j)"
  by (auto simp: clear_dirty_def)

lemma clear_dirty_poisoned [simp]: "bp_poisoned (clear_dirty i bp) = bp_poisoned bp"
  by (simp add: clear_dirty_def)

definition tamer :: "buffer_pool \<Rightarrow> buffer_pool \<Rightarrow> bool" where
  "tamer bp bp' \<longleftrightarrow> length (bp_frames bp') = length (bp_frames bp) \<and> bp_poisoned bp' = bp_poisoned bp
     \<and> (\<forall>i < length (bp_frames bp). evictable (bp_frames bp ! i) \<longrightarrow> evictable (bp_frames bp' ! i))"

lemma tamer_clear: "tamer bp (clear_dirty i bp)"
  by (simp add: tamer_def clear_dirty_frame evictable_def)

lemma tamer_trans: "tamer a b \<Longrightarrow> tamer b c \<Longrightarrow> tamer a c"
  by (simp add: tamer_def)

lemma flush_progress:
  assumes total: "\<And>pid page v. \<exists>v'. writer pid page v = (v', Inr ())"
  shows "\<forall>i \<in> set is. i < length (bp_frames bp) \<and> headed logged (bp_frames bp ! i) \<Longrightarrow>
    \<exists>bp' w' m. flush_frames sink writer is n (bp, w) = Some ((bp', w'), Inr m) \<and> n \<le> m \<and> tamer bp bp'
      \<and> (m = n \<longrightarrow> bp' = bp \<and> w' = w \<and> (\<forall>i \<in> set is. \<forall>pid page. \<not> flushes sink bp i pid page))
      \<and> (n < m \<longrightarrow> (\<exists>i < length (bp_frames bp). evictable (bp_frames bp' ! i)))"
proof (induction "is" arbitrary: n bp w)
  case (Cons i "is")
  have i: "i < length (bp_frames bp)" "headed logged (bp_frames bp ! i)" using Cons.prems by auto
  show ?case
  proof (cases "\<exists>pid page. flushes sink bp i pid page")
    case False
    then have "flush_frames sink writer (i # is) n (bp, w) = flush_frames sink writer is n (bp, w)"
      using i by (auto simp: flushes_def headed_def Let_def split: option.splits)
    then show ?thesis using Cons.IH [of bp n w] Cons.prems False by auto
  next
    case True
    then obtain pid page h where f: "flushes sink bp i pid page" "page_header_of page = Some h" "\<not> held_back sink (ph_lsn h)"
      by (auto simp: flushes_def)
    obtain w1 where w1: "writer pid page w = (w1, Inr ())" using total by blast
    let ?b = "clear_dirty i bp"
    have eq: "flush_frames sink writer (i # is) n (bp, w) = flush_frames sink writer is (n + 1) (?b, w1)"
      using f w1 by (auto simp: flushes_def Let_def)
    have ev: "evictable (bp_frames ?b ! i)" using f i by (simp add: clear_dirty_frame evictable_def flushes_def)
    have "\<forall>i \<in> set is. i < length (bp_frames ?b) \<and> headed logged (bp_frames ?b ! i)" using Cons.prems by (simp add: clear_dirty_frame headed_def)
    from Cons.IH [OF this, of "n + 1" w1] obtain bp' w' m where r: "flush_frames sink writer is (n + 1) (?b, w1) = Some ((bp', w'), Inr m)"
      "n + 1 \<le> m" "tamer ?b bp'" by blast
    have "evictable (bp_frames bp' ! i)" using r(3) ev i by (simp add: tamer_def)
    then show ?thesis using r i tamer_trans [OF tamer_clear r(3)] unfolding eq by (intro exI [of _ bp'] exI [of _ w'] exI [of _ m]) auto
  qed
qed (simp add: tamer_def)

definition forces :: "(lsn \<Rightarrow> bool) \<Rightarrow> ('w \<Rightarrow> sink_view) \<Rightarrow> (lsn \<Rightarrow> 'w \<Rightarrow> 'w \<times> ('e + unit)) \<Rightarrow> bool" where
  "forces logged sink_of force \<longleftrightarrow>
     (\<forall>target w. logged target \<longrightarrow> (\<exists>w'. force target w = (w', Inr ()) \<and> (\<forall>boundary zero. sink_of w' = Some (boundary, zero) \<longrightarrow> target < boundary)))"

lemma flush_durable_progress:
  assumes total: "\<And>pid page v. \<exists>v'. writer pid page v = (v', Inr ())"
    and b: "\<not> bp_poisoned bp" "\<And>f. f \<in> set (bp_frames bp) \<Longrightarrow> headed logged f"
  obtains bp' w' m where "flush_durable sink_of writer (bp, w) = Some ((bp', w'), Inr m)" "tamer bp bp'"
    "m = 0 \<longrightarrow> bp' = bp \<and> w' = w \<and> (\<forall>i pid page. \<not> flushes (sink_of w) bp i pid page)"
    "0 < m \<longrightarrow> (\<exists>i < length (bp_frames bp). evictable (bp_frames bp' ! i))"
proof -
  have "\<forall>i \<in> set [0..<length (bp_frames bp)]. i < length (bp_frames bp) \<and> headed logged (bp_frames bp ! i)" using b(2) by simp
  from flush_progress [where writer = writer, OF total this, of "sink_of w" 0 w] obtain bp' w' m
    where r: "flush_frames (sink_of w) writer [0..<length (bp_frames bp)] 0 (bp, w) = Some ((bp', w'), Inr m)" "tamer bp bp'"
    "m = 0 \<longrightarrow> bp' = bp \<and> w' = w \<and> (\<forall>i \<in> set [0..<length (bp_frames bp)]. \<forall>pid page. \<not> flushes (sink_of w) bp i pid page)"
    "0 < m \<longrightarrow> (\<exists>i < length (bp_frames bp). evictable (bp_frames bp' ! i))" by blast
  have "flush_durable sink_of writer (bp, w) = Some ((bp', w'), Inr m)" using r(1) b(1) by (simp add: flush_durable_def try_flush_dirty_def)
  moreover have "\<forall>i pid page. \<not> flushes (sink_of w) bp i pid page" if "m = 0" using r(3) that by (auto simp: flushes_def)
  ultimately show ?thesis using that r by blast
qed

lemma oldest_unflushable_found:
  assumes ok: "pool_ok bp" and b: "\<And>f. f \<in> set (bp_frames bp) \<Longrightarrow> headed logged f"
    and i: "i < length (bp_frames bp)" "fr_pin_count (bp_frames bp ! i) = 0" "\<not> evictable (bp_frames bp ! i)"
    and held: "\<And>pid page. \<not> flushes sink bp i pid page"
  obtains target where "oldest_unflushable_dirty_lsn sink bp = Some (Some target)" "logged target"
    "\<forall>sink'. (\<forall>boundary zero. sink' = Some (boundary, zero) \<longrightarrow> target < boundary) \<longrightarrow> (\<exists>j pid page. flushes sink' bp j pid page)"
proof -
  have d: "fr_dirty (bp_frames bp ! i)" using i by (simp add: evictable_def)
  then obtain pid where pid: "fr_page_id (bp_frames bp ! i) = Some pid" using pool_okD(4) [OF ok i(1)] by (cases "fr_page_id (bp_frames bp ! i)") auto
  then obtain page where page: "fr_page (bp_frames bp ! i) = Some page" using pool_okD(3) [OF ok i(1) pid] by blast
  have "headed logged (bp_frames bp ! i)" using b i(1) by simp
  then obtain h where h: "page_header_of page = Some h" using pid page by (auto simp: headed_def)
  have "held_back sink (ph_lsn h)" using held [of pid page] i d pid page h by (auto simp: flushes_def)
  then obtain boundary zero where sink: "sink = Some (boundary, zero)" "\<not> (ph_lsn h < boundary \<or> ph_lsn h = 0 \<and> zero)"
    by (auto simp: held_back_def split: option.splits)
  let ?w = "\<lambda>f. fr_dirty f \<and> fr_pin_count f = 0" and ?c = "\<lambda>l. \<not> (l < boundary \<or> l = 0 \<and> zero)"
  have "counted ?w ?c (bp_frames bp ! i) (ph_lsn h)" using sink i d pid page h by (simp add: counted_def)
  then have "\<exists>f \<in> set (bp_frames bp). \<exists>l. counted ?w ?c f l" using i(1) nth_mem by blast
  then obtain f target where f: "f \<in> set (bp_frames bp)" "counted ?w ?c f target" "scan_lsns ?w ?c (bp_frames bp) None = Some (Some target)"
    using scan_lsns_found [of "bp_frames bp" logged ?w ?c None] b by blast
  then obtain j where j: "j < length (bp_frames bp)" "f = bp_frames bp ! j" by (auto simp: in_set_conv_nth)
  have "\<exists>j pid page. flushes sink' bp j pid page" if "\<forall>boundary zero. sink' = Some (boundary, zero) \<longrightarrow> target < boundary" for sink'
  proof -
    have "\<not> held_back sink' target" using that by (auto simp: held_back_def split: option.splits)
    then show ?thesis using f(2) j unfolding counted_def flushes_def by blast
  qed
  moreover have "logged target" using f(2) b [OF f(1)] by (auto simp: counted_def headed_def)
  ultimately show ?thesis using that [of target] f(3) sink(1) by (simp add: oldest_unflushable_dirty_lsn_def)
qed

lemma relieve_frees:
  assumes ok: "pool_ok bp" and total: "\<And>pid page v. \<exists>v'. writer pid page v = (v', Inr ())" and force: "forces logged sink_of force"
    and b: "\<not> bp_poisoned bp" "\<And>f. f \<in> set (bp_frames bp) \<Longrightarrow> headed logged f"
    and i: "i < length (bp_frames bp)" "fr_pin_count (bp_frames bp ! i) = 0" and none: "\<And>j. j < length (bp_frames bp) \<Longrightarrow> \<not> evictable (bp_frames bp ! j)"
  obtains bp' w' j where "relieve sink_of (Some force) writer (bp, w) = Some ((bp', w'), Inr ())" "tamer bp bp'"
    "j < length (bp_frames bp)" "evictable (bp_frames bp' ! j)"
proof -
  obtain b1 w1 m where one: "flush_durable sink_of writer (bp, w) = Some ((b1, w1), Inr m)" "tamer bp b1"
    "m = 0 \<longrightarrow> b1 = bp \<and> w1 = w \<and> (\<forall>i pid page. \<not> flushes (sink_of w) bp i pid page)"
    "0 < m \<longrightarrow> (\<exists>i < length (bp_frames bp). evictable (bp_frames b1 ! i))"
    by (rule flush_durable_progress [where writer = writer and sink_of = sink_of and w = w, OF total b])
  show ?thesis
  proof (cases "m = 0")
    case False
    then show ?thesis using that [of b1 w1] one b(1) by (auto simp: relieve_def)
  next
    case True
    then have same: "b1 = bp" "w1 = w" "\<And>pid page. \<not> flushes (sink_of w) bp i pid page" using one(3) by auto
    obtain target where t: "oldest_unflushable_dirty_lsn (sink_of w) bp = Some (Some target)" "logged target"
      "\<forall>sink'. (\<forall>boundary zero. sink' = Some (boundary, zero) \<longrightarrow> target < boundary) \<longrightarrow> (\<exists>j pid page. flushes sink' bp j pid page)"
      by (rule oldest_unflushable_found [OF ok b(2) i none [OF i(1)] same(3)])
    obtain w2 where w2: "force target w = (w2, Inr ())" "\<forall>boundary zero. sink_of w2 = Some (boundary, zero) \<longrightarrow> target < boundary"
      using force t(2) unfolding forces_def by blast
    obtain b3 w3 n where two: "flush_durable sink_of writer (bp, w2) = Some ((b3, w3), Inr n)" "tamer bp b3"
      "n = 0 \<longrightarrow> b3 = bp \<and> w3 = w2 \<and> (\<forall>i pid page. \<not> flushes (sink_of w2) bp i pid page)"
      "0 < n \<longrightarrow> (\<exists>i < length (bp_frames bp). evictable (bp_frames b3 ! i))"
      by (rule flush_durable_progress [where writer = writer and sink_of = sink_of and w = w2, OF total b])
    have "0 < n" using t(3) w2(2) two(3) by blast
    then show ?thesis using that [of b3 w3] two one(1) True same t(1) w2(1) b(1) by (auto simp: relieve_def)
  qed
qed

lemma sweep_poisoned: "clock_sweep k pid bp = (bp', r) \<Longrightarrow> bp_poisoned bp' = bp_poisoned bp"
proof (induction k arbitrary: bp)
  case (Suc k)
  then show ?case by (fastforce simp: Let_def evict_frame_def split: if_splits option.splits)
qed simp

lemma get_exhausted_same:
  assumes g: "get_page loader pid bp = (b, Inl Exhausted)" and ok: "pool_ok bp" and live: "\<not> bp_poisoned bp"
  shows "swept bp b" "\<not> bp_poisoned b"
proof -
  have new: "map_of (bp_page_table bp) pid = None" using get_hit [OF live ok, of pid _ loader] g by (cases "map_of (bp_page_table bp) pid") auto
  let ?m = "record_relation_read (pg_relation pid) (upd_counters (\<lambda>c. c\<lparr>ct_misses := ct_misses c + 1\<rparr>) (upd_counters (\<lambda>c. c\<lparr>ct_gets := ct_gets c + 1\<rparr>) bp))"
  have a: "acquire_frame_for pid ?m = (b, None)" using g live new by (auto simp: get_page_def miss_page_def pool_lookup_def split: prod.splits option.splits sum.splits)
  show "swept bp b" using swept_trans [OF miss_swept acquire_None(1) [OF a]] pool_okD(1) [OF ok] by simp
  have "bp_poisoned b = bp_poisoned ?m" using a sweep_poisoned by (auto simp: acquire_frame_for_def split: option.splits)
  then show "\<not> bp_poisoned b" using live by (simp add: record_relation_read_def)
qed

lemma get_succeeds:
  assumes ok: "pool_ok bp" "4 * length (bp_frames bp) < 2 ^ 64" "\<not> bp_poisoned bp" and l: "loader pid = Inr page"
    and ev: "j < length (bp_frames bp)" "evictable (bp_frames bp ! j)"
  shows "\<exists>bp' i. get_page loader pid bp = (bp', Inr i)"
proof -
  have "snd (get_page loader pid bp) \<noteq> Inl Exhausted" using get_exhausted [OF ok(1,2,3), of loader pid] ev by auto
  then show ?thesis using ok(3) l by (auto simp: get_page_def miss_page_def Let_def split: option.splits prod.splits if_splits)
qed

lemma coherent_headed:
  assumes "coherent bp disk gs" "\<And>pid. \<exists>h. page_header_of (pool_view bp disk pid) = Some h \<and> logged (ph_lsn h)" "f \<in> set (bp_frames bp)"
  shows "headed logged f"
proof -
  obtain i where i: "i < length (bp_frames bp)" "f = bp_frames bp ! i" using assms(3) by (auto simp: in_set_conv_nth)
  show ?thesis using resident_view [OF coherentD(1) [OF assms(1)] i(1), of _ disk] assms(2) i(2) by (auto simp: headed_def)
qed

lemma relieved_get_succeeds:
  assumes c: "coherent bp (disk_of w) gs" and heads: "\<And>pid. \<exists>h. page_header_of (pool_view bp (disk_of w) pid) = Some h \<and> logged (ph_lsn h)"
    and env: "honest_writer disk_of writer" "keeps_disk disk_of (Some force)" "\<And>w. honest_loader (loader w) (disk_of w)"
    and total: "\<And>pid page v. \<exists>v'. writer pid page v = (v', Inr ())" "\<And>v pid. \<exists>page. loader v pid = Inr page" "forces logged sink_of force"
    and b: "4 * length (bp_frames bp) < 2 ^ 64" "\<not> bp_poisoned bp" and i: "i < length (bp_frames bp)" "i \<notin> fst ` set gs"
  shows "\<exists>bp' w' j. relieved_rounds (Suc (Suc n)) (relieve sink_of (Some force) writer) loader pid (bp, w) = Some ((bp', w'), Inr j)"
proof -
  obtain b1 r1 where g1: "get_page (loader w) pid bp = (b1, r1)" by fastforce
  note ok = coherentD(1) [OF c]
  show ?thesis
  proof (cases "r1 = Inl Exhausted")
    case False
    then obtain j where "r1 = Inr j" using g1 total(2) [of w pid] b(2) by (auto simp: get_page_def miss_page_def Let_def split: option.splits prod.splits if_splits)
    then show ?thesis using g1 by simp
  next
    case True
    have s: "swept bp b1" "\<not> bp_poisoned b1" using get_exhausted_same [OF g1 [unfolded True] ok b(2)] .
    have c1: "coherent b1 (disk_of w) gs" by (rule swept_coherent [OF s(1) c])
    have none: "\<not> evictable (bp_frames b1 ! j)" if "j < length (bp_frames b1)" for j
      using get_exhausted [OF ok b, of "loader w" pid] g1 True swept_evictable [OF s(1)] sweptD(1) [OF s(1)] that by auto
    have heads1: "headed logged f" if "f \<in> set (bp_frames b1)" for f
      using coherent_headed [OF c1 _ that] swept_view [OF s(1) ok, of "disk_of w"] heads by simp
    have i1: "i < length (bp_frames b1)" "fr_pin_count (bp_frames b1 ! i) = 0"
      using i sweptD(1) [OF s(1)] coherentD(3) [OF c1, of i] by (auto simp: pins_on_def filter_empty_conv)
    obtain b2 w2 j where r: "relieve sink_of (Some force) writer (b1, w) = Some ((b2, w2), Inr ())" "tamer b1 b2"
      "j < length (bp_frames b1)" "evictable (bp_frames b2 ! j)"
      by (rule relieve_frees [where writer = writer and sink_of = sink_of, OF coherentD(1) [OF c1] total(1,3) s(2) heads1 i1 none])
    have ok2: "pool_ok b2" using relieve_coherent [OF r(1) c1 env(1,2)] coherentD(1) by blast
    obtain page where "loader w2 pid = Inr page" using total(2) by blast
    then obtain b3 k where "get_page (loader w2) pid b2 = (b3, Inr k)"
      using get_succeeds [OF ok2, of "loader w2" pid page j] r b(1) s(2) sweptD(1) [OF s(1)] by (auto simp: tamer_def)
    then show ?thesis using g1 True r(1) by simp
  qed
qed

text \<open>
  C32. Eviction relief works. When the loader and the page writer do not fail, forcing the log moves the
  durable position past the position asked for if that is the position of a logged record, as the
  position of every page is, and some frame has no guard on it, then a relieved get
  returns a guard on an unpoisoned pool, whatever pages are dirty and however far ahead of the durable
  log they are.
\<close>

theorem relief_unblocks:
  assumes new: "pool_new cap = Some bp0" and run: "pool_run disk_of sink_of loader writer (Some force) ws (bp0, w0, []) (bp, w, gs)"
    and env: "honest_writer disk_of writer" "keeps_disk disk_of (Some force)" "\<And>w. honest_loader (loader w) (disk_of w)"
    and total: "\<And>pid page v. \<exists>v'. writer pid page v = (v', Inr ())" "\<And>v pid. \<exists>page. loader v pid = Inr page" "forces logged sink_of force"
    and pages: "\<And>pid. \<exists>h. page_header_of (apply_writes ws (disk_of w0) pid) = Some h \<and> logged (ph_lsn h)"
    and small: "4 * pool_capacity bp < 2 ^ 64" and live: "\<not> bp_poisoned bp" and free: "\<exists>i < pool_capacity bp. i \<notin> fst ` set gs"
  shows "\<exists>bp' w' i. get_page_relieved (Some (relieve sink_of (Some force) writer)) loader pid (bp, w) = Some ((bp', w'), Inr i)"
proof -
  have c: "coherent bp (disk_of w) gs" and v: "pool_view bp (disk_of w) = apply_writes ws (disk_of w0)"
    using pool_run_coherent [OF run refl new env] by auto
  obtain i where "i < length (bp_frames bp)" "i \<notin> fst ` set gs" using free by (auto simp: pool_capacity_def)
  from relieved_get_succeeds [where n = 1 and pid = pid, OF c pages [folded v] env total small [unfolded pool_capacity_def] live this]
  have "\<exists>bp' w' j. relieved_rounds EVICTION_RELIEF_ROUNDS (relieve sink_of (Some force) writer) loader pid (bp, w) = Some ((bp', w'), Inr j)"
    unfolding EVICTION_RELIEF_ROUNDS_def numeral_3_eq_3 One_nat_def .
  then show ?thesis unfolding get_page_relieved_def by (simp only: option.case)
qed

section \<open>A pool of one frame\<close>

text \<open>
  The page at block 0 is read, written so that it carries position 5, and given back; the durable
  position of the log is still 0.
\<close>

definition demo_page :: "u64 \<Rightarrow> bytes" where
  "demo_page l = ph_encode (fresh_heap\<lparr>ph_lsn := l\<rparr>) (replicate PAGE_SIZE 0)"

lemma demo_page_header: "page_header_of (demo_page l) = Some (fresh_heap\<lparr>ph_lsn := l\<rparr>)"
proof -
  have "header_ok (fresh_heap\<lparr>ph_lsn := l\<rparr>)" by (simp add: header_ok_def fresh_heap_def pointers_disordered_def)
  then show ?thesis by (simp add: page_header_of_def demo_page_def ph_decode_encode)
qed

definition demo_pid :: "u32 \<Rightarrow> page_id" where "demo_pid b = PageId 7 b"

type_synonym demo_world = "(page_id \<Rightarrow> bytes) \<times> lsn"

definition demo_loader :: "demo_world \<Rightarrow> page_id \<Rightarrow> unit flush_error + bytes" where "demo_loader w pid = Inr (fst w pid)"
definition demo_writer :: "(demo_world, unit) page_writer" where "demo_writer pid page w = (((fst w)(pid := page), snd w), Inr ())"
definition demo_sink :: "demo_world \<Rightarrow> sink_view" where "demo_sink w = Some (snd w, True)"
definition demo_force :: "lsn \<Rightarrow> demo_world \<Rightarrow> demo_world \<times> (unit + unit)" where "demo_force target w = ((fst w, target + 1), Inr ())"
definition demo_world :: demo_world where "demo_world = (\<lambda>_. demo_page 0, 0)"
definition demo_new :: buffer_pool where "demo_new = the (pool_new 1)"
definition demo_got :: buffer_pool where "demo_got = fst (get_page (demo_loader demo_world) (demo_pid 0) demo_new)"
definition demo_dirty :: "u64 \<Rightarrow> buffer_pool" where "demo_dirty l = the (guard_write 0 (\<lambda>_. demo_page l) demo_got)"

lemma demo_pool_new: "pool_new 1 = Some demo_new"
  by (simp add: demo_new_def pool_new_def)

lemma demo_pool_get: "get_page (demo_loader demo_world) (demo_pid 0) demo_new = (demo_got, Inr 0)"
  by (simp add: demo_got_def demo_new_def pool_new_def get_page_def miss_page_def pool_lookup_def acquire_frame_for_def frame_empty_def
    demo_loader_def record_relation_read_def upd_counters_def)

lemma demo_pool_write: "guard_write 0 (\<lambda>_. demo_page l) demo_got = Some (demo_dirty l)"
  by (simp add: demo_dirty_def demo_got_def demo_new_def pool_new_def get_page_def miss_page_def pool_lookup_def acquire_frame_for_def frame_empty_def
    demo_loader_def record_relation_read_def upd_counters_def guard_write_def install_page_def Let_def upd_frame_def clear_dirty_def)

lemma demo_env:
  "honest_writer fst demo_writer" "keeps_disk fst (Some demo_force)" "honest_loader (demo_loader w) (fst w)"
  "forces (\<lambda>l. l = 0 \<or> l = 5) demo_sink demo_force" "\<exists>v'. demo_writer pid page v = (v', Inr ())" "\<exists>page. demo_loader v pid = Inr page"
  by (simp_all add: honest_writer_def demo_writer_def keeps_disk_def demo_force_def honest_loader_def demo_loader_def forces_def demo_sink_def)

lemma demo_pool_run:
  "pool_run fst demo_sink demo_loader demo_writer (Some demo_force) [(demo_pid 0, \<lambda>_. demo_page 5)] (demo_new, demo_world, [])
     ((demo_dirty 5), demo_world, [(0, demo_pid 0)])"
  "pool_run fst demo_sink demo_loader demo_writer (Some demo_force) [(demo_pid 0, \<lambda>_. demo_page 5)] (demo_new, demo_world, [])
     (guard_drop 0 (demo_dirty 5), demo_world, [])"
proof -
  let ?run = "pool_run fst demo_sink demo_loader demo_writer (Some demo_force)"
  let ?a = "(demo_new, demo_world, [])" and ?c = "((demo_dirty 5), demo_world, [(0, demo_pid 0)])"
  let ?step = "pool_step fst demo_sink demo_loader demo_writer (Some demo_force)"
  have "?step [] ?a (demo_got, demo_world, guards_after (demo_pid 0) (Inr 0 :: unit flush_error buffer_pool_error + nat) [])"
    by (rule pool_get) (rule demo_pool_get)
  then have "?run ([] @ []) ?a (demo_got, demo_world, [(0, demo_pid 0)])" using run_more [OF run_none] by simp
  from run_more [OF this pool_write [OF _ demo_pool_write [of 5]]] show one: "?run [(demo_pid 0, \<lambda>_. demo_page 5)] ?a ?c" by simp
  have "?step [] ?c (guard_drop 0 (demo_dirty 5), demo_world, remove1 (0, demo_pid 0) [(0, demo_pid 0)])" by (rule pool_drop) simp
  from run_more [OF one this] show "?run [(demo_pid 0, \<lambda>_. demo_page 5)] ?a (guard_drop 0 (demo_dirty 5), demo_world, [])" by simp
qed

lemma demo_dirty_frames:
  "bp_frames (demo_dirty l) = [\<lparr>fr_page = Some (demo_page l), fr_page_id = Some (demo_pid 0), fr_pin_count = 1, fr_clock_ref = True, fr_dirty = True\<rparr>]"
  "bp_page_table (demo_dirty l) = [(demo_pid 0, 0)]" "\<not> bp_poisoned (demo_dirty l)"
  by (simp_all add: demo_dirty_def demo_got_def demo_new_def pool_new_def get_page_def miss_page_def pool_lookup_def acquire_frame_for_def
    frame_empty_def demo_loader_def record_relation_read_def upd_counters_def guard_write_def install_page_def Let_def upd_frame_def clear_dirty_def
    set_dirty_def)

lemma demo_dropped:
  "bp_frames (guard_drop 0 (demo_dirty l)) =
     [\<lparr>fr_page = Some (demo_page l), fr_page_id = Some (demo_pid 0), fr_pin_count = 0, fr_clock_ref = True, fr_dirty = True\<rparr>]"
  "\<not> bp_poisoned (guard_drop 0 (demo_dirty l))"
  by (simp_all add: guard_drop_def unpin_def upd_frame_def demo_dirty_frames)

lemma demo_dirty_facts [simp]:
  "pool_capacity (demo_dirty l) = 1" "fr_dirty (bp_frames (demo_dirty l) ! 0)" "pool_lookup (demo_dirty l) (demo_pid 1) = None" "\<not> bp_poisoned (demo_dirty l)"
  by (simp_all add: pool_capacity_def pool_lookup_def demo_dirty_frames demo_pid_def)

theorem buffer_pool_refines_witness:
  "guard_read 0 (demo_dirty 5) = Some (demo_page 5) \<and> resident_pages (demo_dirty 5) \<le> 1"
  using buffer_pool_refines [OF demo_pool_new demo_pool_run(1) demo_env(1-3)] by (simp add: apply_writes_def)

theorem clock_sweep_complete_witness:
  "snd (get_page (demo_loader demo_world) (demo_pid 1) (demo_dirty 5)) = Inl Exhausted"
  using clock_sweep_complete [OF demo_pool_new demo_pool_run(1) demo_env(1-3), of "demo_pid 1"] by simp

theorem relief_unblocks_witness:
  "\<exists>bp' w' i. get_page_relieved (Some (relieve demo_sink (Some demo_force) demo_writer)) demo_loader (demo_pid 1) (guard_drop 0 (demo_dirty 5), demo_world)
     = Some ((bp', w'), Inr i)"
proof (rule relief_unblocks [OF demo_pool_new demo_pool_run(2) demo_env(1-3,5,6,4)])
  show "\<exists>h. page_header_of (apply_writes [(demo_pid 0, \<lambda>_. demo_page 5)] (fst demo_world) pid) = Some h \<and> (ph_lsn h = 0 \<or> ph_lsn h = 5)" for pid
    by (simp add: apply_writes_def demo_world_def demo_page_header)
qed (use demo_dirty_facts(1,4) in \<open>simp_all add: pool_capacity_def guard_drop_def unpin_def\<close>)

end
