(* ===== verification/Wal_Before_Data.thy ===== *)
theory Wal_Before_Data
  imports Wal_Checkpoint Buffer_Pool_Properties
begin

text \<open>
  The buffer pool above the log. One relation runs the operations of the pool, appends through the
  sink, the writer and the recycling of checkpoints side by side, with the flush gated by what the
  sink reports. After a crash no page that was handed to the page writer is ahead of the log that
  recovery finds. The last section is about the redo point of a checkpoint.
\<close>

section \<open>The durable position\<close>

lemma flush_durable_lsn: "wb_durable_lsn (sy_buffer (flush_current s)) = dr_pending_lsn (sy_driver s)"
  by (simp add: flush_current_def publish_durable_lsn_def buffer_publish_durable_lsn_def Let_def split: option.split)

lemma write_step_durable:
  assumes "write_step cfg bytes c s = (s', r)"
  shows "wb_durable_lsn (sy_buffer s') \<in> {wb_durable_lsn (sy_buffer s), dr_pending_lsn (sy_driver s)}"
proof -
  have e: "sy_buffer s1 = sy_buffer s \<and> dr_pending_lsn (sy_driver s1) = dr_pending_lsn (sy_driver s)" if "ensure_segment_open s = (s1, u)" for s1 u
    using that by (auto simp: ensure_segment_open_def Let_def split: sum.splits if_splits)
  have ro: "wb_durable_lsn (sy_buffer s2) \<in> {wb_durable_lsn (sy_buffer s1), dr_pending_lsn (sy_driver s1)}" if "rotate_segment s1 = (s2, u)" for s1 s2 u
    using that by (auto simp: rotate_segment_def Let_def flush_durable_lsn split: option.splits if_splits)
  have ch: "sy_buffer s2 = sy_buffer s1" if "write_chunk bytes c n s1 = (s2, u)" for n s1 s2 u
    using that by (auto simp: write_chunk_def Let_def split: sum.splits if_splits option.splits)
  obtain s1 u where s1: "ensure_segment_open s = (s1, u)" by fastforce
  obtain s2 u2 where s2: "rotate_segment s1 = (s2, u2)" by fastforce
  show ?thesis
    using assms e [OF s1] ro [OF s2] ch [of _ s1] by (auto simp: write_step_def s1 s2 Let_def split: sum.splits if_splits)
qed

lemma wal_step_durable:
  assumes "wal_step crc cfg (s, p, log) (s', p', log')"
  shows "wb_durable_lsn (sy_buffer s') \<in> {wb_durable_lsn (sy_buffer s), dr_pending_lsn (sy_driver s)}"
  using assms
proof cases
  case (step_append r b l)
  then show ?thesis using buffer_append_Done(4) [OF step_append(4,5)] by simp
qed (auto simp: drain_into_def Let_def thread_failed_def publish_fatal_def close_appends_def flush_durable_lsn dest!: write_step_durable)

lemma sys_inv_durable:
  assumes "sys_inv crc limit T fl old base ((s, p, log), ops)"
  shows "wb_durable_lsn (sy_buffer s) \<le> dr_pending_lsn (sy_driver s)" "wb_durable_lsn (sy_buffer s) = sy_durable_lsn s"
proof -
  from assms obtain d0 new F B P D where "core crc limit fl old base (s\<lparr>sy_dir := d0\<rparr>) new P D"
    by (auto simp: sys_inv_def wal_inv_def spread_def tracks_def)
  then have c: "unat (dr_pending_lsn (sy_driver s)) = base + length (log_image P)" "unat (dr_durable_lsn (sy_driver s)) = base + length (log_image D)"
    "sy_durable_lsn s = dr_durable_lsn (sy_driver s)" "wb_durable_lsn (sy_buffer s) = dr_durable_lsn (sy_driver s)" "prefix D P"
    by (simp_all add: core_def Let_def)
  then show "wb_durable_lsn (sy_buffer s) \<le> dr_pending_lsn (sy_driver s)" by (auto simp: word_le_nat_alt prefix_def)
  show "wb_durable_lsn (sy_buffer s) = sy_durable_lsn s" using c by simp
qed

definition log_durable :: "ckpt_state \<Rightarrow> lsn" where
  "log_durable st = sink_durable_lsn (sy_buffer (fst (fst (fst st))))"

definition log_zero_free :: "ckpt_state \<Rightarrow> bool" where
  "log_zero_free st = zero_lsn_has_no_pending_record (fst (snd st))"

lemma accept_zero [simp]: "sk_zero_lsn_reserved (sink_accept x t n l sk) = sk_zero_lsn_reserved sk"
  by (simp add: sink_accept_def record_first_lsn_def publish_last_lsn_def Let_def)

lemma recycle_zero: "maybe_recycle_wal f rf h i slot ok sk = (sk', t) \<Longrightarrow> sk_zero_lsn_reserved sk' = sk_zero_lsn_reserved sk"
  by (auto simp: maybe_recycle_wal_def prune_terminal_and_oldest_active_first_lsn_def Let_def)

lemma ckpt_pending:
  assumes "ckpt_inv crc limit running fl old base (((s, p, log), ops), sk, pend)"
  shows "wb_durable_lsn (sy_buffer s) \<le> dr_pending_lsn (sy_driver s)" "wb_durable_lsn (sy_buffer s) = sy_durable_lsn s"
  using sys_inv_durable [OF ckpt_invD(3) [OF assms]] before_running_le [of running base log] ckpt_invD(2) [OF assms] by (metis order_refl)+

lemma ckpt_step_durable:
  assumes "ckpt_step crc cfg removable running st st'" "ckpt_inv crc limit running fl old base st"
  shows "log_durable st \<le> log_durable st'" "log_zero_free st \<Longrightarrow> log_zero_free st'"
proof -
  have "log_durable st \<le> log_durable st' \<and> (log_zero_free st \<longrightarrow> log_zero_free st')"
    using assms
  proof (induction rule: ckpt_step.induct)
    case (ck_append r s b l p log ops sk pend)
    show ?case using buffer_append_Done(4) [OF ck_append(1,2)]
      by (auto simp: log_durable_def sink_durable_lsn_def log_zero_free_def zero_lsn_has_no_pending_record_def)
  next
    case (ck_writer s p log s' p' ops sk pend)
    then show ?case using wal_step_durable [OF ck_writer(1)] ckpt_pending(1) [OF ck_writer(2)]
      by (auto simp: log_durable_def sink_durable_lsn_def log_zero_free_def)
  next
    case (ck_recycle is_in_progress redo_from h i slot ok sk sk' target log s pend p)
    then show ?case using recycle_zero [OF ck_recycle(1)] by (simp add: log_durable_def log_zero_free_def zero_lsn_has_no_pending_record_def)
  qed (simp_all add: log_durable_def sink_durable_lsn_def log_zero_free_def zero_lsn_has_no_pending_record_def mark_zero_lsn_reserved_def sink_register_def)
  then show "log_durable st \<le> log_durable st'" "log_zero_free st \<Longrightarrow> log_zero_free st'" by auto
qed

section \<open>Pool and log\<close>

text \<open>
  The world of the pool: the log with its sink, the pages on disk, and a trace of the pages that
  were handed to the page writer.
\<close>

record wal_world =
  ww_log :: ckpt_state
  ww_disk :: "page_id \<Rightarrow> bytes"
  ww_written :: "(page_id \<times> bytes) list"

definition ww_sink :: "wal_world \<Rightarrow> sink_view" where
  "ww_sink w = Some (log_durable (ww_log w), log_zero_free (ww_log w))"

type_synonym 'e disk_writer = "page_id \<Rightarrow> bytes \<Rightarrow> (page_id \<Rightarrow> bytes) \<Rightarrow> (page_id \<Rightarrow> bytes) \<times> ('e + unit)"

definition traced :: "'e disk_writer \<Rightarrow> (wal_world, 'e) page_writer" where
  "traced store pid page w =
     (case store pid page (ww_disk w) of (d, r) \<Rightarrow> (w\<lparr>ww_disk := d, ww_written := ww_written w @ [(pid, page)]\<rparr>, r))"

text \<open>
  A relief that forces the log is in this relation the sequence of its parts: a get, a flush, steps of
  the log, a flush and a get.
\<close>

inductive db_step ::
  "crc_append \<Rightarrow> wal_writer_config \<Rightarrow> (string \<Rightarrow> bool) \<Rightarrow> xid set \<Rightarrow> (wal_world \<Rightarrow> page_id \<Rightarrow> 'e flush_error + bytes) \<Rightarrow> 'e disk_writer
     \<Rightarrow> wal_world pool_state \<Rightarrow> wal_world pool_state \<Rightarrow> bool"
  for crc cfg removable running loader store where
  db_pool: "pool_step ww_disk ww_sink loader (traced store) None ws st st' \<Longrightarrow> db_step crc cfg removable running loader store st st'"
| db_log: "ckpt_step crc cfg removable running (ww_log w) l \<Longrightarrow>
    db_step crc cfg removable running loader store (bp, w, gs) (bp, w\<lparr>ww_log := l\<rparr>, gs)"

definition log_covers :: "wal_world \<Rightarrow> bool" where
  "log_covers w \<longleftrightarrow>
     (\<forall>pid page h. (pid, page) \<in> set (ww_written w) \<longrightarrow> page_header_of page = Some h \<longrightarrow>
        ph_lsn h < log_durable (ww_log w) \<or> ph_lsn h = 0 \<and> log_zero_free (ww_log w))"

lemma relieved_rounds_world:
  assumes keep: "\<And>bp w bp' w' r. flush_durable sink_of writer (bp, w) = Some ((bp', w'), r) \<Longrightarrow> Q w \<Longrightarrow> Q w'"
  shows "relieved_rounds n (relieve sink_of None writer) loader pid (bp, w) = Some ((bp', w'), r) \<Longrightarrow> Q w \<Longrightarrow> Q w'"
proof (induction n arbitrary: bp w)
  case 0
  then show ?case by (auto split: prod.splits)
next
  case (Suc n)
  have relief: "Q v'" if "relieve sink_of None writer (b, v) = Some ((b', v'), u)" "Q v" for b v b' v' u
    using that keep by (auto simp: relieve_def split: option.splits sum.splits if_splits)
  obtain b q where g: "get_page (loader w) pid bp = (b, q)" by fastforce
  show ?case
  proof (cases "q = Inl Exhausted")
    case False
    then show ?thesis using Suc.prems g by (auto split: sum.splits buffer_pool_error.splits)
  next
    case True
    then obtain b' v u where u: "relieve sink_of None writer (b, w) = Some ((b', v), u)" using Suc.prems(1) g by (auto split: option.splits)
    show ?thesis
    proof (cases u)
      case (Inl e)
      then show ?thesis using relief [OF u Suc.prems(2)] Suc.prems(1) g True u by auto
    next
      case (Inr x)
      then have "relieved_rounds n (relieve sink_of None writer) loader pid (b', v) = Some ((bp', w'), r)" using Suc.prems(1) g True u by simp
      from Suc.IH [OF this relief [OF u Suc.prems(2)]] show ?thesis .
    qed
  qed
qed

lemma traced_eq: "traced store pid page w = (w', r) \<Longrightarrow> ww_log w' = ww_log w \<and> ww_written w' = ww_written w @ [(pid, page)]"
  by (auto simp: traced_def split: prod.splits)

lemma flush_covers:
  assumes run: "try_flush_dirty (ww_sink w) (traced store) (bp, w) = Some ((bp', w'), r)" and c: "log_covers w"
  shows "log_covers w' \<and> ww_log w' = ww_log w"
proof -
  let ?P = "\<lambda>_ v. log_covers v \<and> ww_log v = ww_log w"
  have call: "?P b v'" if "?P a v" "flushes (ww_sink w) a i pid page" "traced store pid page v = (v', q)" for a b v i pid page v' q
  proof -
    have "ph_lsn h < log_durable (ww_log w) \<or> ph_lsn h = 0 \<and> log_zero_free (ww_log w)" if "page_header_of page = Some h" for h
      using \<open>flushes (ww_sink w) a i pid page\<close> that by (auto simp: flushes_def held_back_def ww_sink_def)
    moreover have cv: "log_covers v" and e: "ww_log v = ww_log w" using that(1) by auto
    ultimately show ?thesis using traced_eq [OF that(3)] cv [unfolded log_covers_def e] by (simp add: e log_covers_def)
  qed
  show ?thesis by (rule try_flush_rule [of _ _ _ _ _ _ _ ?P, OF run]) (use c call in blast)+
qed

lemma pool_step_covers:
  assumes "pool_step ww_disk ww_sink loader (traced store) None ws (bp, w, gs) (bp', w', gs')" "log_covers w"
  shows "log_covers w' \<and> ww_log w' = ww_log w"
  using assms(1)
proof cases
  case (pool_relieved pid r)
  let ?Q = "\<lambda>v. log_covers v \<and> ww_log v = ww_log w"
  have keep: "?Q v'" if "flush_durable ww_sink (traced store) (b, v) = Some ((b', v'), u)" "?Q v" for b v b' v' u
    using that flush_covers [of v store b b' v'] by (auto simp: flush_durable_def split: option.splits sum.splits)
  have run: "relieved_rounds EVICTION_RELIEF_ROUNDS (relieve ww_sink None (traced store)) loader pid (bp, w) = Some ((bp', w'), r)"
    using pool_relieved by (simp add: get_page_relieved_def)
  show ?thesis by (rule relieved_rounds_world [where Q = ?Q, OF keep run]) (use assms(2) in simp_all)
next
  case (pool_flush r)
  then show ?thesis using flush_covers [OF _ assms(2)] by blast
qed (use assms(2) in simp_all)

lemma db_reachable_inv:
  assumes run: "(db_step crc cfg removable running loader store)\<^sup>*\<^sup>* st st'"
    and inv: "ckpt_inv crc limit running fl old base (ww_log (fst (snd st)))" "log_covers (fst (snd st))"
    and lim: "unat (wc_segment_size_bytes cfg) \<le> limit" "MAX_RECORD_BYTES \<le> limit"
    and base: "base = unat (fl_floor_lsn fl) + length (log_image (concat old))" and normal: "\<forall>x \<in> running. xid_is_normal x"
  shows "ckpt_inv crc limit running fl old base (ww_log (fst (snd st'))) \<and> log_covers (fst (snd st'))"
  using run inv
proof (induction rule: rtranclp_induct)
  case (step st st')
  from step(2) step.IH [OF step.prems] show ?case
  proof (induction rule: db_step.induct)
    case (db_pool ws st st')
    then show ?case using pool_step_covers by (metis prod.collapse)
  next
    case (db_log w l bp gs)
    then have inv: "ckpt_inv crc limit running fl old base (ww_log w)" "log_covers w" by simp_all
    have "log_covers (w\<lparr>ww_log := l\<rparr>)"
      using inv(2) less_le_trans [OF _ ckpt_step_durable(1) [OF db_log(1) inv(1)]] ckpt_step_durable(2) [OF db_log(1) inv(1)]
      unfolding log_covers_def by simp blast
    then show ?case using ckpt_step_inv [OF db_log(1) inv(1) lim base normal] by simp
  qed
qed simp

text \<open>
  C6. The log is ahead of the data. The pool's operations, appends and their registration in the sink,
  the writer and checkpoints with their recycling run in any interleaving from an opened log; the system crashes at
  any point. Take any page that was handed to the page writer, also if that write failed or was
  torn, and say its position is where an appended record starts. Unless that is the position zero
  that the sink declared free of records, recovery's log reaches past that record; and if the record
  is of a transaction that still ran, recovery replays it.
\<close>

theorem wal_before_data:
  assumes log: "holds_log crc limit d fl rss tail" "settled d" "rss \<noteq> [] \<or> fl_segment_index fl = 0"
    and rec: "recover crc limit d collect [] = (old, Inr l)"
    and op: "writer_open crc limit d (advance_to_lsn (wal_buffer_new cap 0) l) = Inr s0"
    and run: "(db_step crc cfg removable running loader store)\<^sup>*\<^sup>*
      (bp0, \<lparr>ww_log = (((s0, Idle, []), []), sink_new, []), ww_disk = disk, ww_written = []\<rparr>, []) (bp, w, gs)"
    and final: "ww_log w = (((s, p, appended), ops), sk, pend)"
    and normal: "\<forall>x \<in> running. xid_is_normal x" and crash: "crash_dir (sy_dir s) d'"
    and lim: "unat (wc_segment_size_bytes cfg) \<le> limit" "MAX_RECORD_BYTES \<le> limit"
  shows "\<exists>n \<le> length appended. \<exists>k \<le> length (old @ take n appended).
    recover crc limit d' collect []
      = (drop k (old @ take n appended), Inr (of_nat (unat l + length (log_image (take n appended)))))
    \<and> (\<forall>pid page h j. (pid, page) \<in> set (ww_written w) \<and> page_header_of page = Some h \<and> j < length appended
         \<and> unat (ph_lsn h) = unat l + length (log_image (take j appended)) \<and> \<not> (ph_lsn h = 0 \<and> zero_lsn_has_no_pending_record sk)
         \<longrightarrow> j < n \<and> (xid_of (appended ! j) \<in> running \<longrightarrow> k \<le> length old + j))"
proof -
  note o = opened [OF log rec op]
  have inv: "ckpt_inv crc limit running fl rss (unat l) (((s, p, appended), ops), sk, pend)" and cov: "log_covers w"
    using db_reachable_inv [OF run _ _ lim o(2) normal] open_ckpt_inv [OF o(3)] final by (simp_all add: log_covers_def)
  from ckpt_crash_recovers [OF log(1,3) inv crash o(2)] obtain n k where nk: "n \<le> length appended" "k \<le> length (concat rss @ take n appended)"
    "recover crc limit d' collect [] = (drop k (concat rss @ take n appended), Inr (of_nat (unat l + length (log_image (take n appended)))))"
    "\<forall>j < length appended. unat l + length (log_image (take j appended)) < unat (sy_durable_lsn s) \<longrightarrow> j < n"
    "\<forall>j < length appended. xid_of (appended ! j) \<in> running \<longrightarrow> k \<le> length (concat rss) + j" .
  have "j < n" if "(pid, page) \<in> set (ww_written w)" "page_header_of page = Some h" "j < length appended"
    "unat (ph_lsn h) = unat l + length (log_image (take j appended))" "\<not> (ph_lsn h = 0 \<and> zero_lsn_has_no_pending_record sk)" for pid page h j
  proof -
    have "ph_lsn h < sy_durable_lsn s"
      using cov that(1,2,5) ckpt_pending(2) [OF inv] final
      by (auto simp: log_covers_def log_durable_def log_zero_free_def sink_durable_lsn_def)
    then show ?thesis using nk(4) that(3,4) by (simp add: word_less_nat_alt)
  qed
  then show ?thesis using nk(1,2,3,5) unfolding o(1) by blast
qed

subsection \<open>A concrete run\<close>

text \<open>
  A page is read, changed and given back; a record at position 0 is appended, written and synced; the
  page is flushed.
\<close>

lemma wal_step_grows: "wal_step crc cfg (s, p, log) (s', p', log') \<Longrightarrow> log' = log \<or> length log < length log'"
  by (erule wal_step.cases) auto

lemma writer_run:
  "(wal_step crc cfg)\<^sup>*\<^sup>* st st' \<Longrightarrow> length (snd (snd st)) \<le> length (snd (snd st')) \<and>
     (snd (snd st') = snd (snd st) \<longrightarrow> (ckpt_step crc cfg removable running)\<^sup>*\<^sup>* ((st, ops), sk, pend) ((st', ops), sk, pend))"
proof (induction rule: rtranclp_induct)
  case (step y z)
  obtain s p log s' p' log' where yz: "y = (s, p, log)" "z = (s', p', log')" by (metis prod.collapse)
  from step.hyps(2) have g: "log' = log \<or> length log < length log'" unfolding yz by (rule wal_step_grows)
  show ?case
  proof (cases "log' = log")
    case True
    then have "ckpt_step crc cfg removable running ((y, ops), sk, pend) ((z, ops), sk, pend)" using ck_writer step.hyps(2) yz by simp
    then show ?thesis using step.IH True yz by auto
  next
    case False
    then show ?thesis using step.IH g yz by auto
  qed
qed simp

definition db_loader :: "wal_world \<Rightarrow> page_id \<Rightarrow> unit flush_error + bytes" where "db_loader w = demo_loader (ww_disk w, 0)"
definition db_store :: "unit disk_writer" where "db_store pid page d = (d(pid := page), Inr ())"
definition db_world :: wal_world where
  "db_world = \<lparr>ww_log = (((demo_open, Idle, []), []), sink_new, []), ww_disk = fst demo_world, ww_written = []\<rparr>"

abbreviation db_demo :: "wal_world pool_state \<Rightarrow> wal_world pool_state \<Rightarrow> bool" where
  "db_demo \<equiv> db_step sum_crc demo_cfg (\<lambda>_. True) {7} db_loader db_store"

lemma db_demo_pool: "db_demo\<^sup>*\<^sup>* (demo_new, db_world, []) (guard_drop 0 (demo_dirty 0), db_world, [])"
proof -
  let ?step = "pool_step ww_disk ww_sink db_loader (traced db_store) None" and ?gs = "[(0, demo_pid 0)]"
  have "get_page (db_loader db_world) (demo_pid 0) demo_new = (demo_got, Inr 0)"
    using demo_pool_get by (simp add: db_loader_def db_world_def demo_world_def)
  then have "?step [] (demo_new, db_world, []) (demo_got, db_world, guards_after (demo_pid 0) (Inr 0 :: unit flush_error buffer_pool_error + nat) [])"
    by (rule pool_get)
  then have "db_demo (demo_new, db_world, []) (demo_got, db_world, ?gs)" by (intro db_pool) simp
  moreover have "?step [(demo_pid 0, \<lambda>_. demo_page 0)] (demo_got, db_world, ?gs) (demo_dirty 0, db_world, ?gs)"
    by (rule pool_write [OF _ demo_pool_write]) simp
  then have "db_demo (demo_got, db_world, ?gs) (demo_dirty 0, db_world, ?gs)" by (rule db_pool)
  moreover have "?step [] (demo_dirty 0, db_world, ?gs) (guard_drop 0 (demo_dirty 0), db_world, remove1 (0, demo_pid 0) ?gs)"
    by (rule pool_drop) simp
  then have "db_demo (demo_dirty 0, db_world, ?gs) (guard_drop 0 (demo_dirty 0), db_world, [])" by (intro db_pool) simp
  ultimately show ?thesis by (meson converse_rtranclp_into_rtranclp rtranclp.rtrancl_refl)
qed

lemma db_log_run:
  assumes "(ckpt_step sum_crc demo_cfg (\<lambda>_. True) {7})\<^sup>*\<^sup>* (ww_log w) l"
  shows "db_demo\<^sup>*\<^sup>* (bp, w, gs) (bp, w\<lparr>ww_log := l\<rparr>, gs)"
  using assms
proof (induction rule: rtranclp_induct)
  case (step y z)
  from db_log [of sum_crc demo_cfg "\<lambda>_. True" "{7}" "w\<lparr>ww_log := y\<rparr>" z db_loader db_store bp gs] step show ?case by simp
qed simp

lemma db_demo_log:
  obtains s sk where "(ckpt_step sum_crc demo_cfg (\<lambda>_. True) {7})\<^sup>*\<^sup>* (ww_log db_world) (((s, Idle, [demo_insert]), []), sk, [])"
    "wb_durable_lsn (sy_buffer s) = 31" "sy_dir s = [(segment_path 0, \<lparr>df_content = record_bytes demo_insert, df_synced = 31\<rparr>)]"
    "\<not> zero_lsn_has_no_pending_record sk"
proof -
  have o: "sy_buffer demo_open = set_drainer (advance_to_lsn (wal_buffer_new 1000 0) 0)" "sy_dir demo_open = []" by (simp_all add: demo_open_def)
  let ?sk = "sink_accept 7 HeapInsert 31 0 sink_new"
  obtain b where b: "sink_append_ref sink_new (sy_buffer demo_open) demo_insert = SinkDone ?sk b (Inr 0)" "wb_next_lsn b = 0 + 31"
    "wb_bytes b = record_bytes demo_insert" by (rule demo_sink_appended [OF o(1)]) simp
  let ?s = "demo_open\<lparr>sy_buffer := b\<rparr>"
  have one: "(ckpt_step sum_crc demo_cfg (\<lambda>_. True) {7})\<^sup>*\<^sup>* (ww_log db_world) (((?s, Idle, [demo_insert]), []), ?sk, [])"
    using sink_append_run [OF demo_facts(1) b(1), of demo_cfg "\<lambda>_. True" "{7}" Idle "[]" "[]" "[]"] by (simp add: db_world_def)
  obtain s where s: "(wal_step sum_crc demo_cfg)\<^sup>*\<^sup>* (?s, Idle, [demo_insert]) (s, Idle, [demo_insert])"
    "sy_durable_lsn s = 31" "wb_durable_lsn (sy_buffer s) = 31" "sy_dir s = [(segment_path 0, \<lparr>df_content = record_bytes demo_insert, df_synced = 31\<rparr>)]"
    by (rule demo_flushed [of ?s]) (use b o in simp_all)
  have "(ckpt_step sum_crc demo_cfg (\<lambda>_. True) {7})\<^sup>*\<^sup>* (((?s, Idle, [demo_insert]), []), ?sk, []) (((s, Idle, [demo_insert]), []), ?sk, [])"
    using writer_run [OF s(1)] by simp
  from one this have run: "(ckpt_step sum_crc demo_cfg (\<lambda>_. True) {7})\<^sup>*\<^sup>* (ww_log db_world) (((s, Idle, [demo_insert]), []), ?sk, [])"
    by (rule rtranclp_trans)
  show ?thesis by (rule that [OF run s(3,4)]) (simp add: zero_lsn_has_no_pending_record_def sink_new_def)
qed

theorem wal_before_data_witness:
  "\<exists>bp w s sk. db_demo\<^sup>*\<^sup>* (demo_new, db_world, []) (bp, w, []) \<and> ww_log w = (((s, Idle, [demo_insert]), []), sk, [])
    \<and> ww_written w = [(demo_pid 0, demo_page 0)] \<and> crash_dir (sy_dir s) (sy_dir s)
    \<and> recover sum_crc (2 ^ 27) (sy_dir s) collect [] = ([demo_insert], Inr 31)"
proof -
  obtain s sk where l: "(ckpt_step sum_crc demo_cfg (\<lambda>_. True) {7})\<^sup>*\<^sup>* (ww_log db_world) (((s, Idle, [demo_insert]), []), sk, [])"
    "wb_durable_lsn (sy_buffer s) = 31" "sy_dir s = [(segment_path 0, \<lparr>df_content = record_bytes demo_insert, df_synced = 31\<rparr>)]"
    "\<not> zero_lsn_has_no_pending_record sk" by (rule db_demo_log)
  let ?w = "db_world\<lparr>ww_log := (((s, Idle, [demo_insert]), []), sk, [])\<rparr>" and ?b = "guard_drop 0 (demo_dirty 0)"
  obtain b w r where f: "try_flush_dirty (ww_sink ?w) (traced db_store) (?b, ?w) = Some ((b, w), r)" "ww_written w = [(demo_pid 0, demo_page 0)]"
    "ww_log w = ww_log ?w"
    using l(2,4) by (simp add: try_flush_dirty_def demo_dropped demo_page_header held_back_def ww_sink_def log_durable_def log_zero_free_def
        sink_durable_lsn_def traced_def db_store_def db_world_def)
  have "db_demo (?b, ?w, []) (b, w, [])" by (rule db_pool, rule pool_flush) (rule f(1))
  with db_demo_pool db_log_run [OF l(1), of ?b "[]"] have run: "db_demo\<^sup>*\<^sup>* (demo_new, db_world, []) (b, w, [])" by simp
  have crash: "crash_dir (sy_dir s) (sy_dir s)" by (auto simp: l(3) crash_dir_def crash_file_def intro: exI [of _ 31])
  have lim: "unat (wc_segment_size_bytes demo_cfg) \<le> 2 ^ 27" "MAX_RECORD_BYTES \<le> 2 ^ 27" by (simp_all add: demo_cfg_def)
  have log: "ww_log w = (((s, Idle, [demo_insert]), []), sk, [])" using f(3) by simp
  have normal: "\<forall>x \<in> {7}. xid_is_normal x" by (simp add: xid_is_normal_def Xid_FIRST_USER_def)
  have x: "xid_of demo_insert = 7" by (simp add: demo_insert_def demo_record)
  from wal_before_data [OF demo_empty_log(1,2) disjI2 [OF demo_empty_log(3)] demo_recovers demo_opens run [unfolded db_world_def] log normal crash lim]
  obtain n k where n: "n \<le> 1" "k \<le> length ([] @ take n [demo_insert])"
    "recover sum_crc (2 ^ 27) (sy_dir s) collect [] = (drop k ([] @ take n [demo_insert]), Inr (of_nat (unat (0 :: lsn) + length (log_image (take n [demo_insert])))))"
    "\<forall>pid page h j. (pid, page) \<in> set (ww_written w) \<and> page_header_of page = Some h \<and> j < length [demo_insert]
       \<and> unat (ph_lsn h) = unat (0 :: lsn) + length (log_image (take j [demo_insert])) \<and> \<not> (ph_lsn h = 0 \<and> zero_lsn_has_no_pending_record sk)
       \<longrightarrow> j < n \<and> (xid_of ([demo_insert] ! j) \<in> {7} \<longrightarrow> k \<le> length [] + j)" by auto
  have "0 < n \<and> k \<le> 0" using n(4) [rule_format, of "demo_pid 0" "demo_page 0" "fresh_heap\<lparr>ph_lsn := 0\<rparr>" 0] f(2) l(4) x by (simp add: demo_page_header)
  then have "n = 1" "k = 0" using n(1) by auto
  then have "recover sum_crc (2 ^ 27) (sy_dir s) collect [] = ([demo_insert], Inr 31)" using n(3) by simp
  with run log f(2) crash show ?thesis by blast
qed

section \<open>The redo point\<close>

lemma scan_lsns_least:
  "scan_lsns wanted counts fs old = Some r \<Longrightarrow>
     (\<forall>m. old = Some m \<longrightarrow> (\<exists>m'. r = Some m' \<and> m' \<le> m)) \<and> (\<forall>f \<in> set fs. \<forall>l. counted wanted counts f l \<longrightarrow> (\<exists>m. r = Some m \<and> m \<le> l))"
proof (induction fs arbitrary: old)
  case (Cons f fs)
  show ?case
  proof (cases "\<exists>l. counted wanted counts f l")
    case False
    then have "scan_lsns wanted counts fs old = Some r" using Cons.prems by (auto simp: counted_def split: option.splits if_splits)
    then show ?thesis using Cons.IH [of old] False by auto
  next
    case True
    then obtain l where l: "counted wanted counts f l" by blast
    then have "scan_lsns wanted counts fs (min_lsn old l) = Some r" using Cons.prems by (auto simp: counted_def)
    from Cons.IH [OF this] obtain m' where m': "r = Some m'" "m' \<le> the (min_lsn old l)"
      and rest: "\<forall>f \<in> set fs. \<forall>l. counted wanted counts f l \<longrightarrow> (\<exists>m. r = Some m \<and> m \<le> l)" by (auto simp: min_lsn_def)
    have "the (min_lsn old l) \<le> l" "old = Some m \<Longrightarrow> the (min_lsn old l) \<le> m" for m by (auto simp: min_lsn_def split: option.split)
    then have "m' \<le> l" "old = Some m \<Longrightarrow> m' \<le> m" for m using m'(2) by (auto intro: order_trans)
    moreover have "l' = l" if "counted wanted counts f l'" for l' using that l by (auto simp: counted_def)
    ultimately show ?thesis using rest m'(1) by auto
  qed
qed simp

lemma redo_below_dirty:
  assumes "checkpoint_redo_from bp barrier = Some rp" "f \<in> set (bp_frames bp)" "counted fr_dirty (\<lambda>_. True) f l"
  shows "rp \<le> l"
proof -
  obtain r where r: "scan_lsns fr_dirty (\<lambda>_. True) (bp_frames bp) None = Some r"
    and rp: "rp = (case r of Some m \<Rightarrow> if m < barrier then m else barrier | None \<Rightarrow> barrier)"
    using assms(1) by (auto simp: checkpoint_redo_from_def oldest_dirty_lsn_def)
  obtain m where "r = Some m" "m \<le> l" using scan_lsns_least [OF r] assms(2,3) by blast
  then show ?thesis using rp by (auto split: if_splits)
qed

text \<open>
  C34. What the redo point of a checkpoint guarantees: every page whose own position lies below it is on
  disk in its current state.
\<close>

theorem redo_point_covers_clean:
  assumes new: "pool_new cap = Some bp0" and run: "pool_run disk_of sink_of loader writer force ws (bp0, w0, []) (bp, w, gs)"
    and h: "honest_writer disk_of writer" "keeps_disk disk_of force" "\<And>w. honest_loader (loader w) (disk_of w)"
    and redo_from: "checkpoint_redo_from bp barrier = Some rp"
    and page: "page_header_of (apply_writes ws (disk_of w0) pid) = Some head" "ph_lsn head < rp"
  shows "disk_of w pid = apply_writes ws (disk_of w0) pid"
proof -
  have c: "coherent bp (disk_of w) gs" and v: "pool_view bp (disk_of w) = apply_writes ws (disk_of w0)"
    using pool_run_coherent [OF run refl new h] by auto
  note ok = coherentD(1) [OF c]
  show ?thesis
  proof (cases "map_of (bp_page_table bp) pid")
    case None
    then show ?thesis unfolding v [symmetric] by (simp add: pool_view_def)
  next
    case (Some i)
    have i: "i < length (bp_frames bp)" "fr_page_id (bp_frames bp ! i) = Some pid" using pool_okD(2) [OF ok Some] by auto
    have p: "fr_page (bp_frames bp ! i) = Some (apply_writes ws (disk_of w0) pid)" using resident_view [OF ok i, of "disk_of w"] v by simp
    have "\<not> fr_dirty (bp_frames bp ! i)"
    proof
      assume "fr_dirty (bp_frames bp ! i)"
      then have "counted fr_dirty (\<lambda>_. True) (bp_frames bp ! i) (ph_lsn head)" using i p page(1) by (simp add: counted_def)
      from redo_below_dirty [OF redo_from nth_mem [OF i(1)] this] page(2) show False by simp
    qed
    then show ?thesis using coherentD(2) [OF c i] p by simp
  qed
qed

lemma demo_rewrite: "guard_write 0 (\<lambda>_. demo_page l) (demo_dirty k) = Some (demo_dirty l)"
  by (simp add: demo_dirty_def demo_got_def demo_new_def pool_new_def get_page_def miss_page_def pool_lookup_def acquire_frame_for_def
    frame_empty_def demo_loader_def record_relation_read_def upd_counters_def guard_write_def install_page_def Let_def upd_frame_def clear_dirty_def
    set_dirty_def)

text \<open>
  The redo point can lie beyond a change that is not on disk. A page is changed at position 5 and,
  before it is flushed, again at position 50; the log is durable up to 30, so the flush of a
  checkpoint with its barrier at 20 holds the page back. The redo point is the barrier, as the only
  position the dirty page shows is the later one, and the disk has neither change.
\<close>

lemma redo_point_skips_change:
  "\<exists>bp. pool_run fst (\<lambda>_. Some (30, True)) demo_loader demo_writer None
      [(demo_pid 0, \<lambda>_. demo_page 5), (demo_pid 0, \<lambda>_. demo_page 50)] (demo_new, demo_world, []) (bp, demo_world, [])
    \<and> try_flush_dirty (Some (30, True)) demo_writer (bp, demo_world) = Some ((bp, demo_world), Inr 0)
    \<and> checkpoint_redo_from bp 20 = Some 20 \<and> fst demo_world (demo_pid 0) = demo_page 0"
proof (intro exI conjI)
  let ?run = "pool_run fst (\<lambda>_. Some (30, True)) demo_loader demo_writer None"
  let ?a = "(demo_new, demo_world, [])" and ?gs = "[(0, demo_pid 0)]" and ?b = "guard_drop 0 (demo_dirty 50)"
  let ?w = "\<lambda>l. (demo_pid 0, \<lambda>_. demo_page l)"
  have "pool_step fst (\<lambda>_. Some (30, True)) demo_loader demo_writer None [] ?a
      (demo_got, demo_world, guards_after (demo_pid 0) (Inr 0 :: unit flush_error buffer_pool_error + nat) [])"
    by (rule pool_get) (rule demo_pool_get)
  then have got: "?run [] ?a (demo_got, demo_world, ?gs)" using run_more [OF run_none] by fastforce
  have one: "?run ([] @ [?w 5]) ?a (demo_dirty 5, demo_world, ?gs)" by (rule run_more [OF got pool_write [OF _ demo_pool_write]]) simp
  have two: "?run (([] @ [?w 5]) @ [?w 50]) ?a (demo_dirty 50, demo_world, ?gs)" by (rule run_more [OF one pool_write [OF _ demo_rewrite]]) simp
  have "?run ((([] @ [?w 5]) @ [?w 50]) @ []) ?a (?b, demo_world, remove1 (0, demo_pid 0) ?gs)" by (rule run_more [OF two pool_drop]) simp
  then show "?run [?w 5, ?w 50] ?a (?b, demo_world, [])" by simp
  show "try_flush_dirty (Some (30, True)) demo_writer (?b, demo_world) = Some ((?b, demo_world), Inr 0)"
    by (simp add: try_flush_dirty_def demo_dropped held_back_def demo_page_header)
  show "checkpoint_redo_from ?b 20 = Some 20" by (simp add: checkpoint_redo_from_def oldest_dirty_lsn_def demo_dropped demo_page_header min_lsn_def)
  show "fst demo_world (demo_pid 0) = demo_page 0" by (simp add: demo_world_def)
qed

theorem redo_point_covers_clean_witness:
  "checkpoint_redo_from (guard_drop 0 (demo_dirty 5)) 20 = Some 5
    \<and> fst demo_world (demo_pid 1) = apply_writes [(demo_pid 0, \<lambda>_. demo_page 5)] (fst demo_world) (demo_pid 1)"
proof -
  have r: "checkpoint_redo_from (guard_drop 0 (demo_dirty 5)) 20 = Some 5"
    by (simp add: checkpoint_redo_from_def oldest_dirty_lsn_def demo_dropped demo_page_header min_lsn_def)
  have "page_header_of (apply_writes [(demo_pid 0, \<lambda>_. demo_page 5)] (fst demo_world) (demo_pid 1)) = Some (fresh_heap\<lparr>ph_lsn := 0\<rparr>)"
    by (simp add: apply_writes_def demo_pid_def demo_world_def demo_page_header)
  from redo_point_covers_clean [OF demo_pool_new demo_pool_run(2) demo_env(1-3) r this] r show ?thesis by simp
qed

end
