(* ===== verification/Spec2Isabelle.thy ===== *)
theory Spec2Isabelle
  imports Txn_Session Txn_Lifecycle Txn_Recovery Txn_Race Lock_Race Page_Spec Wal_Before_Data
begin

text \<open>
  UltraSQL: the transactional core.

  \<^bold>\<open>The program.\<close> UltraSQL is a relational database server in Rust. This development is about the part
  that makes it transactional: the transaction manager with its snapshots, savepoints, locks and
  serializability check, the slotted pages and the buffer pool, and the write-ahead log with its
  recovery, truncation and checkpoints. A session begins a transaction with the manager, which hands
  out an identifier and a snapshot; its statements stamp rows with that identifier and decide by the
  snapshot which rows they see; it takes locks and reports reads and writes to the conflict tracker; it
  appends a record to the log for every change to a page; at the end the manager flips the commit log.
  Pages live in the buffer pool, which writes a page out only when the log is durable beyond the page's
  position. A checkpoint flushes, computes a redo point and recycles the log below a floor. After a
  crash, recovery replays what is left of the log. File names below are under \<^verbatim>\<open>src/crates\<close>.

  \<^bold>\<open>How code is modelled.\<close> Machine integers are words of their width, byte buffers are lists of bytes,
  structs are records, enums are datatypes, hash maps are association lists with distinct keys (their
  iteration order is an argument where it matters). A \<^verbatim>\<open>Result\<close> is a sum with the error on the left; a
  panic is \<open>None\<close>. Code with a lock or an atomic is a function on the state, and the theories say which
  pieces of a method are one step. Hash and checksum functions (xxh3, crc32c), page loaders, page
  writers, the appliers of recovery and the clocks are parameters, and what is assumed of them is a
  named hypothesis (\<open>honest_loader\<close>, \<open>honest_writer\<close>, \<open>keeps_disk\<close>).

  \<^bold>\<open>Foundations.\<close>
  \<^item> \<open>Prelude\<close>: word types, fallible computations, the parts of Rust's standard library in use, the
    little-endian codec. \<open>Core_Ids\<close>: \<^verbatim>\<open>ultrasql-core/src/id.rs\<close> and \<^verbatim>\<open>endian.rs\<close>.

  \<^bold>\<open>Visibility\<close> (\<^verbatim>\<open>ultrasql-mvcc\<close>).
  \<^item> \<open>Mvcc_Snapshot\<close> (\<^verbatim>\<open>snapshot.rs\<close>), \<open>Tuple_Header\<close> (\<^verbatim>\<open>tuple_header.rs\<close>, with the round trip of the
    40-byte codec) and \<open>Visibility\<close> (\<^verbatim>\<open>visibility.rs\<close>, \<^verbatim>\<open>status.rs\<close>). \<open>is_visible\<close> is shown to implement the
    reading rule \<open>row_view\<close>; what a rolled-back savepoint and a delete do to a row is exact. The locale
    \<open>status_service\<close> is the contract between a snapshot and the moving commit log.

  \<^bold>\<open>Transactions\<close> (\<^verbatim>\<open>ultrasql-txn\<close>).
  \<^item> \<open>Savepoint\<close> (\<^verbatim>\<open>savepoint.rs\<close>), \<open>Savepoint_Spec\<close>: the identifier stack implements a log of writes that
    savepoints truncate, over the locale \<open>xid_source\<close> of the allocator.
  \<^item> \<open>Lock_Table\<close> (\<^verbatim>\<open>lock.rs\<close>, \<^verbatim>\<open>row_lock.rs\<close>), \<open>Lock_Safety\<close>: conflicting modes are never held together,
    along every run of \<open>lock_step\<close>; the locale \<open>lock_service\<close> is what the manager relies on. In these
    runs an acquire is one step; \<open>Lock_Race\<close> splits it where the source does and shows that a
    concurrent release can then let two transactions hold one exclusive lock. \<open>Deadlock\<close>: the detector's
    search always returns and reports a victim if and only if there is a cycle; which cycles it may
    leave for a later round is shown as well.
  \<^item> \<open>Ssi\<close> (\<^verbatim>\<open>ssi.rs\<close>): a pivot with a committed leg never passes its commit check, write conflicts are
    exactly those with covering predicate locks, coverage is overlap of the rows denoted.
  \<^item> \<open>Txn_Manager\<close> (\<^verbatim>\<open>manager.rs\<close>): one definition per method. \<open>Txn_Invariant\<close>: the invariant \<open>tm_inv\<close> and
    what each method keeps. \<open>Txn_Properties\<close>: runs, repeatable reads, commits visible as a whole.
    \<open>Txn_Lifecycle\<close>: decisions are final, commits succeed or abort as a whole, rollback to a savepoint.
    \<open>Txn_Session\<close>: savepoints truncate, for a session among others. \<open>Txn_Vacuum\<close>: the vacuum horizon and
    the garbage collection of conflict entries. \<open>Txn_Recovery\<close>: export and import of the commit log
    across a restart. \<open>Txn_Race\<close>: \<^verbatim>\<open>begin\<close> and \<^verbatim>\<open>build_snapshot\<close> at the grain of their atomic sections,
    where reads need not repeat and the horizon may pass a visible row.

  \<^bold>\<open>Which runs of the manager.\<close> The relation \<open>mgr_step F\<close> lets any handle, also a stale one, drive any
  method at any time, as one step per method. The identifier counter is never exhausted. The
  resolution of a prepared transaction sets every identifier of the family it is given, also one that
  has ended; \<open>F\<close> collects the identifiers this happens to, and the properties except them by name.
  With \<open>F\<close> empty, which is \<open>tm_step\<close>, the families are running when they are resolved. The server
  provides that, since it restores a prepared transaction with its family as running
  (\<^verbatim>\<open>server_wal_recovery.rs\<close>, 531 to 541).

  \<^bold>\<open>Pages\<close> (\<^verbatim>\<open>ultrasql-storage/src/page.rs\<close>, \<^verbatim>\<open>checksum.rs\<close>).
  \<^item> \<open>Page\<close>: the 8 KiB page at byte level. \<open>Page_Layout\<close>, \<open>Page_Insert\<close>, \<open>Page_Compact\<close>: the invariant
    \<open>page_inv\<close> and the view of a page as its list of slots. \<open>Page_Spec\<close>: every operation implements the
    operation on that list and never panics, tuples stay at their slots (locale \<open>tuple_store\<close>), redo of
    inserts does not depend on their order, validation and the header codec are exact.

  \<^bold>\<open>The buffer pool\<close> (\<^verbatim>\<open>ultrasql-storage/src/buffer_pool.rs\<close>, \<^verbatim>\<open>checkpointer.rs\<close>, relief in
  \<^verbatim>\<open>ultrasql-server/src/server_lifecycle.rs\<close>).
  \<^item> \<open>Buffer_Pool\<close>, \<open>Buffer_Pool_Spec\<close>, \<open>Buffer_Pool_Run\<close>, \<open>Buffer_Pool_Properties\<close>: runs with failing loads
    and torn writes act on the pages as the guarded writes alone; when a get runs out of frames, how far
    the clock hand turns, and that relief brings a frame back. Each operation is one step: the latches
    are not modelled.

  \<^bold>\<open>The log\<close> (\<^verbatim>\<open>ultrasql-wal\<close>).
  \<^item> \<open>Wal_Record\<close> (\<^verbatim>\<open>record.rs\<close>), \<open>Wal_Payload\<close> (\<^verbatim>\<open>payload\<close>; locale \<open>payload_codec\<close>, interpreted for six
    payloads), \<open>Wal_Segment\<close> (\<^verbatim>\<open>segment.rs\<close>, \<^verbatim>\<open>manifest.rs\<close>), \<open>Wal_Recovery\<close> (\<^verbatim>\<open>recovery.rs\<close>), \<open>Wal_Buffer\<close>
    (\<^verbatim>\<open>buffer.rs\<close>), \<open>Wal_Writer\<close> (\<^verbatim>\<open>writer.rs\<close>), \<open>Wal_Truncate\<close> (\<^verbatim>\<open>truncate.rs\<close>), \<open>Wal_Reader\<close> (\<^verbatim>\<open>reader.rs\<close>).
  \<^item> \<open>Wal_Durability\<close> and \<open>Wal_Recycle\<close> run appenders, the writer and truncations beside each other, down
    to single file operations, with a crash at any point. \<open>Wal_Properties\<close> holds what follows: exact
    codecs, recovery as a plan over the records, durability, truncation, repair, point-in-time
    recovery, the range reader.
  \<^item> \<open>Wal_Sink\<close> (\<^verbatim>\<open>ultrasql-server/src/wal_sink.rs\<close>, \<^verbatim>\<open>server_lifecycle.rs\<close>), \<open>Wal_Checkpoint\<close>: appends and
    their later registration in the sink, and recycling that keeps what running transactions appended
    since the log was opened. \<open>Wal_Before_Data\<close>: the pool above the log; no page is written ahead of
    the log; what the redo point of a checkpoint covers and what it can miss.

  \<^bold>\<open>The crash.\<close> A crash leaves every file with a prefix of its contents that includes what was synced.
  File creation, renaming and removal take effect in order and survive, as the source makes them by
  syncing the directory.

  \<^bold>\<open>Bounds and fuel.\<close> The depth-first search of the deadlock detector carries fuel, and one more than the
  number of edges is shown to be enough. The clock sweep has the source's own bound of four times
  the number of frames, and eviction relief its constant number of rounds. All other loops are structural or have a termination proof. A pool has less than \<open>2 ^ 62\<close>
  frames where the hand's wrap-around matters.

  \<^bold>\<open>Where the code falls short.\<close> Lemmas that show a gap on a concrete run: \<open>prune_race_two_holders\<close>,
  \<open>snapshot_race_not_repeatable\<close>, \<open>floor_race_vacuums_visible_row\<close>, \<open>write_then_read_both_commit\<close>,
  \<open>column_range_misses_tuple\<close>, \<open>gc_forgets_concurrent\<close>, \<open>forced_family_not_repeatable\<close>,
  \<open>cycle_without_victim\<close>, \<open>fastpath_share_invisible\<close>, \<open>redo_point_skips_change\<close>,
  \<open>unregistered_not_held\<close>, \<open>recovered_not_held\<close>.

  \<^bold>\<open>Not modelled.\<close> Heap and index access methods, the free-space and visibility maps, TOAST, sequences and
  the appliers of log records, which are built on the interfaces above; the two-phase coordinator's
  state files and \<^verbatim>\<open>prepare_transaction\<close>, which calls it; the remaining log payloads, log forks and the
  replication receiver; the values and types of the query layer; parser, planner, optimizer, executor,
  catalog, protocol, server sessions and client programs; import, export and object storage; tests and
  benchmarks. Threads, condition variables, timers and statistics appear only as the steps they cause.
\<close>

end
